(* ===== verification/Ermya_Prelude.thy ===== *)
theory Ermya_Prelude
  imports Main "HOL-Library.Word"
begin

text \<open>
  Shared vocabulary of the development: bytes and machine integers, the result type of
  fallible Rust functions with its sequencing operator, fixed-width big- and little-endian
  integer encodings, and UTF-8 validity of byte strings (the predicate behind Rust's
  \<^verbatim>\<open>str::from_utf8\<close>).
\<close>

section \<open>Types\<close>

type_synonym byte = "8 word"
type_synonym bytes = "byte list"
type_synonym u16 = "16 word"
type_synonym u32 = "32 word"
type_synonym u64 = "64 word"

named_theorems codec_simps \<open>equations that evaluate an encoder or a decoder\<close>
named_theorems keeps_intros \<open>rules for what a method leaves unchanged\<close>

section \<open>Results\<close>

text \<open>
  A Rust \<^verbatim>\<open>Result<T, E>\<close> is a sum: \<open>Inl e\<close> is \<^verbatim>\<open>Err(e)\<close>, \<open>Inr x\<close> is
  \<^verbatim>\<open>Ok(x)\<close>. \<open>rbind\<close> is the \<^verbatim>\<open>?\<close> operator: the first error stops the
  computation.
\<close>

definition rbind :: "'e + 'a \<Rightarrow> ('a \<Rightarrow> 'e + 'b) \<Rightarrow> 'e + 'b" where
  "rbind m f = (case m of Inl e \<Rightarrow> Inl e | Inr x \<Rightarrow> f x)"

definition ok_or :: "'e \<Rightarrow> 'a option \<Rightarrow> 'e + 'a" where
  "ok_or e x = (case x of None \<Rightarrow> Inl e | Some a \<Rightarrow> Inr a)"

text \<open>A \<^verbatim>\<open>for\<close> loop over a collection whose body may return early with an error.\<close>

fun rfold :: "('a \<Rightarrow> 's \<Rightarrow> 'e + 's) \<Rightarrow> 'a list \<Rightarrow> 's \<Rightarrow> 'e + 's" where
  "rfold f [] s = Inr s"
| "rfold f (x # xs) s = rbind (f x s) (rfold f xs)"

text \<open>
  A \<^verbatim>\<open>&mut self\<close> method that may fail returns its result together with the state it
  leaves behind: what was changed before an early return stays changed. \<open>sbind\<close> is the
  \<^verbatim>\<open>?\<close> operator for such methods.
\<close>

type_synonym ('s, 'e, 'a) step = "'s \<Rightarrow> ('e + 'a) \<times> 's"

definition sbind :: "('s, 'e, 'a) step \<Rightarrow> ('a \<Rightarrow> ('s, 'e, 'b) step) \<Rightarrow> ('s, 'e, 'b) step" where
  "sbind m f s = (case m s of (Inl e, s') \<Rightarrow> (Inl e, s') | (Inr x, s') \<Rightarrow> f x s')"

definition sret :: "'a \<Rightarrow> ('s, 'e, 'a) step" where
  "sret x s = (Inr x, s)"

definition sfail :: "'e \<Rightarrow> ('s, 'e, 'a) step" where
  "sfail e s = (Inl e, s)"

definition smodify :: "('s \<Rightarrow> 's) \<Rightarrow> ('s, 'e, unit) step" where
  "smodify f s = (Inr (), f s)"

text \<open>Lifts a fallible read of the state (a \<^verbatim>\<open>&self\<close> method).\<close>

definition sread :: "('s \<Rightarrow> 'e + 'a) \<Rightarrow> ('s, 'e, 'a) step" where
  "sread f s = (f s, s)"

fun siter :: "('a \<Rightarrow> ('s, 'e, unit) step) \<Rightarrow> 'a list \<Rightarrow> ('s, 'e, unit) step" where
  "siter f [] = sret ()"
| "siter f (x # xs) = sbind (f x) (\<lambda>_. siter f xs)"

section \<open>Fixed-width integers as bytes\<close>

text \<open>
  \<open>le_bytes k n\<close> is the \<open>k\<close>-byte little-endian encoding of \<open>n\<close> (what
  \<^verbatim>\<open>to_le_bytes\<close> writes for a \<open>k\<close>-byte integer), \<open>le_nat\<close> reads it back;
  \<open>be_bytes\<close> and \<open>be_nat\<close> are the big-endian pair.
\<close>

primrec le_bytes :: "nat \<Rightarrow> nat \<Rightarrow> bytes" where
  "le_bytes 0 n = []"
| "le_bytes (Suc k) n = word_of_nat n # le_bytes k (n div 256)"

primrec le_nat :: "bytes \<Rightarrow> nat" where
  "le_nat [] = 0"
| "le_nat (b # bs) = unat b + 256 * le_nat bs"

definition be_bytes :: "nat \<Rightarrow> nat \<Rightarrow> bytes" where
  "be_bytes k n = rev (le_bytes k n)"

definition be_nat :: "bytes \<Rightarrow> nat" where
  "be_nat bs = le_nat (rev bs)"

text \<open>A subslice \<^verbatim>\<open>&buf[offset..offset + len]\<close>.\<close>

definition subslice :: "nat \<Rightarrow> nat \<Rightarrow> 'a list \<Rightarrow> 'a list" where
  "subslice off len xs = take len (drop off xs)"

text \<open>\<^verbatim>\<open>buf[off..off + bs.len()].copy_from_slice(bs)\<close>, for a range inside the buffer.\<close>

definition splice :: "nat \<Rightarrow> 'a list \<Rightarrow> 'a list \<Rightarrow> 'a list" where
  "splice off bs buf = take off buf @ bs @ drop (off + length bs) buf"

definition le16 :: "u16 \<Rightarrow> bytes" where "le16 w = le_bytes 2 (unat w)"
definition le32 :: "u32 \<Rightarrow> bytes" where "le32 w = le_bytes 4 (unat w)"
definition le64 :: "u64 \<Rightarrow> bytes" where "le64 w = le_bytes 8 (unat w)"

section \<open>UTF-8\<close>

text \<open>
  Which byte strings Rust's \<^verbatim>\<open>str::from_utf8\<close> accepts: the well-formed UTF-8 of the
  Unicode standard, table 3-7 (no overlong forms, no surrogates, nothing above
  \<^verbatim>\<open>U+10FFFF\<close>). A Rust \<^verbatim>\<open>String\<close> is such a byte string.
\<close>

definition in_range :: "nat \<Rightarrow> nat \<Rightarrow> byte \<Rightarrow> bool" where
  "in_range lo hi b \<longleftrightarrow> lo \<le> unat b \<and> unat b \<le> hi"

fun utf8_valid :: "bytes \<Rightarrow> bool" where
  "utf8_valid [] = True"
| "utf8_valid (a # xs) =
     (if unat a < 0x80 then utf8_valid xs
      else (case xs of
        [] \<Rightarrow> False
      | b # ys \<Rightarrow>
          if in_range 0xC2 0xDF a then in_range 0x80 0xBF b \<and> utf8_valid ys
          else (case ys of
            [] \<Rightarrow> False
          | c # zs \<Rightarrow>
              if unat a = 0xE0 then in_range 0xA0 0xBF b \<and> in_range 0x80 0xBF c \<and> utf8_valid zs
              else if unat a = 0xED then in_range 0x80 0x9F b \<and> in_range 0x80 0xBF c \<and> utf8_valid zs
              else if in_range 0xE1 0xEF a then in_range 0x80 0xBF b \<and> in_range 0x80 0xBF c \<and> utf8_valid zs
              else (case zs of
                [] \<Rightarrow> False
              | d # ws \<Rightarrow>
                  in_range 0x80 0xBF c \<and> in_range 0x80 0xBF d \<and>
                  (if unat a = 0xF0 then in_range 0x90 0xBF b
                   else if unat a = 0xF4 then in_range 0x80 0x8F b
                   else in_range 0xF1 0xF3 a \<and> in_range 0x80 0xBF b) \<and> utf8_valid ws))))"

text \<open>A Rust string literal as its UTF-8 bytes (ASCII).\<close>

definition ascii :: "string \<Rightarrow> bytes" where
  "ascii s = map (\<lambda>c. word_of_nat (of_char c)) s"

section \<open>Lemmas on results\<close>

lemma rbind_simps [simp]: "rbind (Inl e) f = Inl e" "rbind (Inr x) f = f x"
  by (simp_all add: rbind_def)

lemma rbind_eq_Inr [simp]: "rbind m f = Inr y \<longleftrightarrow> (\<exists>x. m = Inr x \<and> f x = Inr y)"
  by (cases m) simp_all

lemma rbind_eq_Inl: "rbind m f = Inl e \<longleftrightarrow> m = Inl e \<or> (\<exists>x. m = Inr x \<and> f x = Inl e)"
  by (cases m) auto

lemma rbind_cong [fundef_cong]:
  "m = m' \<Longrightarrow> (\<And>x. m' = Inr x \<Longrightarrow> f x = g x) \<Longrightarrow> rbind m f = rbind m' g"
  by (cases m') simp_all

lemma rbind_assoc: "rbind (rbind m f) g = rbind m (\<lambda>x. rbind (f x) g)"
  by (cases m) simp_all

lemma ok_or_simps [simp]: "ok_or e None = Inl e" "ok_or e (Some a) = Inr a"
  by (simp_all add: ok_or_def)

lemma ok_or_eq_Inr [simp]: "ok_or e x = Inr a \<longleftrightarrow> x = Some a"
  by (cases x) simp_all

lemma sret_simp [simp]: "sret x s = (Inr x, s)"
  by (simp add: sret_def)

lemma sfail_simp [simp]: "sfail e s = (Inl e, s)"
  by (simp add: sfail_def)

lemma smodify_simp [simp]: "smodify f s = (Inr (), f s)"
  by (simp add: smodify_def)

lemma sread_simp [simp]: "sread f s = (f s, s)"
  by (simp add: sread_def)

lemma sbind_simps:
  "m s = (Inl e, s') \<Longrightarrow> sbind m f s = (Inl e, s')"
  "m s = (Inr x, s') \<Longrightarrow> sbind m f s = f x s'"
  by (simp_all add: sbind_def)

lemma sbind_eq_Inr:
  "sbind m f s = (Inr y, t) \<longleftrightarrow> (\<exists>x s'. m s = (Inr x, s') \<and> f x s' = (Inr y, t))"
  by (auto simp: sbind_def split: prod.splits sum.splits)

lemma sbind_eq_Inl:
  "sbind m f s = (Inl e, t) \<longleftrightarrow>
     m s = (Inl e, t) \<or> (\<exists>x s'. m s = (Inr x, s') \<and> f x s' = (Inl e, t))"
  by (auto simp: sbind_def split: prod.splits sum.splits)

text \<open>A state property that every part of a method keeps is kept by the method.\<close>

lemma sbind_invariant:
  assumes "P s"
    and "\<And>r t. m s = (r, t) \<Longrightarrow> P t"
    and "\<And>x s' r t. m s = (Inr x, s') \<Longrightarrow> P s' \<Longrightarrow> f x s' = (r, t) \<Longrightarrow> P t"
    and "sbind m f s = (r, t)"
  shows "P t"
  using assms by (auto simp: sbind_def split: prod.splits sum.splits)

lemma siter_invariant:
  assumes step: "\<And>x s r t. x \<in> set xs \<Longrightarrow> P s \<Longrightarrow> f x s = (r, t) \<Longrightarrow> P t"
    and "P s" and "siter f xs s = (r, t)"
  shows "P t"
  using assms
proof (induction xs arbitrary: s r t)
  case Nil
  then show ?case by simp
next
  case (Cons x xs)
  obtain r1 s1 where x: "f x s = (r1, s1)" by fastforce
  with Cons.prems(1,2) have s1: "P s1" by (meson list.set_intros(1))
  show ?case
  proof (cases r1)
    case (Inl e)
    with x s1 Cons.prems(3) show ?thesis by (simp add: sbind_def)
  next
    case (Inr u)
    with x Cons.prems(3) have rest: "siter f xs s1 = (r, t)" by (simp add: sbind_def)
    show ?thesis
      by (rule Cons.IH [OF _ s1 rest]) (use Cons.prems(1) in \<open>meson list.set_intros(2)\<close>)
  qed
qed

text \<open>
  \<open>keeps f m\<close>: the method \<open>m\<close> leaves the observation \<open>f\<close> of the state as it is,
  whether it succeeds or fails.
\<close>

definition keeps :: "('s \<Rightarrow> 'b) \<Rightarrow> ('s, 'e, 'a) step \<Rightarrow> bool" where
  "keeps f m \<longleftrightarrow> (\<forall>s. f (snd (m s)) = f s)"

lemma keepsI [intro?]: "(\<And>s. f (snd (m s)) = f s) \<Longrightarrow> keeps f m"
  by (simp add: keeps_def)

lemma keepsD: "keeps f m \<Longrightarrow> m s = (r, t) \<Longrightarrow> f t = f s"
  unfolding keeps_def by (metis snd_conv)

lemma keeps_sbind [keeps_intros]:
  assumes "keeps f m" and "\<And>x. keeps f (k x)"
  shows "keeps f (sbind m k)"
proof
  fix s
  obtain r t where m: "m s = (r, t)" by (cases "m s")
  with assms(1) have t: "f t = f s" by (rule keepsD)
  show "f (snd (sbind m k s)) = f s"
  proof (cases r)
    case (Inl e)
    with m t show ?thesis by (simp add: sbind_def)
  next
    case (Inr x)
    with m have "sbind m k s = k x t" by (simp add: sbind_def)
    with assms(2) [of x] t show ?thesis by (simp add: keeps_def)
  qed
qed

lemma keeps_basic [keeps_intros]: "keeps f (sret x)" "keeps f (sfail e)" "keeps f (sread h)"
  by (simp_all add: keeps_def)

lemma keeps_smodify [keeps_intros]: "(\<And>s. f (h s) = f s) \<Longrightarrow> keeps f (smodify h)"
  by (simp add: keeps_def)

lemma keeps_siter [keeps_intros]: "(\<And>x. keeps f (h x)) \<Longrightarrow> keeps f (siter h xs)"
  by (induction xs) (auto intro: keeps_intros)

lemma keeps_comp: "keeps f m \<Longrightarrow> (\<And>s t. f s = f t \<Longrightarrow> h s = h t) \<Longrightarrow> keeps h m"
  unfolding keeps_def by blast

lemma keeps_if [keeps_intros]: "(b \<Longrightarrow> keeps f m) \<Longrightarrow> (\<not> b \<Longrightarrow> keeps f n) \<Longrightarrow> keeps f (if b then m else n)"
  by simp

section \<open>Lemmas on integers as bytes\<close>

lemma unat_bound: "unat (w :: 'a::len word) < 2 ^ LENGTH('a)"
  by (rule unsigned_less)

lemma length_le_bytes [simp]: "length (le_bytes k n) = k"
  by (induction k arbitrary: n) simp_all

lemma length_be_bytes [simp]: "length (be_bytes k n) = k"
  by (simp add: be_bytes_def)

lemma le_nat_le_bytes: "le_nat (le_bytes k n) = n mod 256 ^ k"
proof (induction k arbitrary: n)
  case 0
  then show ?case by simp
next
  case (Suc k)
  have "le_nat (le_bytes (Suc k) n) = n mod 256 + 256 * (n div 256 mod 256 ^ k)"
    using Suc.IH [of "n div 256"] by (simp add: unat_of_nat)
  also have "\<dots> = n mod 256 ^ Suc k"
    by (simp add: mod_mult2_eq)
  finally show ?case .
qed

lemma be_nat_be_bytes: "be_nat (be_bytes k n) = n mod 256 ^ k"
  by (simp add: be_nat_def be_bytes_def le_nat_le_bytes)

lemma le_nat_less: "le_nat bs < 256 ^ length bs"
proof (induction bs)
  case Nil
  then show ?case by simp
next
  case (Cons b bs)
  have "unat b < 256" using unat_bound [of b] by simp
  with Cons.IH show ?case by simp
qed

lemma be_nat_less: "be_nat bs < 256 ^ length bs"
  using le_nat_less [of "rev bs"] by (simp add: be_nat_def)

lemma le_bytes_le_nat: "length bs = k \<Longrightarrow> le_bytes k (le_nat bs) = bs"
proof (induction bs arbitrary: k)
  case Nil
  then show ?case by simp
next
  case (Cons b bs)
  have b: "unat b < 256" using unat_bound [of b] by simp
  have zero: "(256 :: byte) = 0" by simp
  have "word_of_nat (unat b + 256 * le_nat bs) = b"
    by (simp add: zero)
  with b Cons show ?case by auto
qed

lemma be_bytes_be_nat: "length bs = k \<Longrightarrow> be_bytes k (be_nat bs) = bs"
  by (simp add: be_bytes_def be_nat_def le_bytes_le_nat)

text \<open>A word survives its own encoding at its width.\<close>

lemma le_nat_word16 [simp]: "le_nat (le_bytes 2 (unat (w :: u16))) = unat w"
  using unat_bound [of w] by (simp add: le_nat_le_bytes)

lemma le_nat_word32 [simp]: "le_nat (le_bytes 4 (unat (w :: u32))) = unat w"
  using unat_bound [of w] by (simp add: le_nat_le_bytes)

lemma le_nat_word64 [simp]: "le_nat (le_bytes 8 (unat (w :: u64))) = unat w"
  using unat_bound [of w] by (simp add: le_nat_le_bytes)

lemma be_nat_word16 [simp]: "be_nat (be_bytes 2 (unat (w :: u16))) = unat w"
  using unat_bound [of w] by (simp add: be_nat_be_bytes)

lemma be_nat_word32 [simp]: "be_nat (be_bytes 4 (unat (w :: u32))) = unat w"
  using unat_bound [of w] by (simp add: be_nat_be_bytes)

lemma be_nat_word64 [simp]: "be_nat (be_bytes 8 (unat (w :: u64))) = unat w"
  using unat_bound [of w] by (simp add: be_nat_be_bytes)

section \<open>Lemmas on slices\<close>

lemma length_subslice [simp]: "length (subslice off len xs) = min len (length xs - off)"
  by (simp add: subslice_def)

lemma subslice_append [simp]:
  "subslice (length xs) (length ys) (xs @ ys @ zs) = ys"
  by (simp add: subslice_def)

lemma subslice_append_eq:
  "off = length xs \<Longrightarrow> len = length ys \<Longrightarrow> subslice off len (xs @ ys @ zs) = ys"
  by simp

lemma subslice_0_append [simp]: "subslice 0 (length ys) (ys @ zs) = ys"
  by (simp add: subslice_def)

lemma subslice_all [simp]: "subslice 0 (length ys) ys = ys"
  by (simp add: subslice_def)

lemma nth_subslice: "i < len \<Longrightarrow> off + i < length xs \<Longrightarrow> subslice off len xs ! i = xs ! (off + i)"
  by (simp add: subslice_def)

text \<open>The fixed-width words as bytes.\<close>

lemma length_le [simp]: "length (le16 a) = 2" "length (le32 b) = 4" "length (le64 c) = 8"
  by (simp_all add: le16_def le32_def le64_def)

lemma of_le [simp]: "word_of_nat (le_nat (le16 a)) = a" "word_of_nat (le_nat (le32 b)) = b"
  "word_of_nat (le_nat (le64 c)) = c"
  by (simp_all add: le16_def le32_def le64_def)

section \<open>Lemmas on overwriting a slice\<close>

lemma length_splice [simp]: "off + length bs \<le> length buf \<Longrightarrow> length (splice off bs buf) = length buf"
  by (simp add: splice_def)

lemma nth_splice:
  assumes "off + length bs \<le> length buf" "i < length buf"
  shows "splice off bs buf ! i = (if off \<le> i \<and> i < off + length bs then bs ! (i - off) else buf ! i)"
  using assms by (auto simp: splice_def nth_append min_def)

lemma drop_splice:
  "off + length bs \<le> k \<Longrightarrow> k \<le> length buf \<Longrightarrow> drop k (splice off bs buf) = drop k buf"
  by (rule nth_equalityI) (simp_all add: nth_splice)

lemma subslice_splice_same [simp]:
  "off + length bs \<le> length buf \<Longrightarrow> n = length bs \<Longrightarrow> subslice off n (splice off bs buf) = bs"
  by (simp add: subslice_def splice_def)

lemma subslice_splice_other:
  assumes "off + length bs \<le> length buf" "o' + n \<le> off \<or> off + length bs \<le> o'" "o' + n \<le> length buf"
  shows "subslice o' n (splice off bs buf) = subslice o' n buf"
  using assms by (intro nth_equalityI) (auto simp: nth_subslice nth_splice)

end
