(* ===== verification/Entities.thy ===== *)
theory Entities
  imports Ermya_Prelude
begin

text \<open>
  The data model of the graph engine: property values, nodes and edges
  (\<^verbatim>\<open>crates/ermya-graph/src/property.rs\<close>, \<^verbatim>\<open>node.rs\<close>, \<^verbatim>\<open>edge.rs\<close>,
  the identifiers of \<^verbatim>\<open>error.rs\<close>), and the memory estimates charged against the
  transaction and batch caps.

  A Rust \<^verbatim>\<open>String\<close> is its UTF-8 bytes; an \<^verbatim>\<open>f64\<close> is its bit pattern; a
  \<^verbatim>\<open>HashMap<String, Property>\<close> is an association list with distinct keys, whose order
  stands for the unspecified iteration order of the hash map. Node and edge identifiers are
  natural numbers.
\<close>

section \<open>Property values\<close>

type_synonym rstring = bytes

datatype property =
    PropString rstring
  | PropI64 u64
  | PropF64 u64
  | PropBool bool
  | PropBytes bytes

type_synonym properties = "(rstring \<times> property) list"

fun approx_heap_size :: "property \<Rightarrow> nat" where
  "approx_heap_size (PropString s) = length s"
| "approx_heap_size (PropBytes b) = length b"
| "approx_heap_size (PropI64 _) = 0"
| "approx_heap_size (PropF64 _) = 0"
| "approx_heap_size (PropBool _) = 0"

fun as_str :: "property \<Rightarrow> rstring option" where
  "as_str (PropString s) = Some s"
| "as_str _ = None"

fun as_i64 :: "property \<Rightarrow> u64 option" where
  "as_i64 (PropI64 v) = Some v"
| "as_i64 _ = None"

fun as_f64 :: "property \<Rightarrow> u64 option" where
  "as_f64 (PropF64 v) = Some v"
| "as_f64 _ = None"

fun as_bool :: "property \<Rightarrow> bool option" where
  "as_bool (PropBool v) = Some v"
| "as_bool _ = None"

fun as_bytes :: "property \<Rightarrow> bytes option" where
  "as_bytes (PropBytes v) = Some v"
| "as_bytes _ = None"

section \<open>Nodes and edges\<close>

type_synonym node_id = nat
type_synonym edge_id = nat

record node =
  nd_id :: node_id
  nd_label :: rstring
  nd_properties :: properties
  nd_adj_page_id :: u32
  nd_adj_incoming_page_id :: u32
  nd_adj_flags :: byte

record edge =
  ed_id :: edge_id
  ed_label :: rstring
  ed_source :: node_id
  ed_target :: node_id
  ed_properties :: properties

text \<open>\<^verbatim>\<open>ADJ_PAGE_ID_SENTINEL\<close>: no adjacency page yet.\<close>

definition ADJ_PAGE_ID_SENTINEL :: u32 where
  "ADJ_PAGE_ID_SENTINEL = 0xFFFFFFFF"

definition node_new :: "node_id \<Rightarrow> rstring \<Rightarrow> properties \<Rightarrow> node" where
  "node_new i l ps =
     \<lparr>nd_id = i, nd_label = l, nd_properties = ps,
      nd_adj_page_id = ADJ_PAGE_ID_SENTINEL,
      nd_adj_incoming_page_id = ADJ_PAGE_ID_SENTINEL,
      nd_adj_flags = 0\<rparr>"

definition edge_new :: "edge_id \<Rightarrow> rstring \<Rightarrow> node_id \<Rightarrow> node_id \<Rightarrow> properties \<Rightarrow> edge" where
  "edge_new i l s t ps =
     \<lparr>ed_id = i, ed_label = l, ed_source = s, ed_target = t, ed_properties = ps\<rparr>"

section \<open>Memory estimates\<close>

text \<open>
  \<open>estimate_entity_bytes\<close> is the sum the engine charges for a record: the size of the Rust
  struct (\<^verbatim>\<open>size_of\<close>, a parameter), the label and every key and value.
\<close>

definition props_bytes :: "properties \<Rightarrow> nat" where
  "props_bytes ps = (\<Sum>(k, v)\<leftarrow>ps. length k + approx_heap_size v)"

definition estimate_entity_bytes :: "nat \<Rightarrow> rstring \<Rightarrow> properties \<Rightarrow> nat" where
  "estimate_entity_bytes base l ps = base + length l + props_bytes ps"

end
