(* ===== verification/Mvcc_Delta.thy ===== *)
theory Mvcc_Delta
  imports Entities
begin

text \<open>
  The versioning substrate of \<^verbatim>\<open>crates/ermya-graph/src/mvcc\<close>: the transaction clock
  (\<^verbatim>\<open>clock.rs\<close>), deltas and snapshots (\<^verbatim>\<open>delta.rs\<close>), a record's delta chain
  (\<^verbatim>\<open>chain.rs\<close>) and read visibility (\<^verbatim>\<open>visibility.rs\<close>). Timestamps and
  transaction ids are natural numbers; the wrap-around of the 64-bit counters is written
  out where a counter advances.
\<close>

section \<open>The clock\<close>

definition u64_succ :: "nat \<Rightarrow> nat" where
  "u64_succ n = (n + 1) mod 2 ^ 64"

type_synonym txn_clock = nat

definition clock_new :: txn_clock where
  "clock_new = 1"

text \<open>\<^verbatim>\<open>fetch_add(1)\<close>: the timestamp handed out and the clock afterwards.\<close>

definition clock_next :: "txn_clock \<Rightarrow> nat \<times> txn_clock" where
  "clock_next c = (c, u64_succ c)"

definition clock_current :: "txn_clock \<Rightarrow> nat" where
  "clock_current c = c"

section \<open>Deltas\<close>

datatype entity_snapshot =
    SnapNode node
  | SnapEdge edge
  | SnapDeleted

definition DELETED_APPROX_SIZE :: nat where
  "DELETED_APPROX_SIZE = 16"

text \<open>\<open>szn\<close> and \<open>sze\<close> are \<^verbatim>\<open>size_of::<Node>()\<close> and \<^verbatim>\<open>size_of::<Edge>()\<close>.\<close>

fun approx_size :: "nat \<Rightarrow> nat \<Rightarrow> entity_snapshot \<Rightarrow> nat" where
  "approx_size szn sze (SnapNode n) = szn + length (nd_label n) + props_bytes (nd_properties n)"
| "approx_size szn sze (SnapEdge e) = sze + length (ed_label e) + props_bytes (ed_properties e)"
| "approx_size szn sze SnapDeleted = DELETED_APPROX_SIZE"

datatype delta_op = Insert | Update | Delete

record delta =
  dl_txn_id :: nat
  dl_prior :: "entity_snapshot option"
  dl_new :: "entity_snapshot option"
  dl_op :: delta_op
  dl_commit_ts :: "nat option"

definition delta_new ::
  "nat \<Rightarrow> entity_snapshot option \<Rightarrow> entity_snapshot option \<Rightarrow> delta_op \<Rightarrow> delta" where
  "delta_new t p n oper =
     \<lparr>dl_txn_id = t, dl_prior = p, dl_new = n, dl_op = oper, dl_commit_ts = None\<rparr>"

definition stamp_commit :: "nat \<Rightarrow> delta \<Rightarrow> delta" where
  "stamp_commit c d = d\<lparr>dl_commit_ts := Some c\<rparr>"

definition safe_to_vacuum :: "nat option \<Rightarrow> delta \<Rightarrow> bool" where
  "safe_to_vacuum watermark d =
     (case dl_commit_ts d of
        None \<Rightarrow> False
      | Some c \<Rightarrow> (case watermark of None \<Rightarrow> True | Some w \<Rightarrow> c < w))"

section \<open>Chains\<close>

text \<open>A chain is the vector of a \<^verbatim>\<open>DeltaChainHead\<close>: newest delta first.\<close>

type_synonym chain = "delta list"

definition chain_push :: "delta \<Rightarrow> chain \<Rightarrow> chain" where
  "chain_push d ch = d # ch"

definition stamp_txn :: "nat \<Rightarrow> nat \<Rightarrow> chain \<Rightarrow> chain" where
  "stamp_txn t c ch =
     map (\<lambda>d. if dl_txn_id d = t \<and> dl_commit_ts d = None then stamp_commit c d else d) ch"

definition remove_txn :: "nat \<Rightarrow> chain \<Rightarrow> chain" where
  "remove_txn t ch = filter (\<lambda>d. dl_txn_id d \<noteq> t) ch"

definition newest_delta_of_txn :: "nat \<Rightarrow> chain \<Rightarrow> delta option" where
  "newest_delta_of_txn t ch = find (\<lambda>d. dl_txn_id d = t) ch"

definition oldest_delta_of_txn :: "nat \<Rightarrow> chain \<Rightarrow> delta option" where
  "oldest_delta_of_txn t ch = find (\<lambda>d. dl_txn_id d = t) (rev ch)"

definition chain_newest :: "chain \<Rightarrow> delta option" where
  "chain_newest ch = (case ch of [] \<Rightarrow> None | d # _ \<Rightarrow> Some d)"

definition chain_oldest :: "chain \<Rightarrow> delta option" where
  "chain_oldest ch = (case rev ch of [] \<Rightarrow> None | d # _ \<Rightarrow> Some d)"

definition all_safe_to_vacuum :: "nat option \<Rightarrow> chain \<Rightarrow> bool" where
  "all_safe_to_vacuum watermark ch = list_all (safe_to_vacuum watermark) ch"

section \<open>Visibility\<close>

definition delta_visible_to :: "nat \<Rightarrow> nat option \<Rightarrow> delta \<Rightarrow> bool" where
  "delta_visible_to reader_start_ts reader_txn_id d =
     (if reader_txn_id = Some (dl_txn_id d) then True
      else (case dl_commit_ts d of None \<Rightarrow> False | Some c \<Rightarrow> c < reader_start_ts))"

fun apply_deltas_for_read ::
  "entity_snapshot option \<Rightarrow> chain \<Rightarrow> nat \<Rightarrow> nat option \<Rightarrow> entity_snapshot option" where
  "apply_deltas_for_read base [] ts r = base"
| "apply_deltas_for_read base (d # ch) ts r =
     (if delta_visible_to ts r d then dl_new d else apply_deltas_for_read base ch ts r)"

section \<open>Lemmas\<close>

lemma u64_succ_eq [simp]: "n < 2 ^ 64 - 1 \<Longrightarrow> u64_succ n = n + 1"
  by (simp add: u64_succ_def)

lemma u64_succ_less: "u64_succ n < 2 ^ 64"
  by (simp add: u64_succ_def)

lemma delta_new_simps [simp]:
  "dl_txn_id (delta_new t p n oper) = t" "dl_prior (delta_new t p n oper) = p"
  "dl_new (delta_new t p n oper) = n" "dl_op (delta_new t p n oper) = oper"
  "dl_commit_ts (delta_new t p n oper) = None"
  by (simp_all add: delta_new_def)

lemma stamp_commit_simps [simp]:
  "dl_txn_id (stamp_commit c d) = dl_txn_id d" "dl_prior (stamp_commit c d) = dl_prior d"
  "dl_new (stamp_commit c d) = dl_new d" "dl_op (stamp_commit c d) = dl_op d"
  "dl_commit_ts (stamp_commit c d) = Some c"
  by (simp_all add: stamp_commit_def)

lemma apply_deltas_invisible:
  "(\<And>d. d \<in> set ch \<Longrightarrow> \<not> delta_visible_to ts r d) \<Longrightarrow>
   apply_deltas_for_read base ch ts r = base"
  by (induction ch) auto

lemma apply_deltas_append:
  "apply_deltas_for_read base (xs @ ys) ts r =
   apply_deltas_for_read (apply_deltas_for_read base ys ts r) xs ts r"
  by (induction xs) auto

text \<open>The result of a read is the state of the first visible delta, or the base.\<close>

lemma apply_deltas_eq_find:
  "apply_deltas_for_read base ch ts r =
   (case find (delta_visible_to ts r) ch of None \<Rightarrow> base | Some d \<Rightarrow> dl_new d)"
  by (induction ch) auto

text \<open>An uncommitted delta of another transaction does not change what a reader sees.\<close>

lemma push_invisible:
  "r \<noteq> Some t \<Longrightarrow>
   apply_deltas_for_read base (chain_push (delta_new t p n oper) ch) ts r =
   apply_deltas_for_read base ch ts r"
  by (simp add: chain_push_def delta_visible_to_def)

lemma push_own_visible:
  "apply_deltas_for_read base (chain_push (delta_new t p n oper) ch) ts (Some t) = n"
  by (simp add: chain_push_def delta_visible_to_def)

text \<open>Stamping with a timestamp that the reader's snapshot does not reach changes nothing
  for that reader; stamping never changes what the author itself sees.\<close>

lemma stamp_invisible:
  assumes "ts \<le> c" "r \<noteq> Some t"
  shows "apply_deltas_for_read base (stamp_txn t c ch) ts r = apply_deltas_for_read base ch ts r"
  using assms by (induction ch) (auto simp: stamp_txn_def delta_visible_to_def)

lemma stamp_own:
  "apply_deltas_for_read base (stamp_txn t c ch) ts (Some t) =
   apply_deltas_for_read base ch ts (Some t)"
  by (induction ch) (auto simp: stamp_txn_def delta_visible_to_def)

lemma stamp_stable:
  assumes "ts \<le> c"
  shows "apply_deltas_for_read base (stamp_txn t c ch) ts r = apply_deltas_for_read base ch ts r"
  using assms stamp_invisible stamp_own by (cases "r = Some t") auto

text \<open>Removing a transaction whose deltas are all uncommitted changes nothing for others.\<close>

lemma remove_txn_invisible:
  assumes "r \<noteq> Some t" "\<And>d. d \<in> set ch \<Longrightarrow> dl_txn_id d = t \<Longrightarrow> dl_commit_ts d = None"
  shows "apply_deltas_for_read base (remove_txn t ch) ts r = apply_deltas_for_read base ch ts r"
  using assms
proof (induction ch)
  case Nil
  then show ?case by (simp add: remove_txn_def)
next
  case (Cons d ch)
  then show ?case by (cases "dl_txn_id d = t") (auto simp: remove_txn_def delta_visible_to_def)
qed

text \<open>
  A chain that is safe to vacuum for a watermark is seen from its newest delta by every
  reader at or above the watermark: the chain holds nothing such a reader skips.
\<close>

lemma safe_chain_sees_newest:
  assumes "all_safe_to_vacuum wm ch" "ch \<noteq> []"
    and "case wm of Some w \<Rightarrow> w \<le> ts | None \<Rightarrow> (\<forall>d\<in>set ch. \<forall>c. dl_commit_ts d = Some c \<longrightarrow> c < ts)"
  shows "apply_deltas_for_read base ch ts r = (case chain_newest ch of None \<Rightarrow> base | Some d \<Rightarrow> dl_new d)"
proof -
  obtain d ds where ch: "ch = d # ds" using assms(2) by (cases ch) auto
  with assms have "delta_visible_to ts r d"
    by (auto simp: all_safe_to_vacuum_def safe_to_vacuum_def delta_visible_to_def
        split: option.splits)
  with ch show ?thesis by (simp add: chain_newest_def)
qed

lemma newest_delta_of_txn_Some:
  "newest_delta_of_txn t ch = Some d \<Longrightarrow> d \<in> set ch \<and> dl_txn_id d = t"
  by (auto simp: newest_delta_of_txn_def find_Some_iff)

lemma oldest_delta_of_txn_Some:
  "oldest_delta_of_txn t ch = Some d \<Longrightarrow> d \<in> set ch \<and> dl_txn_id d = t"
  by (auto simp: oldest_delta_of_txn_def find_Some_iff)
    (metis length_rev nth_mem set_rev)

lemma newest_delta_of_txn_None:
  "newest_delta_of_txn t ch = None \<longleftrightarrow> (\<forall>d\<in>set ch. dl_txn_id d \<noteq> t)"
  by (auto simp: newest_delta_of_txn_def find_None_iff)

lemma set_stamp_txn:
  "set (stamp_txn t c ch) =
   (\<lambda>d. if dl_txn_id d = t \<and> dl_commit_ts d = None then stamp_commit c d else d) ` set ch"
  by (simp add: stamp_txn_def)

lemma set_remove_txn [simp]: "set (remove_txn t ch) = {d \<in> set ch. dl_txn_id d \<noteq> t}"
  by (auto simp: remove_txn_def)

lemma chain_newest_in_set: "chain_newest ch = Some d \<Longrightarrow> d \<in> set ch"
  by (auto simp: chain_newest_def split: list.splits)

end
