(* ===== verification/Mvcc_Table.thy ===== *)
theory Mvcc_Table
  imports Mvcc_Delta "HOL-Library.AList"
begin

text \<open>
  The sharded delta table of \<^verbatim>\<open>crates/ermya-graph/src/mvcc/delta_table.rs\<close>. Each shard
  is a hash map from record keys to chains, modelled as an association list with distinct
  keys; the \<^verbatim>\<open>DefaultHasher\<close> of the standard library is the field \<open>dt_hash\<close>, an
  arbitrary function. The locks are not modelled: every method holds one shard lock for its
  whole body, so a method is one atomic step.

  The locale \<open>delta_store\<close> is the contract the transaction engine relies on: what a lookup
  returns after each operation. The sharded table is an interpretation of it.
\<close>

section \<open>The table\<close>

datatype entity_key = KeyNode node_id | KeyEdge edge_id

type_synonym shard = "(entity_key \<times> chain) list"

record delta_table =
  dt_shards :: "shard list"
  dt_hash :: "entity_key \<Rightarrow> nat"

definition shard_index :: "(entity_key \<Rightarrow> nat) \<Rightarrow> entity_key \<Rightarrow> nat \<Rightarrow> nat" where
  "shard_index h k len = h k mod len"

definition table_new :: "(entity_key \<Rightarrow> nat) \<Rightarrow> nat \<Rightarrow> delta_table" where
  "table_new h shard_count =
     \<lparr>dt_shards = replicate (max shard_count 1) [], dt_hash = h\<rparr>"

definition key_shard :: "delta_table \<Rightarrow> entity_key \<Rightarrow> nat" where
  "key_shard t k = shard_index (dt_hash t) k (length (dt_shards t))"

definition push_delta :: "entity_key \<Rightarrow> delta \<Rightarrow> delta_table \<Rightarrow> delta_table" where
  "push_delta k d t =
     (let i = key_shard t k; sh = dt_shards t ! i;
          ch = (case map_of sh k of None \<Rightarrow> [] | Some c \<Rightarrow> c)
      in t\<lparr>dt_shards := (dt_shards t)[i := AList.update k (chain_push d ch) sh]\<rparr>)"

definition chain_for :: "delta_table \<Rightarrow> entity_key \<Rightarrow> chain option" where
  "chain_for t k = map_of (dt_shards t ! key_shard t k) k"

definition stamp_commit_for_txn :: "entity_key \<Rightarrow> nat \<Rightarrow> nat \<Rightarrow> delta_table \<Rightarrow> delta_table" where
  "stamp_commit_for_txn k x c t =
     (let i = key_shard t k; sh = dt_shards t ! i
      in case map_of sh k of
           None \<Rightarrow> t
         | Some ch \<Rightarrow> t\<lparr>dt_shards := (dt_shards t)[i := AList.update k (stamp_txn x c ch) sh]\<rparr>)"

definition table_newest_delta_of_txn :: "delta_table \<Rightarrow> entity_key \<Rightarrow> nat \<Rightarrow> delta option" where
  "table_newest_delta_of_txn t k x =
     (case chain_for t k of None \<Rightarrow> None | Some ch \<Rightarrow> newest_delta_of_txn x ch)"

definition table_oldest_delta_of_txn :: "delta_table \<Rightarrow> entity_key \<Rightarrow> nat \<Rightarrow> delta option" where
  "table_oldest_delta_of_txn t k x =
     (case chain_for t k of None \<Rightarrow> None | Some ch \<Rightarrow> oldest_delta_of_txn x ch)"

definition chain_count :: "delta_table \<Rightarrow> nat" where
  "chain_count t = sum_list (map length (dt_shards t))"

type_synonym drained = "(entity_key \<times> entity_snapshot option \<times> entity_snapshot option) list"

text \<open>The states a drained chain reports: the newest state and the oldest prior.\<close>

definition drained_entry ::
  "entity_key \<Rightarrow> chain \<Rightarrow> entity_key \<times> entity_snapshot option \<times> entity_snapshot option" where
  "drained_entry k ch =
     (k, Option.bind (chain_newest ch) dl_new, Option.bind (chain_oldest ch) dl_prior)"

fun drain_keys :: "entity_key list \<Rightarrow> shard \<Rightarrow> drained \<Rightarrow> shard \<times> drained" where
  "drain_keys [] g out = (g, out)"
| "drain_keys (k # ks) g out =
     (case map_of g k of
        None \<Rightarrow> drain_keys ks g out
      | Some ch \<Rightarrow> drain_keys ks (AList.delete k g) (out @ [drained_entry k ch]))"

definition vacuumable_keys :: "nat option \<Rightarrow> shard \<Rightarrow> entity_key list" where
  "vacuumable_keys wm g = map fst (filter (\<lambda>(k, ch). all_safe_to_vacuum wm ch) g)"

fun drain_shards :: "nat option \<Rightarrow> shard list \<Rightarrow> drained \<Rightarrow> shard list \<times> drained" where
  "drain_shards wm [] out = ([], out)"
| "drain_shards wm (g # gs) out =
     (let (g', out') = drain_keys (vacuumable_keys wm g) g out;
          (gs', out'') = drain_shards wm gs out'
      in (g' # gs', out''))"

definition drain_vacuumable :: "nat option \<Rightarrow> delta_table \<Rightarrow> drained \<times> delta_table" where
  "drain_vacuumable wm t =
     (let (gs, out) = drain_shards wm (dt_shards t) [] in (out, t\<lparr>dt_shards := gs\<rparr>))"

definition remove_deltas_for_txn :: "entity_key \<Rightarrow> nat \<Rightarrow> delta_table \<Rightarrow> delta_table" where
  "remove_deltas_for_txn k x t =
     (let i = key_shard t k; sh = dt_shards t ! i
      in case map_of sh k of
           None \<Rightarrow> t
         | Some ch \<Rightarrow>
             let ch' = remove_txn x ch
             in t\<lparr>dt_shards := (dt_shards t)
                  [i := (if ch' = [] then AList.delete k sh else AList.update k ch' sh)]\<rparr>)"

section \<open>The contract of a delta store\<close>

locale delta_store =
  fixes invar :: "'t \<Rightarrow> bool"
    and lookup :: "'t \<Rightarrow> entity_key \<Rightarrow> chain option"
    and push :: "entity_key \<Rightarrow> delta \<Rightarrow> 't \<Rightarrow> 't"
    and stamp :: "entity_key \<Rightarrow> nat \<Rightarrow> nat \<Rightarrow> 't \<Rightarrow> 't"
    and discard :: "entity_key \<Rightarrow> nat \<Rightarrow> 't \<Rightarrow> 't"
    and drain :: "nat option \<Rightarrow> 't \<Rightarrow> drained \<times> 't"
  assumes lookup_push: "invar t \<Longrightarrow>
      lookup (push k d t) = (lookup t)(k \<mapsto> d # (case lookup t k of None \<Rightarrow> [] | Some c \<Rightarrow> c))"
    and lookup_stamp: "invar t \<Longrightarrow>
      lookup (stamp k x c t) = (lookup t)(k := map_option (stamp_txn x c) (lookup t k))"
    and lookup_discard: "invar t \<Longrightarrow>
      lookup (discard k x t) = (lookup t)(k := (case lookup t k of None \<Rightarrow> None
        | Some ch \<Rightarrow> (if remove_txn x ch = [] then None else Some (remove_txn x ch))))"
    and lookup_drain: "invar t \<Longrightarrow>
      lookup (snd (drain wm t)) k = (case lookup t k of None \<Rightarrow> None
        | Some ch \<Rightarrow> (if all_safe_to_vacuum wm ch then None else Some ch))"
    and drain_entries: "invar t \<Longrightarrow>
      set (fst (drain wm t)) =
        {drained_entry k ch | k ch. lookup t k = Some ch \<and> all_safe_to_vacuum wm ch}"
    and drain_distinct: "invar t \<Longrightarrow> distinct (map fst (fst (drain wm t)))"
    and lookup_nonempty: "invar t \<Longrightarrow> lookup t k \<noteq> Some []"
    and invar_push [intro, simp]: "invar t \<Longrightarrow> invar (push k d t)"
    and invar_stamp [intro, simp]: "invar t \<Longrightarrow> invar (stamp k x c t)"
    and invar_discard [intro, simp]: "invar t \<Longrightarrow> invar (discard k x t)"
    and invar_drain [intro, simp]: "invar t \<Longrightarrow> invar (snd (drain wm t))"
begin

text \<open>
  What a reader with snapshot \<open>ts\<close> and identity \<open>r\<close> resolves for a key over a committed
  base: the value behind every read of the engine.
\<close>

definition resolve :: "'t \<Rightarrow> entity_key \<Rightarrow> entity_snapshot option \<Rightarrow> nat \<Rightarrow> nat option
    \<Rightarrow> entity_snapshot option" where
  "resolve t k base ts r =
     (case lookup t k of None \<Rightarrow> base | Some ch \<Rightarrow> apply_deltas_for_read base ch ts r)"

lemma resolve_push_other:
  assumes "invar t" "r \<noteq> Some x"
  shows "resolve (push k (delta_new x p n oper) t) k' base ts r = resolve t k' base ts r"
  using assms push_invisible [OF assms(2)]
  by (auto simp: resolve_def lookup_push chain_push_def delta_visible_to_def split: option.splits)

lemma resolve_push_own:
  assumes "invar t"
  shows "resolve (push k (delta_new x p n oper) t) k base ts (Some x) = n"
  using assms by (simp add: resolve_def lookup_push delta_visible_to_def)

lemma resolve_stamp:
  assumes "invar t" "ts \<le> c"
  shows "resolve (stamp k x c t) k' base ts r = resolve t k' base ts r"
  using assms by (auto simp: resolve_def lookup_stamp stamp_stable split: option.splits)

lemma resolve_discard:
  assumes "invar t" "r \<noteq> Some x"
    and unc: "\<And>ch d. lookup t k = Some ch \<Longrightarrow> d \<in> set ch \<Longrightarrow> dl_txn_id d = x \<Longrightarrow> dl_commit_ts d = None"
  shows "resolve (discard k x t) k' base ts r = resolve t k' base ts r"
proof (cases "k' = k \<and> lookup t k \<noteq> None")
  case True
  then obtain ch where ch: "lookup t k = Some ch" by auto
  have "apply_deltas_for_read base (remove_txn x ch) ts r = apply_deltas_for_read base ch ts r"
    using assms(2) unc [OF ch] by (rule remove_txn_invisible)
  with True ch assms(1) show ?thesis
    by (auto simp: resolve_def lookup_discard)
next
  case False
  with assms(1) show ?thesis by (auto simp: resolve_def lookup_discard)
qed

text \<open>
  Vacuum safety: for a reader at or above the watermark, a drained key read from the drained
  state as its new base gives what the chain gave.
\<close>

lemma resolve_drain_kept:
  assumes "invar t" "lookup t k = Some ch" "\<not> all_safe_to_vacuum wm ch"
  shows "resolve (snd (drain wm t)) k base ts r = resolve t k base ts r"
  using assms by (simp add: resolve_def lookup_drain)

lemma resolve_drained:
  assumes "invar t" "lookup t k = Some ch" "all_safe_to_vacuum wm ch"
    and "case wm of Some w \<Rightarrow> w \<le> ts
         | None \<Rightarrow> (\<forall>d\<in>set ch. \<forall>c. dl_commit_ts d = Some c \<longrightarrow> c < ts)"
  shows "resolve t k base ts r = fst (snd (drained_entry k ch))"
proof -
  have "ch \<noteq> []" using assms(1,2) lookup_nonempty by metis
  then obtain d where "chain_newest ch = Some d" by (cases ch) (auto simp: chain_newest_def)
  with safe_chain_sees_newest [OF assms(3) \<open>ch \<noteq> []\<close> assms(4)] assms(2) show ?thesis
    by (simp add: resolve_def drained_entry_def)
qed

text \<open>Folds of the three updates over a list of keys, as commit and rollback run them.\<close>

lemma invar_fold_stamp: "invar t \<Longrightarrow> invar (fold (\<lambda>k. stamp k x c) ks t)"
  by (induction ks arbitrary: t) auto

lemma lookup_fold_stamp:
  "invar t \<Longrightarrow> lookup (fold (\<lambda>k. stamp k x c) ks t) k =
     (if k \<in> set ks then map_option (stamp_txn x c) (lookup t k) else lookup t k)"
proof (induction ks arbitrary: t)
  case Nil
  then show ?case by simp
next
  case (Cons k' ks)
  have idem: "stamp_txn x c (stamp_txn x c ch) = stamp_txn x c ch" for ch
    by (auto simp: stamp_txn_def)
  from Cons show ?case
    by (auto simp: lookup_stamp option.map_comp comp_def idem)
qed

lemma resolve_fold_stamp:
  assumes "invar t" "ts \<le> c"
  shows "resolve (fold (\<lambda>k. stamp k x c) ks t) k base ts r = resolve t k base ts r"
  using assms by (auto simp: resolve_def lookup_fold_stamp stamp_stable split: option.splits)

lemma invar_fold_discard: "invar t \<Longrightarrow> invar (fold (\<lambda>k. discard k x) ks t)"
  by (induction ks arbitrary: t) auto

lemma lookup_fold_discard:
  "invar t \<Longrightarrow> lookup (fold (\<lambda>k. discard k x) ks t) k =
     (if k \<in> set ks then (case lookup t k of None \<Rightarrow> None
        | Some ch \<Rightarrow> (if remove_txn x ch = [] then None else Some (remove_txn x ch)))
      else lookup t k)"
proof (induction ks arbitrary: t)
  case Nil
  then show ?case by simp
next
  case (Cons k' ks)
  have idem: "remove_txn x (remove_txn x ch) = remove_txn x ch" for ch
    by (simp add: remove_txn_def)
  from Cons show ?case
    by (auto simp: lookup_discard idem split: option.splits)
qed

lemma resolve_fold_discard:
  assumes "invar t" "r \<noteq> Some x"
    and "\<And>k ch d. lookup t k = Some ch \<Longrightarrow> d \<in> set ch \<Longrightarrow> dl_txn_id d = x \<Longrightarrow> dl_commit_ts d = None"
  shows "resolve (fold (\<lambda>k. discard k x) ks t) k base ts r = resolve t k base ts r"
proof (cases "k \<in> set ks")
  case True
  show ?thesis
  proof (cases "lookup t k")
    case None
    with True assms(1) show ?thesis by (simp add: resolve_def lookup_fold_discard)
  next
    case (Some ch)
    have "apply_deltas_for_read base (remove_txn x ch) ts r = apply_deltas_for_read base ch ts r"
      using assms(2) assms(3) [OF Some] by (rule remove_txn_invisible)
    with True Some assms(1) show ?thesis
      by (auto simp: resolve_def lookup_fold_discard)
  qed
next
  case False
  with assms(1) show ?thesis by (simp add: resolve_def lookup_fold_discard)
qed

end

section \<open>The sharded table meets the contract\<close>

definition shard_ok :: "delta_table \<Rightarrow> nat \<Rightarrow> bool" where
  "shard_ok t i \<longleftrightarrow>
     distinct (map fst (dt_shards t ! i)) \<and>
     (\<forall>(k, ch)\<in>set (dt_shards t ! i). key_shard t k = i \<and> ch \<noteq> [])"

definition table_wf :: "delta_table \<Rightarrow> bool" where
  "table_wf t \<longleftrightarrow> dt_shards t \<noteq> [] \<and> (\<forall>i<length (dt_shards t). shard_ok t i)"

lemma key_shard_less: "dt_shards t \<noteq> [] \<Longrightarrow> key_shard t k < length (dt_shards t)"
  by (simp add: key_shard_def shard_index_def)

lemma table_wf_new: "table_wf (table_new h n)"
  by (auto simp: table_wf_def table_new_def shard_ok_def)

lemma chain_for_new: "chain_for (table_new h n) k = None"
proof -
  have "key_shard (table_new h n) k < length (dt_shards (table_new h n))"
    by (rule key_shard_less) (simp add: table_new_def max_def)
  then show ?thesis by (simp add: chain_for_def table_new_def)
qed

text \<open>Every update rewrites one shard at the entry of one key.\<close>

definition set_shard :: "delta_table \<Rightarrow> nat \<Rightarrow> shard \<Rightarrow> delta_table" where
  "set_shard t i sh = t\<lparr>dt_shards := (dt_shards t)[i := sh]\<rparr>"

lemma key_shard_set_shard [simp]: "key_shard (set_shard t i sh) k = key_shard t k"
  by (simp add: key_shard_def set_shard_def)

lemma chain_for_set_shard:
  assumes "dt_shards t \<noteq> []" "i = key_shard t k"
    and "\<And>k'. k' \<noteq> k \<Longrightarrow> map_of sh k' = map_of (dt_shards t ! i) k'"
  shows "chain_for (set_shard t i sh) = (chain_for t)(k := map_of sh k)"
proof
  fix k'
  show "chain_for (set_shard t i sh) k' = ((chain_for t)(k := map_of sh k)) k'"
    using assms key_shard_less [OF assms(1), of k'] key_shard_less [OF assms(1), of k]
    by (cases "key_shard t k' = i") (auto simp: chain_for_def set_shard_def key_shard_def)
qed

lemma table_wf_set_shard:
  assumes "table_wf t" "distinct (map fst sh)"
    and "\<And>k ch. (k, ch) \<in> set sh \<Longrightarrow> key_shard t k = i \<and> ch \<noteq> []"
  shows "table_wf (set_shard t i sh)"
  unfolding table_wf_def shard_ok_def
proof (intro conjI allI impI)
  show "dt_shards (set_shard t i sh) \<noteq> []"
    using assms(1) by (simp add: table_wf_def set_shard_def)
  fix j assume j: "j < length (dt_shards (set_shard t i sh))"
  have nth: "dt_shards (set_shard t i sh) ! j = (if j = i then sh else dt_shards t ! j)"
    using j by (simp add: set_shard_def)
  show "distinct (map fst (dt_shards (set_shard t i sh) ! j))"
    using assms(1,2) j nth by (auto simp: table_wf_def shard_ok_def set_shard_def)
  show "\<forall>(k, ch)\<in>set (dt_shards (set_shard t i sh) ! j). key_shard (set_shard t i sh) k = j \<and> ch \<noteq> []"
    using assms(1,3) j unfolding nth key_shard_set_shard
    by (auto simp: table_wf_def shard_ok_def set_shard_def)
qed

lemma table_wf_shard:
  assumes "table_wf t" "(k, ch) \<in> set (dt_shards t ! key_shard t k')"
  shows "key_shard t k = key_shard t k'" "ch \<noteq> []"
  using assms key_shard_less [of t k'] by (auto simp: table_wf_def shard_ok_def)

lemma table_wf_distinct: "table_wf t \<Longrightarrow> distinct (map fst (dt_shards t ! key_shard t k))"
  using key_shard_less [of t k] by (auto simp: table_wf_def shard_ok_def)

lemma set_alist_update: "set (AList.update k v xs) \<subseteq> insert (k, v) (set xs)"
  by (induction xs) auto

lemma set_alist_delete: "set (AList.delete k xs) \<subseteq> set xs"
  by (induction xs) auto

lemma table_wf_update:
  assumes "table_wf t" "ch \<noteq> []"
  shows "table_wf (set_shard t (key_shard t k) (AList.update k ch (dt_shards t ! key_shard t k)))"
proof (rule table_wf_set_shard [OF assms(1)])
  show "distinct (map fst (AList.update k ch (dt_shards t ! key_shard t k)))"
    by (rule distinct_update) (rule table_wf_distinct [OF assms(1)])
  fix k' ch' assume "(k', ch') \<in> set (AList.update k ch (dt_shards t ! key_shard t k))"
  then have "(k', ch') = (k, ch) \<or> (k', ch') \<in> set (dt_shards t ! key_shard t k)"
    using set_alist_update by fast
  then show "key_shard t k' = key_shard t k \<and> ch' \<noteq> []"
    using assms table_wf_shard by blast
qed

lemma table_wf_delete:
  assumes "table_wf t"
  shows "table_wf (set_shard t (key_shard t k) (AList.delete k (dt_shards t ! key_shard t k)))"
proof (rule table_wf_set_shard [OF assms])
  show "distinct (map fst (AList.delete k (dt_shards t ! key_shard t k)))"
    by (rule distinct_delete) (rule table_wf_distinct [OF assms])
  fix k' ch' assume "(k', ch') \<in> set (AList.delete k (dt_shards t ! key_shard t k))"
  then have "(k', ch') \<in> set (dt_shards t ! key_shard t k)"
    using set_alist_delete by fast
  then show "key_shard t k' = key_shard t k \<and> ch' \<noteq> []"
    using assms table_wf_shard by blast
qed

lemma chain_for_update:
  assumes "table_wf t"
  shows "chain_for (set_shard t (key_shard t k) (AList.update k ch (dt_shards t ! key_shard t k)))
       = (chain_for t)(k \<mapsto> ch)"
  using assms by (subst chain_for_set_shard [where k = k]) (auto simp: table_wf_def update_conv')

lemma chain_for_delete:
  assumes "table_wf t"
  shows "chain_for (set_shard t (key_shard t k) (AList.delete k (dt_shards t ! key_shard t k)))
       = (chain_for t)(k := None)"
  using assms by (subst chain_for_set_shard [where k = k]) (auto simp: table_wf_def delete_conv')

text \<open>The four updates in terms of one rewritten shard.\<close>

lemma push_delta_eq:
  "push_delta k d t =
     set_shard t (key_shard t k) (AList.update k
       (d # (case chain_for t k of None \<Rightarrow> [] | Some c \<Rightarrow> c)) (dt_shards t ! key_shard t k))"
  by (simp add: push_delta_def set_shard_def chain_for_def chain_push_def Let_def)

lemma stamp_commit_for_txn_eq:
  "stamp_commit_for_txn k x c t =
     (case chain_for t k of None \<Rightarrow> t
      | Some ch \<Rightarrow> set_shard t (key_shard t k)
          (AList.update k (stamp_txn x c ch) (dt_shards t ! key_shard t k)))"
  by (simp add: stamp_commit_for_txn_def set_shard_def chain_for_def Let_def split: option.splits)

lemma remove_deltas_for_txn_eq:
  "remove_deltas_for_txn k x t =
     (case chain_for t k of None \<Rightarrow> t
      | Some ch \<Rightarrow> set_shard t (key_shard t k)
          (if remove_txn x ch = [] then AList.delete k (dt_shards t ! key_shard t k)
           else AList.update k (remove_txn x ch) (dt_shards t ! key_shard t k)))"
  by (simp add: remove_deltas_for_txn_def set_shard_def chain_for_def Let_def split: option.splits)

lemma chain_for_nonempty: "table_wf t \<Longrightarrow> chain_for t k \<noteq> Some []"
  using table_wf_shard(2) [of t k _ k] map_of_SomeD [of _ k "[]"] by (auto simp: chain_for_def)

section \<open>Draining\<close>

lemma drain_keys_eq:
  assumes "distinct ks" "distinct (map fst g)" "set ks \<subseteq> fst ` set g"
  shows "drain_keys ks g out =
    (filter (\<lambda>(k, ch). k \<notin> set ks) g, out @ map (\<lambda>k. drained_entry k (the (map_of g k))) ks)"
  using assms
proof (induction ks arbitrary: g out)
  case Nil
  then show ?case by (simp add: case_prod_unfold)
next
  case (Cons k ks)
  let ?g = "AList.delete k g"
  from Cons.prems(3) obtain ch where ch: "map_of g k = Some ch"
    by (fastforce simp: dom_map_of_conv_image_fst [symmetric])
  have "set ks \<subseteq> fst ` set ?g"
  proof
    fix k' assume "k' \<in> set ks"
    with Cons.prems(1,3) have "k' \<noteq> k" "map_of g k' \<noteq> None"
      by (auto simp: map_of_eq_None_iff)
    then have "map_of ?g k' \<noteq> None" by simp
    then show "k' \<in> fst ` set ?g" by (metis map_of_eq_None_iff)
  qed
  then have "drain_keys ks ?g (out @ [drained_entry k ch]) =
    (filter (\<lambda>(k, ch). k \<notin> set ks) ?g,
     (out @ [drained_entry k ch]) @ map (\<lambda>k. drained_entry k (the (map_of ?g k))) ks)"
    using Cons.IH [of ?g] Cons.prems(1,2) by (simp add: distinct_delete)
  moreover have "filter (\<lambda>(k, ch). k \<notin> set ks) ?g = filter (\<lambda>(k', ch). k' \<notin> set (k # ks)) g"
    by (induction g) auto
  moreover have "map (\<lambda>k. drained_entry k (the (map_of ?g k))) ks =
      map (\<lambda>k. drained_entry k (the (map_of g k))) ks"
    by (rule map_cong) (use Cons.prems(1) in \<open>auto simp: delete_conv'\<close>)
  ultimately show ?case using ch by simp
qed

definition unsafe_entries :: "nat option \<Rightarrow> shard \<Rightarrow> shard" where
  "unsafe_entries wm g = filter (\<lambda>(k, ch). \<not> all_safe_to_vacuum wm ch) g"

definition safe_entries :: "nat option \<Rightarrow> shard \<Rightarrow> drained" where
  "safe_entries wm g =
     map (\<lambda>(k, ch). drained_entry k ch) (filter (\<lambda>(k, ch). all_safe_to_vacuum wm ch) g)"

lemma drain_shard_eq:
  assumes "distinct (map fst g)"
  shows "drain_keys (vacuumable_keys wm g) g out = (unsafe_entries wm g, out @ safe_entries wm g)"
proof -
  let ?safe = "\<lambda>(k, ch). all_safe_to_vacuum wm ch"
  have "distinct (vacuumable_keys wm g)"
    using assms by (simp add: vacuumable_keys_def distinct_map_filter)
  moreover have "set (vacuumable_keys wm g) \<subseteq> fst ` set g"
    by (auto simp: vacuumable_keys_def)
  moreover have "filter (\<lambda>(k, ch). k \<notin> set (vacuumable_keys wm g)) g = unsafe_entries wm g"
    unfolding unsafe_entries_def
  proof (rule filter_cong [OF refl], clarify)
    fix k ch assume kch: "(k, ch) \<in> set g"
    have "all_safe_to_vacuum wm ch" if "(k, ch') \<in> set g" "all_safe_to_vacuum wm ch'" for ch'
      using eq_key_imp_eq_value [OF assms kch that(1)] that(2) by simp
    then show "k \<notin> set (vacuumable_keys wm g) \<longleftrightarrow> \<not> all_safe_to_vacuum wm ch"
      using kch by (force simp: vacuumable_keys_def)
  qed
  moreover have "map (\<lambda>k. drained_entry k (the (map_of g k))) (vacuumable_keys wm g) = safe_entries wm g"
    using assms by (auto simp: vacuumable_keys_def safe_entries_def)
  ultimately show ?thesis by (simp add: drain_keys_eq [OF _ assms])
qed

lemma drain_shards_eq:
  assumes "\<And>g. g \<in> set gs \<Longrightarrow> distinct (map fst g)"
  shows "drain_shards wm gs out =
    (map (unsafe_entries wm) gs, out @ concat (map (safe_entries wm) gs))"
  using assms by (induction gs arbitrary: out) (auto simp: drain_shard_eq)

lemma drain_vacuumable_eq:
  assumes "table_wf t"
  shows "drain_vacuumable wm t =
    (concat (map (safe_entries wm) (dt_shards t)),
     t\<lparr>dt_shards := map (unsafe_entries wm) (dt_shards t)\<rparr>)"
proof -
  have "\<And>g. g \<in> set (dt_shards t) \<Longrightarrow> distinct (map fst g)"
    using assms by (auto simp: table_wf_def shard_ok_def in_set_conv_nth)
  then show ?thesis by (simp add: drain_vacuumable_def drain_shards_eq)
qed

lemma map_of_unsafe_entries:
  "distinct (map fst g) \<Longrightarrow>
   map_of (unsafe_entries wm g) k =
     (case map_of g k of None \<Rightarrow> None
      | Some ch \<Rightarrow> (if all_safe_to_vacuum wm ch then None else Some ch))"
  by (induction g)
    (auto simp: unsafe_entries_def map_of_eq_None_iff split: option.splits)

lemma chain_for_drained:
  assumes "table_wf t"
  shows "chain_for (snd (drain_vacuumable wm t)) k =
    (case chain_for t k of None \<Rightarrow> None
     | Some ch \<Rightarrow> (if all_safe_to_vacuum wm ch then None else Some ch))"
proof -
  have "key_shard t k < length (dt_shards t)"
    using assms by (simp add: table_wf_def key_shard_less)
  then show ?thesis
    using map_of_unsafe_entries [OF table_wf_distinct [OF assms, of k], of wm k]
    by (simp add: drain_vacuumable_eq [OF assms] chain_for_def key_shard_def)
qed

lemma in_shard_chain_for:
  assumes "table_wf t"
  shows "(\<exists>g\<in>set (dt_shards t). (k, ch) \<in> set g) \<longleftrightarrow> chain_for t k = Some ch"
proof
  assume "\<exists>g\<in>set (dt_shards t). (k, ch) \<in> set g"
  then obtain i where i: "i < length (dt_shards t)" "(k, ch) \<in> set (dt_shards t ! i)"
    by (metis in_set_conv_nth)
  with assms have "key_shard t k = i" "distinct (map fst (dt_shards t ! i))"
    by (auto simp: table_wf_def shard_ok_def)
  with i show "chain_for t k = Some ch" by (simp add: chain_for_def)
next
  assume "chain_for t k = Some ch"
  then have "(k, ch) \<in> set (dt_shards t ! key_shard t k)"
    by (simp add: chain_for_def map_of_SomeD)
  then show "\<exists>g\<in>set (dt_shards t). (k, ch) \<in> set g"
    using assms key_shard_less [of t k] by (auto simp: table_wf_def)
qed

lemma set_drained:
  assumes "table_wf t"
  shows "set (fst (drain_vacuumable wm t)) =
    {drained_entry k ch | k ch. chain_for t k = Some ch \<and> all_safe_to_vacuum wm ch}"
proof -
  have "set (fst (drain_vacuumable wm t)) =
    {drained_entry k ch | k ch. (\<exists>g\<in>set (dt_shards t). (k, ch) \<in> set g) \<and> all_safe_to_vacuum wm ch}"
    by (force simp: drain_vacuumable_eq [OF assms] safe_entries_def)
  then show ?thesis using in_shard_chain_for [OF assms] by simp
qed

lemma table_wf_drain: "table_wf t \<Longrightarrow> table_wf (snd (drain_vacuumable wm t))"
  by (auto simp: drain_vacuumable_eq table_wf_def shard_ok_def key_shard_def unsafe_entries_def
      distinct_map_filter)

lemma distinct_safe_entries:
  assumes "\<And>i. i < length gs \<Longrightarrow> distinct (map fst (gs ! i))"
    and "\<And>i k ch. i < length gs \<Longrightarrow> (k, ch) \<in> set (gs ! i) \<Longrightarrow> f k = i + j"
  shows "distinct (map fst (concat (map (safe_entries wm) gs)))"
  using assms
proof (induction gs arbitrary: j)
  case Nil
  then show ?case by simp
next
  case (Cons g gs)
  have keys: "map fst (safe_entries wm h) = map fst (filter (\<lambda>(k, ch). all_safe_to_vacuum wm ch) h)" for h
    by (auto simp: safe_entries_def drained_entry_def)
  have g: "distinct (map fst (safe_entries wm g))"
    using Cons.prems(1) [of 0] by (simp add: keys distinct_map_filter)
  have gs: "distinct (map fst (concat (map (safe_entries wm) gs)))"
  proof (rule Cons.IH [where j = "Suc j"])
    show "distinct (map fst (gs ! i))" if "i < length gs" for i
      using Cons.prems(1) [of "Suc i"] that by simp
    show "f k = i + Suc j" if "i < length gs" "(k, ch) \<in> set (gs ! i)" for i k ch
      using Cons.prems(2) [of "Suc i" k ch] that by simp
  qed
  have "f k = j" if "k \<in> set (map fst (safe_entries wm g))" for k
    using Cons.prems(2) [of 0 k] that by (auto simp: keys)
  moreover have "f k > j" if "k \<in> set (map fst (concat (map (safe_entries wm) gs)))" for k
  proof -
    from that obtain h ch where "h \<in> set gs" "(k, ch) \<in> set h"
      by (auto simp: safe_entries_def drained_entry_def)
    then obtain i where "i < length gs" "(k, ch) \<in> set (gs ! i)" by (metis in_set_conv_nth)
    with Cons.prems(2) [of "Suc i" k ch] show ?thesis by simp
  qed
  ultimately have "set (map fst (safe_entries wm g)) \<inter> set (map fst (concat (map (safe_entries wm) gs))) = {}"
    by (metis (no_types, lifting) disjoint_iff less_irrefl)
  with g gs show ?case by simp
qed

lemma distinct_drained: "table_wf t \<Longrightarrow> distinct (map fst (fst (drain_vacuumable wm t)))"
  unfolding drain_vacuumable_eq fst_conv
  by (rule distinct_safe_entries [where f = "key_shard t" and j = 0])
    (auto simp: table_wf_def shard_ok_def)

interpretation dt: delta_store table_wf chain_for push_delta stamp_commit_for_txn
  remove_deltas_for_txn drain_vacuumable
proof unfold_locales
  fix t k d x c wm
  assume wf: "table_wf t"
  show "chain_for (push_delta k d t) =
      (chain_for t)(k \<mapsto> d # (case chain_for t k of None \<Rightarrow> [] | Some c \<Rightarrow> c))"
    by (simp add: push_delta_eq chain_for_update [OF wf])
  show "chain_for (stamp_commit_for_txn k x c t) =
      (chain_for t)(k := map_option (stamp_txn x c) (chain_for t k))"
    by (cases "chain_for t k") (auto simp: stamp_commit_for_txn_eq chain_for_update [OF wf])
  show "chain_for (remove_deltas_for_txn k x t) = (chain_for t)(k := (case chain_for t k of None \<Rightarrow> None
      | Some ch \<Rightarrow> (if remove_txn x ch = [] then None else Some (remove_txn x ch))))"
    by (cases "chain_for t k")
      (auto simp: remove_deltas_for_txn_eq chain_for_update [OF wf] chain_for_delete [OF wf])
  show "chain_for (snd (drain_vacuumable wm t)) k = (case chain_for t k of None \<Rightarrow> None
      | Some ch \<Rightarrow> (if all_safe_to_vacuum wm ch then None else Some ch))"
    by (rule chain_for_drained [OF wf])
  show "set (fst (drain_vacuumable wm t)) =
      {drained_entry k ch | k ch. chain_for t k = Some ch \<and> all_safe_to_vacuum wm ch}"
    by (rule set_drained [OF wf])
  show "distinct (map fst (fst (drain_vacuumable wm t)))"
    by (rule distinct_drained [OF wf])
  show "chain_for t k \<noteq> Some []"
    by (rule chain_for_nonempty [OF wf])
  show "table_wf (push_delta k d t)"
    by (simp add: push_delta_eq table_wf_update [OF wf])
  show "table_wf (stamp_commit_for_txn k x c t)"
    using chain_for_nonempty [OF wf, of k] wf
    by (cases "chain_for t k") (auto simp: stamp_commit_for_txn_eq stamp_txn_def intro!: table_wf_update)
  show "table_wf (remove_deltas_for_txn k x t)"
    using wf by (cases "chain_for t k")
      (auto simp: remove_deltas_for_txn_eq intro!: table_wf_update table_wf_delete)
  show "table_wf (snd (drain_vacuumable wm t))"
    by (rule table_wf_drain [OF wf])
qed

end
