(* ===== verification/Index.thy ===== *)
theory Index
  imports Entities "HOL-Library.AList"
begin

text \<open>
  The in-memory indexes of \<^verbatim>\<open>crates/ermya-graph/src/index/mod.rs\<close>: the label index
  (label to set of ids) and the property index (label, key and value to set of node ids, with
  its ordered companion for 64-bit integers). Hash maps and the B-tree map are association
  lists with distinct keys; hash sets are sets. The nested maps are kept as the code keeps
  them, empty inner maps removed on the way out.

  The locale \<open>id_index\<close> is the contract a client relies on: an index is the relation
  between keys and ids that its inserts and removes build. Both indexes are interpretations.
\<close>

section \<open>Hash-map entries\<close>

text \<open>\<^verbatim>\<open>map.entry(k).or_default()\<close> followed by an update of the entry.\<close>

definition alter_default :: "'v \<Rightarrow> ('v \<Rightarrow> 'v) \<Rightarrow> 'k \<Rightarrow> ('k \<times> 'v) list \<Rightarrow> ('k \<times> 'v) list" where
  "alter_default z f k m =
     AList.update k (f (case map_of m k of None \<Rightarrow> z | Some v \<Rightarrow> v)) m"

text \<open>\<^verbatim>\<open>if let Some(v) = map.get_mut(k)\<close>: update the entry, remove it when it is empty.\<close>

definition alter_prune :: "('v \<Rightarrow> bool) \<Rightarrow> ('v \<Rightarrow> 'v) \<Rightarrow> 'k \<Rightarrow> ('k \<times> 'v) list \<Rightarrow> ('k \<times> 'v) list" where
  "alter_prune emp f k m =
     (case map_of m k of
        None \<Rightarrow> m
      | Some v \<Rightarrow> (let v' = f v in if emp v' then AList.delete k m else AList.update k v' m))"

section \<open>The label index\<close>

type_synonym label_index = "(rstring \<times> nat set) list"

definition label_index_new :: label_index where
  "label_index_new = []"

definition label_insert :: "rstring \<Rightarrow> nat \<Rightarrow> label_index \<Rightarrow> label_index" where
  "label_insert l i m =
     (case map_of m l of
        Some ids \<Rightarrow> AList.update l (insert i ids) m
      | None \<Rightarrow> AList.update l {i} m)"

definition label_remove :: "rstring \<Rightarrow> nat \<Rightarrow> label_index \<Rightarrow> label_index" where
  "label_remove l i m = alter_prune (\<lambda>s. s = {}) (\<lambda>s. s - {i}) l m"

definition ids_for :: "label_index \<Rightarrow> rstring \<Rightarrow> nat set" where
  "ids_for m l = (case map_of m l of None \<Rightarrow> {} | Some s \<Rightarrow> s)"

definition label_clear :: "label_index \<Rightarrow> label_index" where
  "label_clear m = []"

definition label_entry_count :: "label_index \<Rightarrow> nat" where
  "label_entry_count m = (\<Sum>(l, s)\<leftarrow>m. card s)"

definition distinct_labels :: "label_index \<Rightarrow> rstring set" where
  "distinct_labels m = fst ` set m"

section \<open>The property index\<close>

datatype property_value_key =
    VkString rstring
  | VkI64 u64
  | VkBool bool
  | VkBytes bytes
  | VkF64Bits u64

fun value_key :: "property \<Rightarrow> property_value_key" where
  "value_key (PropString s) = VkString s"
| "value_key (PropI64 v) = VkI64 v"
| "value_key (PropF64 v) = VkF64Bits v"
| "value_key (PropBool b) = VkBool b"
| "value_key (PropBytes v) = VkBytes v"

type_synonym 'v value_map = "('v \<times> nat set) list"
type_synonym 'v nested_map = "(rstring \<times> (rstring \<times> 'v value_map) list) list"

record property_index =
  pi_index :: "property_value_key nested_map"
  pi_ordered :: "u64 nested_map"

definition property_index_new :: property_index where
  "property_index_new = \<lparr>pi_index = [], pi_ordered = []\<rparr>"

definition nested_insert :: "rstring \<Rightarrow> rstring \<Rightarrow> 'v \<Rightarrow> nat \<Rightarrow> 'v nested_map \<Rightarrow> 'v nested_map" where
  "nested_insert l k v i =
     alter_default [] (alter_default [] (alter_default {} (insert i) v) k) l"

definition nested_remove :: "rstring \<Rightarrow> rstring \<Rightarrow> 'v \<Rightarrow> nat \<Rightarrow> 'v nested_map \<Rightarrow> 'v nested_map" where
  "nested_remove l k v i =
     alter_prune (\<lambda>m. m = [])
       (alter_prune (\<lambda>m. m = []) (alter_prune (\<lambda>s. s = {}) (\<lambda>s. s - {i}) v) k) l"

definition pindex_insert ::
  "rstring \<Rightarrow> rstring \<Rightarrow> property \<Rightarrow> nat \<Rightarrow> property_index \<Rightarrow> property_index" where
  "pindex_insert l k p i x =
     (let x' = x\<lparr>pi_index := nested_insert l k (value_key p) i (pi_index x)\<rparr>
      in case p of
           PropI64 v \<Rightarrow> x'\<lparr>pi_ordered := nested_insert l k v i (pi_ordered x')\<rparr>
         | _ \<Rightarrow> x')"

definition pindex_remove ::
  "rstring \<Rightarrow> rstring \<Rightarrow> property \<Rightarrow> nat \<Rightarrow> property_index \<Rightarrow> property_index" where
  "pindex_remove l k p i x =
     (let x' = x\<lparr>pi_index := nested_remove l k (value_key p) i (pi_index x)\<rparr>
      in case p of
           PropI64 v \<Rightarrow> x'\<lparr>pi_ordered := nested_remove l k v i (pi_ordered x')\<rparr>
         | _ \<Rightarrow> x')"

definition nested_get :: "'v nested_map \<Rightarrow> rstring \<Rightarrow> rstring \<Rightarrow> 'v \<Rightarrow> nat set option" where
  "nested_get m l k v =
     Option.bind (map_of m l) (\<lambda>by_key. Option.bind (map_of by_key k) (\<lambda>by_value. map_of by_value v))"

definition lookup_set :: "property_index \<Rightarrow> rstring \<Rightarrow> rstring \<Rightarrow> property \<Rightarrow> nat set option" where
  "lookup_set x l k p = nested_get (pi_index x) l k (value_key p)"

definition pindex_lookup :: "property_index \<Rightarrow> rstring \<Rightarrow> rstring \<Rightarrow> property \<Rightarrow> nat set" where
  "pindex_lookup x l k p = (case lookup_set x l k p of None \<Rightarrow> {} | Some s \<Rightarrow> s)"

fun pindex_remove_node :: "rstring \<Rightarrow> properties \<Rightarrow> nat \<Rightarrow> property_index \<Rightarrow> property_index" where
  "pindex_remove_node l [] i x = x"
| "pindex_remove_node l ((k, v) # ps) i x = pindex_remove_node l ps i (pindex_remove l k v i x)"

fun pindex_insert_node :: "rstring \<Rightarrow> properties \<Rightarrow> nat \<Rightarrow> property_index \<Rightarrow> property_index" where
  "pindex_insert_node l [] i x = x"
| "pindex_insert_node l ((k, v) # ps) i x = pindex_insert_node l ps i (pindex_insert l k v i x)"

definition in_half_open :: "u64 option \<Rightarrow> u64 option \<Rightarrow> u64 \<Rightarrow> bool" where
  "in_half_open lo hi v \<longleftrightarrow>
     (case lo of None \<Rightarrow> True | Some a \<Rightarrow> sint a \<le> sint v) \<and>
     (case hi of None \<Rightarrow> True | Some b \<Rightarrow> sint v < sint b)"

definition range_i64 ::
  "property_index \<Rightarrow> rstring \<Rightarrow> rstring \<Rightarrow> u64 option \<Rightarrow> u64 option \<Rightarrow> nat set" where
  "range_i64 x l k lo hi =
     (case Option.bind (map_of (pi_ordered x) l) (\<lambda>by_key. map_of by_key k) of
        None \<Rightarrow> {}
      | Some tree \<Rightarrow> \<Union> (snd ` set (filter (\<lambda>(v, s). in_half_open lo hi v) tree)))"

definition iter_i64_desc :: "property_index \<Rightarrow> rstring \<Rightarrow> rstring \<Rightarrow> u64 value_map" where
  "iter_i64_desc x l k =
     (case Option.bind (map_of (pi_ordered x) l) (\<lambda>by_key. map_of by_key k) of
        None \<Rightarrow> []
      | Some tree \<Rightarrow> rev (sort_key (\<lambda>(v, s). sint v) tree))"

definition ids_with_property :: "property_index \<Rightarrow> rstring \<Rightarrow> rstring \<Rightarrow> nat set" where
  "ids_with_property x l k =
     (case Option.bind (map_of (pi_index x) l) (\<lambda>by_key. map_of by_key k) of
        None \<Rightarrow> {}
      | Some by_value \<Rightarrow> \<Union> (snd ` set by_value))"

definition pindex_clear :: "property_index \<Rightarrow> property_index" where
  "pindex_clear x = property_index_new"

section \<open>Entries: lemmas\<close>

lemma map_of_alter_default:
  "map_of (alter_default z f k m) k' =
     (if k' = k then Some (f (case map_of m k of None \<Rightarrow> z | Some v \<Rightarrow> v)) else map_of m k')"
  by (simp add: alter_default_def update_conv')

lemma map_of_alter_prune:
  "map_of (alter_prune emp f k m) k' =
     (if k' = k then (case map_of m k of None \<Rightarrow> None
        | Some v \<Rightarrow> (if emp (f v) then None else Some (f v))) else map_of m k')"
  by (simp add: alter_prune_def update_conv' delete_conv' Let_def split: option.splits)

lemma distinct_alter_default:
  "distinct (map fst m) \<Longrightarrow> distinct (map fst (alter_default z f k m))"
  by (simp add: alter_default_def distinct_update)

lemma distinct_alter_prune:
  "distinct (map fst m) \<Longrightarrow> distinct (map fst (alter_prune emp f k m))"
  by (simp add: alter_prune_def distinct_update distinct_delete Let_def split: option.splits)

section \<open>The contract of an index\<close>

locale id_index =
  fixes ids :: "'m \<Rightarrow> 'k \<Rightarrow> nat set"
    and ins :: "'k \<Rightarrow> nat \<Rightarrow> 'm \<Rightarrow> 'm"
    and rem :: "'k \<Rightarrow> nat \<Rightarrow> 'm \<Rightarrow> 'm"
    and none :: 'm
  assumes ids_none: "ids none k = {}"
    and ids_ins: "ids (ins k i m) k' = (if k' = k then insert i (ids m k') else ids m k')"
    and ids_rem: "ids (rem k i m) k' = (if k' = k then ids m k' - {i} else ids m k')"
begin

definition entries :: "'m \<Rightarrow> ('k \<times> nat) set" where
  "entries m = {(k, i). i \<in> ids m k}"

lemma entries_none: "entries none = {}"
  by (simp add: entries_def ids_none)

lemma entries_ins: "entries (ins k i m) = insert (k, i) (entries m)"
  by (auto simp: entries_def ids_ins split: if_splits)

lemma entries_rem: "entries (rem k i m) = entries m - {(k, i)}"
  by (auto simp: entries_def ids_rem split: if_splits)

lemma entries_ins_all: "entries (fold (\<lambda>k. ins k i) ks m) = (\<lambda>k. (k, i)) ` set ks \<union> entries m"
  by (induction ks arbitrary: m) (auto simp: entries_ins)

lemma entries_rem_all: "entries (fold (\<lambda>k. rem k i) ks m) = entries m - (\<lambda>k. (k, i)) ` set ks"
  by (induction ks arbitrary: m) (auto simp: entries_rem)

lemma ins_idempotent: "entries (ins k i (ins k i m)) = entries (ins k i m)"
  by (simp add: entries_ins)

lemma rem_ins_fresh: "i \<notin> ids m k \<Longrightarrow> entries (rem k i (ins k i m)) = entries m"
  by (auto simp: entries_ins entries_rem) (simp add: entries_def)

end

lemma ids_for_label_insert:
  "ids_for (label_insert l i m) l' = (if l' = l then insert i (ids_for m l') else ids_for m l')"
  by (simp add: ids_for_def label_insert_def update_conv' split: option.splits)

lemma ids_for_label_remove:
  "ids_for (label_remove l i m) l' = (if l' = l then ids_for m l' - {i} else ids_for m l')"
  by (auto simp: ids_for_def label_remove_def map_of_alter_prune split: option.splits)

lemma ids_for_new: "ids_for label_index_new l = {}"
  by (simp add: label_index_new_def ids_for_def)

interpretation lix: id_index ids_for label_insert label_remove label_index_new
  by unfold_locales (simp_all add: ids_for_label_insert ids_for_label_remove ids_for_new)

subsection \<open>The nested map as an index\<close>

definition nested_ids :: "'v nested_map \<Rightarrow> rstring \<times> rstring \<times> 'v \<Rightarrow> nat set" where
  "nested_ids m = (\<lambda>(l, k, v). case nested_get m l k v of None \<Rightarrow> {} | Some s \<Rightarrow> s)"

lemma nested_get_insert:
  "nested_get (nested_insert l k v i m) l' k' v' =
     (if (l', k', v') = (l, k, v)
      then Some (insert i (case nested_get m l k v of None \<Rightarrow> {} | Some s \<Rightarrow> s))
      else nested_get m l' k' v')"
  by (auto simp: nested_get_def nested_insert_def map_of_alter_default split: option.splits)

lemma bind_prune_list:
  assumes "g [] = None"
  shows "Option.bind (map_of (alter_prune (\<lambda>m. m = []) f k m) k') g =
    (if k' = k then Option.bind (map_of m k) (\<lambda>v. g (f v)) else Option.bind (map_of m k') g)"
proof (cases "map_of m k")
  case None
  then show ?thesis by (simp add: map_of_alter_prune)
next
  case (Some v)
  have "g (f v) = None" if "f v = []" using assms that by simp
  with Some show ?thesis by (auto simp only: map_of_alter_prune split: option.splits if_splits) auto
qed

lemma nested_get_remove:
  "nested_get (nested_remove l k v i m) l' k' v' =
     (if (l', k', v') = (l, k, v)
      then (case nested_get m l k v of None \<Rightarrow> None
            | Some s \<Rightarrow> (if s - {i} = {} then None else Some (s - {i})))
      else nested_get m l' k' v')"
proof -
  let ?f = "alter_prune (\<lambda>s. s = {}) (\<lambda>s. s - {i}) v"
  have "nested_get (nested_remove l k v i m) l' k' v' =
    (if l' = l \<and> k' = k
     then Option.bind (map_of m l) (\<lambda>bk. Option.bind (map_of bk k) (\<lambda>bv. map_of (?f bv) v'))
     else nested_get m l' k' v')"
    by (simp add: nested_get_def nested_remove_def bind_prune_list)
  then show ?thesis
    by (auto simp: nested_get_def map_of_alter_prune split: bind_splits)
qed

lemma nested_ids_insert:
  "nested_ids (nested_insert l k v i m) q =
     (if q = (l, k, v) then insert i (nested_ids m q) else nested_ids m q)"
  by (cases q) (auto simp: nested_ids_def nested_get_insert)

lemma nested_ids_remove:
  "nested_ids (nested_remove l k v i m) q =
     (if q = (l, k, v) then nested_ids m q - {i} else nested_ids m q)"
  by (cases q) (auto simp: nested_ids_def nested_get_remove split: option.splits)

lemma nested_ids_Nil: "nested_ids [] q = {}"
  by (simp add: nested_ids_def nested_get_def case_prod_unfold)

interpretation nix: id_index nested_ids "\<lambda>(l, k, v). nested_insert l k v"
  "\<lambda>(l, k, v). nested_remove l k v" "[]"
  by unfold_locales (simp_all add: nested_ids_insert nested_ids_remove nested_ids_Nil case_prod_unfold)

section \<open>The property index: lemmas\<close>

text \<open>What the hash side and the ordered side hold, as relations.\<close>

abbreviation hash_entries :: "property_index \<Rightarrow> ((rstring \<times> rstring \<times> property_value_key) \<times> nat) set" where
  "hash_entries x \<equiv> nix.entries (pi_index x)"

abbreviation ordered_entries :: "property_index \<Rightarrow> ((rstring \<times> rstring \<times> u64) \<times> nat) set" where
  "ordered_entries x \<equiv> nix.entries (pi_ordered x)"

text \<open>The ordered side holds exactly the 64-bit integers of the hash side.\<close>

definition lockstep :: "property_index \<Rightarrow> bool" where
  "lockstep x \<longleftrightarrow> (\<forall>l k v i. ((l, k, v), i) \<in> ordered_entries x \<longleftrightarrow> ((l, k, VkI64 v), i) \<in> hash_entries x)"

lemma value_key_inj: "value_key p = value_key q \<longleftrightarrow> p = q"
  by (cases p; cases q) auto

lemma hash_entries_insert [simp]:
  "hash_entries (pindex_insert l k p i x) = insert ((l, k, value_key p), i) (hash_entries x)"
  using nix.entries_ins [of "(l, k, value_key p)" i "pi_index x"]
  by (cases p) (simp_all add: pindex_insert_def)

lemma hash_entries_remove [simp]:
  "hash_entries (pindex_remove l k p i x) = hash_entries x - {((l, k, value_key p), i)}"
  using nix.entries_rem [of "(l, k, value_key p)" i "pi_index x"]
  by (cases p) (simp_all add: pindex_remove_def)

lemma ordered_entries_insert [simp]:
  "ordered_entries (pindex_insert l k p i x) =
     (case p of PropI64 v \<Rightarrow> insert ((l, k, v), i) (ordered_entries x) | _ \<Rightarrow> ordered_entries x)"
  using nix.entries_ins [of "(l, k, _)" i "pi_ordered x"]
  by (cases p) (simp_all add: pindex_insert_def)

lemma ordered_entries_remove [simp]:
  "ordered_entries (pindex_remove l k p i x) =
     (case p of PropI64 v \<Rightarrow> ordered_entries x - {((l, k, v), i)} | _ \<Rightarrow> ordered_entries x)"
  using nix.entries_rem [of "(l, k, _)" i "pi_ordered x"]
  by (cases p) (simp_all add: pindex_remove_def)

lemma in_lookup: "i \<in> pindex_lookup x l k p \<longleftrightarrow> ((l, k, value_key p), i) \<in> hash_entries x"
  by (simp add: nix.entries_def nested_ids_def pindex_lookup_def lookup_set_def)

lemma lockstep_new: "lockstep property_index_new"
  by (simp add: lockstep_def property_index_new_def nix.entries_none)

lemma lockstep_insert: "lockstep x \<Longrightarrow> lockstep (pindex_insert l k p i x)"
  by (cases p) (auto simp: lockstep_def)

lemma lockstep_remove: "lockstep x \<Longrightarrow> lockstep (pindex_remove l k p i x)"
  by (cases p) (auto simp: lockstep_def)

lemma lockstep_insert_node: "lockstep x \<Longrightarrow> lockstep (pindex_insert_node l ps i x)"
  by (induction l ps i x rule: pindex_insert_node.induct) (auto intro: lockstep_insert)

lemma lockstep_remove_node: "lockstep x \<Longrightarrow> lockstep (pindex_remove_node l ps i x)"
  by (induction l ps i x rule: pindex_remove_node.induct) (auto intro: lockstep_remove)

definition prop_keys :: "rstring \<Rightarrow> properties \<Rightarrow> (rstring \<times> rstring \<times> property_value_key) set" where
  "prop_keys l ps = (\<lambda>(k, p). (l, k, value_key p)) ` set ps"

lemma hash_entries_insert_node [simp]:
  "hash_entries (pindex_insert_node l ps i x) = prop_keys l ps \<times> {i} \<union> hash_entries x"
  by (induction l ps i x rule: pindex_insert_node.induct) (auto simp: prop_keys_def)

lemma hash_entries_remove_node [simp]:
  "hash_entries (pindex_remove_node l ps i x) = hash_entries x - prop_keys l ps \<times> {i}"
  by (induction l ps i x rule: pindex_remove_node.induct) (auto simp: prop_keys_def)

text \<open>No empty set and no empty inner map is ever stored; keys are distinct at every level.\<close>

definition vmap_ok :: "'v value_map \<Rightarrow> bool" where
  "vmap_ok m \<longleftrightarrow> distinct (map fst m) \<and> (\<forall>s\<in>snd ` set m. s \<noteq> {})"

definition kmap_ok :: "(rstring \<times> 'v value_map) list \<Rightarrow> bool" where
  "kmap_ok m \<longleftrightarrow> distinct (map fst m) \<and> (\<forall>s\<in>snd ` set m. vmap_ok s \<and> s \<noteq> [])"

definition nested_ok :: "'v nested_map \<Rightarrow> bool" where
  "nested_ok m \<longleftrightarrow> distinct (map fst m) \<and> (\<forall>s\<in>snd ` set m. kmap_ok s \<and> s \<noteq> [])"

lemma snd_alist_update: "distinct (map fst m) \<Longrightarrow> x \<in> snd ` set (AList.update k v m) \<Longrightarrow> x = v \<or> x \<in> snd ` set m"
  by (induction m) (auto split: if_splits)

lemma snd_alist_delete: "x \<in> snd ` set (AList.delete k m) \<Longrightarrow> x \<in> snd ` set m"
  by (auto simp: AList.delete_eq)

lemma alter_default_values:
  assumes "distinct (map fst m)" "\<forall>s\<in>snd ` set m. P s" "\<And>v. P v \<or> v = z \<Longrightarrow> P (f v)"
  shows "\<forall>s\<in>snd ` set (alter_default z f k m). P s"
proof
  fix s assume "s \<in> snd ` set (alter_default z f k m)"
  then have "s = f (case map_of m k of None \<Rightarrow> z | Some v \<Rightarrow> v) \<or> s \<in> snd ` set m"
    using snd_alist_update [OF assms(1)] by (simp add: alter_default_def)
  moreover have "P (f (case map_of m k of None \<Rightarrow> z | Some v \<Rightarrow> v))"
    using assms(2,3) by (force split: option.splits dest: map_of_SomeD)
  ultimately show "P s" using assms(2) by auto
qed

lemma alter_prune_values:
  assumes "distinct (map fst m)" "\<forall>s\<in>snd ` set m. P s" "\<And>v. P v \<Longrightarrow> \<not> emp (f v) \<Longrightarrow> P (f v)"
  shows "\<forall>s\<in>snd ` set (alter_prune emp f k m). P s"
proof
  fix s assume s: "s \<in> snd ` set (alter_prune emp f k m)"
  show "P s"
  proof (cases "map_of m k")
    case None
    with s assms(2) show ?thesis by (auto simp: alter_prune_def)
  next
    case (Some v)
    then have v: "P v" using assms(2) by (force dest: map_of_SomeD)
    from s Some have "(\<not> emp (f v) \<and> s = f v) \<or> s \<in> snd ` set m"
      using snd_alist_update [OF assms(1), of s k "f v"] snd_alist_delete [of s k m]
      by (cases "emp (f v)") (simp_all add: alter_prune_def)
    with v assms(2,3) show ?thesis by auto
  qed
qed

lemma vmap_ok_Nil [simp]: "vmap_ok []" and kmap_ok_Nil [simp]: "kmap_ok []"
  by (simp_all add: vmap_ok_def kmap_ok_def)

lemma vmap_ok_insert: "vmap_ok m \<Longrightarrow> vmap_ok (alter_default {} (insert i) v m)"
  unfolding vmap_ok_def
  by (intro conjI distinct_alter_default alter_default_values) auto

lemma vmap_ok_remove: "vmap_ok m \<Longrightarrow> vmap_ok (alter_prune (\<lambda>s. s = {}) (\<lambda>s. s - {i}) v m)"
  unfolding vmap_ok_def
  by (intro conjI distinct_alter_prune alter_prune_values) auto

lemma alter_default_nonempty: "alter_default z f k m \<noteq> []"
  by (simp add: alter_default_def)

lemma kmap_ok_insert: "kmap_ok m \<Longrightarrow> kmap_ok (alter_default [] (alter_default {} (insert i) v) k m)"
  unfolding kmap_ok_def
  by (intro conjI distinct_alter_default alter_default_values)
    (auto simp: vmap_ok_insert alter_default_nonempty)

lemma kmap_ok_remove:
  "kmap_ok m \<Longrightarrow> kmap_ok (alter_prune (\<lambda>m. m = []) (alter_prune (\<lambda>s. s = {}) (\<lambda>s. s - {i}) v) k m)"
  unfolding kmap_ok_def
  by (intro conjI distinct_alter_prune alter_prune_values) (auto simp: vmap_ok_remove)

lemma nested_ok_insert: "nested_ok m \<Longrightarrow> nested_ok (nested_insert l k v i m)"
  unfolding nested_ok_def nested_insert_def
  by (intro conjI distinct_alter_default alter_default_values)
    (auto simp: kmap_ok_insert alter_default_nonempty)

lemma nested_ok_remove: "nested_ok m \<Longrightarrow> nested_ok (nested_remove l k v i m)"
  unfolding nested_ok_def nested_remove_def
  by (intro conjI distinct_alter_prune alter_prune_values) (auto simp: kmap_ok_remove)

text \<open>With distinct keys, a range scan of the ordered side returns exactly the ids whose
  value lies in the range.\<close>

lemma tree_ids:
  assumes "nested_ok m" "map_of m l = Some by_key" "map_of by_key k = Some tree"
  shows "(v, s) \<in> set tree \<longleftrightarrow> nested_get m l k v = Some s"
proof -
  have "kmap_ok by_key" using assms(1,2) by (force simp: nested_ok_def dest: map_of_SomeD)
  then have "vmap_ok tree" using assms(3) by (force simp: kmap_ok_def dest: map_of_SomeD)
  then have "distinct (map fst tree)" by (simp add: vmap_ok_def)
  then show ?thesis using assms(2,3) by (simp add: nested_get_def)
qed

lemma range_i64_entries:
  assumes "nested_ok (pi_ordered x)"
  shows "i \<in> range_i64 x l k lo hi \<longleftrightarrow>
    (\<exists>v. in_half_open lo hi v \<and> ((l, k, v), i) \<in> ordered_entries x)"
proof (cases "Option.bind (map_of (pi_ordered x) l) (\<lambda>by_key. map_of by_key k)")
  case None
  then have "nested_get (pi_ordered x) l k v = None" for v
    by (cases "map_of (pi_ordered x) l") (auto simp: nested_get_def)
  with None show ?thesis by (simp add: range_i64_def nix.entries_def nested_ids_def)
next
  case (Some tree)
  then obtain by_key where bk: "map_of (pi_ordered x) l = Some by_key" "map_of by_key k = Some tree"
    by (cases "map_of (pi_ordered x) l") auto
  have "i \<in> range_i64 x l k lo hi \<longleftrightarrow> (\<exists>v s. (v, s) \<in> set tree \<and> in_half_open lo hi v \<and> i \<in> s)"
    by (force simp: range_i64_def Some)
  also have "\<dots> \<longleftrightarrow> (\<exists>v. in_half_open lo hi v \<and> ((l, k, v), i) \<in> ordered_entries x)"
    by (auto simp: tree_ids [OF assms bk] nix.entries_def nested_ids_def split: option.splits)
  finally show ?thesis .
qed

end
