(* ===== verification/Mvcc_Registry.thy ===== *)
theory Mvcc_Registry
  imports Mvcc_Table Index
begin

text \<open>
  The active-transaction registry of \<^verbatim>\<open>crates/ermya-graph/src/mvcc/registry.rs\<close>: which
  transactions are live, the snapshot each holds, the memory it has been charged, the keys it
  wrote and the overlay of its pending inserts. Hash maps are association lists with distinct
  keys; every method is one atomic step under its locks.
\<close>

section \<open>The registry\<close>

datatype adj_direction = Outgoing | Incoming

record txn_overlay =
  ov_node_ids :: "nat set"
  ov_nodes_by_label :: "(rstring \<times> nat set) list"
  ov_adjacency :: "((nat \<times> adj_direction) \<times> nat list) list"

definition overlay_default :: txn_overlay where
  "overlay_default = \<lparr>ov_node_ids = {}, ov_nodes_by_label = [], ov_adjacency = []\<rparr>"

record txn_state =
  ts_start_ts :: nat
  ts_bytes_used :: nat

record registry =
  rg_active :: "(nat \<times> txn_state) list"
  rg_written :: "(nat \<times> entity_key list) list"
  rg_overlays :: "(nat \<times> txn_overlay) list"
  rg_next_txn_id :: nat

definition registry_new :: registry where
  "registry_new = \<lparr>rg_active = [], rg_written = [], rg_overlays = [], rg_next_txn_id = 1\<rparr>"

text \<open>\<open>begin_reg\<close> returns the new transaction id, the registry and the advanced clock.\<close>

definition begin_reg :: "registry \<Rightarrow> txn_clock \<Rightarrow> nat \<times> registry \<times> txn_clock" where
  "begin_reg r c =
     (let txn_id = rg_next_txn_id r;
          (start_ts, c') = clock_next c
      in (txn_id,
          r\<lparr>rg_next_txn_id := u64_succ txn_id,
            rg_active := AList.update txn_id \<lparr>ts_start_ts = start_ts, ts_bytes_used = 0\<rparr> (rg_active r),
            rg_overlays := AList.update txn_id overlay_default (rg_overlays r)\<rparr>,
          c'))"

definition is_active :: "registry \<Rightarrow> nat \<Rightarrow> bool" where
  "is_active r x \<longleftrightarrow> map_of (rg_active r) x \<noteq> None"

definition start_ts :: "registry \<Rightarrow> nat \<Rightarrow> nat option" where
  "start_ts r x = map_option ts_start_ts (map_of (rg_active r) x)"

definition u64_saturating_add :: "nat \<Rightarrow> nat \<Rightarrow> nat" where
  "u64_saturating_add a b = min (a + b) (2 ^ 64 - 1)"

definition add_bytes :: "nat \<Rightarrow> nat \<Rightarrow> registry \<Rightarrow> nat option \<times> registry" where
  "add_bytes x n r =
     (case map_of (rg_active r) x of
        None \<Rightarrow> (None, r)
      | Some st \<Rightarrow>
          let total = u64_saturating_add (ts_bytes_used st) n
          in (Some total, r\<lparr>rg_active := AList.update x (st\<lparr>ts_bytes_used := total\<rparr>) (rg_active r)\<rparr>))"

definition record_write :: "nat \<Rightarrow> entity_key \<Rightarrow> registry \<Rightarrow> registry" where
  "record_write x k r = r\<lparr>rg_written := alter_default [] (\<lambda>ks. ks @ [k]) x (rg_written r)\<rparr>"

definition keys_written_by :: "registry \<Rightarrow> nat \<Rightarrow> entity_key list" where
  "keys_written_by r x = (case map_of (rg_written r) x of None \<Rightarrow> [] | Some ks \<Rightarrow> ks)"

definition end_reg :: "nat \<Rightarrow> registry \<Rightarrow> registry" where
  "end_reg x r =
     r\<lparr>rg_written := AList.delete x (rg_written r),
       rg_overlays := AList.delete x (rg_overlays r),
       rg_active := AList.delete x (rg_active r)\<rparr>"

definition mark_node_pending :: "nat \<Rightarrow> nat \<Rightarrow> rstring \<Rightarrow> registry \<Rightarrow> registry" where
  "mark_node_pending x i l r =
     (case map_of (rg_overlays r) x of
        None \<Rightarrow> r
      | Some ov \<Rightarrow> r\<lparr>rg_overlays := AList.update x
          (ov\<lparr>ov_node_ids := insert i (ov_node_ids ov),
              ov_nodes_by_label := alter_default {} (insert i) l (ov_nodes_by_label ov)\<rparr>)
          (rg_overlays r)\<rparr>)"

definition pending_node_ids :: "registry \<Rightarrow> nat \<Rightarrow> nat list" where
  "pending_node_ids r x =
     (case map_of (rg_overlays r) x of
        None \<Rightarrow> []
      | Some ov \<Rightarrow> sorted_list_of_set (ov_node_ids ov))"

definition pending_node_ids_by_label :: "registry \<Rightarrow> nat \<Rightarrow> rstring \<Rightarrow> nat list" where
  "pending_node_ids_by_label r x l =
     (case map_of (rg_overlays r) x of
        None \<Rightarrow> []
      | Some ov \<Rightarrow> (case map_of (ov_nodes_by_label ov) l of
          None \<Rightarrow> []
        | Some ids \<Rightarrow> sorted_list_of_set ids))"

definition mark_edge_pending :: "nat \<Rightarrow> nat \<Rightarrow> adj_direction \<Rightarrow> nat \<Rightarrow> registry \<Rightarrow> registry" where
  "mark_edge_pending x n dir e r =
     (case map_of (rg_overlays r) x of
        None \<Rightarrow> r
      | Some ov \<Rightarrow> r\<lparr>rg_overlays := AList.update x
          (ov\<lparr>ov_adjacency := alter_default [] (\<lambda>es. es @ [e]) (n, dir) (ov_adjacency ov)\<rparr>)
          (rg_overlays r)\<rparr>)"

definition pending_edges_for :: "registry \<Rightarrow> nat \<Rightarrow> nat \<Rightarrow> adj_direction \<Rightarrow> nat list" where
  "pending_edges_for r x n dir =
     (case map_of (rg_overlays r) x of
        None \<Rightarrow> []
      | Some ov \<Rightarrow> (case map_of (ov_adjacency ov) (n, dir) of None \<Rightarrow> [] | Some es \<Rightarrow> es))"

definition oldest_active_start_ts :: "registry \<Rightarrow> nat option" where
  "oldest_active_start_ts r =
     (case map (ts_start_ts \<circ> snd) (rg_active r) of
        [] \<Rightarrow> None
      | t # ts \<Rightarrow> Some (fold min ts t))"

section \<open>Lemmas\<close>

text \<open>Keys of the association lists stay distinct.\<close>

definition registry_wf :: "registry \<Rightarrow> bool" where
  "registry_wf r \<longleftrightarrow> distinct (map fst (rg_active r)) \<and>
     distinct (map fst (rg_written r)) \<and> distinct (map fst (rg_overlays r))"

lemma registry_wf_new: "registry_wf registry_new"
  by (simp add: registry_wf_def registry_new_def)

lemma registry_wf_begin: "registry_wf r \<Longrightarrow> registry_wf (fst (snd (begin_reg r c)))"
  by (simp add: registry_wf_def begin_reg_def clock_next_def distinct_update Let_def)

lemma registry_wf_end: "registry_wf r \<Longrightarrow> registry_wf (end_reg x r)"
  by (simp add: registry_wf_def end_reg_def distinct_delete)

lemma registry_wf_add_bytes: "registry_wf r \<Longrightarrow> registry_wf (snd (add_bytes x n r))"
  by (simp add: registry_wf_def add_bytes_def distinct_update Let_def split: option.splits)

lemma registry_wf_record_write: "registry_wf r \<Longrightarrow> registry_wf (record_write x k r)"
  by (simp add: registry_wf_def record_write_def distinct_alter_default)

lemma registry_wf_mark_node: "registry_wf r \<Longrightarrow> registry_wf (mark_node_pending x i l r)"
  by (simp add: registry_wf_def mark_node_pending_def distinct_update split: option.splits)

lemma registry_wf_mark_edge: "registry_wf r \<Longrightarrow> registry_wf (mark_edge_pending x n dir e r)"
  by (simp add: registry_wf_def mark_edge_pending_def distinct_update split: option.splits)

lemmas registry_wf_intros = registry_wf_begin registry_wf_end registry_wf_add_bytes
  registry_wf_record_write registry_wf_mark_node registry_wf_mark_edge

text \<open>The snapshot of a transaction: what each operation does to \<open>start_ts\<close>.\<close>

lemma is_active_iff: "is_active r x \<longleftrightarrow> (\<exists>s. start_ts r x = Some s)"
  by (auto simp: is_active_def start_ts_def)

lemma start_ts_new [simp]: "start_ts registry_new x = None"
  by (simp add: start_ts_def registry_new_def)

lemma start_ts_begin:
  "start_ts (fst (snd (begin_reg r c))) x = (if x = rg_next_txn_id r then Some c else start_ts r x)"
  by (simp add: start_ts_def begin_reg_def clock_next_def update_conv' Let_def)

lemma begin_reg_id [simp]: "fst (begin_reg r c) = rg_next_txn_id r"
  by (simp add: begin_reg_def clock_next_def Let_def)

lemma begin_reg_clock [simp]: "snd (snd (begin_reg r c)) = u64_succ c"
  by (simp add: begin_reg_def clock_next_def Let_def)

lemma start_ts_end: "start_ts (end_reg x r) y = (if y = x then None else start_ts r y)"
  by (simp add: start_ts_def end_reg_def delete_conv')

lemma start_ts_add_bytes [simp]: "start_ts (snd (add_bytes x n r)) y = start_ts r y"
  by (auto simp: start_ts_def add_bytes_def update_conv' Let_def split: option.splits)

lemma start_ts_record_write [simp]: "start_ts (record_write x k r) y = start_ts r y"
  by (simp add: start_ts_def record_write_def)

lemma start_ts_mark_node [simp]: "start_ts (mark_node_pending x i l r) y = start_ts r y"
  by (simp add: start_ts_def mark_node_pending_def split: option.splits)

lemma start_ts_mark_edge [simp]: "start_ts (mark_edge_pending x n dir e r) y = start_ts r y"
  by (simp add: start_ts_def mark_edge_pending_def split: option.splits)

lemma add_bytes_result: "fst (add_bytes x n r) = None \<longleftrightarrow> \<not> is_active r x"
  by (simp add: add_bytes_def is_active_def Let_def split: option.splits)

text \<open>The written keys of a transaction.\<close>

lemma keys_written_new [simp]: "keys_written_by registry_new x = []"
  by (simp add: keys_written_by_def registry_new_def)

lemma keys_written_begin [simp]: "keys_written_by (fst (snd (begin_reg r c))) x = keys_written_by r x"
  by (simp add: keys_written_by_def begin_reg_def clock_next_def Let_def)

lemma keys_written_end: "keys_written_by (end_reg x r) y = (if y = x then [] else keys_written_by r y)"
  by (simp add: keys_written_by_def end_reg_def delete_conv')

lemma keys_written_record:
  "keys_written_by (record_write x k r) y =
     (if y = x then keys_written_by r y @ [k] else keys_written_by r y)"
  by (simp add: keys_written_by_def record_write_def map_of_alter_default split: option.splits)

lemma keys_written_add_bytes [simp]: "keys_written_by (snd (add_bytes x n r)) y = keys_written_by r y"
  by (simp add: keys_written_by_def add_bytes_def Let_def split: option.splits)

lemma keys_written_mark_node [simp]: "keys_written_by (mark_node_pending x i l r) y = keys_written_by r y"
  by (simp add: keys_written_by_def mark_node_pending_def split: option.splits)

lemma keys_written_mark_edge [simp]: "keys_written_by (mark_edge_pending x n dir e r) y = keys_written_by r y"
  by (simp add: keys_written_by_def mark_edge_pending_def split: option.splits)

text \<open>The next transaction id.\<close>

lemma next_txn_id_simps [simp]:
  "rg_next_txn_id (end_reg x r) = rg_next_txn_id r"
  "rg_next_txn_id (snd (add_bytes x n r)) = rg_next_txn_id r"
  "rg_next_txn_id (record_write x k r) = rg_next_txn_id r"
  "rg_next_txn_id (mark_node_pending x i l r) = rg_next_txn_id r"
  "rg_next_txn_id (mark_edge_pending x n dir e r) = rg_next_txn_id r"
  "rg_next_txn_id (fst (snd (begin_reg r c))) = u64_succ (rg_next_txn_id r)"
  by (simp_all add: end_reg_def add_bytes_def record_write_def mark_node_pending_def
      mark_edge_pending_def begin_reg_def clock_next_def Let_def split: option.splits)

text \<open>The watermark is the least snapshot of a live transaction.\<close>

lemma fold_min_le: "fold min ts (t :: nat) \<le> t \<and> (\<forall>s\<in>set ts. fold min ts t \<le> s)"
proof (induction ts arbitrary: t)
  case Nil
  then show ?case by simp
next
  case (Cons a ts)
  from Cons.IH [of "min a t"] show ?case by auto
qed

lemma fold_min_mem: "fold min ts (t :: nat) \<in> insert t (set ts)"
proof (induction ts arbitrary: t)
  case Nil
  then show ?case by simp
next
  case (Cons a ts)
  from Cons.IH [of "min a t"] show ?case by (auto simp: min_def split: if_splits)
qed

lemma watermark_le:
  assumes "start_ts r x = Some s"
  shows "\<exists>w. oldest_active_start_ts r = Some w \<and> w \<le> s"
proof -
  from assms obtain st where "(x, st) \<in> set (rg_active r)" "ts_start_ts st = s"
    by (auto simp: start_ts_def dest: map_of_SomeD)
  then have s: "s \<in> set (map (ts_start_ts \<circ> snd) (rg_active r))" by force
  then obtain t ts where eq: "map (ts_start_ts \<circ> snd) (rg_active r) = t # ts"
    by (cases "map (ts_start_ts \<circ> snd) (rg_active r)") auto
  with s fold_min_le [of ts t] show ?thesis by (auto simp: oldest_active_start_ts_def)
qed

lemma watermark_mem:
  assumes "registry_wf r" "oldest_active_start_ts r = Some w"
  shows "\<exists>x. start_ts r x = Some w"
proof -
  from assms(2) have "w \<in> set (map (ts_start_ts \<circ> snd) (rg_active r))"
    using fold_min_mem by (fastforce simp: oldest_active_start_ts_def split: list.splits)
  then obtain x st where "(x, st) \<in> set (rg_active r)" "ts_start_ts st = w" by auto
  with assms(1) show ?thesis by (auto simp: registry_wf_def start_ts_def intro!: exI [of _ x])
qed

end
