(* ===== verification/Schema.thy ===== *)
theory Schema
  imports Entities
begin

text \<open>
  The schema catalog of \<^verbatim>\<open>crates/ermya-graph/src/schema/mod.rs\<close>: declared indexes,
  unique constraints and append-only labels. An append-only declaration is compared by its
  label alone, so the set of declarations is a map from labels to the first node id each one
  covers.
\<close>

section \<open>The catalog\<close>

record schema_catalog =
  sc_indexes :: "(rstring \<times> rstring) set"
  sc_constraints :: "(rstring \<times> rstring) set"
  sc_append_only :: "rstring \<rightharpoonup> nat"

definition catalog_new :: schema_catalog where
  "catalog_new = \<lparr>sc_indexes = {}, sc_constraints = {}, sc_append_only = Map.empty\<rparr>"

definition add_index :: "rstring \<Rightarrow> rstring \<Rightarrow> schema_catalog \<Rightarrow> schema_catalog" where
  "add_index l p c = c\<lparr>sc_indexes := insert (l, p) (sc_indexes c)\<rparr>"

definition remove_index :: "rstring \<Rightarrow> rstring \<Rightarrow> schema_catalog \<Rightarrow> schema_catalog" where
  "remove_index l p c = c\<lparr>sc_indexes := sc_indexes c - {(l, p)}\<rparr>"

definition has_index :: "schema_catalog \<Rightarrow> rstring \<Rightarrow> rstring \<Rightarrow> bool" where
  "has_index c l p \<longleftrightarrow> (l, p) \<in> sc_indexes c"

definition add_unique_constraint :: "rstring \<Rightarrow> rstring \<Rightarrow> schema_catalog \<Rightarrow> schema_catalog" where
  "add_unique_constraint l p c = c\<lparr>sc_constraints := insert (l, p) (sc_constraints c)\<rparr>"

definition remove_unique_constraint :: "rstring \<Rightarrow> rstring \<Rightarrow> schema_catalog \<Rightarrow> schema_catalog" where
  "remove_unique_constraint l p c = c\<lparr>sc_constraints := sc_constraints c - {(l, p)}\<rparr>"

definition has_unique_constraint :: "schema_catalog \<Rightarrow> rstring \<Rightarrow> rstring \<Rightarrow> bool" where
  "has_unique_constraint c l p \<longleftrightarrow> (l, p) \<in> sc_constraints c"

text \<open>\<^verbatim>\<open>HashSet::insert\<close> keeps the element already present: the first boundary stays.\<close>

definition mark_label_append_only :: "rstring \<Rightarrow> nat \<Rightarrow> schema_catalog \<Rightarrow> schema_catalog" where
  "mark_label_append_only l since c =
     (case sc_append_only c l of
        None \<Rightarrow> c\<lparr>sc_append_only := (sc_append_only c)(l \<mapsto> since)\<rparr>
      | Some _ \<Rightarrow> c)"

definition unmark_label_append_only :: "rstring \<Rightarrow> schema_catalog \<Rightarrow> schema_catalog" where
  "unmark_label_append_only l c = c\<lparr>sc_append_only := (sc_append_only c)(l := None)\<rparr>"

definition is_label_append_only :: "schema_catalog \<Rightarrow> rstring \<Rightarrow> bool" where
  "is_label_append_only c l \<longleftrightarrow> sc_append_only c l \<noteq> None"

definition append_only_since :: "schema_catalog \<Rightarrow> rstring \<Rightarrow> nat option" where
  "append_only_since c l = sc_append_only c l"

section \<open>Lemmas\<close>

lemma mark_append_only_keeps_boundary:
  "append_only_since c l = Some s \<Longrightarrow>
   append_only_since (mark_label_append_only l t c) l = Some s"
  by (simp add: append_only_since_def mark_label_append_only_def)

lemma mark_append_only_idempotent:
  "mark_label_append_only l t (mark_label_append_only l s c) = mark_label_append_only l s c"
  by (simp add: mark_label_append_only_def split: option.splits)

lemma remark_after_withdrawal_moves_boundary:
  "append_only_since (mark_label_append_only l t (unmark_label_append_only l c)) l = Some t"
  by (simp add: append_only_since_def mark_label_append_only_def unmark_label_append_only_def)

end
