(* ===== verification/Storage_Page.thy ===== *)
theory Storage_Page
  imports Ermya_Prelude
begin

text \<open>
  The page format of the data files (\<^verbatim>\<open>crates/ermya-graph/src/storage/page.rs\<close>): a 4096-byte
  buffer with a 16-byte header (magic, version, page type, CRC-32 of the payload, slot count,
  low bits of the log sequence number), and the data files
  (\<^verbatim>\<open>storage/backend.rs\<close>). The CRC-32 function of the \<^verbatim>\<open>crc32fast\<close> package is the
  parameter \<open>crc\<close>.
\<close>

section \<open>Constants and types\<close>

definition PAGE_SIZE :: nat where "PAGE_SIZE = 4096"
definition PAGE_HEADER_SIZE :: nat where "PAGE_HEADER_SIZE = 16"
definition PAGE_PAYLOAD_SIZE :: nat where "PAGE_PAYLOAD_SIZE = PAGE_SIZE - PAGE_HEADER_SIZE"

text \<open>Node and edge slots (\<^verbatim>\<open>node_codec.rs\<close>).\<close>

definition SLOTS_PER_PAGE :: nat where "SLOTS_PER_PAGE = 31"
definition SLOT_TOMBSTONE :: byte where "SLOT_TOMBSTONE = 2"

definition new_page_buf :: bytes where
  "new_page_buf = replicate PAGE_SIZE 0"

datatype page_type =
    MetaPage | NodePage | EdgePage | AdjacencyPage | StringPage | OverflowPage
  | AdjacencySlab | FreeDirectory | PropertySlab

fun page_type_code :: "page_type \<Rightarrow> u16" where
  "page_type_code MetaPage = 0"
| "page_type_code NodePage = 1"
| "page_type_code EdgePage = 2"
| "page_type_code AdjacencyPage = 3"
| "page_type_code StringPage = 4"
| "page_type_code OverflowPage = 5"
| "page_type_code AdjacencySlab = 6"
| "page_type_code FreeDirectory = 7"
| "page_type_code PropertySlab = 8"

datatype data_file = Nodes | Edges | Adjacency | Strings | Overflow

definition ALL_DATA_FILES :: "data_file list" where
  "ALL_DATA_FILES = [Nodes, Edges, Adjacency, Strings, Overflow]"

fun file_index_of :: "data_file \<Rightarrow> nat" where
  "file_index_of Nodes = 0"
| "file_index_of Edges = 1"
| "file_index_of Adjacency = 2"
| "file_index_of Strings = 3"
| "file_index_of Overflow = 4"

fun file_magic :: "data_file \<Rightarrow> bytes" where
  "file_magic Nodes = ascii ''TGND''"
| "file_magic Edges = ascii ''TGED''"
| "file_magic Adjacency = ascii ''TGAD''"
| "file_magic Strings = ascii ''TGSD''"
| "file_magic Overflow = ascii ''TGOD''"

definition META_MAGIC :: bytes where "META_MAGIC = ascii ''TGMD''"

section \<open>The header\<close>

record page_header =
  ph_magic :: bytes
  ph_version :: u16
  ph_page_type :: u16
  ph_crc32 :: u32
  ph_slot_count :: u16
  ph_lsn_low :: u16

definition header_read :: "bytes \<Rightarrow> page_header" where
  "header_read buf =
     \<lparr>ph_magic = subslice 0 4 buf,
      ph_version = word_of_nat (le_nat (subslice 4 2 buf)),
      ph_page_type = word_of_nat (le_nat (subslice 6 2 buf)),
      ph_crc32 = word_of_nat (le_nat (subslice 8 4 buf)),
      ph_slot_count = word_of_nat (le_nat (subslice 12 2 buf)),
      ph_lsn_low = word_of_nat (le_nat (subslice 14 2 buf))\<rparr>"

definition header_write :: "page_header \<Rightarrow> bytes \<Rightarrow> bytes" where
  "header_write h buf =
     splice 14 (le16 (ph_lsn_low h))
     (splice 12 (le16 (ph_slot_count h))
     (splice 8 (le32 (ph_crc32 h))
     (splice 6 (le16 (ph_page_type h))
     (splice 4 (le16 (ph_version h))
     (splice 0 (ph_magic h) buf)))))"

definition compute_crc32 :: "(bytes \<Rightarrow> u32) \<Rightarrow> bytes \<Rightarrow> u32" where
  "compute_crc32 crc buf = crc (drop PAGE_HEADER_SIZE buf)"

definition finalize_page_with_lsn ::
  "(bytes \<Rightarrow> u32) \<Rightarrow> bytes \<Rightarrow> u16 \<Rightarrow> page_type \<Rightarrow> u16 \<Rightarrow> u16 \<Rightarrow> bytes \<Rightarrow> bytes" where
  "finalize_page_with_lsn crc magic version pt slots lsn_low buf =
     header_write \<lparr>ph_magic = magic, ph_version = version, ph_page_type = page_type_code pt,
       ph_crc32 = compute_crc32 crc buf, ph_slot_count = slots, ph_lsn_low = lsn_low\<rparr> buf"

definition finalize_page ::
  "(bytes \<Rightarrow> u32) \<Rightarrow> bytes \<Rightarrow> u16 \<Rightarrow> page_type \<Rightarrow> u16 \<Rightarrow> bytes \<Rightarrow> bytes" where
  "finalize_page crc magic version pt slots buf = finalize_page_with_lsn crc magic version pt slots 0 buf"

datatype page_error = InvalidMagic | ChecksumMismatch u32 u32

definition validate_page_buf :: "(bytes \<Rightarrow> u32) \<Rightarrow> bytes \<Rightarrow> bytes \<Rightarrow> page_error + unit" where
  "validate_page_buf crc expected_magic buf =
     (if list_all (\<lambda>b. b = 0) buf then Inr ()
      else if ph_magic (header_read buf) \<noteq> expected_magic then Inl InvalidMagic
      else let actual = compute_crc32 crc buf in
        if ph_crc32 (header_read buf) \<noteq> actual
        then Inl (ChecksumMismatch (ph_crc32 (header_read buf)) actual)
        else Inr ())"

section \<open>Lemmas\<close>

lemma length_ascii [simp]: "length (ascii s) = length s"
  by (simp add: ascii_def)

lemma length_file_magic [simp]: "length (file_magic f) = 4"
  by (cases f) simp_all

lemma length_new_page_buf [simp]: "length new_page_buf = PAGE_SIZE"
  by (simp add: new_page_buf_def)

text \<open>A buffer that is zero behind a written prefix: fields are written at increasing
  offsets.\<close>

definition padded :: "bytes \<Rightarrow> nat \<Rightarrow> bytes" where
  "padded pre n = pre @ replicate n 0"

lemma new_page_padded: "new_page_buf = padded [] PAGE_SIZE"
  by (simp add: new_page_buf_def padded_def)

lemma length_padded [simp]: "length (padded pre n) = length pre + n"
  by (simp add: padded_def)

lemma splice_padded:
  assumes "length pre \<le> off" "off + length bs \<le> length pre + n"
  shows "splice off bs (padded pre n) =
    padded (pre @ replicate (off - length pre) 0 @ bs) (length pre + n - off - length bs)"
  using assms by (auto simp: splice_def padded_def min_def)

lemma header_write_frame:
  assumes "length (ph_magic h) = 4" "16 \<le> length buf"
  shows "length (header_write h buf) = length buf" "drop 16 (header_write h buf) = drop 16 buf"
  using assms by (simp_all add: header_write_def drop_splice)

lemma header_read_write:
  assumes "length (ph_magic h) = 4" "16 \<le> length buf"
  shows "header_read (header_write h buf) = h"
  using assms by (simp add: header_read_def header_write_def subslice_splice_other)

text \<open>Overwriting the header forgets the previous one.\<close>

lemma header_write_take:
  assumes "length (ph_magic h) = 4" "16 \<le> length buf"
  shows "header_write h buf =
    ph_magic h @ le16 (ph_version h) @ le16 (ph_page_type h) @ le32 (ph_crc32 h) @
    le16 (ph_slot_count h) @ le16 (ph_lsn_low h) @ drop 16 buf"
  using assms by (simp add: header_write_def splice_def)

lemma finalize_frame:
  assumes "length magic = 4" "length buf = PAGE_SIZE"
  shows "length (finalize_page_with_lsn crc magic v pt sc l buf) = PAGE_SIZE"
    and "drop 16 (finalize_page_with_lsn crc magic v pt sc l buf) = drop 16 buf"
    and "header_read (finalize_page_with_lsn crc magic v pt sc l buf) =
      \<lparr>ph_magic = magic, ph_version = v, ph_page_type = page_type_code pt,
       ph_crc32 = compute_crc32 crc buf, ph_slot_count = sc, ph_lsn_low = l\<rparr>"
  using assms
  by (simp_all add: finalize_page_with_lsn_def header_write_frame header_read_write PAGE_SIZE_def)

lemma finalize_validates:
  assumes "length magic = 4" "length buf = PAGE_SIZE"
  shows "validate_page_buf crc magic (finalize_page_with_lsn crc magic v pt sc l buf) = Inr ()"
  using finalize_frame [OF assms, of crc v pt sc l]
  by (simp add: validate_page_buf_def compute_crc32_def PAGE_HEADER_SIZE_def)

section \<open>Properties\<close>

text \<open>Page integrity. A page finalised with a magic, version, type and slot count keeps its
  payload, reads back exactly that header, and passes validation against the same magic;
  and if its payload is then replaced by one with a different checksum, validation reports the
  mismatch with the stored and the actual value, unless the page reads as all zeroes.\<close>

theorem finalized_page_validates:
  assumes "length magic = 4" "length buf = PAGE_SIZE"
    and "page = finalize_page_with_lsn crc magic v pt sc l buf"
  shows "drop PAGE_HEADER_SIZE page = drop PAGE_HEADER_SIZE buf \<and>
    header_read page = \<lparr>ph_magic = magic, ph_version = v, ph_page_type = page_type_code pt,
      ph_crc32 = compute_crc32 crc buf, ph_slot_count = sc, ph_lsn_low = l\<rparr> \<and>
    validate_page_buf crc magic page = Inr () \<and>
    (\<forall>payload. length payload = PAGE_PAYLOAD_SIZE \<longrightarrow> crc payload \<noteq> compute_crc32 crc buf \<longrightarrow>
       \<not> list_all (\<lambda>b. b = 0) (take PAGE_HEADER_SIZE page @ payload) \<longrightarrow>
       validate_page_buf crc magic (take PAGE_HEADER_SIZE page @ payload) =
         Inl (ChecksumMismatch (compute_crc32 crc buf) (crc payload)))"
proof -
  note f = finalize_frame [OF assms(1,2), of crc v pt sc l, folded assms(3)]
  have valid: "validate_page_buf crc magic page = Inr ()"
    unfolding assms(3) by (rule finalize_validates [OF assms(1,2)])
  have "header_read (take PAGE_HEADER_SIZE page @ payload) = header_read page" for payload
    using f(1) by (simp add: header_read_def subslice_def PAGE_SIZE_def PAGE_HEADER_SIZE_def drop_take)
  moreover have "drop PAGE_HEADER_SIZE (take PAGE_HEADER_SIZE page @ payload) = payload" for payload
    using f(1) by (simp add: PAGE_SIZE_def PAGE_HEADER_SIZE_def)
  ultimately have "validate_page_buf crc magic (take PAGE_HEADER_SIZE page @ payload) =
      Inl (ChecksumMismatch (compute_crc32 crc buf) (crc payload))"
    if "crc payload \<noteq> compute_crc32 crc buf" "\<not> list_all (\<lambda>b. b = 0) (take PAGE_HEADER_SIZE page @ payload)"
    for payload
    using that f(3) by (simp add: validate_page_buf_def Let_def compute_crc32_def)
  with f(2,3) valid show ?thesis by (simp add: PAGE_HEADER_SIZE_def)
qed

theorem finalized_page_validates_witness:
  "validate_page_buf (\<lambda>bs. word_of_nat (length bs)) (file_magic Nodes)
     (finalize_page_with_lsn (\<lambda>bs. word_of_nat (length bs)) (file_magic Nodes) 1 NodePage 3 9 new_page_buf) = Inr ()"
  using finalized_page_validates [of "file_magic Nodes" new_page_buf, OF _ _ refl] by simp

end
