(* ===== verification/Graph_State.thy ===== *)
theory Graph_State
  imports Mvcc_Registry Schema Storage_Page
begin

text \<open>
  The state of the engine's \<^verbatim>\<open>Graph\<close> (\<^verbatim>\<open>crates/ermya-graph/src/graph.rs\<close>) and the
  layer its operations are built on: page slots, the write-ahead log, visibility resolution,
  adjacency pointers and the reconciliation of the derived structures.

  A page is seen through its slots: \<open>g_node_slots\<close> holds the decoded record of every live
  node slot, by node id, and the page counts say which pages exist. The fault model is
  explicit: every storage call that can fail takes the next answer of \<open>g_faults\<close>
  (\<open>False\<close> is a failure), and a slot named in \<open>g_bad_reads\<close> does not read back.
\<close>

section \<open>Errors\<close>

datatype batch_limit_kind = Operations | Bytes

datatype graph_error =
    MvccNotEnabled
  | TxnNotActive nat
  | TxnMemoryCapExceeded nat nat nat
  | AppendOnlyLabelInTxn rstring
  | NodeNotFound node_id
  | EdgeNotFound edge_id
  | BatchLimitExceeded batch_limit_kind nat nat
  | ConstraintViolation rstring rstring property
  | QuotaExceeded
  | StorageError
  | Panic

section \<open>The graph\<close>

text \<open>\<^verbatim>\<open>AdjacencyPointer\<close>: the head pages of a node's two adjacency lists.\<close>

record adj_pointer =
  ap_outgoing :: "u32 option"
  ap_incoming :: "u32 option"

definition ptr_absent :: adj_pointer where
  "ptr_absent = \<lparr>ap_outgoing = None, ap_incoming = None\<rparr>"

fun ptr_head :: "adj_direction \<Rightarrow> adj_pointer \<Rightarrow> u32 option" where
  "ptr_head Outgoing p = ap_outgoing p"
| "ptr_head Incoming p = ap_incoming p"

fun ptr_set_head :: "adj_direction \<Rightarrow> u32 \<Rightarrow> adj_pointer \<Rightarrow> adj_pointer" where
  "ptr_set_head Outgoing h p = p\<lparr>ap_outgoing := Some h\<rparr>"
| "ptr_set_head Incoming h p = p\<lparr>ap_incoming := Some h\<rparr>"

text \<open>
  A log record as the engine appends it. A slot image is the record it encodes; an adjacency
  page is named by its page number. The transaction tag is \<open>None\<close> for an auto-commit write.
\<close>

datatype wal_entry =
    WalBegin nat
  | WalCommit nat
  | WalRollback nat
  | WalWriteNode node_id node "nat option"
  | WalWriteEdge edge_id edge "nat option"
  | WalTombstoneNode node_id "nat option"
  | WalTombstoneEdge edge_id "nat option"
  | WalWriteAdjPage u32 "nat option"

type_synonym adj_key = "nat \<times> adj_direction"

text \<open>
  \<open>g_hasher\<close>, \<open>g_label_hash\<close>, \<open>g_size_node\<close>, \<open>g_size_edge\<close> and \<open>g_adj_place\<close> are
  parameters that never change: the standard library's hasher, the CRC32 of a label,
  \<^verbatim>\<open>size_of\<close> of the two structs, and the page on which the adjacency codecs put a list.
\<close>

record graph =
  g_delta_table :: "delta_table option"
  g_registry :: "registry option"
  g_clock :: "txn_clock option"
  g_txn_memory_cap :: "nat option"
  g_next_node_id :: nat
  g_next_edge_id :: nat
  g_node_count :: nat
  g_edge_count :: nat
  g_node_exists :: "nat set"
  g_edge_exists :: "nat set"
  g_node_slots :: "nat \<rightharpoonup> node"
  g_edge_slots :: "nat \<rightharpoonup> edge"
  g_node_page_count :: nat
  g_edge_page_count :: nat
  g_bad_reads :: "entity_key set"
  g_node_label_index :: label_index
  g_edge_label_index :: label_index
  g_node_property_index :: property_index
  g_edge_pair_index :: "((nat \<times> nat \<times> u32) \<times> nat list) list"
  g_adj_cache :: "nat \<rightharpoonup> adj_pointer"
  g_adj_file :: "u32 \<times> adj_key \<Rightarrow> nat list"
  g_adj_pending :: "(adj_key \<times> nat list) list"
  g_batch_depth :: nat
  g_batch_max_ops :: "nat option"
  g_batch_max_bytes :: "nat option"
  g_batch_op_count :: nat
  g_batch_byte_count :: nat
  g_catalog :: schema_catalog
  g_append_only_node_ids :: "nat set"
  g_quota_hook :: "graph_error option"
  g_wal_enabled :: bool
  g_wal :: "wal_entry list"
  g_wal_synced :: nat
  g_faults :: "bool list"
  g_hasher :: "entity_key \<Rightarrow> nat"
  g_label_hash :: "rstring \<Rightarrow> u32"
  g_size_node :: nat
  g_size_edge :: nat
  g_adj_place :: "adj_key \<Rightarrow> u32 option \<Rightarrow> nat list \<Rightarrow> u32"

type_synonym 'a gstep = "(graph, graph_error, 'a) step"

section \<open>Storage: pages and the log\<close>

text \<open>One storage call that may fail.\<close>

definition io :: "unit gstep" where
  "io g = (case g_faults g of
      [] \<Rightarrow> (Inr (), g)
    | ok # fs \<Rightarrow> ((if ok then Inr () else Inl StorageError), g\<lparr>g_faults := fs\<rparr>))"

text \<open>Ids are 1-based; \<open>id - 1\<close> wraps in 64 bits and the page index is cut to 32 bits.\<close>

definition page_and_slot :: "nat \<Rightarrow> nat \<times> nat" where
  "page_and_slot i =
     (let zero_based = (i + (2 ^ 64 - 1)) mod 2 ^ 64
      in (zero_based div SLOTS_PER_PAGE mod 2 ^ 32, zero_based mod SLOTS_PER_PAGE))"

definition read_node :: "graph \<Rightarrow> nat \<Rightarrow> graph_error + node" where
  "read_node g i =
     (if KeyNode i \<in> g_bad_reads g \<or> g_node_page_count g \<le> fst (page_and_slot i)
      then Inl StorageError
      else (case g_node_slots g i of None \<Rightarrow> Inl (NodeNotFound i) | Some n \<Rightarrow> Inr n))"

definition read_edge :: "graph \<Rightarrow> nat \<Rightarrow> graph_error + edge" where
  "read_edge g i =
     (if KeyEdge i \<in> g_bad_reads g \<or> g_edge_page_count g \<le> fst (page_and_slot i)
      then Inl StorageError
      else (case g_edge_slots g i of None \<Rightarrow> Inl (EdgeNotFound i) | Some e \<Rightarrow> Inr e))"

definition wal_append :: "wal_entry \<Rightarrow> unit gstep" where
  "wal_append r = sbind io (\<lambda>_. smodify (\<lambda>g. g\<lparr>g_wal := g_wal g @ [r]\<rparr>))"

text \<open>An append that is skipped when the backend keeps no log.\<close>

definition wal_log :: "wal_entry \<Rightarrow> unit gstep" where
  "wal_log r g = (if g_wal_enabled g then wal_append r g else (Inr (), g))"

text \<open>\<^verbatim>\<open>wal_sync\<close>: deferred inside a batch, otherwise every record appended so far
  becomes durable.\<close>

definition wal_sync :: "unit gstep" where
  "wal_sync g =
     (if g_batch_depth g > 0 then (Inr (), g)
      else sbind io (\<lambda>_. smodify (\<lambda>g. g\<lparr>g_wal_synced := length (g_wal g)\<rparr>)) g)"

definition put_node_slot :: "nat \<Rightarrow> node \<Rightarrow> unit gstep" where
  "put_node_slot i n = sbind io (\<lambda>_. smodify (\<lambda>g.
     g\<lparr>g_node_slots := (g_node_slots g)(i \<mapsto> n),
       g_node_page_count := max (g_node_page_count g) (Suc (fst (page_and_slot i)))\<rparr>))"

definition put_edge_slot :: "nat \<Rightarrow> edge \<Rightarrow> unit gstep" where
  "put_edge_slot i e = sbind io (\<lambda>_. smodify (\<lambda>g.
     g\<lparr>g_edge_slots := (g_edge_slots g)(i \<mapsto> e),
       g_edge_page_count := max (g_edge_page_count g) (Suc (fst (page_and_slot i)))\<rparr>))"

text \<open>\<^verbatim>\<open>write_slot_to_page\<close> for the two kinds: log the slot, then write it.
  \<^verbatim>\<open>write_node_slot\<close> and \<^verbatim>\<open>write_edge_slot\<close> use the record's own id.\<close>

definition log_node_slot :: "nat \<Rightarrow> node \<Rightarrow> unit gstep" where
  "log_node_slot i n = sbind (wal_log (WalWriteNode i n None)) (\<lambda>_. put_node_slot i n)"

definition log_edge_slot :: "nat \<Rightarrow> edge \<Rightarrow> unit gstep" where
  "log_edge_slot i e = sbind (wal_log (WalWriteEdge i e None)) (\<lambda>_. put_edge_slot i e)"

definition write_node_slot :: "node \<Rightarrow> unit gstep" where
  "write_node_slot n = log_node_slot (nd_id n) n"

definition write_edge_slot :: "edge \<Rightarrow> unit gstep" where
  "write_edge_slot e = log_edge_slot (ed_id e) e"

text \<open>\<^verbatim>\<open>tombstone_slot_inner\<close> for the two kinds: a page that does not exist leaves
  nothing to tombstone.\<close>

definition tombstone_node_slot :: "bool \<Rightarrow> nat \<Rightarrow> unit gstep" where
  "tombstone_node_slot log i =
     sbind (if log then wal_log (WalTombstoneNode i None) else sret ()) (\<lambda>_ g.
       if g_node_page_count g \<le> fst (page_and_slot i) then (Inr (), g)
       else sbind io (\<lambda>_. smodify (\<lambda>g. g\<lparr>g_node_slots := (g_node_slots g)(i := None)\<rparr>)) g)"

definition tombstone_edge_slot :: "bool \<Rightarrow> nat \<Rightarrow> unit gstep" where
  "tombstone_edge_slot log i =
     sbind (if log then wal_log (WalTombstoneEdge i None) else sret ()) (\<lambda>_ g.
       if g_edge_page_count g \<le> fst (page_and_slot i) then (Inr (), g)
       else sbind io (\<lambda>_. smodify (\<lambda>g. g\<lparr>g_edge_slots := (g_edge_slots g)(i := None)\<rparr>)) g)"

section \<open>Visibility resolution\<close>

definition mvcc_enabled :: "graph \<Rightarrow> bool" where
  "mvcc_enabled g \<longleftrightarrow> g_delta_table g \<noteq> None"

definition txn_is_active :: "graph \<Rightarrow> nat \<Rightarrow> bool" where
  "txn_is_active g x = (case g_registry g of None \<Rightarrow> False | Some r \<Rightarrow> is_active r x)"

definition auto_commit_start_ts :: "graph \<Rightarrow> nat" where
  "auto_commit_start_ts g = clock_current (the (g_clock g))"

definition ok :: "'e + 'a \<Rightarrow> 'a option" where
  "ok r = (case r of Inl _ \<Rightarrow> None | Inr x \<Rightarrow> Some x)"

definition resolve_node_visible :: "graph \<Rightarrow> nat \<Rightarrow> nat \<Rightarrow> nat option \<Rightarrow> graph_error + node" where
  "resolve_node_visible g i ts r =
     rbind (ok_or MvccNotEnabled (g_delta_table g)) (\<lambda>table.
     let chain = chain_for table (KeyNode i) in
     rbind (case (chain, i \<in> g_node_exists g) of
              (Some _, True) \<Rightarrow> Inr (map_option SnapNode (ok (read_node g i)))
            | (None, True) \<Rightarrow> rbind (read_node g i) (\<lambda>n. Inr (Some (SnapNode n)))
            | (_, False) \<Rightarrow> Inr None) (\<lambda>committed_base.
     let visible = (case chain of
           Some ch \<Rightarrow> apply_deltas_for_read committed_base ch ts r
         | None \<Rightarrow> committed_base)
     in case visible of Some (SnapNode n) \<Rightarrow> Inr n | _ \<Rightarrow> Inl (NodeNotFound i)))"

definition resolve_edge_visible :: "graph \<Rightarrow> nat \<Rightarrow> nat \<Rightarrow> nat option \<Rightarrow> graph_error + edge" where
  "resolve_edge_visible g i ts r =
     rbind (ok_or MvccNotEnabled (g_delta_table g)) (\<lambda>table.
     let chain = chain_for table (KeyEdge i) in
     rbind (case (chain, i \<in> g_edge_exists g) of
              (Some _, True) \<Rightarrow> Inr (map_option SnapEdge (ok (read_edge g i)))
            | (None, True) \<Rightarrow> rbind (read_edge g i) (\<lambda>e. Inr (Some (SnapEdge e)))
            | (_, False) \<Rightarrow> Inr None) (\<lambda>committed_base.
     let visible = (case chain of
           Some ch \<Rightarrow> apply_deltas_for_read committed_base ch ts r
         | None \<Rightarrow> committed_base)
     in case visible of Some (SnapEdge e) \<Rightarrow> Inr e | _ \<Rightarrow> Inl (EdgeNotFound i)))"

definition txn_start_ts :: "graph \<Rightarrow> nat \<Rightarrow> graph_error + nat" where
  "txn_start_ts g x =
     rbind (ok_or MvccNotEnabled (g_registry g)) (\<lambda>r. ok_or (TxnNotActive x) (start_ts r x))"

definition node_in_txn :: "graph \<Rightarrow> nat \<Rightarrow> nat \<Rightarrow> graph_error + node" where
  "node_in_txn g x i = rbind (txn_start_ts g x) (\<lambda>ts. resolve_node_visible g i ts (Some x))"

definition edge_in_txn :: "graph \<Rightarrow> nat \<Rightarrow> nat \<Rightarrow> graph_error + edge" where
  "edge_in_txn g x i = rbind (txn_start_ts g x) (\<lambda>ts. resolve_edge_visible g i ts (Some x))"

section \<open>Adjacency\<close>

definition head_of :: "u32 \<Rightarrow> u32 option" where
  "head_of p = (if p \<noteq> ADJ_PAGE_ID_SENTINEL then Some p else None)"

text \<open>\<^verbatim>\<open>resolve_adj_pointer\<close>: the cache, else the heads in the node's slot; the answer
  is cached, absence too.\<close>

definition resolve_adj_pointer :: "nat \<Rightarrow> adj_pointer option gstep" where
  "resolve_adj_pointer i g =
     (case g_adj_cache g i of
        Some p \<Rightarrow> (Inr (if p = ptr_absent then None else Some p), g)
      | None \<Rightarrow>
          if g_node_page_count g \<le> fst (page_and_slot i)
          then (Inr None, g\<lparr>g_adj_cache := (g_adj_cache g)(i \<mapsto> ptr_absent)\<rparr>)
          else if KeyNode i \<in> g_bad_reads g then (Inl StorageError, g)
          else (case g_node_slots g i of
              None \<Rightarrow> (Inr None, g\<lparr>g_adj_cache := (g_adj_cache g)(i \<mapsto> ptr_absent)\<rparr>)
            | Some n \<Rightarrow>
                let p = \<lparr>ap_outgoing = head_of (nd_adj_page_id n),
                         ap_incoming = head_of (nd_adj_incoming_page_id n)\<rparr>
                in (Inr (if p = ptr_absent then None else Some p),
                    g\<lparr>g_adj_cache := (g_adj_cache g)(i \<mapsto> p)\<rparr>)))"

definition patch_adj_pointer :: "u32 option \<Rightarrow> u32 option \<Rightarrow> node \<Rightarrow> node" where
  "patch_adj_pointer out inc n =
     n\<lparr>nd_adj_page_id := (case out of None \<Rightarrow> ADJ_PAGE_ID_SENTINEL | Some p \<Rightarrow> p),
       nd_adj_incoming_page_id := (case inc of None \<Rightarrow> ADJ_PAGE_ID_SENTINEL | Some p \<Rightarrow> p),
       nd_adj_flags := (if out \<noteq> None then 1 else 0) + (if inc \<noteq> None then 2 else 0)\<rparr>"

text \<open>\<^verbatim>\<open>append_and_update_caches\<close>: the list grows by \<open>ids\<close> on the page the codecs
  choose for it, the page is logged, the cache follows.\<close>

definition append_and_update_caches ::
  "nat \<Rightarrow> adj_direction \<Rightarrow> adj_pointer \<Rightarrow> nat list \<Rightarrow> adj_pointer gstep" where
  "append_and_update_caches i dir p ids g =
     (let old = (case ptr_head dir p of None \<Rightarrow> [] | Some pg \<Rightarrow> g_adj_file g (pg, i, dir));
          pg = g_adj_place g (i, dir) (ptr_head dir p) (old @ ids);
          entry = ptr_set_head dir pg p
      in sbind io (\<lambda>_. sbind (smodify (\<lambda>g. g\<lparr>g_adj_file := (g_adj_file g)((pg, i, dir) := old @ ids)\<rparr>))
         (\<lambda>_. sbind (wal_log (WalWriteAdjPage pg None))
         (\<lambda>_. sbind (smodify (\<lambda>g. g\<lparr>g_adj_cache := (g_adj_cache g)(i \<mapsto> entry)\<rparr>))
         (\<lambda>_. sret entry)))) g)"

text \<open>\<^verbatim>\<open>materialize_node_slot_with_pointer\<close>: a node with no live slot gets its whole
  slot written from the state an auto-commit reader sees.\<close>

definition materialize_node_slot_with_pointer :: "nat \<Rightarrow> adj_pointer \<Rightarrow> unit gstep" where
  "materialize_node_slot_with_pointer i p g =
     (if \<not> mvcc_enabled g then (Inr (), g)
      else (case resolve_node_visible g i (auto_commit_start_ts g) None of
          Inl _ \<Rightarrow> (Inr (), g)
        | Inr n \<Rightarrow> log_node_slot i (patch_adj_pointer (ap_outgoing p) (ap_incoming p) n) g))"

definition persist_adj_pointer_to_slot :: "nat \<Rightarrow> adj_pointer \<Rightarrow> unit gstep" where
  "persist_adj_pointer_to_slot i p g =
     (if g_node_page_count g \<le> fst (page_and_slot i) then materialize_node_slot_with_pointer i p g
      else if KeyNode i \<in> g_bad_reads g then (Inl StorageError, g)
      else (case g_node_slots g i of
          None \<Rightarrow> materialize_node_slot_with_pointer i p g
        | Some n \<Rightarrow>
            log_node_slot i (patch_adj_pointer (ap_outgoing p) (ap_incoming p) n) g))"


definition write_adj_immediate :: "nat \<Rightarrow> adj_direction \<Rightarrow> nat \<Rightarrow> unit gstep" where
  "write_adj_immediate i dir e =
     sbind (resolve_adj_pointer i) (\<lambda>p.
     sbind (append_and_update_caches i dir (case p of None \<Rightarrow> ptr_absent | Some q \<Rightarrow> q) [e])
       (persist_adj_pointer_to_slot i))"

definition add_edge_to_adjacency :: "nat \<Rightarrow> adj_direction \<Rightarrow> nat \<Rightarrow> unit gstep" where
  "add_edge_to_adjacency i dir e g =
     (if g_batch_depth g > 0
      then (Inr (), g\<lparr>g_adj_pending := alter_default [] (\<lambda>es. es @ [e]) (i, dir) (g_adj_pending g)\<rparr>)
      else write_adj_immediate i dir e g)"

text \<open>\<^verbatim>\<open>Vec::swap_remove\<close> at the first position of \<open>e\<close>: the last element takes its place.\<close>

definition swap_remove_first :: "nat \<Rightarrow> nat list \<Rightarrow> nat list" where
  "swap_remove_first e es =
     (let pos = length (takeWhile (\<lambda>x. x \<noteq> e) es)
      in butlast (es[pos := last es]))"

text \<open>The second half of \<^verbatim>\<open>remove_edge_from_adjacency\<close>: the list is read back, the
  edge filtered out, the list rewritten and the cache refreshed.\<close>

definition remove_edge_from_pages :: "nat \<Rightarrow> adj_direction \<Rightarrow> nat \<Rightarrow> unit gstep" where
  "remove_edge_from_pages i dir e =
     sbind (resolve_adj_pointer i) (\<lambda>p g. case p of
        None \<Rightarrow> (Inr (), g)
      | Some q \<Rightarrow> (case ptr_head dir q of
          None \<Rightarrow> (Inr (), g)
        | Some pid \<Rightarrow>
            let ids = filter (\<lambda>x. x \<noteq> e) (g_adj_file g (pid, i, dir));
                pg = g_adj_place g (i, dir) (Some pid) ids;
                entry = ptr_set_head dir pg q
            in sbind io (\<lambda>_. sbind (smodify (\<lambda>g. g\<lparr>g_adj_file := (g_adj_file g)((pg, i, dir) := ids)\<rparr>))
               (\<lambda>_. sbind (wal_log (WalWriteAdjPage pg None))
               (\<lambda>_. smodify (\<lambda>g. g\<lparr>g_adj_cache := (g_adj_cache g)(i \<mapsto> entry)\<rparr>)))) g))"

definition remove_edge_from_adjacency :: "nat \<Rightarrow> adj_direction \<Rightarrow> nat \<Rightarrow> unit gstep" where
  "remove_edge_from_adjacency i dir e g =
     (case map_of (g_adj_pending g) (i, dir) of
        Some es \<Rightarrow>
          if e \<in> set es
          then (Inr (), g\<lparr>g_adj_pending := AList.update (i, dir) (swap_remove_first e es) (g_adj_pending g)\<rparr>)
          else remove_edge_from_pages i dir e g
      | None \<Rightarrow> remove_edge_from_pages i dir e g)"

section \<open>Reconciliation of the derived structures\<close>

text \<open>A 64-bit counter that goes down by one, wrapping at zero.\<close>

definition u64_pred :: "nat \<Rightarrow> nat" where
  "u64_pred n = (n + (2 ^ 64 - 1)) mod 2 ^ 64"

definition insert_pair_index :: "nat \<Rightarrow> nat \<Rightarrow> rstring \<Rightarrow> nat \<Rightarrow> graph \<Rightarrow> graph" where
  "insert_pair_index s t l e g =
     g\<lparr>g_edge_pair_index :=
         alter_default [] (\<lambda>es. es @ [e]) (s, t, g_label_hash g l) (g_edge_pair_index g)\<rparr>"

definition remove_pair_index :: "nat \<Rightarrow> nat \<Rightarrow> rstring \<Rightarrow> nat \<Rightarrow> graph \<Rightarrow> graph" where
  "remove_pair_index s t l e g =
     g\<lparr>g_edge_pair_index :=
         alter_prune (\<lambda>es. es = []) (filter (\<lambda>x. x \<noteq> e)) (s, t, g_label_hash g l) (g_edge_pair_index g)\<rparr>"

definition reconcile_node_insert :: "node \<Rightarrow> graph \<Rightarrow> graph" where
  "reconcile_node_insert n g =
     g\<lparr>g_node_exists := insert (nd_id n) (g_node_exists g),
       g_node_label_index := label_insert (nd_label n) (nd_id n) (g_node_label_index g),
       g_node_property_index :=
         pindex_insert_node (nd_label n) (nd_properties n) (nd_id n) (g_node_property_index g),
       g_node_count := u64_succ (g_node_count g),
       g_adj_cache := (g_adj_cache g)(nd_id n \<mapsto> ptr_absent)\<rparr>"

definition reconcile_node_update :: "node \<Rightarrow> node \<Rightarrow> graph \<Rightarrow> graph" where
  "reconcile_node_update prior new g =
     (let i = nd_id new;
          g = (if nd_label prior \<noteq> nd_label new
               then g\<lparr>g_node_label_index := label_insert (nd_label new) i
                        (label_remove (nd_label prior) i (g_node_label_index g))\<rparr>
               else g)
      in g\<lparr>g_node_property_index :=
             pindex_insert_node (nd_label new) (nd_properties new) i
               (pindex_remove_node (nd_label prior) (nd_properties prior) i (g_node_property_index g))\<rparr>)"

definition reconcile_node_delete :: "node \<Rightarrow> graph \<Rightarrow> graph" where
  "reconcile_node_delete n g =
     g\<lparr>g_node_exists := g_node_exists g - {nd_id n},
       g_node_label_index := label_remove (nd_label n) (nd_id n) (g_node_label_index g),
       g_node_property_index :=
         pindex_remove_node (nd_label n) (nd_properties n) (nd_id n) (g_node_property_index g),
       g_adj_cache := (g_adj_cache g)(nd_id n := None),
       g_node_count := u64_pred (g_node_count g)\<rparr>"

definition reconcile_edge_insert :: "edge \<Rightarrow> unit gstep" where
  "reconcile_edge_insert e =
     sbind (smodify (\<lambda>g. insert_pair_index (ed_source e) (ed_target e) (ed_label e) (ed_id e)
       (g\<lparr>g_edge_exists := insert (ed_id e) (g_edge_exists g),
          g_edge_label_index := label_insert (ed_label e) (ed_id e) (g_edge_label_index g),
          g_edge_count := u64_succ (g_edge_count g)\<rparr>)))
     (\<lambda>_. sbind (add_edge_to_adjacency (ed_source e) Outgoing (ed_id e))
     (\<lambda>_. add_edge_to_adjacency (ed_target e) Incoming (ed_id e)))"

definition reconcile_edge_update :: "edge \<Rightarrow> edge \<Rightarrow> graph \<Rightarrow> graph" where
  "reconcile_edge_update prior new g =
     (if ed_label prior \<noteq> ed_label new
      then insert_pair_index (ed_source prior) (ed_target prior) (ed_label new) (ed_id new)
             (remove_pair_index (ed_source prior) (ed_target prior) (ed_label prior) (ed_id new)
               (g\<lparr>g_edge_label_index := label_insert (ed_label new) (ed_id new)
                   (label_remove (ed_label prior) (ed_id new) (g_edge_label_index g))\<rparr>))
      else g)"

definition reconcile_edge_delete :: "edge \<Rightarrow> unit gstep" where
  "reconcile_edge_delete e =
     sbind (remove_edge_from_adjacency (ed_source e) Outgoing (ed_id e))
     (\<lambda>_. sbind (remove_edge_from_adjacency (ed_target e) Incoming (ed_id e))
     (\<lambda>_. smodify (\<lambda>g. (remove_pair_index (ed_source e) (ed_target e) (ed_label e) (ed_id e)
        (g\<lparr>g_edge_exists := g_edge_exists g - {ed_id e},
           g_edge_label_index := label_remove (ed_label e) (ed_id e) (g_edge_label_index g),
           g_edge_count := u64_pred (g_edge_count g)\<rparr>)))))"

text \<open>The part of an update that a commit applies: new entries only.\<close>

definition reconcile_node_update_add_only :: "node \<Rightarrow> node \<Rightarrow> graph \<Rightarrow> graph" where
  "reconcile_node_update_add_only prior new g =
     g\<lparr>g_node_label_index :=
         (if nd_label prior \<noteq> nd_label new
          then label_insert (nd_label new) (nd_id new) (g_node_label_index g)
          else g_node_label_index g),
       g_node_property_index :=
         pindex_insert_node (nd_label new) (nd_properties new) (nd_id new) (g_node_property_index g)\<rparr>"

definition reconcile_edge_update_add_only :: "edge \<Rightarrow> edge \<Rightarrow> graph \<Rightarrow> graph" where
  "reconcile_edge_update_add_only prior new g =
     (if ed_label prior \<noteq> ed_label new
      then insert_pair_index (ed_source prior) (ed_target prior) (ed_label new) (ed_id new)
             (g\<lparr>g_edge_label_index := label_insert (ed_label new) (ed_id new) (g_edge_label_index g)\<rparr>)
      else g)"

text \<open>The match of \<^verbatim>\<open>reconcile_committed_delta\<close>: the net operation and the prior state
  come from the transaction's oldest delta on the key, the new state from its newest.\<close>

definition reconcile_net ::
  "entity_key \<Rightarrow> delta_op \<Rightarrow> entity_snapshot option \<Rightarrow> entity_snapshot option \<Rightarrow> unit gstep" where
  "reconcile_net k net_op prior new g =
     (case (k, net_op, new) of
        (KeyNode _, Insert, Some (SnapNode n)) \<Rightarrow> (Inr (), reconcile_node_insert n g)
      | (KeyNode _, Update, Some (SnapNode n)) \<Rightarrow>
          (case prior of
             Some (SnapNode old) \<Rightarrow> (Inr (), reconcile_node_update_add_only old n g)
           | _ \<Rightarrow> (Inr (), g))
      | (KeyEdge _, Insert, Some (SnapEdge e)) \<Rightarrow> reconcile_edge_insert e g
      | (KeyEdge _, Update, Some (SnapEdge e)) \<Rightarrow>
          (case prior of
             Some (SnapEdge old) \<Rightarrow> (Inr (), reconcile_edge_update_add_only old e g)
           | _ \<Rightarrow> (Inr (), g))
      | _ \<Rightarrow> (Inr (), g))"

definition reconcile_committed_delta :: "entity_key \<Rightarrow> delta \<Rightarrow> unit gstep" where
  "reconcile_committed_delta k d g =
     (let oldest = Option.bind (g_delta_table g) (\<lambda>t. table_oldest_delta_of_txn t k (dl_txn_id d));
          net_op = (case oldest of None \<Rightarrow> dl_op d | Some od \<Rightarrow> dl_op od)
      in reconcile_net k net_op (Option.bind oldest dl_prior) (dl_new d) g)"

end
