(* ===== verification/Graph_Txn.thy ===== *)
theory Graph_Txn
  imports Graph_State
begin

text \<open>
  Explicit transactions (\<^verbatim>\<open>crates/ermya-graph/src/graph.rs\<close>, the section "Block 4
  MVCC"): begin, the writes inside a transaction, commit, rollback, the vacuum, and the
  enumeration reads. Each method is one step on the graph that also says what it leaves
  behind when it fails. Debug assertions are not modelled (the release build).
\<close>

section \<open>Configuration\<close>

definition MVCC_SHARD_COUNT :: nat where
  "MVCC_SHARD_COUNT = 64"

definition enable_mvcc :: "graph \<Rightarrow> graph" where
  "enable_mvcc g =
     g\<lparr>g_delta_table := Some (table_new (g_hasher g) MVCC_SHARD_COUNT),
       g_registry := Some registry_new,
       g_clock := Some clock_new\<rparr>"

definition set_txn_memory_cap :: "nat option \<Rightarrow> graph \<Rightarrow> graph" where
  "set_txn_memory_cap cap g = g\<lparr>g_txn_memory_cap := cap\<rparr>"

definition check_quota :: "graph \<Rightarrow> graph_error + unit" where
  "check_quota g = (case g_quota_hook g of None \<Rightarrow> Inr () | Some e \<Rightarrow> Inl e)"

definition is_append_only_node :: "graph \<Rightarrow> nat \<Rightarrow> bool" where
  "is_append_only_node g i \<longleftrightarrow> i \<in> g_append_only_node_ids g"

definition reject_if_append_only :: "graph \<Rightarrow> nat \<Rightarrow> graph_error + unit" where
  "reject_if_append_only g i =
     (if \<not> is_append_only_node g i then Inr ()
      else Inl (AppendOnlyLabelInTxn
        (case read_node g i of Inl _ \<Rightarrow> ascii ''<unknown>'' | Inr n \<Rightarrow> nd_label n)))"

definition set_label_append_only :: "rstring \<Rightarrow> bool \<Rightarrow> graph \<Rightarrow> graph" where
  "set_label_append_only l on g =
     (if on then g\<lparr>g_catalog := mark_label_append_only l (g_next_node_id g) (g_catalog g)\<rparr>
      else g\<lparr>g_catalog := unmark_label_append_only l (g_catalog g),
             g_append_only_node_ids := g_append_only_node_ids g - ids_for (g_node_label_index g) l\<rparr>)"

text \<open>Access to the two optional components, with the error of legacy mode.\<close>

definition with_table :: "(delta_table \<Rightarrow> delta_table) \<Rightarrow> unit gstep" where
  "with_table f g =
     (case g_delta_table g of
        None \<Rightarrow> (Inl MvccNotEnabled, g)
      | Some t \<Rightarrow> (Inr (), g\<lparr>g_delta_table := Some (f t)\<rparr>))"

definition with_registry :: "(registry \<Rightarrow> registry) \<Rightarrow> unit gstep" where
  "with_registry f g =
     (case g_registry g of
        None \<Rightarrow> (Inl MvccNotEnabled, g)
      | Some r \<Rightarrow> (Inr (), g\<lparr>g_registry := Some (f r)\<rparr>))"

section \<open>Begin, commit, rollback\<close>

definition begin_txn :: "nat gstep" where
  "begin_txn g =
     (case (g_registry g, g_clock g) of
        (Some r, Some c) \<Rightarrow>
          (let (x, r', c') = begin_reg r c;
               g1 = g\<lparr>g_registry := Some r', g_clock := Some c'\<rparr>
           in case wal_log (WalBegin x) g1 of
                (Inr _, g2) \<Rightarrow> (Inr x, g2)
              | (Inl e, g2) \<Rightarrow> (Inl e, g2\<lparr>g_registry := map_option (end_reg x) (g_registry g2)\<rparr>))
      | _ \<Rightarrow> (Inl MvccNotEnabled, g))"

text \<open>The newest delta of the transaction for each key it wrote, in write order, each key
  once.\<close>

fun collect_committed ::
  "delta_table \<Rightarrow> nat \<Rightarrow> entity_key set \<Rightarrow> entity_key list \<Rightarrow> (entity_key \<times> delta) list" where
  "collect_committed t x seen [] = []"
| "collect_committed t x seen (k # ks) =
     (if k \<in> seen then collect_committed t x seen ks
      else (case table_newest_delta_of_txn t k x of
          None \<Rightarrow> collect_committed t x (insert k seen) ks
        | Some d \<Rightarrow> (k, d) # collect_committed t x (insert k seen) ks))"

text \<open>The redo record of one committed delta; a snapshot of the wrong kind is unreachable.
  The \<open>io\<close> of a write stands for the overflow pages it may need.\<close>

definition wal_log_committed_delta :: "nat \<Rightarrow> entity_key \<times> delta \<Rightarrow> unit gstep" where
  "wal_log_committed_delta x kd g =
     (if \<not> g_wal_enabled g then (Inr (), g)
      else (case (fst kd, dl_new (snd kd)) of
          (KeyNode i, None) \<Rightarrow> wal_append (WalTombstoneNode i (Some x)) g
        | (KeyNode i, Some SnapDeleted) \<Rightarrow> wal_append (WalTombstoneNode i (Some x)) g
        | (KeyEdge i, None) \<Rightarrow> wal_append (WalTombstoneEdge i (Some x)) g
        | (KeyEdge i, Some SnapDeleted) \<Rightarrow> wal_append (WalTombstoneEdge i (Some x)) g
        | (KeyNode _, Some (SnapNode n)) \<Rightarrow>
            sbind io (\<lambda>_. wal_append (WalWriteNode (nd_id n) n (Some x))) g
        | (KeyEdge _, Some (SnapEdge e)) \<Rightarrow>
            sbind io (\<lambda>_. wal_append (WalWriteEdge (ed_id e) e (Some x))) g
        | _ \<Rightarrow> (Inl Panic, g)))"

text \<open>Phase 1: the commit timestamp is drawn, the redo records and the commit marker are
  appended and the log is synced. Returns the timestamp and the committed deltas.\<close>

definition commit_log :: "nat \<Rightarrow> (nat \<times> (entity_key \<times> delta) list) gstep" where
  "commit_log x g =
     (if \<not> txn_is_active g x then (Inl (TxnNotActive x), g)
      else (case g_clock g of
          None \<Rightarrow> (Inl MvccNotEnabled, g)
        | Some c \<Rightarrow>
            let (ts, c') = clock_next c; g1 = g\<lparr>g_clock := Some c'\<rparr>
            in (case (g_registry g1, g_delta_table g1) of
                (Some r, Some t) \<Rightarrow>
                  (let committed = collect_committed t x {} (keys_written_by r x)
                   in sbind (siter (wal_log_committed_delta x) committed)
                      (\<lambda>_. sbind (wal_log (WalCommit x))
                      (\<lambda>_. sbind wal_sync
                      (\<lambda>_. sret (ts, committed)))) g1)
              | _ \<Rightarrow> (Inl MvccNotEnabled, g1))))"

text \<open>Phases 2 to 4: stamp, reconcile, end.\<close>

definition commit_apply :: "nat \<Rightarrow> nat \<times> (entity_key \<times> delta) list \<Rightarrow> unit gstep" where
  "commit_apply x tc =
     sbind (with_table (fold (\<lambda>kd. stamp_commit_for_txn (fst kd) x (fst tc)) (snd tc)))
     (\<lambda>_. sbind (siter (\<lambda>kd. reconcile_committed_delta (fst kd) (snd kd)) (snd tc))
     (\<lambda>_. with_registry (end_reg x)))"

definition commit_txn :: "nat \<Rightarrow> unit gstep" where
  "commit_txn x = sbind (commit_log x) (commit_apply x)"

definition rollback_txn :: "nat \<Rightarrow> unit gstep" where
  "rollback_txn x g =
     (if \<not> txn_is_active g x then (Inl (TxnNotActive x), g)
      else (case (g_registry g, g_delta_table g) of
          (Some r, Some t) \<Rightarrow>
            sbind (smodify (\<lambda>g. g\<lparr>g_delta_table :=
                      Some (fold (\<lambda>k. remove_deltas_for_txn k x) (keys_written_by r x) t),
                    g_registry := Some (end_reg x r)\<rparr>))
            (\<lambda>_. sbind (wal_log (WalRollback x)) (\<lambda>_. wal_sync)) g
        | _ \<Rightarrow> (Inl MvccNotEnabled, g)))"

section \<open>Writes inside a transaction\<close>

definition delta_bytes :: "graph \<Rightarrow> entity_snapshot option \<Rightarrow> entity_snapshot \<Rightarrow> nat" where
  "delta_bytes g prior new =
     (case prior of None \<Rightarrow> 0 | Some s \<Rightarrow> approx_size (g_size_node g) (g_size_edge g) s)
     + approx_size (g_size_node g) (g_size_edge g) new"

definition charge_txn_memory :: "nat \<Rightarrow> nat \<Rightarrow> unit gstep" where
  "charge_txn_memory x sz g =
     (case g_registry g of
        None \<Rightarrow> (Inl MvccNotEnabled, g)
      | Some r \<Rightarrow> (case add_bytes x sz r of
          (None, _) \<Rightarrow> (Inl (TxnNotActive x), g)
        | (Some used, r') \<Rightarrow>
            let g1 = g\<lparr>g_registry := Some r'\<rparr>
            in (case g_txn_memory_cap g of
                Some cap \<Rightarrow>
                  if used > cap
                  then sbind (rollback_txn x) (\<lambda>_. sfail (TxnMemoryCapExceeded x used cap)) g1
                  else (Inr (), g1)
              | None \<Rightarrow> (Inr (), g1))))"

definition seed_overlay :: "nat \<Rightarrow> entity_key \<Rightarrow> delta \<Rightarrow> registry \<Rightarrow> registry" where
  "seed_overlay x k d r =
     (if dl_op d = Insert
      then (case (k, dl_new d) of
          (KeyNode i, Some (SnapNode n)) \<Rightarrow> mark_node_pending x i (nd_label n) r
        | (KeyEdge i, Some (SnapEdge e)) \<Rightarrow>
            mark_edge_pending x (ed_target e) Incoming i
              (mark_edge_pending x (ed_source e) Outgoing i r)
        | _ \<Rightarrow> r)
      else r)"

definition push_txn_delta :: "nat \<Rightarrow> entity_key \<Rightarrow> delta \<Rightarrow> unit gstep" where
  "push_txn_delta x k d =
     sbind (with_registry (seed_overlay x k d))
     (\<lambda>_. sbind (with_table (push_delta k d))
     (\<lambda>_. with_registry (record_write x k)))"

text \<open>The state a new delta chains onto: the transaction's own pending version, else the
  page.\<close>

definition own_pending :: "graph \<Rightarrow> nat \<Rightarrow> entity_key \<Rightarrow> delta option" where
  "own_pending g x k =
     Option.bind (g_delta_table g) (\<lambda>t. Option.bind (chain_for t k)
       (find (\<lambda>d. dl_txn_id d = x \<and> dl_commit_ts d = None)))"

definition node_chain_base :: "graph \<Rightarrow> nat \<Rightarrow> nat \<Rightarrow> entity_snapshot option" where
  "node_chain_base g x i =
     (case own_pending g x (KeyNode i) of
        Some d \<Rightarrow> dl_new d
      | None \<Rightarrow> if i \<in> g_node_exists g then map_option SnapNode (ok (read_node g i)) else None)"

definition edge_chain_base :: "graph \<Rightarrow> nat \<Rightarrow> nat \<Rightarrow> entity_snapshot option" where
  "edge_chain_base g x i =
     (case own_pending g x (KeyEdge i) of
        Some d \<Rightarrow> dl_new d
      | None \<Rightarrow> if i \<in> g_edge_exists g then map_option SnapEdge (ok (read_edge g i)) else None)"

definition require_active :: "nat \<Rightarrow> unit gstep" where
  "require_active x g = ((if txn_is_active g x then Inr () else Inl (TxnNotActive x)), g)"

text \<open>The common tail of every write: charge, then push.\<close>

definition charge_and_push ::
  "nat \<Rightarrow> entity_key \<Rightarrow> entity_snapshot option \<Rightarrow> entity_snapshot \<Rightarrow> delta_op \<Rightarrow> unit gstep" where
  "charge_and_push x k prior new oper g =
     sbind (charge_txn_memory x (delta_bytes g prior new))
       (\<lambda>_. push_txn_delta x k (delta_new x prior (Some new) oper)) g"

definition add_node_in_txn :: "nat \<Rightarrow> rstring \<Rightarrow> properties \<Rightarrow> nat gstep" where
  "add_node_in_txn x l ps =
     sbind (sread check_quota) (\<lambda>_. sbind (require_active x) (\<lambda>_ g.
       if is_label_append_only (g_catalog g) l then (Inl (AppendOnlyLabelInTxn l), g)
       else (let i = g_next_node_id g
             in sbind (smodify (\<lambda>g. g\<lparr>g_next_node_id := u64_succ i\<rparr>))
                (\<lambda>_. sbind (charge_and_push x (KeyNode i) None (SnapNode (node_new i l ps)) Insert)
                (\<lambda>_. sret i)) g)))"

definition update_node_in_txn :: "nat \<Rightarrow> nat \<Rightarrow> node \<Rightarrow> unit gstep" where
  "update_node_in_txn x i n =
     sbind (sread check_quota) (\<lambda>_. sbind (require_active x)
     (\<lambda>_. sbind (sread (\<lambda>g. reject_if_append_only g i))
     (\<lambda>_. sbind (sread (\<lambda>g. node_in_txn g x i))
     (\<lambda>_ g. charge_and_push x (KeyNode i) (node_chain_base g x i) (SnapNode n) Update g))))"

definition remove_node_in_txn :: "nat \<Rightarrow> nat \<Rightarrow> unit gstep" where
  "remove_node_in_txn x i =
     sbind (require_active x)
     (\<lambda>_. sbind (sread (\<lambda>g. reject_if_append_only g i))
     (\<lambda>_. sbind (sread (\<lambda>g. node_in_txn g x i))
     (\<lambda>_ g. charge_and_push x (KeyNode i) (node_chain_base g x i) SnapDeleted Delete g)))"

definition require_endpoint :: "nat \<Rightarrow> nat \<Rightarrow> graph \<Rightarrow> graph_error + unit" where
  "require_endpoint x i g =
     (case node_in_txn g x i of Inl _ \<Rightarrow> Inl (NodeNotFound i) | Inr _ \<Rightarrow> Inr ())"

definition add_edge_in_txn :: "nat \<Rightarrow> rstring \<Rightarrow> nat \<Rightarrow> nat \<Rightarrow> properties \<Rightarrow> nat gstep" where
  "add_edge_in_txn x l s t ps =
     sbind (sread check_quota) (\<lambda>_. sbind (require_active x)
     (\<lambda>_. sbind (sread (require_endpoint x s)) (\<lambda>_. sbind (sread (require_endpoint x t)) (\<lambda>_ g.
       let i = g_next_edge_id g
       in sbind (smodify (\<lambda>g. g\<lparr>g_next_edge_id := u64_succ i\<rparr>))
          (\<lambda>_. sbind (charge_and_push x (KeyEdge i) None (SnapEdge (edge_new i l s t ps)) Insert)
          (\<lambda>_. sret i)) g))))"

definition update_edge_in_txn :: "nat \<Rightarrow> nat \<Rightarrow> edge \<Rightarrow> unit gstep" where
  "update_edge_in_txn x i e =
     sbind (sread check_quota) (\<lambda>_. sbind (require_active x)
     (\<lambda>_. sbind (sread (\<lambda>g. edge_in_txn g x i))
     (\<lambda>_ g. charge_and_push x (KeyEdge i) (edge_chain_base g x i) (SnapEdge e) Update g)))"

definition remove_edge_in_txn :: "nat \<Rightarrow> nat \<Rightarrow> unit gstep" where
  "remove_edge_in_txn x i =
     sbind (require_active x)
     (\<lambda>_. sbind (sread (\<lambda>g. edge_in_txn g x i))
     (\<lambda>_ g. charge_and_push x (KeyEdge i) (edge_chain_base g x i) SnapDeleted Delete g))"

section \<open>Enumeration reads\<close>

definition node_visible_in_txn :: "graph \<Rightarrow> nat \<Rightarrow> nat \<Rightarrow> bool" where
  "node_visible_in_txn g x i =
     (case txn_start_ts g x of
        Inl _ \<Rightarrow> False
      | Inr ts \<Rightarrow> ok (resolve_node_visible g i ts (Some x)) \<noteq> None)"

definition union_visible_in_txn :: "graph \<Rightarrow> nat \<Rightarrow> nat set \<Rightarrow> nat list \<Rightarrow> nat list" where
  "union_visible_in_txn g x confirmed pending =
     sorted_list_of_set (Set.filter (node_visible_in_txn g x) (confirmed \<union> set pending))"

definition node_ids_in_txn :: "graph \<Rightarrow> nat \<Rightarrow> graph_error + nat list" where
  "node_ids_in_txn g x =
     rbind (ok_or MvccNotEnabled (g_registry g)) (\<lambda>r.
       if \<not> is_active r x then Inl (TxnNotActive x)
       else Inr (union_visible_in_txn g x (g_node_exists g) (pending_node_ids r x)))"

definition nodes_by_label_in_txn :: "graph \<Rightarrow> nat \<Rightarrow> rstring \<Rightarrow> graph_error + nat list" where
  "nodes_by_label_in_txn g x l =
     rbind (ok_or MvccNotEnabled (g_registry g)) (\<lambda>r.
       if \<not> is_active r x then Inl (TxnNotActive x)
       else Inr (union_visible_in_txn g x (ids_for (g_node_label_index g) l)
                  (pending_node_ids_by_label r x l)))"

definition node_count_in_txn :: "graph \<Rightarrow> nat \<Rightarrow> graph_error + nat" where
  "node_count_in_txn g x = rbind (node_ids_in_txn g x) (\<lambda>ids. Inr (length ids))"

section \<open>The vacuum\<close>

text \<open>\<^verbatim>\<open>preserve_on_disk_adj_head\<close>: the heads of a live slot survive its rewrite.\<close>

definition preserve_on_disk_adj_head :: "graph \<Rightarrow> nat \<Rightarrow> node \<Rightarrow> graph_error + node" where
  "preserve_on_disk_adj_head g i n =
     (if g_node_page_count g \<le> fst (page_and_slot i) then Inr n
      else if KeyNode i \<in> g_bad_reads g then Inl StorageError
      else (case g_node_slots g i of
          None \<Rightarrow> Inr n
        | Some on_disk \<Rightarrow> Inr (patch_adj_pointer (head_of (nd_adj_page_id on_disk))
            (head_of (nd_adj_incoming_page_id on_disk)) n)))"

definition materialize_to_page :: "entity_key \<Rightarrow> entity_snapshot option \<Rightarrow> unit gstep" where
  "materialize_to_page k st =
     (case (k, st) of
        (KeyNode i, None) \<Rightarrow> tombstone_node_slot False i
      | (KeyNode i, Some SnapDeleted) \<Rightarrow> tombstone_node_slot False i
      | (KeyEdge i, None) \<Rightarrow> tombstone_edge_slot False i
      | (KeyEdge i, Some SnapDeleted) \<Rightarrow> tombstone_edge_slot False i
      | (KeyNode _, Some (SnapNode n)) \<Rightarrow>
          sbind io (\<lambda>_. sbind (sread (\<lambda>g. preserve_on_disk_adj_head g (nd_id n) n))
            (\<lambda>n'. put_node_slot (nd_id n) n'))
      | (KeyEdge _, Some (SnapEdge e)) \<Rightarrow> sbind io (\<lambda>_. put_edge_slot (ed_id e) e)
      | _ \<Rightarrow> sfail Panic)"

definition apply_vacuum_category_b ::
  "entity_key \<Rightarrow> entity_snapshot option \<Rightarrow> entity_snapshot option \<Rightarrow> unit gstep" where
  "apply_vacuum_category_b k new old g =
     (case (k, new, old) of
        (KeyNode _, Some SnapDeleted, Some (SnapNode prior)) \<Rightarrow> (Inr (), reconcile_node_delete prior g)
      | (KeyNode _, None, Some (SnapNode prior)) \<Rightarrow> (Inr (), reconcile_node_delete prior g)
      | (KeyEdge _, Some SnapDeleted, Some (SnapEdge prior)) \<Rightarrow> reconcile_edge_delete prior g
      | (KeyEdge _, None, Some (SnapEdge prior)) \<Rightarrow> reconcile_edge_delete prior g
      | (KeyNode _, Some (SnapNode n), Some (SnapNode prior)) \<Rightarrow>
          (Inr (), g\<lparr>g_node_label_index :=
              (if nd_label prior \<noteq> nd_label n
               then label_remove (nd_label prior) (nd_id n) (g_node_label_index g)
               else g_node_label_index g),
            g_node_property_index :=
              pindex_remove_node (nd_label prior) (nd_properties prior) (nd_id n) (g_node_property_index g)\<rparr>)
      | (KeyEdge _, Some (SnapEdge e), Some (SnapEdge prior)) \<Rightarrow>
          if ed_label prior \<noteq> ed_label e
          then (Inr (), remove_pair_index (ed_source prior) (ed_target prior) (ed_label prior) (ed_id e)
                  (g\<lparr>g_edge_label_index :=
                      label_remove (ed_label prior) (ed_id e) (g_edge_label_index g)\<rparr>))
          else (Inr (), g)
      | _ \<Rightarrow> (Inr (), g))"

definition vacuum_entry ::
  "entity_key \<times> entity_snapshot option \<times> entity_snapshot option \<Rightarrow> unit gstep" where
  "vacuum_entry e =
     (case e of (k, new, old) \<Rightarrow>
        sbind (materialize_to_page k new) (\<lambda>_. apply_vacuum_category_b k new old))"

definition vacuum_once :: "nat gstep" where
  "vacuum_once g =
     (case (g_registry g, g_delta_table g) of
        (Some r, Some t) \<Rightarrow>
          (let (drained, t') = drain_vacuumable (oldest_active_start_ts r) t
           in sbind (siter vacuum_entry drained) (\<lambda>_. sret (length drained))
                (g\<lparr>g_delta_table := Some t'\<rparr>))
      | _ \<Rightarrow> (Inl MvccNotEnabled, g))"

definition pending_version_chains :: "graph \<Rightarrow> nat" where
  "pending_version_chains g = (case g_delta_table g of None \<Rightarrow> 0 | Some t \<Rightarrow> chain_count t)"

end
