(* ===== verification/Graph_Frame.thy ===== *)
theory Graph_Frame
  imports Graph_Txn
begin

text \<open>
  What the operations leave alone, and what a reader resolves: the visible state of a key as a
  function of the delta table and of the page state under it (\<open>page_base\<close>), independent of
  whether the key is a node or an edge. The lemmas on transactions are stated over it.
\<close>

section \<open>Observations\<close>

text \<open>The state without the log and the pending faults.\<close>

definition core :: "graph \<Rightarrow> graph" where
  "core g = g\<lparr>g_faults := [], g_wal := [], g_wal_synced := 0\<rparr>"

text \<open>The versioning part of the state.\<close>

definition mvcc :: "graph \<Rightarrow> delta_table option \<times> registry option \<times> txn_clock option" where
  "mvcc g = (g_delta_table g, g_registry g, g_clock g)"

text \<open>The committed state under the chain of a key: a reader's base.\<close>

fun page_base :: "graph \<Rightarrow> entity_key \<Rightarrow> entity_snapshot option" where
  "page_base g (KeyNode i) =
     (if i \<in> g_node_exists g then map_option SnapNode (ok (read_node g i)) else None)"
| "page_base g (KeyEdge i) =
     (if i \<in> g_edge_exists g then map_option SnapEdge (ok (read_edge g i)) else None)"

lemma core_eqD:
  assumes "core g' = core g"
  shows "mvcc g' = mvcc g" "page_base g' = page_base g" "g_batch_depth g' = g_batch_depth g"
    "g_wal_enabled g' = g_wal_enabled g" "g_bad_reads g' = g_bad_reads g"
    "g_node_slots g' = g_node_slots g" "g_edge_slots g' = g_edge_slots g"
    "g_node_exists g' = g_node_exists g" "g_edge_exists g' = g_edge_exists g"
    "g_node_page_count g' = g_node_page_count g" "g_edge_page_count g' = g_edge_page_count g"
proof -
  have eq: "g' = g\<lparr>g_faults := g_faults g', g_wal := g_wal g', g_wal_synced := g_wal_synced g'\<rparr>"
    using assms by (cases g; cases g') (simp add: core_def)
  show "page_base g' = page_base g"
  proof
    fix k show "page_base g' k = page_base g k"
      by (subst eq, cases k) (simp_all add: read_node_def read_edge_def)
  qed
  show "mvcc g' = mvcc g" by (subst eq) (simp add: mvcc_def)
qed (use assms in \<open>cases g; cases g'; simp add: core_def\<close>)+

section \<open>Frame rules\<close>

lemma keeps_core_io [keeps_intros]: "keeps core io"
  by rule (simp add: io_def core_def split: list.splits)

lemma keeps_core_wal_append [keeps_intros]: "keeps core (wal_append r)"
  unfolding wal_append_def by (intro keeps_intros) (simp add: core_def)

lemma keeps_core_wal_log [keeps_intros]: "keeps core (wal_log r)"
proof
  fix g show "core (snd (wal_log r g)) = core g"
    using keeps_core_wal_append [of r] by (simp add: wal_log_def keeps_def)
qed

lemma keeps_core_wal_sync [keeps_intros]: "keeps core wal_sync"
proof
  fix g
  have "keeps core (sbind io (\<lambda>_. smodify (\<lambda>g. g\<lparr>g_wal_synced := length (g_wal g)\<rparr>)))"
    by (intro keeps_intros) (simp add: core_def)
  then show "core (snd (wal_sync g)) = core g"
    by (simp add: wal_sync_def keeps_def)
qed

lemma keeps_core_wal_log_committed [keeps_intros]: "keeps core (wal_log_committed_delta x kd)"
proof
  fix g
  have "keeps core (sbind io (\<lambda>_. wal_append r))" for r by (intro keeps_intros)
  then show "core (snd (wal_log_committed_delta x kd g)) = core g"
    using keeps_core_wal_append
    by (auto simp: wal_log_committed_delta_def keeps_def split: entity_key.splits option.splits
        entity_snapshot.splits)
qed

section \<open>Quiet steps\<close>

text \<open>
  The physical adjacency heads of a node are not part of its value (\<^verbatim>\<open>Node\<close>'s
  \<^verbatim>\<open>PartialEq\<close>); \<open>snap_view\<close> is the value of a snapshot, with absence and deletion
  the same.
\<close>

definition node_view :: "node \<Rightarrow> node" where
  "node_view n = patch_adj_pointer None None n"

fun snap_view :: "entity_snapshot option \<Rightarrow> (node + edge) option" where
  "snap_view None = None"
| "snap_view (Some SnapDeleted) = None"
| "snap_view (Some (SnapNode n)) = Some (Inl (node_view n))"
| "snap_view (Some (SnapEdge e)) = Some (Inr e)"

lemma node_view_patch [simp]: "node_view (patch_adj_pointer a b n) = node_view n"
  by (simp add: node_view_def patch_adj_pointer_def)

lemma node_view_fields:
  "nd_id (node_view n) = nd_id n" "nd_label (node_view n) = nd_label n"
  "nd_properties (node_view n) = nd_properties n"
  by (simp_all add: node_view_def patch_adj_pointer_def)

text \<open>A live slot is on an existing page, belongs to an id of the exists-sets and holds a record with that id; a node
  is resident when its slot is live on an existing page.\<close>

definition slots_ok :: "graph \<Rightarrow> bool" where
  "slots_ok g \<longleftrightarrow>
     (\<forall>i n. g_node_slots g i = Some n \<longrightarrow>
        i \<in> g_node_exists g \<and> nd_id n = i \<and> fst (page_and_slot i) < g_node_page_count g) \<and>
     (\<forall>i e. g_edge_slots g i = Some e \<longrightarrow>
        i \<in> g_edge_exists g \<and> ed_id e = i \<and> fst (page_and_slot i) < g_edge_page_count g)"

definition resident :: "graph \<Rightarrow> nat \<Rightarrow> bool" where
  "resident g i \<longleftrightarrow> g_node_slots g i \<noteq> None \<and> fst (page_and_slot i) < g_node_page_count g"

definition quiet :: "graph \<Rightarrow> graph \<Rightarrow> bool" where
  "quiet g g' \<longleftrightarrow> mvcc g' = mvcc g \<and>
     (slots_ok g \<longrightarrow> (\<forall>k. snap_view (page_base g' k) = snap_view (page_base g k)) \<and> slots_ok g') \<and>
     (\<forall>i. resident g i \<longrightarrow> resident g' i) \<and>
     g_batch_depth g' = g_batch_depth g \<and> g_bad_reads g' = g_bad_reads g \<and>
     g_node_exists g \<subseteq> g_node_exists g' \<and> g_edge_exists g \<subseteq> g_edge_exists g'"

lemma quiet_refl [simp]: "quiet g g"
  by (simp add: quiet_def)

lemma quiet_trans [trans]: "quiet g h \<Longrightarrow> quiet h k \<Longrightarrow> quiet g k"
  by (auto simp: quiet_def)

lemma quiet_core:
  assumes "core g' = core g"
  shows "quiet g g'"
  by (simp add: quiet_def slots_ok_def resident_def core_eqD [OF assms])

lemma quiet_derived:
  "quiet g (g\<lparr>g_adj_cache := c\<rparr>)" "quiet g (g\<lparr>g_adj_file := f\<rparr>)"
  "quiet g (g\<lparr>g_adj_pending := p\<rparr>)" "quiet g (g\<lparr>g_edge_pair_index := x\<rparr>)"
  "quiet g (g\<lparr>g_node_label_index := l\<rparr>)" "quiet g (g\<lparr>g_edge_label_index := l\<rparr>)"
  "quiet g (g\<lparr>g_node_property_index := q\<rparr>)"
  "quiet g (g\<lparr>g_node_count := n\<rparr>)" "quiet g (g\<lparr>g_edge_count := n\<rparr>)"
proof -
  have "page_base (g\<lparr>g_adj_cache := c\<rparr>) k = page_base g k" "page_base (g\<lparr>g_adj_file := f\<rparr>) k = page_base g k"
    "page_base (g\<lparr>g_adj_pending := p\<rparr>) k = page_base g k" "page_base (g\<lparr>g_edge_pair_index := x\<rparr>) k = page_base g k"
    "page_base (g\<lparr>g_node_label_index := l\<rparr>) k = page_base g k" "page_base (g\<lparr>g_edge_label_index := l\<rparr>) k = page_base g k"
    "page_base (g\<lparr>g_node_property_index := q\<rparr>) k = page_base g k"
    "page_base (g\<lparr>g_node_count := n\<rparr>) k = page_base g k" "page_base (g\<lparr>g_edge_count := n\<rparr>) k = page_base g k" for k
    by (cases k; simp add: read_node_def read_edge_def)+
  then show "quiet g (g\<lparr>g_adj_cache := c\<rparr>)" "quiet g (g\<lparr>g_adj_file := f\<rparr>)"
    "quiet g (g\<lparr>g_adj_pending := p\<rparr>)" "quiet g (g\<lparr>g_edge_pair_index := x\<rparr>)"
    "quiet g (g\<lparr>g_node_label_index := l\<rparr>)" "quiet g (g\<lparr>g_edge_label_index := l\<rparr>)"
    "quiet g (g\<lparr>g_node_property_index := q\<rparr>)"
    "quiet g (g\<lparr>g_node_count := n\<rparr>)" "quiet g (g\<lparr>g_edge_count := n\<rparr>)"
    by (simp_all add: quiet_def slots_ok_def resident_def mvcc_def)
qed

text \<open>A method is quiet from the states that satisfy a condition stable under quiet steps.\<close>

definition stable :: "(graph \<Rightarrow> bool) \<Rightarrow> bool" where
  "stable P \<longleftrightarrow> (\<forall>g g'. P g \<longrightarrow> quiet g g' \<longrightarrow> P g')"

definition quietly :: "(graph \<Rightarrow> bool) \<Rightarrow> 'a gstep \<Rightarrow> bool" where
  "quietly P m \<longleftrightarrow> (\<forall>g. P g \<longrightarrow> quiet g (snd (m g)))"

lemma quietlyI: "(\<And>g. P g \<Longrightarrow> quiet g (snd (m g))) \<Longrightarrow> quietly P m"
  by (simp add: quietly_def)

lemma quietlyD: "quietly P m \<Longrightarrow> P g \<Longrightarrow> m g = (r, g') \<Longrightarrow> quiet g g'"
  unfolding quietly_def by (metis snd_conv)

lemma quietly_core: "keeps core m \<Longrightarrow> quietly P m"
  by (simp add: quietly_def quiet_core keeps_def)

lemma quietly_smodify: "(\<And>g. P g \<Longrightarrow> quiet g (f g)) \<Longrightarrow> quietly P (smodify f)"
  by (simp add: quietly_def)

lemma quietly_sret: "quietly P (sret x)"
  by (simp add: quietly_def)

lemma quietly_sbind:
  assumes "stable P" "quietly P m" "\<And>x. quietly P (k x)"
  shows "quietly P (sbind m k)"
proof (rule quietlyI)
  fix g assume P: "P g"
  obtain r g1 where m: "m g = (r, g1)" by (cases "m g")
  with assms(2) P have q: "quiet g g1" by (auto dest: quietlyD)
  with P assms(1) have P1: "P g1" by (auto simp: stable_def)
  show "quiet g (snd (sbind m k g))"
  proof (cases r)
    case (Inl e)
    with m q show ?thesis by (simp add: sbind_def)
  next
    case (Inr x)
    with m have "sbind m k g = k x g1" by (simp add: sbind_def)
    moreover have "quiet g1 (snd (k x g1))" using assms(3) P1 by (simp add: quietly_def)
    ultimately show ?thesis using q quiet_trans by simp
  qed
qed

lemma quietly_siter:
  assumes "stable P" "\<And>x. x \<in> set xs \<Longrightarrow> quietly P (f x)"
  shows "quietly P (siter f xs)"
  using assms(2) by (induction xs) (auto intro: quietly_sret quietly_sbind [OF assms(1)])

lemma stable_resident: "stable (\<lambda>g. resident g i \<or> 0 < g_batch_depth g)"
  by (auto simp: stable_def quiet_def)

lemma stable_conj: "stable P \<Longrightarrow> stable Q \<Longrightarrow> stable (\<lambda>g. P g \<and> Q g)"
  by (auto simp: stable_def)

lemma stable_True: "stable (\<lambda>_. True)"
  by (simp add: stable_def)

section \<open>Adjacency updates are quiet on resident nodes\<close>

lemma stable_resident1: "stable (\<lambda>g. resident g i)"
  by (auto simp: stable_def quiet_def)

lemma quiet_put_node:
  assumes "g_node_slots g i = Some n" "fst (page_and_slot i) < g_node_page_count g"
    and "node_view n' = node_view n"
  shows "quiet g (g\<lparr>g_node_slots := (g_node_slots g)(i \<mapsto> n'),
                    g_node_page_count := max (g_node_page_count g) (Suc (fst (page_and_slot i)))\<rparr>)"
    (is "quiet g ?g'")
proof -
  have mx: "max (g_node_page_count g) (Suc (fst (page_and_slot i))) = g_node_page_count g"
    using assms(2) by simp
  have "snap_view (page_base ?g' k) = snap_view (page_base g k)" for k
    using assms(1,3) by (cases k) (auto simp: mx read_node_def read_edge_def ok_def)
  moreover have "nd_id n' = nd_id n" using assms(3) node_view_fields(1) by metis
  with assms(1) have "slots_ok g \<Longrightarrow> slots_ok ?g'"
    by (auto simp: slots_ok_def mx)
  ultimately show ?thesis using assms(2) by (auto simp: quiet_def resident_def mvcc_def)
qed

lemma quiet_log_node_slot:
  assumes "g_node_slots g i = Some n" "fst (page_and_slot i) < g_node_page_count g"
    and "node_view n' = node_view n"
  shows "quiet g (snd (log_node_slot i n' g))"
proof -
  have "quiet h (snd (put_node_slot i n' h))" if "core h = core g" for h
  proof -
    obtain r h1 where io: "io h = (r, h1)" by (cases "io h")
    then have "core h1 = core h" using keeps_core_io by (rule keepsD [rotated])
    with that have c: "core h1 = core g" by simp
    have q: "quiet h h1" using \<open>core h1 = core h\<close> by (rule quiet_core)
    have "quiet h1 (h1\<lparr>g_node_slots := (g_node_slots h1)(i \<mapsto> n'),
        g_node_page_count := max (g_node_page_count h1) (Suc (fst (page_and_slot i)))\<rparr>)"
      using assms by (intro quiet_put_node) (simp_all add: core_eqD [OF c])
    with q quiet_trans have "quiet h (h1\<lparr>g_node_slots := (g_node_slots h1)(i \<mapsto> n'),
        g_node_page_count := max (g_node_page_count h1) (Suc (fst (page_and_slot i)))\<rparr>)" by blast
    with q io show ?thesis by (cases r) (simp_all add: put_node_slot_def sbind_def)
  qed
  moreover obtain r h where w: "wal_log (WalWriteNode i n' None) g = (r, h)"
    by (cases "wal_log (WalWriteNode i n' None) g")
  moreover have c: "core h = core g" using keeps_core_wal_log w by (rule keepsD)
  ultimately have "quiet h (snd (put_node_slot i n' h))" "quiet g h" by (auto intro: quiet_core)
  with w show ?thesis by (cases r) (auto simp: log_node_slot_def sbind_def intro: quiet_trans)
qed

lemma quietly_resolve_adj: "quietly P (resolve_adj_pointer i)"
  by (rule quietlyI) (simp add: resolve_adj_pointer_def quiet_derived Let_def split: option.splits)

lemma quietly_append: "stable P \<Longrightarrow> quietly P (append_and_update_caches i dir p ids)"
proof (rule quietlyI)
  fix g assume st: "stable P" and P: "P g"
  let ?old = "case ptr_head dir p of None \<Rightarrow> [] | Some pg \<Rightarrow> g_adj_file g (pg, i, dir)"
  let ?pg = "g_adj_place g (i, dir) (ptr_head dir p) (?old @ ids)"
  let ?m = "sbind io (\<lambda>_. sbind (smodify (\<lambda>g. g\<lparr>g_adj_file := (g_adj_file g)((?pg, i, dir) := ?old @ ids)\<rparr>))
         (\<lambda>_. sbind (wal_log (WalWriteAdjPage ?pg None))
         (\<lambda>_. sbind (smodify (\<lambda>g. g\<lparr>g_adj_cache := (g_adj_cache g)(i \<mapsto> ptr_set_head dir ?pg p)\<rparr>))
         (\<lambda>_. sret (ptr_set_head dir ?pg p)))))"
  have "quietly P ?m"
    by (intro quietly_sbind st quietly_smodify quietly_sret quiet_derived
        keeps_core_io [THEN quietly_core] keeps_core_wal_log [THEN quietly_core])
  then show "quiet g (snd (append_and_update_caches i dir p ids g))"
    using P by (simp add: append_and_update_caches_def quietly_def Let_def)
qed

lemma quietly_persist: "quietly (\<lambda>g. resident g i) (persist_adj_pointer_to_slot i p)"
proof (rule quietlyI)
  fix g assume "resident g i"
  then obtain n where n: "g_node_slots g i = Some n" "fst (page_and_slot i) < g_node_page_count g"
    by (auto simp: resident_def)
  then show "quiet g (snd (persist_adj_pointer_to_slot i p g))"
    by (simp add: persist_adj_pointer_to_slot_def quiet_log_node_slot [OF n])
qed

lemma quietly_write_adj: "quietly (\<lambda>g. resident g i) (write_adj_immediate i dir e)"
  unfolding write_adj_immediate_def
  by (intro quietly_sbind stable_resident1 quietly_resolve_adj quietly_append quietly_persist)

lemma quietly_add_adj:
  "quietly (\<lambda>g. resident g i \<or> 0 < g_batch_depth g) (add_edge_to_adjacency i dir e)"
proof (rule quietlyI)
  fix g assume "resident g i \<or> 0 < g_batch_depth g"
  with quietly_write_adj [of i dir e] show "quiet g (snd (add_edge_to_adjacency i dir e g))"
    by (auto simp: add_edge_to_adjacency_def quiet_derived quietly_def)
qed

lemma quietly_remove_pages: "quietly (\<lambda>_. True) (remove_edge_from_pages i dir e)"
  unfolding remove_edge_from_pages_def
proof (rule quietly_sbind [OF stable_True quietly_resolve_adj], rule quietlyI)
  fix p g
  have m: "quietly (\<lambda>_. True) (sbind io (\<lambda>_. sbind (smodify (\<lambda>g. g\<lparr>g_adj_file := (g_adj_file g)((pg, i, dir) := ids)\<rparr>))
               (\<lambda>_. sbind (wal_log (WalWriteAdjPage pg None))
               (\<lambda>_. smodify (\<lambda>g. g\<lparr>g_adj_cache := (g_adj_cache g)(i \<mapsto> entry)\<rparr>)))))" for pg ids entry
    by (intro quietly_sbind stable_True quietly_smodify quiet_derived
        keeps_core_io [THEN quietly_core] keeps_core_wal_log [THEN quietly_core])
  then show "quiet g (snd ((case p of
        None \<Rightarrow> (Inr (), g)
      | Some q \<Rightarrow> (case ptr_head dir q of
          None \<Rightarrow> (Inr (), g)
        | Some pid \<Rightarrow>
            let ids = filter (\<lambda>x. x \<noteq> e) (g_adj_file g (pid, i, dir));
                pg = g_adj_place g (i, dir) (Some pid) ids;
                entry = ptr_set_head dir pg q
            in sbind io (\<lambda>_. sbind (smodify (\<lambda>g. g\<lparr>g_adj_file := (g_adj_file g)((pg, i, dir) := ids)\<rparr>))
               (\<lambda>_. sbind (wal_log (WalWriteAdjPage pg None))
               (\<lambda>_. smodify (\<lambda>g. g\<lparr>g_adj_cache := (g_adj_cache g)(i \<mapsto> entry)\<rparr>)))) g))))"
    by (simp add: quietly_def Let_def split: option.splits)
qed

lemma quietly_remove_adj: "quietly (\<lambda>_. True) (remove_edge_from_adjacency i dir e)"
  using quietly_remove_pages [of i dir e]
  by (auto simp: quietly_def remove_edge_from_adjacency_def quiet_derived split: option.splits)

section \<open>Reconciliation of a commit is quiet\<close>

lemma quiet_node_exists: "quiet g (g\<lparr>g_node_exists := insert i (g_node_exists g)\<rparr>)" (is "quiet g ?g'")
proof -
  have "snap_view (page_base ?g' k) = snap_view (page_base g k)" if "slots_ok g" for k
    using that by (cases k) (fastforce simp: slots_ok_def read_node_def read_edge_def ok_def split: option.splits)+
  then show ?thesis by (auto simp: quiet_def slots_ok_def resident_def mvcc_def)
qed

lemma quiet_edge_exists: "quiet g (g\<lparr>g_edge_exists := insert i (g_edge_exists g)\<rparr>)" (is "quiet g ?g'")
proof -
  have "snap_view (page_base ?g' k) = snap_view (page_base g k)" if "slots_ok g" for k
    using that by (cases k) (fastforce simp: slots_ok_def read_node_def read_edge_def ok_def split: option.splits)+
  then show ?thesis by (auto simp: quiet_def slots_ok_def resident_def mvcc_def)
qed

lemma quiet_reconcile_node_insert: "quiet g (reconcile_node_insert n g)"
  unfolding reconcile_node_insert_def
  by (rule quiet_trans, rule quiet_node_exists [of _ "nd_id n"])
    (rule quiet_trans, rule quiet_derived(5), rule quiet_trans, rule quiet_derived(7),
     rule quiet_trans, rule quiet_derived(8), rule quiet_derived(1))

lemma quiet_pair_insert: "quiet g (insert_pair_index s t l e g)"
  by (simp add: insert_pair_index_def quiet_derived)

lemma quiet_pair_remove: "quiet g (remove_pair_index s t l e g)"
  by (simp add: remove_pair_index_def quiet_derived)

lemma quiet_node_update_add_only: "quiet g (reconcile_node_update_add_only prior new g)"
  unfolding reconcile_node_update_add_only_def
  by (rule quiet_trans, rule quiet_derived(5), rule quiet_derived(7))

lemma quiet_edge_update_add_only: "quiet g (reconcile_edge_update_add_only prior new g)"
  unfolding reconcile_edge_update_add_only_def
  by (auto intro: quiet_trans quiet_derived quiet_pair_insert)

definition endpoints_resident :: "delta \<Rightarrow> graph \<Rightarrow> bool" where
  "endpoints_resident d g \<longleftrightarrow> (case dl_new d of
       Some (SnapEdge e) \<Rightarrow> (resident g (ed_source e) \<or> 0 < g_batch_depth g) \<and>
         (resident g (ed_target e) \<or> 0 < g_batch_depth g)
     | _ \<Rightarrow> True)"

lemma stable_endpoints: "stable (endpoints_resident d)"
  by (auto simp: stable_def endpoints_resident_def quiet_def split: option.splits entity_snapshot.splits)

lemma quietly_mono: "quietly P m \<Longrightarrow> (\<And>g. Q g \<Longrightarrow> P g) \<Longrightarrow> quietly Q m"
  by (simp add: quietly_def)

lemma quietly_edge_insert:
  assumes "dl_new d = Some (SnapEdge e)"
  shows "quietly (endpoints_resident d) (reconcile_edge_insert e)"
proof -
  have "quiet g (insert_pair_index (ed_source e) (ed_target e) (ed_label e) (ed_id e)
      (g\<lparr>g_edge_exists := insert (ed_id e) (g_edge_exists g),
         g_edge_label_index := label_insert (ed_label e) (ed_id e) (g_edge_label_index g),
         g_edge_count := u64_succ (g_edge_count g)\<rparr>))" for g
    by (rule quiet_trans, rule quiet_edge_exists [of _ "ed_id e"])
      (rule quiet_trans, rule quiet_derived(6), rule quiet_trans, rule quiet_derived(9),
       rule quiet_pair_insert)
  moreover have "quietly (endpoints_resident d) (add_edge_to_adjacency (ed_source e) Outgoing (ed_id e))"
    "quietly (endpoints_resident d) (add_edge_to_adjacency (ed_target e) Incoming (ed_id e))"
    using assms by (auto intro!: quietly_mono [OF quietly_add_adj] simp: endpoints_resident_def)
  ultimately show ?thesis
    unfolding reconcile_edge_insert_def
    by (intro quietly_sbind stable_endpoints quietly_smodify)
qed

text \<open>The five outcomes of reconciling one committed key.\<close>

lemma reconcile_committed_cases:
  obtains (same) "reconcile_committed_delta k d g = (Inr (), g)"
  | (node_insert) n where "reconcile_committed_delta k d g = (Inr (), reconcile_node_insert n g)"
      "dl_new d = Some (SnapNode n)"
  | (node_update) p n where "reconcile_committed_delta k d g = (Inr (), reconcile_node_update_add_only p n g)"
      "dl_new d = Some (SnapNode n)"
  | (edge_insert) e where "reconcile_committed_delta k d g = reconcile_edge_insert e g"
      "dl_new d = Some (SnapEdge e)"
  | (edge_update) p e where "reconcile_committed_delta k d g = (Inr (), reconcile_edge_update_add_only p e g)"
      "dl_new d = Some (SnapEdge e)"
proof -
  obtain oper prior where eq: "reconcile_committed_delta k d g = reconcile_net k oper prior (dl_new d) g"
    by (simp add: reconcile_committed_delta_def Let_def)
  show thesis
  proof (cases "dl_new d" rule: snap_view.cases)
    case (3 n)
    show thesis
    proof (cases "(\<exists>i. k = KeyNode i) \<and> oper \<noteq> Delete")
      case True
      with 3 eq same node_insert node_update show thesis
        by (cases oper; cases prior rule: snap_view.cases) (auto simp: reconcile_net_def)
    next
      case False
      with 3 eq same show thesis
        by (cases oper; cases k) (auto simp: reconcile_net_def)
    qed
  next
    case (4 e)
    show thesis
    proof (cases "(\<exists>i. k = KeyEdge i) \<and> oper \<noteq> Delete")
      case True
      with 4 eq same edge_insert edge_update show thesis
        by (cases oper; cases prior rule: snap_view.cases) (auto simp: reconcile_net_def)
    next
      case False
      with 4 eq same show thesis
        by (cases oper; cases k) (auto simp: reconcile_net_def)
    qed
  qed (use eq same in \<open>cases oper; cases k; simp add: reconcile_net_def\<close>)+
qed

lemma quietly_reconcile_committed: "quietly (endpoints_resident d) (reconcile_committed_delta k d)"
proof (rule quietlyI)
  fix g assume P: "endpoints_resident d g"
  show "quiet g (snd (reconcile_committed_delta k d g))"
  proof (cases rule: reconcile_committed_cases [of k d g])
    case (edge_insert e)
    with P quietly_edge_insert show ?thesis by (simp add: quietly_def)
  qed (simp_all add: quiet_reconcile_node_insert quiet_node_update_add_only quiet_edge_update_add_only)
qed

section \<open>What a reader resolves\<close>

text \<open>The value of key \<open>k\<close> for a reader with snapshot \<open>ts\<close> and identity \<open>r\<close>.\<close>

definition visible :: "graph \<Rightarrow> entity_key \<Rightarrow> nat \<Rightarrow> nat option \<Rightarrow> (node + edge) option" where
  "visible g k ts r =
     snap_view (case g_delta_table g of
        None \<Rightarrow> None
      | Some t \<Rightarrow> dt.resolve t k (page_base g k) ts r)"

lemma snap_view_apply:
  "snap_view b = snap_view b' \<Longrightarrow>
   snap_view (apply_deltas_for_read b ch ts r) = snap_view (apply_deltas_for_read b' ch ts r)"
  by (induction ch) auto

lemma snap_view_resolve:
  "snap_view b = snap_view b' \<Longrightarrow> snap_view (dt.resolve t k b ts r) = snap_view (dt.resolve t k b' ts r)"
  by (cases "chain_for t k") (simp_all add: dt.resolve_def, rule snap_view_apply)

text \<open>The value of a read is the visible value of its key, when the pages hold no record of
  the wrong kind (\<open>page_base\<close> gives nodes for node keys) and chains neither.\<close>

fun kind_ok :: "entity_key \<Rightarrow> entity_snapshot option \<Rightarrow> bool" where
  "kind_ok (KeyNode i) (Some (SnapNode n)) \<longleftrightarrow> nd_id n = i"
| "kind_ok (KeyEdge i) (Some (SnapEdge e)) \<longleftrightarrow> ed_id e = i"
| "kind_ok k (Some SnapDeleted) \<longleftrightarrow> True"
| "kind_ok k None \<longleftrightarrow> True"
| "kind_ok k _ \<longleftrightarrow> False"

lemma node_of_snap_view:
  "(case snap_view v of Some (Inl n) \<Rightarrow> Some (Inl n :: node + edge) | _ \<Rightarrow> None) =
   map_option (\<lambda>n. Inl (node_view n)) (ok (case v of Some (SnapNode n) \<Rightarrow> Inr n | _ \<Rightarrow> Inl err))"
  by (cases v rule: snap_view.cases) (simp_all add: ok_def)

lemma edge_of_snap_view:
  "(case snap_view v of Some (Inr e) \<Rightarrow> Some (Inr e :: node + edge) | _ \<Rightarrow> None) =
   map_option Inr (ok (case v of Some (SnapEdge e) \<Rightarrow> Inr e | _ \<Rightarrow> Inl err))"
  by (cases v rule: snap_view.cases) (simp_all add: ok_def)

lemma resolve_node_visible_some:
  assumes "g_delta_table g = Some t"
  shows "ok (resolve_node_visible g i ts r) =
    ok (case dt.resolve t (KeyNode i) (page_base g (KeyNode i)) ts r of
          Some (SnapNode n) \<Rightarrow> Inr n | _ \<Rightarrow> Inl (NodeNotFound i))"
  using assms
  by (cases "chain_for t (KeyNode i)"; cases "read_node g i"; cases "i \<in> g_node_exists g")
    (simp_all add: resolve_node_visible_def dt.resolve_def ok_def Let_def)

lemma resolve_edge_visible_some:
  assumes "g_delta_table g = Some t"
  shows "ok (resolve_edge_visible g i ts r) =
    ok (case dt.resolve t (KeyEdge i) (page_base g (KeyEdge i)) ts r of
          Some (SnapEdge e) \<Rightarrow> Inr e | _ \<Rightarrow> Inl (EdgeNotFound i))"
  using assms
  by (cases "chain_for t (KeyEdge i)"; cases "read_edge g i"; cases "i \<in> g_edge_exists g")
    (simp_all add: resolve_edge_visible_def dt.resolve_def ok_def Let_def)

lemma resolve_node_visible_eq:
  "map_option (\<lambda>n. Inl (node_view n) :: node + edge) (ok (resolve_node_visible g i ts r)) =
   (case visible g (KeyNode i) ts r of Some (Inl n) \<Rightarrow> Some (Inl n) | _ \<Rightarrow> None)"
proof (cases "g_delta_table g")
  case None
  then show ?thesis by (simp add: resolve_node_visible_def visible_def ok_def)
next
  case (Some t)
  then show ?thesis
    by (simp add: resolve_node_visible_some visible_def node_of_snap_view [of _ "NodeNotFound i"]
        del: page_base.simps)
qed

lemma resolve_edge_visible_eq:
  "map_option (\<lambda>e. Inr e :: node + edge) (ok (resolve_edge_visible g i ts r)) =
   (case visible g (KeyEdge i) ts r of Some (Inr e) \<Rightarrow> Some (Inr e) | _ \<Rightarrow> None)"
proof (cases "g_delta_table g")
  case None
  then show ?thesis by (simp add: resolve_edge_visible_def visible_def ok_def)
next
  case (Some t)
  then show ?thesis
    by (simp add: resolve_edge_visible_some visible_def edge_of_snap_view [of _ "EdgeNotFound i"]
        del: page_base.simps)
qed

end
