(* ===== verification/Graph_Snapshot.thy ===== *)
theory Graph_Snapshot
  imports Graph_Frame
begin

text \<open>
  The transaction invariant and snapshot isolation. \<open>txn_inv\<close> says which deltas a reachable
  state can hold; every operation keeps it, and no operation of one transaction changes what
  another live transaction reads.
\<close>

section \<open>Observations and the invariant\<close>

text \<open>The page state: everything \<open>page_base\<close> depends on.\<close>

definition pages :: "graph \<Rightarrow> (nat \<rightharpoonup> node) \<times> (nat \<rightharpoonup> edge) \<times> nat set \<times> nat set \<times> nat \<times> nat \<times> entity_key set \<times> nat" where
  "pages g = (g_node_slots g, g_edge_slots g, g_node_exists g, g_edge_exists g,
     g_node_page_count g, g_edge_page_count g, g_bad_reads g, g_batch_depth g)"

lemma pages_eqD:
  assumes "pages g' = pages g"
  shows "page_base g' = page_base g" "slots_ok g' \<longleftrightarrow> slots_ok g" "resident g' i \<longleftrightarrow> resident g i"
    "g_bad_reads g' = g_bad_reads g" "g_batch_depth g' = g_batch_depth g"
proof -
  show "page_base g' = page_base g"
  proof
    fix k show "page_base g' k = page_base g k"
      using assms by (cases k) (simp_all add: pages_def read_node_def read_edge_def)
  qed
qed (use assms in \<open>simp_all add: pages_def slots_ok_def resident_def\<close>)

lemma core_pages:
  assumes "core g' = core g"
  shows "pages g' = pages g"
  by (simp add: pages_def core_eqD [OF assms])

text \<open>What a chain may hold for a key: committed deltas of ended transactions with a past
  timestamp, and uncommitted deltas of live transactions that recorded the key.\<close>

definition delta_ok :: "registry \<Rightarrow> nat \<Rightarrow> entity_key \<Rightarrow> delta \<Rightarrow> bool" where
  "delta_ok r c k d \<longleftrightarrow>
     dl_txn_id d < rg_next_txn_id r \<and> kind_ok k (dl_new d) \<and> kind_ok k (dl_prior d) \<and>
     (case dl_commit_ts d of
        None \<Rightarrow> start_ts r (dl_txn_id d) \<noteq> None \<and> k \<in> set (keys_written_by r (dl_txn_id d))
      | Some ts \<Rightarrow> ts < c \<and> start_ts r (dl_txn_id d) = None)"

definition chains_ok :: "delta_table \<Rightarrow> registry \<Rightarrow> nat \<Rightarrow> bool" where
  "chains_ok t r c \<longleftrightarrow> (\<forall>k ch d. chain_for t k = Some ch \<longrightarrow> d \<in> set ch \<longrightarrow> delta_ok r c k d)"

definition starts_ok :: "registry \<Rightarrow> nat \<Rightarrow> bool" where
  "starts_ok r c \<longleftrightarrow> (\<forall>x s. start_ts r x = Some s \<longrightarrow> s < c \<and> x < rg_next_txn_id r)"

definition mvcc_inv :: "delta_table \<Rightarrow> registry \<Rightarrow> nat \<Rightarrow> bool" where
  "mvcc_inv t r c \<longleftrightarrow> table_wf t \<and> registry_wf r \<and> chains_ok t r c \<and> starts_ok r c"

definition txn_inv :: "graph \<Rightarrow> bool" where
  "txn_inv g \<longleftrightarrow> (\<exists>t r c. mvcc g = (Some t, Some r, Some c) \<and> mvcc_inv t r c) \<and> slots_ok g"

text \<open>The counters have room for one more step.\<close>

definition not_exhausted :: "graph \<Rightarrow> bool" where
  "not_exhausted g \<longleftrightarrow>
     (case mvcc g of (_, Some r, Some c) \<Rightarrow> c < 2 ^ 64 - 1 \<and> rg_next_txn_id r < 2 ^ 64 - 1 | _ \<Rightarrow> True)"

lemma mvcc_invD:
  assumes "mvcc_inv t r c"
  shows "table_wf t" "registry_wf r" "chains_ok t r c" "starts_ok r c"
  using assms by (simp_all add: mvcc_inv_def)

lemma visible_eq:
  "mvcc g = (Some t, r, c) \<Longrightarrow> visible g k ts y = snap_view (dt.resolve t k (page_base g k) ts y)"
  by (simp add: visible_def mvcc_def)

section \<open>The effect of a transactional write\<close>

text \<open>
  A write leaves the pages and the clock alone and does one of three things: nothing, abort the
  transaction (over its memory cap), or push one delta of its own.
\<close>

definition eff_none :: "delta_table \<Rightarrow> registry \<Rightarrow> delta_table \<Rightarrow> registry \<Rightarrow> bool" where
  "eff_none t r t' r' \<longleftrightarrow> t' = t \<and> start_ts r' = start_ts r \<and> keys_written_by r' = keys_written_by r"

definition eff_abort :: "nat \<Rightarrow> delta_table \<Rightarrow> registry \<Rightarrow> delta_table \<Rightarrow> registry \<Rightarrow> bool" where
  "eff_abort x t r t' r' \<longleftrightarrow> start_ts r x \<noteq> None \<and>
     t' = fold (\<lambda>k. remove_deltas_for_txn k x) (keys_written_by r x) t \<and>
     start_ts r' = (start_ts r)(x := None) \<and> keys_written_by r' = (keys_written_by r)(x := [])"

definition eff_push :: "nat \<Rightarrow> entity_key \<Rightarrow> delta \<Rightarrow> delta_table \<Rightarrow> registry \<Rightarrow> delta_table \<Rightarrow> registry \<Rightarrow> bool" where
  "eff_push x k d t r t' r' \<longleftrightarrow> start_ts r x \<noteq> None \<and>
     dl_txn_id d = x \<and> dl_commit_ts d = None \<and> kind_ok k (dl_new d) \<and> kind_ok k (dl_prior d) \<and>
     t' = push_delta k d t \<and>
     start_ts r' = start_ts r \<and> keys_written_by r' = (keys_written_by r)(x := keys_written_by r x @ [k])"

definition write_effect :: "nat \<Rightarrow> graph \<Rightarrow> graph \<Rightarrow> bool" where
  "write_effect x g g' \<longleftrightarrow> (\<forall>t r c. mvcc g = (Some t, Some r, Some c) \<longrightarrow>
     pages g' = pages g \<and> (\<exists>t' r'. mvcc g' = (Some t', Some r', Some c) \<and>
       (registry_wf r \<longrightarrow> registry_wf r') \<and> rg_next_txn_id r' = rg_next_txn_id r \<and>
       (eff_none t r t' r' \<or> eff_abort x t r t' r' \<or> (\<exists>k d. eff_push x k d t r t' r'))))"

lemma write_effect_refl: "write_effect x g g"
  by (simp add: write_effect_def eff_none_def)

lemma write_effect_cong:
  "mvcc h = mvcc g \<Longrightarrow> pages h = pages g \<Longrightarrow> write_effect x h g' \<Longrightarrow> write_effect x g g'"
  by (simp add: write_effect_def)

lemma rollback_effect:
  assumes "mvcc g = (Some t, Some r, Some c)" "rollback_txn x g = (res, g')"
  shows "if start_ts r x = None then res = Inl (TxnNotActive x) \<and> g' = g
    else mvcc g' = (Some (fold (\<lambda>k. remove_deltas_for_txn k x) (keys_written_by r x) t),
                    Some (end_reg x r), Some c) \<and> pages g' = pages g"
proof (cases "start_ts r x")
  case None
  with assms show ?thesis
    by (simp add: rollback_txn_def txn_is_active_def is_active_iff mvcc_def)
next
  case (Some s)
  let ?g1 = "g\<lparr>g_delta_table := Some (fold (\<lambda>k. remove_deltas_for_txn k x) (keys_written_by r x) t),
               g_registry := Some (end_reg x r)\<rparr>"
  have k: "keeps core (sbind (wal_log (WalRollback x)) (\<lambda>_. wal_sync))"
    by (intro keeps_intros)
  from assms Some have "sbind (wal_log (WalRollback x)) (\<lambda>_. wal_sync) ?g1 = (res, g')"
    by (simp add: rollback_txn_def txn_is_active_def is_active_iff mvcc_def sbind_def)
  with k have c: "core g' = core ?g1" by (rule keepsD)
  then have "mvcc g' = mvcc ?g1" "pages g' = pages ?g1" by (rule core_eqD core_pages)+
  with assms(1) Some show ?thesis by (simp add: mvcc_def pages_def)
qed

lemma charge_effect:
  assumes g: "mvcc g = (Some t, Some r, Some c)" and ch: "charge_txn_memory x n g = (res, g')"
  shows "write_effect x g g'"
    and "res = Inr () \<Longrightarrow> \<exists>r'. mvcc g' = (Some t, Some r', Some c) \<and> pages g' = pages g \<and>
       start_ts r x \<noteq> None \<and> r' = snd (add_bytes x n r)"
proof -
  obtain u r1 where ab: "add_bytes x n r = (u, r1)" by (cases "add_bytes x n r")
  have r1: "start_ts r1 = start_ts r" "keys_written_by r1 = keys_written_by r"
    "rg_next_txn_id r1 = rg_next_txn_id r" "registry_wf r \<Longrightarrow> registry_wf r1"
    using ab start_ts_add_bytes [of x n r] keys_written_add_bytes [of x n r]
      next_txn_id_simps(2) [of x n r] registry_wf_add_bytes [of r x n] by auto
  have act: "u = None \<longleftrightarrow> start_ts r x = None"
    using add_bytes_result [of x n r] ab is_active_iff [of r x] by auto
  let ?g1 = "g\<lparr>g_registry := Some r1\<rparr>"
  have m1: "mvcc ?g1 = (Some t, Some r1, Some c)" "pages ?g1 = pages g"
    using g by (simp_all add: mvcc_def pages_def)
  have quiet1: "write_effect x g ?g1"
    using g m1 r1 by (simp add: write_effect_def eff_none_def)
  have regs: "g_registry g = Some r" using g by (simp add: mvcc_def)
  show "write_effect x g g'"
  proof (cases u)
    case None
    with ch regs ab show ?thesis by (simp add: charge_txn_memory_def write_effect_refl)
  next
    case (Some used)
    show ?thesis
    proof (cases "\<exists>cap. g_txn_memory_cap g = Some cap \<and> cap < used")
      case False
      with ch regs ab Some quiet1 show ?thesis
        by (auto simp: charge_txn_memory_def Let_def split: option.splits)
    next
      case True
      then obtain cap where "sbind (rollback_txn x) (\<lambda>_. sfail (TxnMemoryCapExceeded x used cap)) ?g1 = (res, g')"
        using ch regs ab Some by (auto simp: charge_txn_memory_def Let_def)
      then obtain res1 where rb: "rollback_txn x ?g1 = (res1, g')"
        by (auto simp: sbind_def split: prod.splits sum.splits)
      from Some act r1 have "start_ts r1 x \<noteq> None" by simp
      with rollback_effect [OF m1(1) rb] have
        "mvcc g' = (Some (fold (\<lambda>k. remove_deltas_for_txn k x) (keys_written_by r x) t), Some (end_reg x r1), Some c)"
        "pages g' = pages g" using r1 m1(2) by (simp_all split: if_splits)
      moreover have "start_ts r x \<noteq> None" using \<open>start_ts r1 x \<noteq> None\<close> r1 by simp
      ultimately show ?thesis
        using g r1 registry_wf_end [of r1 x]
        by (auto simp: write_effect_def eff_abort_def start_ts_end keys_written_end fun_eq_iff)
    qed
  qed
  show "\<exists>r'. mvcc g' = (Some t, Some r', Some c) \<and> pages g' = pages g \<and>
       start_ts r x \<noteq> None \<and> r' = snd (add_bytes x n r)" if "res = Inr ()"
  proof (cases u)
    case None
    with ch regs ab that show ?thesis by (simp add: charge_txn_memory_def)
  next
    case (Some used)
    have "g' = ?g1"
      using ch regs ab Some that
      by (auto simp: charge_txn_memory_def Let_def sbind_def split: option.splits if_splits prod.splits sum.splits)
    with m1 act Some ab show ?thesis by auto
  qed
qed

lemma seed_overlay_obs [simp]:
  "start_ts (seed_overlay x k d r) = start_ts r"
  "keys_written_by (seed_overlay x k d r) = keys_written_by r"
  "rg_next_txn_id (seed_overlay x k d r) = rg_next_txn_id r"
  by (auto simp: seed_overlay_def fun_eq_iff split: entity_key.splits option.splits entity_snapshot.splits)

lemma registry_wf_seed: "registry_wf r \<Longrightarrow> registry_wf (seed_overlay x k d r)"
  by (auto simp: seed_overlay_def intro: registry_wf_intros
      split: entity_key.splits option.splits entity_snapshot.splits)

lemma push_txn_delta_eq:
  assumes "mvcc g = (Some t, Some r, Some c)"
  shows "push_txn_delta x k d g =
    (Inr (), g\<lparr>g_registry := Some (record_write x k (seed_overlay x k d r)),
               g_delta_table := Some (push_delta k d t)\<rparr>)"
  using assms by (simp add: push_txn_delta_def mvcc_def sbind_def with_registry_def with_table_def)

lemma charge_and_push_success:
  assumes g: "mvcc g = (Some t, Some r, Some c)"
    and ch: "charge_and_push x k prior new oper g = (Inr u, g')"
    and kind: "kind_ok k (Some new)" "kind_ok k prior"
  shows "\<exists>r'. mvcc g' = (Some (push_delta k (delta_new x prior (Some new) oper) t), Some r', Some c) \<and>
    pages g' = pages g \<and> (registry_wf r \<longrightarrow> registry_wf r') \<and> rg_next_txn_id r' = rg_next_txn_id r \<and>
    eff_push x k (delta_new x prior (Some new) oper) t r
      (push_delta k (delta_new x prior (Some new) oper) t) r'"
proof -
  let ?d = "delta_new x prior (Some new) oper"
  from ch obtain g1 where g1: "charge_txn_memory x (delta_bytes g prior new) g = (Inr (), g1)"
    and p: "push_txn_delta x k ?d g1 = (Inr u, g')"
    by (auto simp: charge_and_push_def sbind_eq_Inr)
  obtain r1 where r1: "mvcc g1 = (Some t, Some r1, Some c)" "pages g1 = pages g" "start_ts r x \<noteq> None"
    "r1 = snd (add_bytes x (delta_bytes g prior new) r)"
    using charge_effect(2) [OF g g1] by auto
  let ?r' = "record_write x k (seed_overlay x k ?d r1)"
  from p r1 have g': "mvcc g' = (Some (push_delta k ?d t), Some ?r', Some c)" "pages g' = pages g"
    by (auto simp: push_txn_delta_eq [OF r1(1)] mvcc_def pages_def)
  have "start_ts ?r' = start_ts r" "keys_written_by ?r' = (keys_written_by r)(x := keys_written_by r x @ [k])"
    "rg_next_txn_id ?r' = rg_next_txn_id r"
    by (simp_all add: r1(4) fun_eq_iff keys_written_record)
  moreover have "registry_wf r \<longrightarrow> registry_wf ?r'"
    using registry_wf_record_write registry_wf_seed registry_wf_add_bytes r1(4) by blast
  ultimately show ?thesis using g' r1(3) kind by (auto simp: eff_push_def)
qed

lemma charge_and_push_effect:
  assumes ch: "charge_and_push x k prior new oper g = (res, g')"
    and kind: "kind_ok k (Some new)" "kind_ok k prior"
  shows "write_effect x g g'"
proof (cases "\<exists>t r c. mvcc g = (Some t, Some r, Some c)")
  case True
  then obtain t r c where g: "mvcc g = (Some t, Some r, Some c)" by blast
  show ?thesis
  proof (cases res)
    case (Inr u)
    with charge_and_push_success [OF g _ kind] ch g show ?thesis
      by (fastforce simp: write_effect_def)
  next
    case (Inl e)
    obtain res1 g1 where c1: "charge_txn_memory x (delta_bytes g prior new) g = (res1, g1)"
      by (cases "charge_txn_memory x (delta_bytes g prior new) g")
    have "g' = g1"
    proof (cases res1)
      case (Inl _)
      with c1 ch show ?thesis by (simp add: charge_and_push_def sbind_def)
    next
      case (Inr u)
      obtain r1 where "mvcc g1 = (Some t, Some r1, Some c)"
        using charge_effect(2) [OF g c1] Inr by auto
      with Inr c1 ch \<open>res = Inl e\<close> show ?thesis
        by (simp add: charge_and_push_def sbind_def push_txn_delta_eq)
    qed
    with charge_effect(1) [OF g c1] show ?thesis by simp
  qed
next
  case False
  then show ?thesis by (auto simp: write_effect_def)
qed

text \<open>A writer whose checks pass does what its tail does; otherwise it changes nothing.\<close>

definition writes :: "nat \<Rightarrow> 'a gstep \<Rightarrow> bool" where
  "writes x m \<longleftrightarrow> (\<forall>g. txn_inv g \<longrightarrow> write_effect x g (snd (m g)))"

lemma writesD: "writes x m \<Longrightarrow> txn_inv g \<Longrightarrow> m g = (res, g') \<Longrightarrow> write_effect x g g'"
  unfolding writes_def by (metis snd_conv)

lemma writes_check:
  assumes "keeps (\<lambda>g. g) m" "\<And>a. writes x (k a)"
  shows "writes x (sbind m k)"
proof -
  have "write_effect x g (snd (sbind m k g))" if "txn_inv g" for g
  proof -
    obtain r g1 where m: "m g = (r, g1)" by (cases "m g")
    with assms(1) have "g1 = g" by (rule keepsD)
    with m assms(2) that show ?thesis by (cases r) (simp_all add: sbind_def write_effect_refl writes_def)
  qed
  then show ?thesis by (simp add: writes_def)
qed

lemma keeps_require_active: "keeps (\<lambda>g. g) (require_active x)"
  by (simp add: keeps_def require_active_def)

lemma writes_charge:
  assumes "\<And>g. txn_inv g \<Longrightarrow> kind_ok k (p g)" "kind_ok k (Some new)"
  shows "writes x (\<lambda>g. charge_and_push x k (p g) new oper g)"
  unfolding writes_def using charge_and_push_effect assms by (metis surjective_pairing)

text \<open>The prior state recorded by an update or a delete is a state of that record.\<close>

lemma own_pending_kind:
  assumes "txn_inv g" "own_pending g x k = Some d"
  shows "kind_ok k (dl_new d)"
proof -
  from assms obtain t r c ch where t: "mvcc g = (Some t, Some r, Some c)" "mvcc_inv t r c"
    and ch: "chain_for t k = Some ch" and f: "find (\<lambda>d. dl_txn_id d = x \<and> dl_commit_ts d = None) ch = Some d"
    by (auto simp: txn_inv_def own_pending_def mvcc_def bind_eq_Some_conv)
  from f have "d \<in> set ch" by (auto simp: find_Some_iff)
  with t(2) ch show ?thesis by (auto simp: mvcc_inv_def chains_ok_def delta_ok_def)
qed

lemma node_chain_base_kind: "txn_inv g \<Longrightarrow> kind_ok (KeyNode i) (node_chain_base g x i)"
  by (auto simp: node_chain_base_def read_node_def ok_def txn_inv_def slots_ok_def
      split: option.splits dest: own_pending_kind [rotated] intro: own_pending_kind)

lemma edge_chain_base_kind: "txn_inv g \<Longrightarrow> kind_ok (KeyEdge i) (edge_chain_base g x i)"
  by (auto simp: edge_chain_base_def read_edge_def ok_def txn_inv_def slots_ok_def
      split: option.splits dest: own_pending_kind [rotated] intro: own_pending_kind)

lemmas writes_intros = writes_check keeps_basic keeps_require_active writes_charge

lemma writes_insert:
  assumes "kind_ok k (Some new)" "kind_ok k p" "mvcc (f g) = mvcc g" "pages (f g) = pages g"
  shows "write_effect x g (snd (sbind (smodify f) (\<lambda>_. sbind (charge_and_push x k p new oper) (\<lambda>_. sret i)) g))"
proof -
  obtain res g' where c: "charge_and_push x k p new oper (f g) = (res, g')"
    by (cases "charge_and_push x k p new oper (f g)")
  then have "write_effect x (f g) g'" using assms(1,2) by (rule charge_and_push_effect)
  then have "write_effect x g g'" by (rule write_effect_cong [OF assms(3,4)])
  with c show ?thesis by (cases res) (simp_all add: sbind_def)
qed

lemma writes_add_node: "writes x (add_node_in_txn x l ps)"
  unfolding add_node_in_txn_def
proof (intro writes_check keeps_basic keeps_require_active)
  show "writes x (\<lambda>g. if is_label_append_only (g_catalog g) l then (Inl (AppendOnlyLabelInTxn l), g)
       else (let i = g_next_node_id g
             in sbind (smodify (\<lambda>g. g\<lparr>g_next_node_id := u64_succ i\<rparr>))
                (\<lambda>_. sbind (charge_and_push x (KeyNode i) None (SnapNode (node_new i l ps)) Insert)
                (\<lambda>_. sret i)) g))"
    by (auto simp: writes_def Let_def write_effect_refl node_new_def mvcc_def pages_def intro!: writes_insert)
qed

lemma writes_update_node: "nd_id n = i \<Longrightarrow> writes x (update_node_in_txn x i n)"
  unfolding update_node_in_txn_def by (intro writes_intros node_chain_base_kind) simp_all

lemma writes_remove_node: "writes x (remove_node_in_txn x i)"
  unfolding remove_node_in_txn_def by (intro writes_intros node_chain_base_kind) simp_all

lemma writes_add_edge: "writes x (add_edge_in_txn x l s t ps)"
  unfolding add_edge_in_txn_def
proof (intro writes_check keeps_basic keeps_require_active)
  show "writes x (\<lambda>g. let i = g_next_edge_id g
       in sbind (smodify (\<lambda>g. g\<lparr>g_next_edge_id := u64_succ i\<rparr>))
          (\<lambda>_. sbind (charge_and_push x (KeyEdge i) None (SnapEdge (edge_new i l s t ps)) Insert)
          (\<lambda>_. sret i)) g)"
    by (auto simp: writes_def Let_def edge_new_def mvcc_def pages_def intro!: writes_insert)
qed

lemma writes_update_edge: "ed_id e = i \<Longrightarrow> writes x (update_edge_in_txn x i e)"
  unfolding update_edge_in_txn_def by (intro writes_intros edge_chain_base_kind) simp_all

lemma writes_remove_edge: "writes x (remove_edge_in_txn x i)"
  unfolding remove_edge_in_txn_def by (intro writes_intros edge_chain_base_kind) simp_all

section \<open>Writes keep the invariant and other snapshots\<close>

lemma chains_okD: "chains_ok t r c \<Longrightarrow> chain_for t k = Some ch \<Longrightarrow> d \<in> set ch \<Longrightarrow> delta_ok r c k d"
  by (simp add: chains_ok_def)

lemma discarded_chain:
  assumes "mvcc_inv t r c" "start_ts r x \<noteq> None"
    and "chain_for (fold (\<lambda>k. remove_deltas_for_txn k x) (keys_written_by r x) t) k = Some ch"
    and "d \<in> set ch"
  shows "dl_txn_id d \<noteq> x \<and> (\<exists>ch0. chain_for t k = Some ch0 \<and> d \<in> set ch0)"
proof -
  note look = dt.lookup_fold_discard [OF mvcc_invD(1) [OF assms(1)], of x "keys_written_by r x" k]
  show ?thesis
  proof (cases "k \<in> set (keys_written_by r x)")
    case True
    with assms(3,4) look show ?thesis by (auto split: option.splits if_splits)
  next
    case False
    with assms(3) look have ch: "chain_for t k = Some ch" by simp
    with assms(1,4) have "delta_ok r c k d" by (auto simp: mvcc_inv_def dest: chains_okD)
    with False assms(2) have "dl_txn_id d \<noteq> x" by (auto simp: delta_ok_def split: option.splits)
    with ch assms(4) show ?thesis by simp
  qed
qed

lemma mvcc_inv_none:
  assumes "mvcc_inv t r c" "eff_none t r t' r'" "registry_wf r'" "rg_next_txn_id r' = rg_next_txn_id r"
  shows "mvcc_inv t' r' c"
  using assms
  by (simp add: mvcc_inv_def eff_none_def chains_ok_def starts_ok_def delta_ok_def cong: option.case_cong)

lemma mvcc_inv_abort:
  assumes inv: "mvcc_inv t r c" and eff: "eff_abort x t r t' r'" and "registry_wf r'"
    and next_id: "rg_next_txn_id r' = rg_next_txn_id r"
  shows "mvcc_inv t' r' c"
proof -
  have "delta_ok r' c k d" if "chain_for t' k = Some ch" "d \<in> set ch" for k ch d
  proof -
    from that eff inv discarded_chain [of t r c x k ch d] obtain ch0 where
      "dl_txn_id d \<noteq> x" "chain_for t k = Some ch0" "d \<in> set ch0"
      by (auto simp: eff_abort_def)
    with inv have "delta_ok r c k d" by (auto simp: mvcc_inv_def dest: chains_okD)
    with \<open>dl_txn_id d \<noteq> x\<close> eff next_id show ?thesis by (simp add: delta_ok_def eff_abort_def cong: option.case_cong)
  qed
  moreover have "table_wf t'"
    using inv eff dt.invar_fold_discard by (auto simp: mvcc_inv_def eff_abort_def)
  ultimately show ?thesis
    using inv eff assms(3) next_id
    by (auto simp: mvcc_inv_def chains_ok_def starts_ok_def eff_abort_def split: if_splits)
qed

lemma mvcc_inv_push:
  assumes inv: "mvcc_inv t r c" and eff: "eff_push x k d t r t' r'" and "registry_wf r'"
    and next_id: "rg_next_txn_id r' = rg_next_txn_id r"
  shows "mvcc_inv t' r' c"
proof -
  have look: "chain_for t' = (chain_for t)(k \<mapsto> d # (case chain_for t k of None \<Rightarrow> [] | Some c \<Rightarrow> c))"
    using inv eff dt.lookup_push by (simp add: mvcc_inv_def eff_push_def)
  have old: "delta_ok r' c k' d'" if "delta_ok r c k' d'" for k' d'
    using that eff next_id by (auto simp: delta_ok_def eff_push_def split: option.splits)
  have new: "delta_ok r' c k d"
    using inv eff next_id by (auto simp: delta_ok_def eff_push_def mvcc_inv_def starts_ok_def)
  have "delta_ok r' c k' d'" if "chain_for t' k' = Some ch" "d' \<in> set ch" for k' ch d'
  proof (cases "k' = k \<and> d' = d")
    case False
    with that look obtain ch0 where "chain_for t k' = Some ch0" "d' \<in> set ch0"
      by (auto split: if_splits option.splits)
    with inv old show ?thesis by (auto simp: mvcc_inv_def dest: chains_okD)
  qed (simp add: new)
  moreover have "table_wf t'" using inv eff by (simp add: mvcc_inv_def eff_push_def)
  ultimately show ?thesis
    using inv eff assms(3) next_id by (auto simp: mvcc_inv_def chains_ok_def starts_ok_def eff_push_def)
qed

lemma resolve_abort:
  assumes "mvcc_inv t r c" "eff_abort x t r t' r'" "y \<noteq> Some x"
  shows "dt.resolve t' k base ts y = dt.resolve t k base ts y"
proof -
  have unc: "dl_commit_ts d = None" if "chain_for t k = Some ch" "d \<in> set ch" "dl_txn_id d = x" for k ch d
  proof -
    from that assms(1) have "delta_ok r c k d" by (auto simp: mvcc_inv_def dest: chains_okD)
    with that(3) assms(2) show ?thesis by (auto simp: delta_ok_def eff_abort_def split: option.splits)
  qed
  have t': "t' = fold (\<lambda>k. remove_deltas_for_txn k x) (keys_written_by r x) t"
    using assms(2) by (simp add: eff_abort_def)
  show ?thesis unfolding t'
    using mvcc_invD(1) [OF assms(1)] assms(3) unc by (rule dt.resolve_fold_discard)
qed

lemma delta_new_eta: "dl_commit_ts d = None \<Longrightarrow> d = delta_new (dl_txn_id d) (dl_prior d) (dl_new d) (dl_op d)"
  by (cases d) (simp add: delta_new_def)

lemma resolve_push:
  assumes "mvcc_inv t r c" "eff_push x k d t r t' r'" "y \<noteq> Some x"
  shows "dt.resolve t' k' base ts y = dt.resolve t k' base ts y"
proof -
  have d: "d = delta_new x (dl_prior d) (dl_new d) (dl_op d)" and t': "t' = push_delta k d t"
    using assms(2) delta_new_eta [of d] by (auto simp: eff_push_def)
  show ?thesis unfolding t'
    by (subst d, rule dt.resolve_push_other [OF mvcc_invD(1) [OF assms(1)] assms(3)])
qed

lemma write_effect_inv:
  assumes "txn_inv g" "write_effect x g g'"
  shows "txn_inv g'"
proof -
  from assms obtain t r c t' r' where g: "mvcc g = (Some t, Some r, Some c)" "mvcc_inv t r c" "slots_ok g"
    and g': "pages g' = pages g" "mvcc g' = (Some t', Some r', Some c)" "registry_wf r'"
      "rg_next_txn_id r' = rg_next_txn_id r"
    and eff: "eff_none t r t' r' \<or> eff_abort x t r t' r' \<or> (\<exists>k d. eff_push x k d t r t' r')"
    unfolding txn_inv_def write_effect_def by (metis mvcc_invD(2))
  from eff g' g(2) have "mvcc_inv t' r' c"
    by (auto intro: mvcc_inv_none mvcc_inv_abort mvcc_inv_push)
  with g' g(3) pages_eqD(2) [OF g'(1)] show ?thesis by (simp add: txn_inv_def)
qed

text \<open>The snapshot timestamp of a live transaction.\<close>

definition snapshot_of :: "graph \<Rightarrow> nat \<Rightarrow> nat option" where
  "snapshot_of g x = Option.bind (g_registry g) (\<lambda>r. start_ts r x)"

lemma snapshot_of_mvcc: "mvcc g = (t, Some r, c) \<Longrightarrow> snapshot_of g x = start_ts r x"
  by (simp add: snapshot_of_def mvcc_def)

lemma write_effect_visible:
  assumes "txn_inv g" "write_effect x g g'" "y \<noteq> Some x"
  shows "visible g' k ts y = visible g k ts y"
proof -
  from assms obtain t r c t' r' where g: "mvcc g = (Some t, Some r, Some c)" "mvcc_inv t r c"
    and g': "pages g' = pages g" "mvcc g' = (Some t', Some r', Some c)"
    and eff: "eff_none t r t' r' \<or> eff_abort x t r t' r' \<or> (\<exists>k d. eff_push x k d t r t' r')"
    unfolding txn_inv_def write_effect_def by metis
  from eff have "dt.resolve t' k (page_base g k) ts y = dt.resolve t k (page_base g k) ts y"
    using resolve_abort [OF g(2) _ assms(3)] resolve_push [OF g(2) _ assms(3)]
    by (auto simp: eff_none_def)
  then show ?thesis using visible_eq g(1) g'(2) pages_eqD(1) [OF g'(1)] by simp
qed

lemma write_effect_snapshot:
  assumes "txn_inv g" "write_effect x g g'" "y \<noteq> x"
  shows "snapshot_of g' y = snapshot_of g y"
proof -
  from assms obtain t r c t' r' where g: "mvcc g = (Some t, Some r, Some c)"
    and g': "mvcc g' = (Some t', Some r', Some c)"
    and eff: "eff_none t r t' r' \<or> eff_abort x t r t' r' \<or> (\<exists>k d. eff_push x k d t r t' r')"
    unfolding txn_inv_def write_effect_def by metis
  from eff have "start_ts r' y = start_ts r y"
    using assms(3) by (auto simp: eff_none_def eff_abort_def eff_push_def)
  with g g' show ?thesis by (simp add: snapshot_of_mvcc)
qed

end
