(* ===== verification/Graph_Isolation.thy ===== *)
theory Graph_Isolation
  imports Graph_Snapshot
begin

text \<open>
  Begin, rollback, commit and vacuum against the transaction invariant, the step relation over
  the public operations, and snapshot isolation along any run of it.
\<close>

section \<open>Begin and rollback\<close>

lemma begin_effect:
  assumes g: "mvcc g = (Some t, Some r, Some c)" and b: "begin_txn g = (res, g')"
  shows "pages g' = pages g" and "\<exists>r'. mvcc g' = (Some t, Some r', Some (u64_succ c)) \<and>
    (res = Inr (rg_next_txn_id r) \<and> r' = fst (snd (begin_reg r c)) \<or>
     (\<exists>e. res = Inl e) \<and> r' = end_reg (rg_next_txn_id r) (fst (snd (begin_reg r c))))"
proof -
  let ?r1 = "fst (snd (begin_reg r c))"
  let ?g1 = "g\<lparr>g_registry := Some ?r1, g_clock := Some (u64_succ c)\<rparr>"
  obtain w g2 where w: "wal_log (WalBegin (rg_next_txn_id r)) ?g1 = (w, g2)"
    by (cases "wal_log (WalBegin (rg_next_txn_id r)) ?g1")
  have c2: "core g2 = core ?g1" using keeps_core_wal_log w by (rule keepsD)
  have m2: "mvcc g2 = (Some t, Some ?r1, Some (u64_succ c))" "pages g2 = pages g"
    using core_eqD(1) [OF c2] core_pages [OF c2] g by (simp_all add: mvcc_def pages_def)
  have g': "g' = (case w of Inr _ \<Rightarrow> g2 | Inl _ \<Rightarrow> g2\<lparr>g_registry := map_option (end_reg (rg_next_txn_id r)) (g_registry g2)\<rparr>)"
    and res: "res = (case w of Inr _ \<Rightarrow> Inr (rg_next_txn_id r) | Inl e \<Rightarrow> Inl e)"
    using b g w by (auto simp: begin_txn_def mvcc_def Let_def case_prod_unfold split: sum.splits)
  show "pages g' = pages g" using m2(2) by (simp add: g' pages_def split: sum.splits)
  show "\<exists>r'. mvcc g' = (Some t, Some r', Some (u64_succ c)) \<and>
    (res = Inr (rg_next_txn_id r) \<and> r' = ?r1 \<or>
     (\<exists>e. res = Inl e) \<and> r' = end_reg (rg_next_txn_id r) ?r1)"
    using m2(1) by (simp add: g' res mvcc_def split: sum.splits)
qed

lemma chains_ok_registry:
  assumes "chains_ok t r c" "c \<le> c'" "rg_next_txn_id r \<le> rg_next_txn_id r'"
    and "\<And>x. x < rg_next_txn_id r \<Longrightarrow> start_ts r' x = start_ts r x \<and> keys_written_by r' x = keys_written_by r x"
  shows "chains_ok t r' c'"
proof -
  have "delta_ok r' c' k d" if "delta_ok r c k d" for k d
    using that assms(2-) by (auto simp: delta_ok_def split: option.splits)
  with assms(1) show ?thesis by (auto simp: chains_ok_def)
qed

lemma begin_inv:
  assumes "txn_inv g" "not_exhausted g" "begin_txn g = (res, g')"
  shows "txn_inv g'"
proof -
  from assms(1) obtain t r c where g: "mvcc g = (Some t, Some r, Some c)" "mvcc_inv t r c" "slots_ok g"
    by (auto simp: txn_inv_def)
  from assms(2) g(1) have room: "u64_succ c = c + 1" "u64_succ (rg_next_txn_id r) = rg_next_txn_id r + 1"
    by (simp_all add: not_exhausted_def)
  let ?x = "rg_next_txn_id r" and ?r1 = "fst (snd (begin_reg r c))"
  obtain r' where r': "mvcc g' = (Some t, Some r', Some (u64_succ c))" "r' = ?r1 \<or> r' = end_reg ?x ?r1"
    using begin_effect(2) [OF g(1) assms(3)] by blast
  have obs: "start_ts r' y = start_ts r y \<and> keys_written_by r' y = keys_written_by r y" if "y \<noteq> ?x" for y
    using r'(2) that by (auto simp: start_ts_end start_ts_begin keys_written_end)
  have next_id: "rg_next_txn_id r' = ?x + 1" using r'(2) room by auto
  have new: "start_ts r' ?x = Some c \<or> start_ts r' ?x = None"
    using r'(2) by (auto simp: start_ts_end start_ts_begin)
  have "chains_ok t r' (u64_succ c)"
    by (rule chains_ok_registry [OF mvcc_invD(3) [OF g(2)]]) (use room next_id obs in auto)
  moreover have "starts_ok r' (u64_succ c)"
    unfolding starts_ok_def
  proof (intro allI impI)
    fix y s assume y: "start_ts r' y = Some s"
    show "s < u64_succ c \<and> y < rg_next_txn_id r'"
    proof (cases "y = ?x")
      case True
      with y new next_id room show ?thesis by auto
    next
      case False
      with y obs have "start_ts r y = Some s" by simp
      with mvcc_invD(4) [OF g(2)] have "s < c" "y < ?x" by (auto simp: starts_ok_def)
      with next_id room show ?thesis by simp
    qed
  qed
  moreover have "registry_wf r'"
    using r'(2) registry_wf_begin registry_wf_end mvcc_invD(2) [OF g(2)] by auto
  ultimately have "mvcc_inv t r' (u64_succ c)" using g(2) by (simp add: mvcc_inv_def)
  with r'(1) g(3) pages_eqD(2) [OF begin_effect(1) [OF g(1) assms(3)]] show ?thesis
    by (simp add: txn_inv_def)
qed

lemma begin_visible:
  assumes "txn_inv g" "begin_txn g = (res, g')"
  shows "visible g' k ts y = visible g k ts y"
proof -
  from assms(1) obtain t r c where g: "mvcc g = (Some t, Some r, Some c)" by (auto simp: txn_inv_def)
  then show ?thesis
    using begin_effect [OF g assms(2)] pages_eqD(1) [of g' g] visible_eq by fastforce
qed

lemma begin_snapshot:
  assumes "txn_inv g" "begin_txn g = (res, g')" "snapshot_of g y = Some s"
  shows "snapshot_of g' y = Some s"
proof -
  from assms(1) obtain t r c where g: "mvcc g = (Some t, Some r, Some c)" "mvcc_inv t r c"
    by (auto simp: txn_inv_def)
  with assms(3) have s: "start_ts r y = Some s" "y < rg_next_txn_id r"
    by (auto simp: snapshot_of_mvcc mvcc_inv_def starts_ok_def)
  obtain r' where "mvcc g' = (Some t, Some r', Some (u64_succ c))"
    "r' = fst (snd (begin_reg r c)) \<or> r' = end_reg (rg_next_txn_id r) (fst (snd (begin_reg r c)))"
    using begin_effect(2) [OF g(1) assms(2)] by blast
  with s show ?thesis by (auto simp: snapshot_of_mvcc start_ts_end start_ts_begin)
qed

lemma writes_rollback: "writes x (rollback_txn x)"
proof -
  have "write_effect x g (snd (rollback_txn x g))" for g
  proof (cases "\<exists>t r c. mvcc g = (Some t, Some r, Some c)")
    case True
    then obtain t r c where g: "mvcc g = (Some t, Some r, Some c)" by blast
    obtain res g' where rb: "rollback_txn x g = (res, g')" by (cases "rollback_txn x g")
    show ?thesis
    proof (cases "start_ts r x")
      case None
      with rollback_effect [OF g rb] rb show ?thesis by (simp add: write_effect_refl)
    next
      case (Some s)
      with rollback_effect [OF g rb] rb g registry_wf_end [of r x] show ?thesis
        by (auto simp: write_effect_def eff_abort_def start_ts_end keys_written_end fun_eq_iff)
    qed
  qed (auto simp: write_effect_def)
  then show ?thesis by (simp add: writes_def)
qed

section \<open>Commit\<close>

lemma collect_committed_keys:
  "set (map fst (collect_committed t x seen ks)) =
     {k \<in> set ks - seen. table_newest_delta_of_txn t k x \<noteq> None}"
  by (induction t x seen ks rule: collect_committed.induct) (auto split: option.splits)

lemma collect_committed_newest:
  "(k, d) \<in> set (collect_committed t x seen ks) \<Longrightarrow> table_newest_delta_of_txn t k x = Some d"
  by (induction t x seen ks rule: collect_committed.induct) (auto split: option.splits if_splits)

lemma collect_committed_distinct: "distinct (map fst (collect_committed t x seen ks))"
proof (induction t x seen ks rule: collect_committed.induct)
  case (2 t x seen k ks)
  have "k \<notin> set (map fst (collect_committed t x (insert k seen) ks))"
    unfolding collect_committed_keys by simp
  with 2 show ?case by (auto split: option.splits)
qed simp

text \<open>The deltas a commit of \<open>x\<close> makes visible.\<close>

definition committed_of :: "graph \<Rightarrow> nat \<Rightarrow> (entity_key \<times> delta) list" where
  "committed_of g x =
     (case (g_delta_table g, g_registry g) of
        (Some t, Some r) \<Rightarrow> collect_committed t x {} (keys_written_by r x)
      | _ \<Rightarrow> [])"

lemma commit_log_effect:
  assumes g: "mvcc g = (Some t, Some r, Some c)" and cl: "commit_log x g = (res, g')"
  shows "if start_ts r x = None then res = Inl (TxnNotActive x) \<and> g' = g
    else mvcc g' = (Some t, Some r, Some (u64_succ c)) \<and> pages g' = pages g \<and>
      (\<forall>tc. res = Inr tc \<longrightarrow> tc = (c, committed_of g x))"
proof (cases "start_ts r x")
  case None
  with g cl show ?thesis
    by (simp add: commit_log_def txn_is_active_def is_active_iff mvcc_def)
next
  case (Some s)
  let ?g1 = "g\<lparr>g_clock := Some (u64_succ c)\<rparr>"
  let ?cm = "committed_of g x"
  let ?m = "sbind (siter (wal_log_committed_delta x) ?cm)
     (\<lambda>_. sbind (wal_log (WalCommit x)) (\<lambda>_. sbind wal_sync (\<lambda>_. sret (c, ?cm))))"
  have m: "?m ?g1 = (res, g')"
    using g cl Some
    by (simp add: commit_log_def txn_is_active_def is_active_iff mvcc_def clock_next_def committed_of_def Let_def)
  have "keeps core ?m" by (intro keeps_intros)
  then have c1: "core g' = core ?g1" using m by (rule keepsD)
  have "mvcc g' = (Some t, Some r, Some (u64_succ c))" "pages g' = pages g"
    using core_eqD(1) [OF c1] core_pages [OF c1] g by (simp_all add: mvcc_def pages_def)
  moreover have "\<forall>tc. res = Inr tc \<longrightarrow> tc = (c, ?cm)"
    using m by (auto simp: sbind_eq_Inr)
  ultimately show ?thesis using Some by simp
qed

lemma fold_stamp_keys:
  "fold (\<lambda>kd. stamp_commit_for_txn (fst kd) x ts) cm = fold (\<lambda>k. stamp_commit_for_txn k x ts) (map fst cm)"
  by (simp add: fold_map comp_def)

lemma endpoints_pages:
  assumes "pages h = pages g"
  shows "endpoints_resident d h = endpoints_resident d g"
  unfolding endpoints_resident_def
  by (simp add: pages_eqD [OF assms] cong: option.case_cong entity_snapshot.case_cong)

lemma commit_effect:
  assumes g: "mvcc g = (Some t, Some r, Some c)" and so: "slots_ok g"
    and res: "\<forall>kd\<in>set (committed_of g x). endpoints_resident (snd kd) g"
    and cm: "commit_txn x g = (Inr u, g')"
  shows "start_ts r x \<noteq> None"
    and "mvcc g' = (Some (fold (\<lambda>k. stamp_commit_for_txn k x c) (map fst (committed_of g x)) t),
                    Some (end_reg x r), Some (u64_succ c))"
    and "slots_ok g'" and "snap_view (page_base g' k) = snap_view (page_base g k)"
    and "g_bad_reads g' = g_bad_reads g"
proof -
  from cm obtain tc g1 where l: "commit_log x g = (Inr tc, g1)" and a: "commit_apply x tc g1 = (Inr u, g')"
    by (auto simp: commit_txn_def sbind_eq_Inr)
  note le = commit_log_effect [OF g l]
  show s: "start_ts r x \<noteq> None" using le by (auto split: if_splits)
  with le have tc: "tc = (c, committed_of g x)" and m1: "mvcc g1 = (Some t, Some r, Some (u64_succ c))"
    and p1: "pages g1 = pages g" by auto
  let ?t' = "fold (\<lambda>k. stamp_commit_for_txn k x c) (map fst (committed_of g x)) t"
  let ?g2 = "g1\<lparr>g_delta_table := Some ?t'\<rparr>"
  from a obtain g3 where it: "siter (\<lambda>kd. reconcile_committed_delta (fst kd) (snd kd)) (committed_of g x) ?g2 = (Inr (), g3)"
    and e: "with_registry (end_reg x) g3 = (Inr u, g')"
    using m1 by (auto simp: commit_apply_def tc sbind_eq_Inr with_table_def mvcc_def fold_stamp_keys)
  have p2: "pages ?g2 = pages g" using p1 by (simp add: pages_def)
  have "stable (\<lambda>h. \<forall>kd\<in>set (committed_of g x). endpoints_resident (snd kd) h)"
    using stable_endpoints by (auto simp: stable_def)
  then have q: "quietly (\<lambda>h. \<forall>kd\<in>set (committed_of g x). endpoints_resident (snd kd) h)
      (siter (\<lambda>kd. reconcile_committed_delta (fst kd) (snd kd)) (committed_of g x))"
    by (rule quietly_siter) (rule quietly_mono [OF quietly_reconcile_committed], blast)
  have "\<forall>kd\<in>set (committed_of g x). endpoints_resident (snd kd) ?g2"
    using res endpoints_pages [OF p2] by blast
  with q it have quiet: "quiet ?g2 g3" by (auto dest: quietlyD)
  have m3: "mvcc g3 = (Some ?t', Some r, Some (u64_succ c))"
    using quiet m1 by (simp add: quiet_def mvcc_def)
  with e have g': "g' = g3\<lparr>g_registry := Some (end_reg x r)\<rparr>"
    by (simp add: with_registry_def mvcc_def)
  have p': "pages g' = pages g3" by (simp add: g' pages_def)
  show "mvcc g' = (Some ?t', Some (end_reg x r), Some (u64_succ c))"
    using m3 by (simp add: g' mvcc_def)
  show "slots_ok g'" "snap_view (page_base g' k) = snap_view (page_base g k)" "g_bad_reads g' = g_bad_reads g"
    using quiet so pages_eqD [OF p'] pages_eqD [OF p2] by (simp_all add: quiet_def)
qed

text \<open>After the stamp, no delta of the transaction is left uncommitted.\<close>

lemma committed_keys_cover:
  assumes inv: "mvcc_inv t r c" and g: "mvcc g = (Some t, Some r, Some c)"
    and ch: "chain_for t k = Some ch" "d \<in> set ch" "dl_txn_id d = x" "dl_commit_ts d = None"
  shows "k \<in> set (map fst (committed_of g x))"
proof -
  have "delta_ok r c k d" using inv ch by (auto simp: mvcc_inv_def dest: chains_okD)
  then have "k \<in> set (keys_written_by r x)" using ch by (simp add: delta_ok_def)
  moreover have "table_newest_delta_of_txn t k x \<noteq> None"
    using ch newest_delta_of_txn_None [of x ch] by (auto simp: table_newest_delta_of_txn_def)
  ultimately show ?thesis
    using g unfolding committed_of_def mvcc_def by (simp add: collect_committed_keys del: set_map)
qed

lemma mvcc_inv_commit:
  assumes inv: "mvcc_inv t r c" and g: "mvcc g = (Some t, Some r, Some c)"
    and act: "start_ts r x \<noteq> None" and room: "u64_succ c = c + 1"
  shows "mvcc_inv (fold (\<lambda>k. stamp_commit_for_txn k x c) (map fst (committed_of g x)) t)
    (end_reg x r) (u64_succ c)" (is "mvcc_inv ?t' ?r' _")
proof -
  let ?K = "map fst (committed_of g x)"
  note wf = mvcc_invD(1) [OF inv]
  have keep: "delta_ok ?r' (c + 1) k d" if "delta_ok r c k d" "dl_txn_id d \<noteq> x" for k d
    using that by (auto simp: delta_ok_def start_ts_end keys_written_end split: option.splits)
  have stamped: "delta_ok ?r' (c + 1) k (stamp_commit c d)" if "delta_ok r c k d" "dl_txn_id d = x" for k d
    using that by (auto simp: delta_ok_def start_ts_end split: option.splits)
  have "delta_ok ?r' (c + 1) k d'" if "chain_for ?t' k = Some ch'" "d' \<in> set ch'" for k ch' d'
  proof (cases "k \<in> set ?K")
    case True
    with that dt.lookup_fold_stamp [OF wf, of x c ?K k] obtain ch where
      ch: "chain_for t k = Some ch" "ch' = stamp_txn x c ch" by auto
    with that(2) obtain d where d: "d \<in> set ch"
      "d' = (if dl_txn_id d = x \<and> dl_commit_ts d = None then stamp_commit c d else d)"
      by (auto simp: set_stamp_txn)
    have ok: "delta_ok r c k d" using inv ch(1) d(1) by (auto simp: mvcc_inv_def dest: chains_okD)
    with act have "dl_txn_id d = x \<Longrightarrow> dl_commit_ts d = None" by (auto simp: delta_ok_def split: option.splits)
    with ok d(2) keep stamped show ?thesis by (cases "dl_txn_id d = x") auto
  next
    case False
    with that dt.lookup_fold_stamp [OF wf, of x c ?K k] have ch: "chain_for t k = Some ch'" by simp
    have ok: "delta_ok r c k d'" using inv ch that(2) by (auto simp: mvcc_inv_def dest: chains_okD)
    with act have "dl_txn_id d' = x \<Longrightarrow> dl_commit_ts d' = None" by (auto simp: delta_ok_def split: option.splits)
    with False committed_keys_cover [OF inv g ch that(2)] have "dl_txn_id d' \<noteq> x" by auto
    with ok keep show ?thesis by simp
  qed
  moreover have "table_wf ?t'" using wf by (rule dt.invar_fold_stamp)
  moreover have "starts_ok ?r' (c + 1)"
    using mvcc_invD(4) [OF inv] by (auto simp: starts_ok_def start_ts_end less_Suc_eq split: if_splits)
  ultimately show ?thesis
    using registry_wf_end [OF mvcc_invD(2) [OF inv]] by (simp add: mvcc_inv_def chains_ok_def room)
qed

lemma commit_inv:
  assumes "txn_inv g" "not_exhausted g" "\<forall>kd\<in>set (committed_of g x). endpoints_resident (snd kd) g"
    and "commit_txn x g = (Inr u, g')"
  shows "txn_inv g'"
proof -
  from assms(1) obtain t r c where g: "mvcc g = (Some t, Some r, Some c)" "mvcc_inv t r c" "slots_ok g"
    by (auto simp: txn_inv_def)
  from assms(2) g(1) have "u64_succ c = c + 1" by (simp add: not_exhausted_def)
  with commit_effect [OF g(1,3) assms(3,4)] mvcc_inv_commit [OF g(2,1)] show ?thesis
    by (auto simp: txn_inv_def)
qed

lemma commit_visible:
  assumes "txn_inv g" "\<forall>kd\<in>set (committed_of g x). endpoints_resident (snd kd) g"
    and "commit_txn x g = (Inr u, g')" and "g_clock g = Some c" "ts \<le> c"
  shows "visible g' k ts y = visible g k ts y"
proof -
  from assms(1,4) obtain t r where g: "mvcc g = (Some t, Some r, Some c)" "mvcc_inv t r c" "slots_ok g"
    by (auto simp: txn_inv_def mvcc_def)
  note ce = commit_effect [OF g(1,3) assms(2,3)]
  let ?t' = "fold (\<lambda>k. stamp_commit_for_txn k x c) (map fst (committed_of g x)) t"
  have "visible g' k ts y = snap_view (dt.resolve ?t' k (page_base g' k) ts y)"
    using ce(2) by (rule visible_eq)
  also have "\<dots> = snap_view (dt.resolve t k (page_base g' k) ts y)"
    using dt.resolve_fold_stamp [OF mvcc_invD(1) [OF g(2)] assms(5)] by simp
  also have "\<dots> = snap_view (dt.resolve t k (page_base g k) ts y)"
    using ce(4) by (rule snap_view_resolve)
  also have "\<dots> = visible g k ts y" using g(1) by (simp add: visible_eq)
  finally show ?thesis .
qed

lemma commit_snapshot:
  assumes "txn_inv g" "\<forall>kd\<in>set (committed_of g x). endpoints_resident (snd kd) g"
    and "commit_txn x g = (Inr u, g')" and "y \<noteq> x"
  shows "snapshot_of g' y = snapshot_of g y"
proof -
  from assms(1) obtain t r c where g: "mvcc g = (Some t, Some r, Some c)" "slots_ok g"
    by (auto simp: txn_inv_def)
  with commit_effect(2) [OF g assms(2,3)] assms(4) show ?thesis
    by (simp add: snapshot_of_mvcc start_ts_end)
qed

text \<open>A commit that fails in its log phase: the clock has advanced, nothing else has.\<close>

lemma commit_log_failed:
  assumes inv: "txn_inv g" and room: "not_exhausted g" and cl: "commit_log x g = (Inl e, g')"
  shows "txn_inv g'" "visible g' k ts y = visible g k ts y" "snapshot_of g' = snapshot_of g"
proof -
  from inv obtain t r c where g: "mvcc g = (Some t, Some r, Some c)" "mvcc_inv t r c" "slots_ok g"
    by (auto simp: txn_inv_def)
  have room': "u64_succ c = c + 1" using room g(1) by (simp add: not_exhausted_def)
  have "pages g' = pages g \<and> (mvcc g' = mvcc g \<or> mvcc g' = (Some t, Some r, Some (c + 1)))"
    using commit_log_effect [OF g(1) cl] room' by (auto split: if_splits)
  then have p: "pages g' = pages g" and "\<exists>c'\<ge>c. mvcc g' = (Some t, Some r, Some c')"
    using g(1) by auto
  then obtain c' where c': "c \<le> c'" "mvcc g' = (Some t, Some r, Some c')" by blast
  have "chains_ok t r c'" by (rule chains_ok_registry [OF mvcc_invD(3) [OF g(2)] c'(1)]) auto
  moreover have "starts_ok r c'" using mvcc_invD(4) [OF g(2)] c'(1) by (force simp: starts_ok_def)
  ultimately have "mvcc_inv t r c'" using g(2) by (simp add: mvcc_inv_def)
  with c'(2) g(3) pages_eqD(2) [OF p] show "txn_inv g'" by (simp add: txn_inv_def)
  show "visible g' k ts y = visible g k ts y"
    using visible_eq [OF c'(2)] visible_eq [OF g(1)] pages_eqD(1) [OF p] by simp
  show "snapshot_of g' = snapshot_of g"
    using snapshot_of_mvcc [OF c'(2)] snapshot_of_mvcc [OF g(1)] by (simp add: fun_eq_iff)
qed

end
