(* ===== verification/Graph_Vacuum.thy ===== *)
theory Graph_Vacuum
  imports Graph_Isolation
begin

text \<open>
  The vacuum: what materialising one drained chain does to the page state under every key, and
  that a completed run changes no value any live or auto-commit reader resolves.
\<close>

section \<open>One drained chain\<close>

fun key_exists :: "graph \<Rightarrow> entity_key \<Rightarrow> bool" where
  "key_exists g (KeyNode i) \<longleftrightarrow> i \<in> g_node_exists g"
| "key_exists g (KeyEdge i) \<longleftrightarrow> i \<in> g_edge_exists g"

fun slot_dead :: "graph \<Rightarrow> entity_key \<Rightarrow> bool" where
  "slot_dead g (KeyNode i) \<longleftrightarrow> g_node_slots g i = None"
| "slot_dead g (KeyEdge i) \<longleftrightarrow> g_edge_slots g i = None"

text \<open>The state after a step that changes the page state of \<open>k\<close> only, to a value \<open>v\<close>.\<close>

definition page_step :: "entity_key \<Rightarrow> (node + edge) option \<Rightarrow> graph \<Rightarrow> graph \<Rightarrow> bool" where
  "page_step k v g g' \<longleftrightarrow> mvcc g' = mvcc g \<and> slots_ok g' \<and> g_bad_reads g' = g_bad_reads g \<and>
     snap_view (page_base g' k) = v \<and>
     (\<forall>k'. k' \<noteq> k \<longrightarrow> snap_view (page_base g' k') = snap_view (page_base g k') \<and>
        (key_exists g k' \<longrightarrow> key_exists g' k'))"

text \<open>A slot write after any number of log appends and failed-free storage calls.\<close>

lemma page_step_pre:
  assumes "core h = core g" "page_step k v h g'"
  shows "page_step k v g g'"
proof -
  have "key_exists h k' = key_exists g k'" for k' by (cases k') (simp_all add: core_eqD [OF assms(1)])
  with assms(2) show ?thesis by (simp add: page_step_def core_eqD [OF assms(1)])
qed

lemma put_node_effect:
  assumes "slots_ok g" "i \<in> g_node_exists g" "KeyNode i \<notin> g_bad_reads g" "nd_id n = i"
    and "put_node_slot i n g = (Inr u, g')"
  shows "page_step (KeyNode i) (Some (Inl (node_view n))) g g'"
proof -
  from assms(5) obtain h where io: "io g = (Inr (), h)" and g': "g' = h\<lparr>g_node_slots := (g_node_slots h)(i \<mapsto> n),
       g_node_page_count := max (g_node_page_count h) (Suc (fst (page_and_slot i)))\<rparr>"
    by (auto simp: put_node_slot_def sbind_eq_Inr)
  have c: "core h = core g" using keeps_core_io io by (rule keepsD)
  have so: "slots_ok h" using assms(1) by (simp add: slots_ok_def core_eqD [OF c])
  have ex: "i \<in> g_node_exists h" "KeyNode i \<notin> g_bad_reads h" using assms(2,3) by (simp_all add: core_eqD [OF c])
  have "page_base g' k' = page_base h k'" if "k' \<noteq> KeyNode i" for k'
    using that so by (cases k') (auto simp: g' read_node_def read_edge_def slots_ok_def ok_def not_le split: option.splits)
  moreover have "page_base g' (KeyNode i) = Some (SnapNode n)"
    using ex by (simp add: g' read_node_def ok_def)
  moreover have "slots_ok g'" using so ex(1) assms(4) by (auto simp: slots_ok_def g' less_max_iff_disj)
  moreover have "key_exists h k' \<longrightarrow> key_exists g' k'" for k' by (cases k') (simp_all add: g')
  ultimately have "page_step (KeyNode i) (Some (Inl (node_view n))) h g'"
    by (simp add: page_step_def g' mvcc_def)
  with c show ?thesis by (rule page_step_pre)
qed

lemma put_edge_effect:
  assumes "slots_ok g" "i \<in> g_edge_exists g" "KeyEdge i \<notin> g_bad_reads g" "ed_id e = i"
    and "put_edge_slot i e g = (Inr u, g')"
  shows "page_step (KeyEdge i) (Some (Inr e)) g g'"
proof -
  from assms(5) obtain h where io: "io g = (Inr (), h)" and g': "g' = h\<lparr>g_edge_slots := (g_edge_slots h)(i \<mapsto> e),
       g_edge_page_count := max (g_edge_page_count h) (Suc (fst (page_and_slot i)))\<rparr>"
    by (auto simp: put_edge_slot_def sbind_eq_Inr)
  have c: "core h = core g" using keeps_core_io io by (rule keepsD)
  have so: "slots_ok h" using assms(1) by (simp add: slots_ok_def core_eqD [OF c])
  have ex: "i \<in> g_edge_exists h" "KeyEdge i \<notin> g_bad_reads h" using assms(2,3) by (simp_all add: core_eqD [OF c])
  have "page_base g' k' = page_base h k'" if "k' \<noteq> KeyEdge i" for k'
    using that so by (cases k') (auto simp: g' read_node_def read_edge_def slots_ok_def ok_def not_le split: option.splits)
  moreover have "page_base g' (KeyEdge i) = Some (SnapEdge e)"
    using ex by (simp add: g' read_edge_def ok_def)
  moreover have "slots_ok g'" using so ex(1) assms(4) by (auto simp: slots_ok_def g' less_max_iff_disj)
  moreover have "key_exists h k' \<longrightarrow> key_exists g' k'" for k' by (cases k') (simp_all add: g')
  ultimately have "page_step (KeyEdge i) (Some (Inr e)) h g'"
    by (simp add: page_step_def g' mvcc_def)
  with c show ?thesis by (rule page_step_pre)
qed

lemma dead_base: "slot_dead g k \<Longrightarrow> snap_view (page_base g k) = None"
  by (cases k) (auto simp: read_node_def read_edge_def ok_def)

lemma tombstone_node_effect:
  assumes "slots_ok g" "tombstone_node_slot False i g = (Inr u, g')"
  shows "page_step (KeyNode i) None g g' \<and> slot_dead g' (KeyNode i)"
proof (cases "g_node_page_count g \<le> fst (page_and_slot i)")
  case True
  with assms have "g' = g" "g_node_slots g i = None"
    by (auto simp: tombstone_node_slot_def sbind_def slots_ok_def dest: leD)
      (meson leD not_None_eq)
  with assms(1) dead_base [of g "KeyNode i"] show ?thesis by (simp add: page_step_def)
next
  case False
  with assms(2) obtain h where io: "io g = (Inr (), h)" and g': "g' = h\<lparr>g_node_slots := (g_node_slots h)(i := None)\<rparr>"
    by (auto simp: tombstone_node_slot_def sbind_eq_Inr)
  have c: "core h = core g" using keeps_core_io io by (rule keepsD)
  have "slots_ok g'" using assms(1) by (auto simp: slots_ok_def g' core_eqD [OF c])
  moreover have "page_base g' k' = page_base h k'" if "k' \<noteq> KeyNode i" for k'
    using that by (cases k') (auto simp: g' read_node_def read_edge_def)
  moreover have "slot_dead g' (KeyNode i)" by (simp add: g')
  moreover have "key_exists h k' \<longrightarrow> key_exists g' k'" for k' by (cases k') (simp_all add: g')
  ultimately have "page_step (KeyNode i) None h g'"
    using dead_base [of g' "KeyNode i"] by (simp add: page_step_def g' mvcc_def)
  with page_step_pre [OF c] \<open>slot_dead g' (KeyNode i)\<close> show ?thesis by blast
qed

lemma tombstone_edge_effect:
  assumes "slots_ok g" "tombstone_edge_slot False i g = (Inr u, g')"
  shows "page_step (KeyEdge i) None g g' \<and> slot_dead g' (KeyEdge i)"
proof (cases "g_edge_page_count g \<le> fst (page_and_slot i)")
  case True
  with assms have "g' = g" "g_edge_slots g i = None"
    by (auto simp: tombstone_edge_slot_def sbind_def slots_ok_def dest: leD)
      (meson leD not_None_eq)
  with assms(1) dead_base [of g "KeyEdge i"] show ?thesis by (simp add: page_step_def)
next
  case False
  with assms(2) obtain h where io: "io g = (Inr (), h)" and g': "g' = h\<lparr>g_edge_slots := (g_edge_slots h)(i := None)\<rparr>"
    by (auto simp: tombstone_edge_slot_def sbind_eq_Inr)
  have c: "core h = core g" using keeps_core_io io by (rule keepsD)
  have "slots_ok g'" using assms(1) by (auto simp: slots_ok_def g' core_eqD [OF c])
  moreover have "page_base g' k' = page_base h k'" if "k' \<noteq> KeyEdge i" for k'
    using that by (cases k') (auto simp: g' read_node_def read_edge_def)
  moreover have "slot_dead g' (KeyEdge i)" by (simp add: g')
  moreover have "key_exists h k' \<longrightarrow> key_exists g' k'" for k' by (cases k') (simp_all add: g')
  ultimately have "page_step (KeyEdge i) None h g'"
    using dead_base [of g' "KeyEdge i"] by (simp add: page_step_def g' mvcc_def)
  with page_step_pre [OF c] \<open>slot_dead g' (KeyEdge i)\<close> show ?thesis by blast
qed

lemma preserve_head_view:
  "preserve_on_disk_adj_head g i n = Inr n' \<Longrightarrow> node_view n' = node_view n"
  by (auto simp: preserve_on_disk_adj_head_def split: if_splits option.splits)

lemma node_view_id: "node_view a = node_view b \<Longrightarrow> nd_id a = nd_id b"
  using node_view_fields(1) by metis

lemma materialize_effect:
  assumes "slots_ok g" "kind_ok k st" "k \<notin> g_bad_reads g"
    and "snap_view st \<noteq> None \<longrightarrow> key_exists g k"
    and "materialize_to_page k st g = (Inr u, g')"
  shows "page_step k (snap_view st) g g' \<and> (snap_view st = None \<longrightarrow> slot_dead g' k)"
proof (cases k)
  case (KeyNode i)
  show ?thesis
  proof (cases st rule: snap_view.cases)
    case (3 n)
    with KeyNode assms(5) obtain h n' where io: "io g = (Inr (), h)"
      and n': "preserve_on_disk_adj_head h i n = Inr n'" "put_node_slot i n' h = (Inr u, g')"
      using assms(2) by (auto simp: materialize_to_page_def sbind_eq_Inr)
    have c: "core h = core g" using keeps_core_io io by (rule keepsD)
    have v: "node_view n' = node_view n" using n'(1) by (rule preserve_head_view)
    have "page_step (KeyNode i) (Some (Inl (node_view n'))) h g'"
      using assms(1-4) 3 KeyNode n'(2) node_view_id [OF v]
      by (intro put_node_effect) (auto simp: core_eqD [OF c] slots_ok_def)
    with page_step_pre [OF c] show ?thesis by (simp add: KeyNode 3 v)
  next
    case (4 e)
    with KeyNode assms(2) show ?thesis by simp
  qed (use KeyNode assms(1,5) tombstone_node_effect in \<open>auto simp: materialize_to_page_def\<close>)
next
  case (KeyEdge i)
  show ?thesis
  proof (cases st rule: snap_view.cases)
    case (4 e)
    with KeyEdge assms(5) obtain h where io: "io g = (Inr (), h)" and p: "put_edge_slot i e h = (Inr u, g')"
      using assms(2) by (auto simp: materialize_to_page_def sbind_eq_Inr)
    have c: "core h = core g" using keeps_core_io io by (rule keepsD)
    have "page_step (KeyEdge i) (Some (Inr e)) h g'"
      using assms(1-4) 4 KeyEdge p
      by (intro put_edge_effect) (auto simp: core_eqD [OF c] slots_ok_def)
    with page_step_pre [OF c] show ?thesis by (simp add: KeyEdge 4)
  next
    case (3 n)
    with KeyEdge assms(2) show ?thesis by simp
  qed (use KeyEdge assms(1,5) tombstone_edge_effect in \<open>auto simp: materialize_to_page_def\<close>)
qed

lemma page_step_quiet:
  assumes "slots_ok g" "quiet g g'"
  shows "page_step k (snap_view (page_base g k)) g g'"
proof -
  have "key_exists g k' \<longrightarrow> key_exists g' k'" for k' using assms(2) by (cases k') (auto simp: quiet_def)
  with assms show ?thesis by (simp add: page_step_def quiet_def)
qed

lemma page_step_trans: "page_step k v g h \<Longrightarrow> page_step k w h g' \<Longrightarrow> page_step k w g g'"
  by (simp add: page_step_def)

lemma page_step_node_delete:
  assumes "slots_ok g" "nd_id prior = i" "slot_dead g (KeyNode i)"
  shows "page_step (KeyNode i) None g (reconcile_node_delete prior g)"
proof -
  let ?h = "g\<lparr>g_node_exists := g_node_exists g - {i}\<rparr>"
  have "page_base (reconcile_node_delete prior g) k = page_base ?h k" for k
    using assms(2) by (cases k) (simp_all add: reconcile_node_delete_def read_node_def read_edge_def)
  moreover have "page_base ?h k = page_base g k" for k
    using assms(3) by (cases k) (auto simp: read_node_def read_edge_def ok_def)
  moreover have "slots_ok (reconcile_node_delete prior g)"
    using assms by (auto simp: slots_ok_def reconcile_node_delete_def)
  moreover have "k' \<noteq> KeyNode i \<Longrightarrow> key_exists g k' \<longrightarrow> key_exists (reconcile_node_delete prior g) k'" for k'
    using assms(2) by (cases k') (simp_all add: reconcile_node_delete_def)
  ultimately show ?thesis
    using dead_base [OF assms(3)]
    by (simp add: page_step_def reconcile_node_delete_def mvcc_def del: page_base.simps)
qed

lemma keeps_edge_slots_core [keeps_intros]: "keeps core m \<Longrightarrow> keeps g_edge_slots m"
  by (erule keeps_comp) (rule core_eqD)

lemma keeps_edge_slots_remove: "keeps g_edge_slots (remove_edge_from_adjacency i dir e)"
proof -
  have r: "keeps g_edge_slots (resolve_adj_pointer j)" for j
    by rule (simp add: resolve_adj_pointer_def Let_def split: option.splits)
  have m: "keeps g_edge_slots (sbind io (\<lambda>_. sbind (smodify (\<lambda>g. g\<lparr>g_adj_file := (g_adj_file g)((pg, i, dir) := ids)\<rparr>))
               (\<lambda>_. sbind (wal_log (WalWriteAdjPage pg None))
               (\<lambda>_. smodify (\<lambda>g. g\<lparr>g_adj_cache := (g_adj_cache g)(i \<mapsto> entry)\<rparr>)))))" for pg ids entry
    by (intro keeps_sbind keeps_smodify keeps_edge_slots_core keeps_core_io keeps_core_wal_log) simp_all
  have p: "keeps g_edge_slots (remove_edge_from_pages i dir e)"
    unfolding remove_edge_from_pages_def
    by (rule keeps_sbind [OF r], rule keepsI) (use m in \<open>simp add: keeps_def Let_def split: option.splits\<close>)
  then show ?thesis
    by (auto simp: keeps_def remove_edge_from_adjacency_def split: option.splits)
qed

lemma page_step_edge_delete:
  assumes "slots_ok g" "ed_id prior = i" "slot_dead g (KeyEdge i)"
    and "reconcile_edge_delete prior g = (Inr u, g')"
  shows "page_step (KeyEdge i) None g g'"
proof -
  let ?m1 = "remove_edge_from_adjacency (ed_source prior) Outgoing i"
  let ?m2 = "remove_edge_from_adjacency (ed_target prior) Incoming i"
  from assms(2,4) obtain g1 g2 where m1: "?m1 g = (Inr (), g1)" and m2: "?m2 g1 = (Inr (), g2)"
    and g': "g' = remove_pair_index (ed_source prior) (ed_target prior) (ed_label prior) i
        (g2\<lparr>g_edge_exists := g_edge_exists g2 - {i},
           g_edge_label_index := label_remove (ed_label prior) i (g_edge_label_index g2),
           g_edge_count := u64_pred (g_edge_count g2)\<rparr>)"
    by (auto simp: reconcile_edge_delete_def sbind_eq_Inr)
  have q: "quiet g g2"
    using quietlyD [OF quietly_remove_adj TrueI m1] quietlyD [OF quietly_remove_adj TrueI m2] by (rule quiet_trans)
  have dead: "g_edge_slots g2 i = None"
    using assms(3) keepsD [OF keeps_edge_slots_remove m1] keepsD [OF keeps_edge_slots_remove m2] by simp
  have st: "page_step (KeyEdge i) None g g2"
    using page_step_quiet [OF assms(1) q] dead_base [OF assms(3)] by metis
  let ?h = "g2\<lparr>g_edge_exists := g_edge_exists g2 - {i}\<rparr>"
  have "page_base g' k = page_base ?h k" for k
    by (cases k) (simp_all add: g' remove_pair_index_def read_node_def read_edge_def)
  moreover have "page_base ?h k = page_base g2 k" for k
    using dead by (cases k) (auto simp: read_node_def read_edge_def ok_def)
  moreover have "slots_ok g2" using st by (simp add: page_step_def)
  then have "slots_ok g'" using dead by (auto simp: slots_ok_def g' remove_pair_index_def)
  moreover have "k' \<noteq> KeyEdge i \<Longrightarrow> key_exists g2 k' \<longrightarrow> key_exists g' k'" for k'
    by (cases k') (simp_all add: g' remove_pair_index_def)
  moreover have "snap_view (page_base g2 (KeyEdge i)) = None" using dead by (intro dead_base) simp
  ultimately have "page_step (KeyEdge i) None g2 g'"
    by (simp add: page_step_def g' remove_pair_index_def mvcc_def del: page_base.simps)
  with st show ?thesis by (rule page_step_trans)
qed

lemma category_b_effect:
  assumes "slots_ok g" "kind_ok k old" "kind_ok k new" "snap_view new = None \<longrightarrow> slot_dead g k"
    and "apply_vacuum_category_b k new old g = (Inr u, g')"
  shows "page_step k (snap_view (page_base g k)) g g'"
proof -
  have same: ?thesis if "quiet g g'" using assms(1) that by (rule page_step_quiet)
  show ?thesis
  proof (cases k)
    case (KeyNode i)
    show ?thesis
    proof (cases "snap_view new = None \<and> (\<exists>p. old = Some (SnapNode p))")
      case True
      then obtain p where p: "old = Some (SnapNode p)" "snap_view new = None" by blast
      with KeyNode assms have "g' = reconcile_node_delete p g" "nd_id p = i" "slot_dead g (KeyNode i)"
        by (auto simp: apply_vacuum_category_b_def split: option.splits entity_snapshot.splits)
      with page_step_node_delete [OF assms(1)] dead_base [of g k] KeyNode show ?thesis by auto
    next
      case False
      have "quiet g (g\<lparr>g_node_label_index := a, g_node_property_index := b\<rparr>)" for a b
        by (rule quiet_trans, rule quiet_derived(5), rule quiet_derived(7))
      with False KeyNode assms(5) same show ?thesis
        by (cases new rule: snap_view.cases; cases old rule: snap_view.cases)
          (auto simp: apply_vacuum_category_b_def)
    qed
  next
    case (KeyEdge i)
    show ?thesis
    proof (cases "snap_view new = None \<and> (\<exists>p. old = Some (SnapEdge p))")
      case True
      then obtain p where p: "old = Some (SnapEdge p)" "snap_view new = None" by blast
      with KeyEdge assms have "reconcile_edge_delete p g = (Inr u, g')" "ed_id p = i" "slot_dead g (KeyEdge i)"
        by (auto simp: apply_vacuum_category_b_def split: option.splits entity_snapshot.splits)
      with page_step_edge_delete [OF assms(1)] dead_base [of g k] KeyEdge show ?thesis by auto
    next
      case False
      have "quiet g (remove_pair_index a b l e (g\<lparr>g_edge_label_index := x\<rparr>))" for a b l e x
        by (rule quiet_trans, rule quiet_derived(6), rule quiet_pair_remove)
      with False KeyEdge assms(5) same show ?thesis
        by (cases new rule: snap_view.cases; cases old rule: snap_view.cases)
          (auto simp: apply_vacuum_category_b_def split: if_splits)
    qed
  qed
qed

lemma vacuum_entry_effect:
  assumes "slots_ok g" "kind_ok k new" "kind_ok k old" "k \<notin> g_bad_reads g"
    and "snap_view new \<noteq> None \<longrightarrow> key_exists g k"
    and "vacuum_entry (k, new, old) g = (Inr u, g')"
  shows "page_step k (snap_view new) g g'"
proof -
  from assms(6) obtain h where m: "materialize_to_page k new g = (Inr (), h)"
    and b: "apply_vacuum_category_b k new old h = (Inr u, g')"
    by (auto simp: vacuum_entry_def sbind_eq_Inr)
  from materialize_effect [OF assms(1,2,4,5) m] have h: "page_step k (snap_view new) g h"
    "snap_view new = None \<longrightarrow> slot_dead h k" by auto
  then have "slots_ok h" "snap_view (page_base h k) = snap_view new" by (simp_all add: page_step_def)
  with category_b_effect [OF _ assms(3,2) h(2) b] h(1) page_step_trans show ?thesis by metis
qed

section \<open>The whole run\<close>

text \<open>A drained entry the vacuum can materialise: its states are of its kind, its page reads
  back, and a record it is to write is in the exists-set (its commit put it there).\<close>

definition entry_ok :: "graph \<Rightarrow> entity_key \<times> entity_snapshot option \<times> entity_snapshot option \<Rightarrow> bool" where
  "entry_ok g e \<longleftrightarrow> (case e of (k, new, old) \<Rightarrow>
     kind_ok k new \<and> kind_ok k old \<and> k \<notin> g_bad_reads g \<and> (snap_view new \<noteq> None \<longrightarrow> key_exists g k))"

lemma vacuum_loop:
  assumes "slots_ok g" "distinct (map fst ds)" "\<forall>e\<in>set ds. entry_ok g e"
    and "siter vacuum_entry ds g = (Inr u, g')"
  shows "mvcc g' = mvcc g \<and> slots_ok g' \<and> g_bad_reads g' = g_bad_reads g \<and>
    (\<forall>k. k \<notin> fst ` set ds \<longrightarrow> snap_view (page_base g' k) = snap_view (page_base g k)) \<and>
    (\<forall>k new old. (k, new, old) \<in> set ds \<longrightarrow> snap_view (page_base g' k) = snap_view new)"
  using assms
proof (induction ds arbitrary: g)
  case Nil
  then show ?case by simp
next
  case (Cons e ds)
  obtain k new old where e: "e = (k, new, old)" by (cases e)
  from Cons.prems(4) obtain h where v: "vacuum_entry (k, new, old) g = (Inr (), h)"
    and rest: "siter vacuum_entry ds h = (Inr u, g')"
    by (auto simp: e sbind_eq_Inr)
  have ok: "kind_ok k new" "kind_ok k old" "k \<notin> g_bad_reads g" "snap_view new \<noteq> None \<longrightarrow> key_exists g k"
    using Cons.prems(3) by (simp_all add: e entry_ok_def)
  have st: "page_step k (snap_view new) g h" by (rule vacuum_entry_effect [OF Cons.prems(1) ok v])
  have k: "k \<notin> fst ` set ds" using Cons.prems(2) by (simp add: e)
  have "entry_ok h e'" if "e' \<in> set ds" for e'
  proof -
    obtain k' new' old' where e': "e' = (k', new', old')" by (cases e')
    with that k have "k' \<noteq> k" by force
    with st e' Cons.prems(3) that show ?thesis by (auto simp: entry_ok_def page_step_def)
  qed
  then have "\<forall>e\<in>set ds. entry_ok h e" by blast
  moreover have "slots_ok h" "distinct (map fst ds)" using st Cons.prems(2) by (simp_all add: page_step_def)
  ultimately have ih: "mvcc g' = mvcc h" "slots_ok g'" "g_bad_reads g' = g_bad_reads h"
    "\<And>k'. k' \<notin> fst ` set ds \<Longrightarrow> snap_view (page_base g' k') = snap_view (page_base h k')"
    "\<And>k' new old. (k', new, old) \<in> set ds \<Longrightarrow> snap_view (page_base g' k') = snap_view new"
    using Cons.IH [OF _ _ _ rest] by blast+
  show ?case
    using st ih(1-3) ih(4) [OF k] ih(4,5) by (auto simp: e page_step_def)
qed

text \<open>The chains a vacuum of this state would drain, and that it can materialise them all.\<close>

definition vacuum_ready :: "graph \<Rightarrow> bool" where
  "vacuum_ready g \<longleftrightarrow>
     (case (g_delta_table g, g_registry g) of
        (Some t, Some r) \<Rightarrow> list_all (\<lambda>(k, new, old). k \<notin> g_bad_reads g \<and>
           (snap_view new \<noteq> None \<longrightarrow> key_exists g k)) (fst (drain_vacuumable (oldest_active_start_ts r) t))
      | _ \<Rightarrow> True)"

lemma drained_kind:
  assumes "mvcc_inv t r c" "(k, new, old) \<in> set (fst (drain_vacuumable wm t))"
  shows "kind_ok k new" "kind_ok k old"
proof -
  from assms(2) dt.drain_entries [OF mvcc_invD(1) [OF assms(1)], of wm] obtain ch where
    ch: "chain_for t k = Some ch" and e: "(k, new, old) = drained_entry k ch"
    by (auto simp: drained_entry_def)
  have ok: "delta_ok r c k d" if "d \<in> set ch" for d
    using assms(1) ch that by (auto simp: mvcc_inv_def dest: chains_okD)
  have "d \<in> set ch" if "chain_oldest ch = Some d" for d
    using that by (cases "rev ch") (auto simp: chain_oldest_def simp flip: set_rev [of ch])
  with e ok chain_newest_in_set [of ch] show "kind_ok k new" "kind_ok k old"
    by (auto simp: drained_entry_def delta_ok_def bind_eq_Some_conv split: option.splits bind_splits)
qed

lemma vacuum_effect:
  assumes inv: "txn_inv g" and ready: "vacuum_ready g" and v: "vacuum_once g = (Inr n, g')"
  shows "\<exists>t r c. mvcc g = (Some t, Some r, Some c) \<and> mvcc_inv t r c \<and>
    mvcc g' = (Some (snd (drain_vacuumable (oldest_active_start_ts r) t)), Some r, Some c) \<and>
    slots_ok g' \<and>
    (\<forall>k. (\<nexists>ch. chain_for t k = Some ch \<and> all_safe_to_vacuum (oldest_active_start_ts r) ch) \<longrightarrow>
       snap_view (page_base g' k) = snap_view (page_base g k)) \<and>
    (\<forall>k ch. chain_for t k = Some ch \<longrightarrow> all_safe_to_vacuum (oldest_active_start_ts r) ch \<longrightarrow>
       snap_view (page_base g' k) = snap_view (fst (snd (drained_entry k ch))))"
proof -
  from inv obtain t r c where g: "mvcc g = (Some t, Some r, Some c)" "mvcc_inv t r c" "slots_ok g"
    by (auto simp: txn_inv_def)
  let ?wm = "oldest_active_start_ts r" let ?dr = "drain_vacuumable ?wm t"
  let ?g1 = "g\<lparr>g_delta_table := Some (snd ?dr)\<rparr>"
  have it: "siter vacuum_entry (fst ?dr) ?g1 = (Inr (), g')"
    using v g(1) by (auto simp: vacuum_once_def mvcc_def Let_def case_prod_unfold sbind_eq_Inr)
  have p: "pages ?g1 = pages g" by (simp add: pages_def)
  note wf = mvcc_invD(1) [OF g(2)]
  have ready': "k \<notin> g_bad_reads g \<and> (snap_view new \<noteq> None \<longrightarrow> key_exists g k)"
    if "(k, new, old) \<in> set (fst ?dr)" for k new old
    using ready g(1) that by (auto simp: vacuum_ready_def mvcc_def list_all_iff)
  have ex: "key_exists ?g1 k \<longleftrightarrow> key_exists g k" for k by (cases k) simp_all
  have "\<forall>e\<in>set (fst ?dr). entry_ok ?g1 e"
    using drained_kind [OF g(2)] ready' ex by (auto simp: entry_ok_def)
  note vl = vacuum_loop [OF _ dt.drain_distinct [OF wf] this it]
  have so: "slots_ok ?g1" using g(3) pages_eqD(2) [OF p] by simp
  have loop: "mvcc g' = mvcc ?g1" "slots_ok g'"
    "\<And>k. k \<notin> fst ` set (fst ?dr) \<Longrightarrow> snap_view (page_base g' k) = snap_view (page_base g k)"
    "\<And>k new old. (k, new, old) \<in> set (fst ?dr) \<Longrightarrow> snap_view (page_base g' k) = snap_view new"
    using vl [OF so] unfolding pages_eqD(1) [OF p] by blast+
  have dr: "set (fst ?dr) = {drained_entry k ch | k ch. chain_for t k = Some ch \<and> all_safe_to_vacuum ?wm ch}"
    using wf by (rule dt.drain_entries)
  have keys: "k \<in> fst ` set (fst ?dr) \<longleftrightarrow> (\<exists>ch. chain_for t k = Some ch \<and> all_safe_to_vacuum ?wm ch)" for k
    unfolding dr by (auto simp: drained_entry_def image_iff)
  have vals: "snap_view (page_base g' k) = snap_view (fst (snd (drained_entry k ch)))"
    if "chain_for t k = Some ch" "all_safe_to_vacuum ?wm ch" for k ch
  proof -
    have "drained_entry k ch \<in> set (fst ?dr)" unfolding dr using that by blast
    then have "(k, fst (snd (drained_entry k ch)), snd (snd (drained_entry k ch))) \<in> set (fst ?dr)"
      by (simp add: drained_entry_def)
    then show ?thesis by (rule loop(4))
  qed
  have "mvcc g' = (Some (snd ?dr), Some r, Some c)" using loop(1) g(1) by (simp add: mvcc_def)
  with g loop(2,3) keys vals show ?thesis by blast
qed

text \<open>The snapshots a vacuum must respect: the live transactions' and the present instant.\<close>

definition current_reader :: "graph \<Rightarrow> nat \<Rightarrow> bool" where
  "current_reader g ts \<longleftrightarrow> (\<exists>x. snapshot_of g x = Some ts) \<or> g_clock g = Some ts"

lemma reader_above_watermark:
  assumes inv: "mvcc_inv t r c" and reader: "(\<exists>x. start_ts r x = Some ts) \<or> ts = c"
    and ch: "chain_for t k = Some ch"
  shows "case oldest_active_start_ts r of Some w \<Rightarrow> w \<le> ts
    | None \<Rightarrow> (\<forall>d\<in>set ch. \<forall>cm. dl_commit_ts d = Some cm \<longrightarrow> cm < ts)"
proof (cases "oldest_active_start_ts r")
  case None
  then have "start_ts r x = None" for x using watermark_le [of r x] by (cases "start_ts r x") auto
  with reader have "ts = c" by auto
  moreover have "cm < c" if "d \<in> set ch" "dl_commit_ts d = Some cm" for d cm
    using inv ch that by (fastforce simp: mvcc_inv_def delta_ok_def dest: chains_okD)
  ultimately show ?thesis using None by simp
next
  case (Some w)
  with watermark_mem [OF mvcc_invD(2) [OF inv]] obtain y where y: "start_ts r y = Some w" by blast
  with mvcc_invD(4) [OF inv] have "w < c" by (auto simp: starts_ok_def)
  with reader Some watermark_le [of r] show ?thesis by fastforce
qed

lemma vacuum_visible:
  assumes inv: "txn_inv g" and ready: "vacuum_ready g" and v: "vacuum_once g = (Inr n, g')"
    and reader: "current_reader g ts"
  shows "visible g' k ts y = visible g k ts y"
proof -
  obtain t r c where g: "mvcc g = (Some t, Some r, Some c)" "mvcc_inv t r c"
    and g': "mvcc g' = (Some (snd (drain_vacuumable (oldest_active_start_ts r) t)), Some r, Some c)"
    and keep: "(\<nexists>ch. chain_for t k = Some ch \<and> all_safe_to_vacuum (oldest_active_start_ts r) ch) \<Longrightarrow>
       snap_view (page_base g' k) = snap_view (page_base g k)"
    and new: "\<And>ch. chain_for t k = Some ch \<Longrightarrow> all_safe_to_vacuum (oldest_active_start_ts r) ch \<Longrightarrow>
       snap_view (page_base g' k) = snap_view (fst (snd (drained_entry k ch)))"
    using vacuum_effect [OF inv ready v] by blast
  let ?wm = "oldest_active_start_ts r" let ?t' = "snd (drain_vacuumable ?wm t)"
  note wf = mvcc_invD(1) [OF g(2)]
  have rd: "(\<exists>x. start_ts r x = Some ts) \<or> ts = c"
    using reader g(1) by (auto simp: current_reader_def snapshot_of_def mvcc_def)
  show ?thesis
  proof (cases "\<exists>ch. chain_for t k = Some ch \<and> all_safe_to_vacuum ?wm ch")
    case False
    then have "chain_for ?t' k = chain_for t k"
      using dt.lookup_drain [OF wf, of ?wm k] by (auto split: option.splits if_splits)
    then have "dt.resolve ?t' k b ts y = dt.resolve t k b ts y" for b by (simp add: dt.resolve_def)
    then show ?thesis
      unfolding visible_eq [OF g'] visible_eq [OF g(1)]
      using snap_view_resolve [OF keep [OF False], of t k ts y] by simp
  next
    case True
    then obtain ch where ch: "chain_for t k = Some ch" "all_safe_to_vacuum ?wm ch" by blast
    have "dt.resolve t k (page_base g k) ts y = fst (snd (drained_entry k ch))"
      by (rule dt.resolve_drained [OF wf ch reader_above_watermark [OF g(2) rd ch(1)]])
    moreover have "chain_for ?t' k = None" using dt.lookup_drain [OF wf, of ?wm k] ch by simp
    then have "dt.resolve ?t' k (page_base g' k) ts y = page_base g' k" by (simp add: dt.resolve_def)
    ultimately show ?thesis
      using new [OF ch] by (simp add: visible_eq [OF g'] visible_eq [OF g(1)])
  qed
qed

lemma vacuum_inv:
  assumes inv: "txn_inv g" and ready: "vacuum_ready g" and v: "vacuum_once g = (Inr n, g')"
  shows "txn_inv g'" and "snapshot_of g' = snapshot_of g"
proof -
  obtain t r c where g: "mvcc g = (Some t, Some r, Some c)" "mvcc_inv t r c"
    and g': "mvcc g' = (Some (snd (drain_vacuumable (oldest_active_start_ts r) t)), Some r, Some c)" "slots_ok g'"
    using vacuum_effect [OF inv ready v] by blast
  note wf = mvcc_invD(1) [OF g(2)]
  have "chains_ok (snd (drain_vacuumable (oldest_active_start_ts r) t)) r c"
    using mvcc_invD(3) [OF g(2)] dt.lookup_drain [OF wf]
    by (auto simp: chains_ok_def split: option.splits if_splits)
  then have "mvcc_inv (snd (drain_vacuumable (oldest_active_start_ts r) t)) r c"
    using g(2) wf by (simp add: mvcc_inv_def)
  with g' show "txn_inv g'" by (simp add: txn_inv_def)
  show "snapshot_of g' = snapshot_of g"
    using snapshot_of_mvcc [OF g'(1)] snapshot_of_mvcc [OF g(1)] by (simp add: fun_eq_iff)
qed

end
