(* ===== verification/Graph_Runs.thy ===== *)
theory Graph_Runs
  imports Graph_Vacuum
begin

text \<open>
  The engine as a transition system over its transactional operations, the invariant of its
  reachable states, snapshot isolation along runs, and the contract of each operation.
\<close>

section \<open>A fresh graph\<close>

text \<open>\<^verbatim>\<open>Graph::new\<close>, on a backend without a log; the parameters are those of
  \<open>graph\<close>.\<close>

definition graph_new ::
  "(entity_key \<Rightarrow> nat) \<Rightarrow> (rstring \<Rightarrow> u32) \<Rightarrow> nat \<Rightarrow> nat \<Rightarrow> (adj_key \<Rightarrow> u32 option \<Rightarrow> nat list \<Rightarrow> u32) \<Rightarrow> graph" where
  "graph_new hasher label_hash szn sze place =
     \<lparr>g_delta_table = None, g_registry = None, g_clock = None, g_txn_memory_cap = None,
      g_next_node_id = 1, g_next_edge_id = 1, g_node_count = 0, g_edge_count = 0,
      g_node_exists = {}, g_edge_exists = {}, g_node_slots = Map.empty, g_edge_slots = Map.empty,
      g_node_page_count = 0, g_edge_page_count = 0, g_bad_reads = {},
      g_node_label_index = label_index_new, g_edge_label_index = label_index_new,
      g_node_property_index = property_index_new, g_edge_pair_index = [],
      g_adj_cache = Map.empty, g_adj_file = (\<lambda>_. []), g_adj_pending = [],
      g_batch_depth = 0, g_batch_max_ops = None, g_batch_max_bytes = None,
      g_batch_op_count = 0, g_batch_byte_count = 0,
      g_catalog = catalog_new, g_append_only_node_ids = {}, g_quota_hook = None,
      g_wal_enabled = False, g_wal = [], g_wal_synced = 0, g_faults = [],
      g_hasher = hasher, g_label_hash = label_hash, g_size_node = szn, g_size_edge = sze,
      g_adj_place = place\<rparr>"

section \<open>Steps and runs\<close>

text \<open>
  One call of the transactional interface. The actor is the transaction that performs it
  (\<open>None\<close> for begin and the vacuum). Every outcome is a step, with these side conditions: the
  64-bit counters have room; the record passed to an update carries the id it is stored
  under; a commit that reaches its visible phase completes and the edges it inserts join
  resident nodes; a vacuum can materialise what it drains and completes.
\<close>

inductive txn_step :: "nat option \<Rightarrow> graph \<Rightarrow> graph \<Rightarrow> bool" where
  st_begin: "not_exhausted g \<Longrightarrow> begin_txn g = (res, g') \<Longrightarrow> txn_step None g g'"
| st_add_node: "add_node_in_txn x l ps g = (res, g') \<Longrightarrow> txn_step (Some x) g g'"
| st_update_node: "update_node_in_txn x (nd_id n) n g = (res, g') \<Longrightarrow> txn_step (Some x) g g'"
| st_remove_node: "remove_node_in_txn x i g = (res, g') \<Longrightarrow> txn_step (Some x) g g'"
| st_add_edge: "add_edge_in_txn x l s t ps g = (res, g') \<Longrightarrow> txn_step (Some x) g g'"
| st_update_edge: "update_edge_in_txn x (ed_id e) e g = (res, g') \<Longrightarrow> txn_step (Some x) g g'"
| st_remove_edge: "remove_edge_in_txn x i g = (res, g') \<Longrightarrow> txn_step (Some x) g g'"
| st_rollback: "rollback_txn x g = (res, g') \<Longrightarrow> txn_step (Some x) g g'"
| st_commit: "not_exhausted g \<Longrightarrow> \<forall>kd\<in>set (committed_of g x). endpoints_resident (snd kd) g \<Longrightarrow>
    commit_txn x g = (Inr u, g') \<Longrightarrow> txn_step (Some x) g g'"
| st_commit_failed: "not_exhausted g \<Longrightarrow> commit_log x g = (Inl e, g') \<Longrightarrow> txn_step (Some x) g g'"
| st_vacuum: "vacuum_ready g \<Longrightarrow> vacuum_once g = (Inr n, g') \<Longrightarrow> txn_step None g g'"

inductive run :: "nat option set \<Rightarrow> graph \<Rightarrow> graph \<Rightarrow> bool" where
  run_refl: "run A g g"
| run_step: "run A g h \<Longrightarrow> a \<in> A \<Longrightarrow> txn_step a h g' \<Longrightarrow> run A g g'"

inductive_cases txn_stepE: "txn_step a g g'"

lemmas step_writes = writes_add_node writes_update_node [OF refl] writes_remove_node writes_add_edge
  writes_update_edge [OF refl] writes_remove_edge writes_rollback

lemma txn_step_inv:
  assumes "txn_step a g g'" "txn_inv g"
  shows "txn_inv g'"
  using assms
proof (induction rule: txn_step.induct)
  case (st_begin g res g')
  then show ?case by (auto intro: begin_inv)
next
  case (st_commit g x u g')
  then show ?case by (auto intro: commit_inv)
next
  case (st_commit_failed g x e g')
  then show ?case by (auto intro: commit_log_failed)
next
  case (st_vacuum g n g')
  then show ?case by (auto intro: vacuum_inv)
qed (blast intro: write_effect_inv writesD step_writes)+

lemma txn_step_snapshot:
  assumes "txn_step a g g'" "txn_inv g" "a \<noteq> Some y" "snapshot_of g y = Some s"
  shows "snapshot_of g' y = Some s \<and> visible g' k s (Some y) = visible g k s (Some y)"
  using assms
proof (induction rule: txn_step.induct)
  case (st_begin g res g')
  then show ?case by (auto intro: begin_snapshot begin_visible)
next
  case (st_commit g x u g')
  then obtain t r c where g: "mvcc g = (Some t, Some r, Some c)" "mvcc_inv t r c"
    by (auto simp: txn_inv_def)
  with st_commit.prems have "s < c" by (auto simp: snapshot_of_mvcc mvcc_inv_def starts_ok_def)
  with g(1) st_commit show ?case
    using commit_snapshot [of g x u g' y] commit_visible [of g x u g' c s k "Some y"]
    by (simp add: mvcc_def)
next
  case (st_commit_failed g x e g')
  then show ?case using commit_log_failed(2,3) [of g x e g'] by simp
next
  case (st_vacuum g n g')
  then show ?case
    using vacuum_inv(2) [of g n g'] vacuum_visible [of g n g' s k "Some y"]
    by (auto simp: current_reader_def)
qed (metis write_effect_snapshot write_effect_visible writesD step_writes option.inject)+

lemma run_inv: "run A g g' \<Longrightarrow> txn_inv g \<Longrightarrow> txn_inv g'"
  by (induction rule: run.induct) (auto intro: txn_step_inv)

lemma run_snapshot:
  assumes "run A g g'" "txn_inv g" "Some y \<notin> A" "snapshot_of g y = Some s"
  shows "snapshot_of g' y = Some s \<and> visible g' k s (Some y) = visible g k s (Some y)"
  using assms
proof (induction rule: run.induct)
  case (run_step A g h a g')
  then show ?case using txn_step_snapshot [of a h g' y s k] run_inv by metis
qed simp

end
