(* ===== verification/Graph_Auto.thy ===== *)
theory Graph_Auto
  imports Graph_Txn
begin

text \<open>
  Auto-commit reads and writes, batches and the index-backed queries of
  \<^verbatim>\<open>crates/ermya-graph/src/graph.rs\<close>: operations that touch the pages and the derived
  structures at once, outside any transaction.
\<close>

section \<open>Reads\<close>

text \<open>\<^verbatim>\<open>Graph::node\<close>: append-only nodes come straight off the page.\<close>

definition node_read :: "graph \<Rightarrow> nat \<Rightarrow> graph_error + node" where
  "node_read g i =
     (if is_append_only_node g i
      then (if i \<in> g_node_exists g then read_node g i else Inl (NodeNotFound i))
      else if mvcc_enabled g then resolve_node_visible g i (auto_commit_start_ts g) None
      else if i \<in> g_node_exists g then read_node g i else Inl (NodeNotFound i))"

definition edge_read :: "graph \<Rightarrow> nat \<Rightarrow> graph_error + edge" where
  "edge_read g i =
     (if mvcc_enabled g then resolve_edge_visible g i (auto_commit_start_ts g) None
      else if i \<in> g_edge_exists g then read_edge g i else Inl (EdgeNotFound i))"

definition node_projected :: "graph \<Rightarrow> nat \<Rightarrow> rstring list \<Rightarrow> graph_error + node" where
  "node_projected g i keys =
     rbind (if mvcc_enabled g then resolve_node_visible g i (auto_commit_start_ts g) None
            else if i \<in> g_node_exists g then read_node g i else Inl (NodeNotFound i))
       (\<lambda>n. Inr (n\<lparr>nd_properties := filter (\<lambda>(k, _). k \<in> set keys) (nd_properties n)\<rparr>))"

definition node_label :: "graph \<Rightarrow> nat \<Rightarrow> graph_error + rstring" where
  "node_label g i =
     rbind (if mvcc_enabled g then resolve_node_visible g i (auto_commit_start_ts g) None
            else if i \<in> g_node_exists g then read_node g i else Inl (NodeNotFound i))
       (\<lambda>n. Inr (nd_label n))"

definition node_visible :: "graph \<Rightarrow> nat \<Rightarrow> bool" where
  "node_visible g i =
     (if \<not> mvcc_enabled g then i \<in> g_node_exists g
      else ok (resolve_node_visible g i (auto_commit_start_ts g) None) \<noteq> None)"

section \<open>Index-backed queries\<close>

definition nodes_by_label :: "graph \<Rightarrow> rstring \<Rightarrow> nat set" where
  "nodes_by_label g l = ids_for (g_node_label_index g) l"

definition nodes_by_label_and_property :: "graph \<Rightarrow> rstring \<Rightarrow> rstring \<Rightarrow> property \<Rightarrow> nat set" where
  "nodes_by_label_and_property g l k v = pindex_lookup (g_node_property_index g) l k v"

definition retain_visible :: "graph \<Rightarrow> nat set \<Rightarrow> nat set" where
  "retain_visible g ids = Set.filter (node_visible g) ids"

definition nodes_by_label_and_property_range ::
  "graph \<Rightarrow> rstring \<Rightarrow> rstring \<Rightarrow> u64 option \<Rightarrow> u64 option \<Rightarrow> nat set" where
  "nodes_by_label_and_property_range g l k lo hi =
     retain_visible g (range_i64 (g_node_property_index g) l k lo hi)"

fun first_visible_min :: "graph \<Rightarrow> (u64 \<times> nat set) list \<Rightarrow> nat option" where
  "first_visible_min g [] = None"
| "first_visible_min g ((v, ids) # rest) =
     (if retain_visible g ids = {} then first_visible_min g rest
      else Some (Min (retain_visible g ids)))"

definition max_node_by_property :: "graph \<Rightarrow> rstring \<Rightarrow> rstring \<Rightarrow> nat option" where
  "max_node_by_property g l k = first_visible_min g (iter_i64_desc (g_node_property_index g) l k)"

definition nodes_by_label_without_property :: "graph \<Rightarrow> rstring \<Rightarrow> rstring \<Rightarrow> nat set" where
  "nodes_by_label_without_property g l k =
     retain_visible g (ids_for (g_node_label_index g) l
       - ids_with_property (g_node_property_index g) l k)"

definition edges_by_label :: "graph \<Rightarrow> rstring \<Rightarrow> nat set" where
  "edges_by_label g l = ids_for (g_edge_label_index g) l"

section \<open>Traversal reads\<close>

text \<open>An id of a superset, kept when this reader sees it.\<close>

definition push_visible :: "graph \<Rightarrow> nat \<Rightarrow> nat option \<Rightarrow> nat \<Rightarrow> edge list \<Rightarrow> graph_error + edge list" where
  "push_visible g ts r e es =
     (if e \<notin> g_edge_exists g then Inr es
      else if mvcc_enabled g
      then (case resolve_edge_visible g e ts r of
          Inr x \<Rightarrow> Inr (es @ [x])
        | Inl (EdgeNotFound _) \<Rightarrow> Inr es
        | Inl err \<Rightarrow> Inl err)
      else rbind (read_edge g e) (\<lambda>x. Inr (es @ [x])))"

definition push_pending :: "graph \<Rightarrow> nat \<Rightarrow> nat option \<Rightarrow> nat \<Rightarrow> edge list \<Rightarrow> graph_error + edge list" where
  "push_pending g ts r e es =
     (case resolve_edge_visible g e ts r of
        Inr x \<Rightarrow> Inr (es @ [x])
      | Inl (EdgeNotFound _) \<Rightarrow> Inr es
      | Inl err \<Rightarrow> Inl err)"

definition pending_txn_edge_ids :: "graph \<Rightarrow> nat \<Rightarrow> adj_direction \<Rightarrow> nat option \<Rightarrow> nat list" where
  "pending_txn_edge_ids g i dir r =
     (case (r, g_registry g) of (Some x, Some reg) \<Rightarrow> pending_edges_for reg x i dir | _ \<Rightarrow> [])"

definition edges_for_direction ::
  "nat \<Rightarrow> adj_direction \<Rightarrow> nat \<Rightarrow> nat option \<Rightarrow> edge list gstep" where
  "edges_for_direction i dir ts r =
     sbind (resolve_adj_pointer i) (\<lambda>p. sread (\<lambda>g.
       let stored = (case Option.bind p (ptr_head dir) of None \<Rightarrow> [] | Some pg \<Rightarrow> g_adj_file g (pg, i, dir));
           pending = (case map_of (g_adj_pending g) (i, dir) of None \<Rightarrow> [] | Some es \<Rightarrow> es)
       in rbind (rfold (push_visible g ts r) (stored @ pending) [])
            (rfold (push_pending g ts r) (pending_txn_edge_ids g i dir r))))"

definition edges_of :: "adj_direction \<Rightarrow> nat \<Rightarrow> edge list gstep" where
  "edges_of dir i g =
     (if i \<notin> g_node_exists g then (Inl (NodeNotFound i), g)
      else edges_for_direction i dir (if mvcc_enabled g then auto_commit_start_ts g else 0) None g)"

definition outgoing_edges :: "nat \<Rightarrow> edge list gstep" where
  "outgoing_edges = edges_of Outgoing"

definition incoming_edges :: "nat \<Rightarrow> edge list gstep" where
  "incoming_edges = edges_of Incoming"

definition edges_of_in_txn :: "adj_direction \<Rightarrow> nat \<Rightarrow> nat \<Rightarrow> edge list gstep" where
  "edges_of_in_txn dir x i g =
     (if \<not> node_visible_in_txn g x i then (Inl (NodeNotFound i), g)
      else sbind (sread (\<lambda>g. txn_start_ts g x)) (\<lambda>ts. edges_for_direction i dir ts (Some x)) g)"

definition outgoing_edges_in_txn :: "nat \<Rightarrow> nat \<Rightarrow> edge list gstep" where
  "outgoing_edges_in_txn = edges_of_in_txn Outgoing"

definition incoming_edges_in_txn :: "nat \<Rightarrow> nat \<Rightarrow> edge list gstep" where
  "incoming_edges_in_txn = edges_of_in_txn Incoming"

text \<open>The by-label variants. A page-stored label hash that differs skips the record in legacy
  mode; the string comparison decides in both modes.\<close>

definition push_matching ::
  "graph \<Rightarrow> rstring \<Rightarrow> nat \<Rightarrow> nat option \<Rightarrow> nat \<Rightarrow> edge list \<Rightarrow> graph_error + edge list" where
  "push_matching g l ts r e es =
     (if e \<notin> g_edge_exists g then Inr es
      else if mvcc_enabled g
      then (case resolve_edge_visible g e ts r of
          Inr x \<Rightarrow> Inr (if ed_label x = l then es @ [x] else es)
        | Inl (EdgeNotFound _) \<Rightarrow> Inr es
        | Inl err \<Rightarrow> Inl err)
      else rbind (read_edge g e) (\<lambda>x.
        Inr (if g_label_hash g (ed_label x) = g_label_hash g l \<and> ed_label x = l then es @ [x] else es)))"

definition push_pending_matching ::
  "graph \<Rightarrow> rstring \<Rightarrow> nat \<Rightarrow> nat option \<Rightarrow> nat \<Rightarrow> edge list \<Rightarrow> graph_error + edge list" where
  "push_pending_matching g l ts r e es =
     (case resolve_edge_visible g e ts r of
        Inr x \<Rightarrow> Inr (if ed_label x = l then es @ [x] else es)
      | Inl (EdgeNotFound _) \<Rightarrow> Inr es
      | Inl err \<Rightarrow> Inl err)"

definition edges_for_direction_by_label ::
  "nat \<Rightarrow> adj_direction \<Rightarrow> rstring \<Rightarrow> nat \<Rightarrow> nat option \<Rightarrow> edge list gstep" where
  "edges_for_direction_by_label i dir l ts r =
     sbind (resolve_adj_pointer i) (\<lambda>p. sread (\<lambda>g.
       let stored = (case Option.bind p (ptr_head dir) of None \<Rightarrow> [] | Some pg \<Rightarrow> g_adj_file g (pg, i, dir));
           pending = (case map_of (g_adj_pending g) (i, dir) of None \<Rightarrow> [] | Some es \<Rightarrow> es)
       in rbind (rfold (push_matching g l ts r) (stored @ pending) [])
            (rfold (push_pending_matching g l ts r) (pending_txn_edge_ids g i dir r))))"

definition outgoing_edges_by_label_in_txn :: "nat \<Rightarrow> nat \<Rightarrow> rstring \<Rightarrow> edge list gstep" where
  "outgoing_edges_by_label_in_txn x i l g =
     (if \<not> node_visible_in_txn g x i then (Inl (NodeNotFound i), g)
      else sbind (sread (\<lambda>g. txn_start_ts g x))
        (\<lambda>ts. edges_for_direction_by_label i Outgoing l ts (Some x)) g)"

text \<open>The incoming variant checks the committed exists-set, not the transaction's view.\<close>

definition incoming_edges_by_label_in_txn :: "nat \<Rightarrow> nat \<Rightarrow> rstring \<Rightarrow> edge list gstep" where
  "incoming_edges_by_label_in_txn x i l g =
     (if i \<notin> g_node_exists g then (Inl (NodeNotFound i), g)
      else sbind (sread (\<lambda>g. txn_start_ts g x))
        (\<lambda>ts. edges_for_direction_by_label i Incoming l ts (Some x)) g)"

text \<open>\<^verbatim>\<open>edges_between\<close> and \<^verbatim>\<open>has_edge\<close>: the pair index, then visibility and the exact
  label.\<close>

definition between_edge :: "graph \<Rightarrow> nat \<Rightarrow> nat \<Rightarrow> graph_error + edge option" where
  "between_edge g ts e =
     (if mvcc_enabled g
      then (case resolve_edge_visible g e ts None of
          Inr x \<Rightarrow> Inr (Some x)
        | Inl (EdgeNotFound _) \<Rightarrow> Inr None
        | Inl err \<Rightarrow> Inl err)
      else rbind (read_edge g e) (\<lambda>x. Inr (Some x)))"

definition edges_between :: "graph \<Rightarrow> nat \<Rightarrow> nat \<Rightarrow> rstring \<Rightarrow> graph_error + edge list" where
  "edges_between g s t l =
     (if s \<notin> g_node_exists g then Inl (NodeNotFound s)
      else if t \<notin> g_node_exists g then Inl (NodeNotFound t)
      else (case map_of (g_edge_pair_index g) (s, t, g_label_hash g l) of
          None \<Rightarrow> Inr []
        | Some ids \<Rightarrow>
            rfold (\<lambda>e es. rbind (between_edge g (if mvcc_enabled g then auto_commit_start_ts g else 0) e)
                (\<lambda>x. Inr (case x of Some y \<Rightarrow> (if ed_label y = l then es @ [y] else es) | None \<Rightarrow> es)))
              ids []))"

fun any_edge :: "graph \<Rightarrow> nat \<Rightarrow> rstring \<Rightarrow> nat list \<Rightarrow> graph_error + bool" where
  "any_edge g ts l [] = Inr False"
| "any_edge g ts l (e # es) =
     rbind (between_edge g ts e) (\<lambda>x.
       case x of Some y \<Rightarrow> (if ed_label y = l then Inr True else any_edge g ts l es)
       | None \<Rightarrow> any_edge g ts l es)"

definition has_edge :: "graph \<Rightarrow> nat \<Rightarrow> nat \<Rightarrow> rstring \<Rightarrow> graph_error + bool" where
  "has_edge g s t l =
     (if s \<notin> g_node_exists g then Inl (NodeNotFound s)
      else if t \<notin> g_node_exists g then Inl (NodeNotFound t)
      else (case map_of (g_edge_pair_index g) (s, t, g_label_hash g l) of
          None \<Rightarrow> Inr False
        | Some ids \<Rightarrow> any_edge g (if mvcc_enabled g then auto_commit_start_ts g else 0) l ids))"

section \<open>Batches\<close>

definition u32_saturating_succ :: "nat \<Rightarrow> nat" where
  "u32_saturating_succ n = min (n + 1) (2 ^ 32 - 1)"

definition set_batch_limits :: "nat option \<Rightarrow> nat option \<Rightarrow> graph \<Rightarrow> graph" where
  "set_batch_limits ops bytes g = g\<lparr>g_batch_max_ops := ops, g_batch_max_bytes := bytes\<rparr>"

definition begin_batch :: "graph \<Rightarrow> graph" where
  "begin_batch g = g\<lparr>g_batch_depth := u32_saturating_succ (g_batch_depth g)\<rparr>"

definition charge_bytes :: "nat \<Rightarrow> nat \<Rightarrow> unit gstep" where
  "charge_bytes next_ops next_bytes g =
     (case g_batch_max_bytes g of
        Some max_bytes \<Rightarrow>
          if next_bytes > max_bytes then (Inl (BatchLimitExceeded Bytes next_bytes max_bytes), g)
          else (Inr (), g\<lparr>g_batch_op_count := next_ops, g_batch_byte_count := next_bytes\<rparr>)
      | None \<Rightarrow> (Inr (), g\<lparr>g_batch_op_count := next_ops, g_batch_byte_count := next_bytes\<rparr>))"

definition charge_batch_op :: "nat \<Rightarrow> unit gstep" where
  "charge_batch_op bytes g =
     (if g_batch_depth g = 0 then (Inr (), g)
      else let next_ops = g_batch_op_count g + 1; next_bytes = g_batch_byte_count g + bytes
      in (case g_batch_max_ops g of
          Some max_ops \<Rightarrow>
            if next_ops > max_ops then (Inl (BatchLimitExceeded Operations next_ops max_ops), g)
            else charge_bytes next_ops next_bytes g
        | None \<Rightarrow> charge_bytes next_ops next_bytes g))"

text \<open>\<^verbatim>\<open>flush_adj_pending\<close>: every pending list is appended once; the pointer each append
  returns is kept per node and persisted once per touched node.\<close>

definition flush_one ::
  "adj_key \<times> nat list \<Rightarrow> (nat \<times> adj_pointer) list \<Rightarrow> (nat \<times> adj_pointer) list gstep" where
  "flush_one p latest =
     (case p of ((i, dir), ids) \<Rightarrow> (\<lambda>g.
        case map_of latest i of
          Some ptr \<Rightarrow>
            sbind (append_and_update_caches i dir ptr ids) (\<lambda>q. sret (AList.update i q latest)) g
        | None \<Rightarrow>
            (case resolve_adj_pointer i g of (r, g1) \<Rightarrow>
               let ptr = (case g_adj_cache g i of
                     Some c \<Rightarrow> c
                   | None \<Rightarrow> (case r of Inr (Some c) \<Rightarrow> c | _ \<Rightarrow> ptr_absent))
               in sbind (append_and_update_caches i dir ptr ids) (\<lambda>q. sret (latest @ [(i, q)])) g1)))"

fun flush_all ::
  "(adj_key \<times> nat list) list \<Rightarrow> (nat \<times> adj_pointer) list \<Rightarrow> (nat \<times> adj_pointer) list gstep" where
  "flush_all [] latest = sret latest"
| "flush_all (p # ps) latest = sbind (flush_one p latest) (flush_all ps)"

definition flush_adj_pending :: "unit gstep" where
  "flush_adj_pending g =
     sbind (flush_all (g_adj_pending g) [])
       (siter (\<lambda>(i, q). persist_adj_pointer_to_slot i q)) (g\<lparr>g_adj_pending := []\<rparr>)"

text \<open>\<^verbatim>\<open>end_batch\<close> up to its sync; the checkpoint that may follow only moves pages to
  disk.\<close>

definition end_batch :: "unit gstep" where
  "end_batch g =
     (if g_batch_depth g = 0 then (Inr (), g)
      else let d = g_batch_depth g - 1 in
        if d = 0
        then sbind flush_adj_pending (\<lambda>_. wal_sync)
               (g\<lparr>g_batch_depth := 0, g_batch_op_count := 0, g_batch_byte_count := 0\<rparr>)
        else (Inr (), g\<lparr>g_batch_depth := d\<rparr>))"

section \<open>Auto-commit writes\<close>

fun check_unique :: "graph \<Rightarrow> rstring \<Rightarrow> properties \<Rightarrow> nat option \<Rightarrow> graph_error + unit" where
  "check_unique g l [] ex = Inr ()"
| "check_unique g l ((k, v) # ps) ex =
     (if \<not> has_unique_constraint (g_catalog g) l k then check_unique g l ps ex
      else (case lookup_set (g_node_property_index g) l k v of
          None \<Rightarrow> check_unique g l ps ex
        | Some ids \<Rightarrow>
            if (case ex of None \<Rightarrow> ids \<noteq> {} | Some e \<Rightarrow> ids - {e} \<noteq> {})
            then Inl (ConstraintViolation l k v)
            else check_unique g l ps ex))"

definition REMOVED_APPROX_SIZE :: nat where
  "REMOVED_APPROX_SIZE = 16"

definition add_node_str :: "rstring \<Rightarrow> properties \<Rightarrow> nat gstep" where
  "add_node_str l ps =
     sbind (sread check_quota) (\<lambda>_.
     sbind (\<lambda>g. charge_batch_op (estimate_entity_bytes (g_size_node g) l ps) g) (\<lambda>_.
     sbind (sread (\<lambda>g. check_unique g l ps None)) (\<lambda>_ g.
       let i = g_next_node_id g; n = node_new i l ps
       in sbind (smodify (\<lambda>g. g\<lparr>g_next_node_id := u64_succ i\<rparr>))
          (\<lambda>_. sbind (write_node_slot n)
          (\<lambda>_. sbind (smodify (reconcile_node_insert n))
          (\<lambda>_. sbind (smodify (\<lambda>g. if is_label_append_only (g_catalog g) l
                 then g\<lparr>g_append_only_node_ids := insert i (g_append_only_node_ids g)\<rparr> else g))
          (\<lambda>_. sbind wal_sync (\<lambda>_. sret i))))) g)))"

definition update_node :: "nat \<Rightarrow> node \<Rightarrow> unit gstep" where
  "update_node i n =
     sbind (sread check_quota) (\<lambda>_.
     sbind (\<lambda>g. charge_batch_op (estimate_entity_bytes (g_size_node g) (nd_label n) (nd_properties n)) g) (\<lambda>_.
     sbind (sread (\<lambda>g. if i \<in> g_node_exists g then read_node g i else Inl (NodeNotFound i))) (\<lambda>current.
     sbind (sread (\<lambda>g. check_unique g (nd_label n) (nd_properties n) (Some i))) (\<lambda>_.
     sbind (smodify (reconcile_node_update current n)) (\<lambda>_.
     sbind (write_node_slot n) (\<lambda>_. wal_sync))))))"

definition remove_edge_internal :: "nat \<Rightarrow> edge gstep" where
  "remove_edge_internal i =
     sbind (sread (\<lambda>g. read_edge g i)) (\<lambda>e.
     sbind (tombstone_edge_slot True i) (\<lambda>_.
     sbind (reconcile_edge_delete e) (\<lambda>_. sret e)))"

text \<open>The edges to cascade to: both stored lists of the node, sorted, each id once.\<close>

definition incident_edge_ids :: "nat \<Rightarrow> nat list gstep" where
  "incident_edge_ids i =
     sbind (resolve_adj_pointer i) (\<lambda>p. sread (\<lambda>g.
       let of_dir = (\<lambda>dir. case Option.bind p (ptr_head dir) of
             None \<Rightarrow> [] | Some pg \<Rightarrow> g_adj_file g (pg, i, dir))
       in Inr (remdups (sort (of_dir Outgoing @ of_dir Incoming)))))"

definition remove_node :: "nat \<Rightarrow> node gstep" where
  "remove_node i =
     sbind (charge_batch_op REMOVED_APPROX_SIZE) (\<lambda>_.
     sbind (sread (\<lambda>g. if i \<in> g_node_exists g then read_node g i else Inl (NodeNotFound i))) (\<lambda>n.
     sbind (incident_edge_ids i) (\<lambda>es.
     sbind (siter (\<lambda>e g. if e \<in> g_edge_exists g
              then sbind (remove_edge_internal e) (\<lambda>_. sret ()) g else (Inr (), g)) es) (\<lambda>_.
     sbind (tombstone_node_slot True i) (\<lambda>_.
     sbind (smodify (reconcile_node_delete n)) (\<lambda>_.
     sbind wal_sync (\<lambda>_. sret n)))))))"

definition add_edge_str :: "rstring \<Rightarrow> nat \<Rightarrow> nat \<Rightarrow> properties \<Rightarrow> nat gstep" where
  "add_edge_str l s t ps =
     sbind (sread check_quota) (\<lambda>_.
     sbind (\<lambda>g. charge_batch_op (estimate_entity_bytes (g_size_edge g) l ps) g) (\<lambda>_.
     sbind (sread (\<lambda>g. if s \<in> g_node_exists g then Inr () else Inl (NodeNotFound s))) (\<lambda>_.
     sbind (sread (\<lambda>g. if t \<in> g_node_exists g then Inr () else Inl (NodeNotFound t))) (\<lambda>_ g.
       let i = g_next_edge_id g; e = edge_new i l s t ps
       in sbind (smodify (\<lambda>g. g\<lparr>g_next_edge_id := u64_succ i\<rparr>))
          (\<lambda>_. sbind (write_edge_slot e)
          (\<lambda>_. sbind (reconcile_edge_insert e)
          (\<lambda>_. sbind wal_sync (\<lambda>_. sret i)))) g))))"

definition update_edge :: "nat \<Rightarrow> edge \<Rightarrow> unit gstep" where
  "update_edge i e =
     sbind (\<lambda>g. charge_batch_op (estimate_entity_bytes (g_size_edge g) (ed_label e) (ed_properties e)) g) (\<lambda>_.
     sbind (sread (\<lambda>g. if i \<in> g_edge_exists g then read_edge g i else Inl (EdgeNotFound i))) (\<lambda>current.
     sbind (smodify (reconcile_edge_update current e)) (\<lambda>_.
     sbind (write_edge_slot e) (\<lambda>_. wal_sync))))"

definition remove_edge :: "nat \<Rightarrow> edge gstep" where
  "remove_edge i =
     sbind (charge_batch_op REMOVED_APPROX_SIZE) (\<lambda>_.
     sbind (sread (\<lambda>g. if i \<in> g_edge_exists g then Inr () else Inl (EdgeNotFound i))) (\<lambda>_.
     sbind (remove_edge_internal i) (\<lambda>e.
     sbind wal_sync (\<lambda>_. sret e))))"

end
