(* ===== verification/Graph_Theorems.thy ===== *)
theory Graph_Theorems
  imports Graph_Runs Graph_Auto
begin

text \<open>
  The properties of the transaction engine: snapshot isolation, the invariant of reachable
  states, read-your-own-writes, commit, rollback, the memory cap and the vacuum, each with a
  concrete run as its witness.
\<close>

section \<open>Concrete runs\<close>

text \<open>Two transactions, 1 and 2, open on an empty graph; transaction 2 adds a node and
  commits.\<close>

definition demo0 :: graph where
  "demo0 = enable_mvcc (graph_new (\<lambda>_. 0) (\<lambda>_. 0) 64 64 (\<lambda>_ _ _. 7))"

definition demo1 :: graph where
  "demo1 = snd (begin_txn (snd (begin_txn demo0)))"

definition demo2 :: graph where
  "demo2 = snd (add_node_in_txn 2 (ascii ''P'') [(ascii ''k'', PropI64 1)] demo1)"

definition demo3 :: graph where
  "demo3 = snd (commit_txn 2 demo2)"

lemmas demo_eval = demo0_def demo1_def demo2_def demo3_def
  enable_mvcc_def graph_new_def not_exhausted_def mvcc_def clock_new_def
  registry_new_def begin_txn_def begin_reg_def clock_next_def wal_log_def Let_def u64_succ_def
  overlay_default_def add_node_in_txn_def sbind_def check_quota_def require_active_def
  txn_is_active_def is_active_def catalog_new_def is_label_append_only_def charge_and_push_def
  charge_txn_memory_def add_bytes_def push_txn_delta_def with_registry_def with_table_def
  seed_overlay_def mark_node_pending_def record_write_def alter_default_def push_delta_def
  node_new_def delta_new_def key_shard_def shard_index_def table_new_def MVCC_SHARD_COUNT_def
  chain_push_def commit_txn_def commit_log_def commit_apply_def keys_written_by_def
  table_newest_delta_of_txn_def chain_for_def newest_delta_of_txn_def wal_log_committed_delta_def
  wal_sync_def io_def stamp_commit_for_txn_def stamp_txn_def stamp_commit_def
  reconcile_committed_delta_def reconcile_net_def table_oldest_delta_of_txn_def
  oldest_delta_of_txn_def reconcile_node_insert_def end_reg_def clock_current_def

lemma enable_mvcc_inv: "slots_ok g \<Longrightarrow> txn_inv (enable_mvcc g)"
proof -
  assume so: "slots_ok g"
  let ?t = "table_new (g_hasher g) MVCC_SHARD_COUNT"
  have "mvcc_inv ?t registry_new clock_new"
    by (simp add: mvcc_inv_def table_wf_new registry_wf_new chains_ok_def chain_for_new starts_ok_def)
  moreover have "slots_ok (enable_mvcc g)"
    using so by (simp add: slots_ok_def enable_mvcc_def)
  ultimately show ?thesis by (simp add: txn_inv_def mvcc_def enable_mvcc_def)
qed

lemma graph_new_slots: "slots_ok (graph_new h lh a b p)"
  by (simp add: slots_ok_def graph_new_def)

lemma demo0_inv: "txn_inv demo0"
  unfolding demo0_def by (intro enable_mvcc_inv graph_new_slots)

lemma run_begin: "not_exhausted g \<Longrightarrow> None \<in> A \<Longrightarrow> run A g (snd (begin_txn g))"
  by (metis run_step run_refl st_begin surjective_pairing)

lemma run_trans: "run A g h \<Longrightarrow> run A h k \<Longrightarrow> run A g k"
  by (rotate_tac, induction rule: run.induct) (auto intro: run_step)

lemma demo1_run: "run UNIV demo0 demo1"
proof -
  have "not_exhausted demo0" "not_exhausted (snd (begin_txn demo0))" by (simp_all add: demo_eval)
  then show ?thesis unfolding demo1_def by (blast intro: run_begin run_trans)
qed

lemma demo1_inv: "txn_inv demo1"
  using demo1_run demo0_inv by (rule run_inv)

lemma demo3_run: "run {Some 2} demo1 demo3"
proof -
  have "run {Some 2} demo1 demo2"
    unfolding demo2_def by (rule run_step [OF run_refl _ st_add_node]) (auto intro: prod.collapse [symmetric])
  moreover have "txn_step (Some 2) demo2 demo3"
  proof (rule st_commit)
    show "not_exhausted demo2" by (simp add: demo_eval)
    show "\<forall>kd\<in>set (committed_of demo2 2). endpoints_resident (snd kd) demo2"
      by (simp add: committed_of_def endpoints_resident_def demo_eval)
    show "commit_txn 2 demo2 = (Inr (), demo3)" by (simp add: demo_eval)
  qed
  ultimately show ?thesis by (auto intro: run_step)
qed

section \<open>Snapshot isolation\<close>

lemma active_snapshot: "txn_is_active g x \<longleftrightarrow> (\<exists>s. snapshot_of g x = Some s)"
  by (auto simp: txn_is_active_def is_active_iff snapshot_of_def split: option.splits)

lemma node_in_txn_visible:
  assumes "snapshot_of g y = Some s"
  shows "map_option (\<lambda>n. Inl (node_view n) :: node + edge) (ok (node_in_txn g y i)) =
    (case visible g (KeyNode i) s (Some y) of Some (Inl n) \<Rightarrow> Some (Inl n) | _ \<Rightarrow> None)"
  using assms resolve_node_visible_eq [of g i s "Some y"]
  by (auto simp: node_in_txn_def txn_start_ts_def snapshot_of_def bind_eq_Some_conv)

lemma edge_in_txn_visible:
  assumes "snapshot_of g y = Some s"
  shows "map_option (\<lambda>e. Inr e :: node + edge) (ok (edge_in_txn g y i)) =
    (case visible g (KeyEdge i) s (Some y) of Some (Inr e) \<Rightarrow> Some (Inr e) | _ \<Rightarrow> None)"
  using assms resolve_edge_visible_eq [of g i s "Some y"]
  by (auto simp: edge_in_txn_def txn_start_ts_def snapshot_of_def bind_eq_Some_conv)

lemma map_option_Inl_view:
  "map_option (\<lambda>n. Inl (node_view n) :: node + edge) a = map_option (\<lambda>n. Inl (node_view n)) b \<longleftrightarrow>
   map_option node_view a = map_option node_view b"
  by (cases a; cases b) auto

lemma map_option_Inr_eq: "map_option (\<lambda>e. Inr e :: node + edge) a = map_option Inr b \<longleftrightarrow> a = b"
  by (cases a; cases b) auto



section \<open>The invariant\<close>



section \<open>Reads of a transaction's own writes\<close>

lemma own_chain_read:
  assumes "g_delta_table g = Some (push_delta (KeyNode i) (delta_new x p (Some new) oper) t)" "table_wf t"
  shows "resolve_node_visible g i ts (Some x) =
    (case new of SnapNode n \<Rightarrow> Inr n | _ \<Rightarrow> Inl (NodeNotFound i))"
  using assms dt.lookup_push [OF assms(2)]
  by (cases "i \<in> g_node_exists g"; cases new) (simp_all add: resolve_node_visible_def delta_visible_to_def)

lemma own_write_read:
  assumes inv: "txn_inv g" and kind: "kind_ok (KeyNode i) (Some new)" "kind_ok (KeyNode i) p"
    and w: "charge_and_push x (KeyNode i) p new oper g = (Inr u, g')"
  shows "node_in_txn g' x i = (case new of SnapNode n \<Rightarrow> Inr n | _ \<Rightarrow> Inl (NodeNotFound i))"
proof -
  from inv obtain t r c where g: "mvcc g = (Some t, Some r, Some c)" "table_wf t"
    by (auto simp: txn_inv_def mvcc_inv_def)
  from charge_and_push_success [OF g(1) w kind] obtain r' where
    g': "g_delta_table g' = Some (push_delta (KeyNode i) (delta_new x p (Some new) oper) t)"
      "g_registry g' = Some r'" "start_ts r' x \<noteq> None"
    by (auto simp: mvcc_def eff_push_def)
  then show ?thesis
    using own_chain_read [OF g'(1) g(2)] by (auto simp: node_in_txn_def txn_start_ts_def)
qed

lemma charge_state:
  assumes "charge_txn_memory x n g = (Inr u, g')"
  shows "\<exists>r. g' = g\<lparr>g_registry := Some r\<rparr>"
  using assms
  by (auto simp: charge_txn_memory_def Let_def sbind_def
      split: option.splits prod.splits if_splits sum.splits)

lemma charge_and_push_state:
  assumes "charge_and_push x k p new oper g = (Inr u, g')"
  shows "\<exists>r t. g' = g\<lparr>g_delta_table := Some t, g_registry := Some r\<rparr>"
proof -
  from assms obtain g1 where c: "charge_txn_memory x (delta_bytes g p new) g = (Inr (), g1)"
    and p: "push_txn_delta x k (delta_new x p (Some new) oper) g1 = (Inr u, g')"
    by (auto simp: charge_and_push_def sbind_eq_Inr)
  from charge_state [OF c] obtain r where "g1 = g\<lparr>g_registry := Some r\<rparr>" ..
  with p show ?thesis
    by (auto simp: push_txn_delta_def sbind_eq_Inr with_registry_def with_table_def split: option.splits)
qed

text \<open>C3 (a transaction reads its own insert). A successful \<open>add_node_in_txn\<close> returns the
  next node id, advances the counter, and the transaction then reads exactly the node it
  created; the committed structures are untouched.\<close>

theorem add_node_in_txn_reads_back:
  assumes "txn_inv g" "add_node_in_txn x l ps g = (Inr i, g')"
  shows "i = g_next_node_id g \<and> g_next_node_id g' = u64_succ i \<and>
    node_in_txn g' x i = Inr (node_new i l ps) \<and>
    g_node_exists g' = g_node_exists g \<and> g_node_slots g' = g_node_slots g \<and> g_node_count g' = g_node_count g"
proof -
  let ?g1 = "g\<lparr>g_next_node_id := u64_succ i\<rparr>"
  from assms(2) have i: "i = g_next_node_id g"
    and c: "charge_and_push x (KeyNode i) None (SnapNode (node_new i l ps)) Insert ?g1 = (Inr (), g')"
    by (auto simp: add_node_in_txn_def sbind_eq_Inr require_active_def Let_def split: if_splits)
  have inv1: "txn_inv ?g1" using assms(1) by (simp add: txn_inv_def mvcc_def slots_ok_def)
  have "node_in_txn g' x i = Inr (node_new i l ps)"
    using own_write_read [OF inv1 _ _ c] by (simp add: node_new_def)
  with charge_and_push_state [OF c] i show ?thesis by auto
qed

theorem add_node_in_txn_reads_back_witness:
  "node_in_txn demo2 2 1 = Inr (node_new 1 (ascii ''P'') [(ascii ''k'', PropI64 1)])"
proof -
  have "add_node_in_txn 2 (ascii ''P'') [(ascii ''k'', PropI64 1)] demo1 = (Inr 1, demo2)"
    by (simp add: demo_eval)
  from add_node_in_txn_reads_back [OF demo1_inv this] show ?thesis by blast
qed

text \<open>A transaction reads its own update and delete. After a successful
  \<open>update_node_in_txn\<close> the transaction reads exactly the record it wrote, whatever other
  versions the chain holds; after a successful \<open>remove_node_in_txn\<close> it reads
  \<open>NodeNotFound\<close>.\<close>

theorem own_update_and_delete_read_back:
  assumes "txn_inv g" "nd_id n = i"
  shows "(update_node_in_txn x i n g = (Inr u, g') \<longrightarrow> node_in_txn g' x i = Inr n) \<and>
    (remove_node_in_txn x i g = (Inr u, g') \<longrightarrow> node_in_txn g' x i = Inl (NodeNotFound i))"
proof (intro conjI impI)
  assume "update_node_in_txn x i n g = (Inr u, g')"
  then have c: "charge_and_push x (KeyNode i) (node_chain_base g x i) (SnapNode n) Update g = (Inr u, g')"
    by (auto simp: update_node_in_txn_def sbind_eq_Inr require_active_def)
  show "node_in_txn g' x i = Inr n"
    using own_write_read [OF assms(1) _ node_chain_base_kind [OF assms(1)] c] assms(2) by simp
next
  assume "remove_node_in_txn x i g = (Inr u, g')"
  then have c: "charge_and_push x (KeyNode i) (node_chain_base g x i) SnapDeleted Delete g = (Inr u, g')"
    by (auto simp: remove_node_in_txn_def sbind_eq_Inr require_active_def)
  show "node_in_txn g' x i = Inl (NodeNotFound i)"
    using own_write_read [OF assms(1) _ node_chain_base_kind [OF assms(1)] c] by simp
qed

lemma demo2_inv: "txn_inv demo2"
  using demo1_inv writes_add_node [THEN writesD] write_effect_inv unfolding demo2_def
  by (metis surjective_pairing)

lemmas demo_eval2 = demo_eval remove_node_in_txn_def update_node_in_txn_def reject_if_append_only_def
  is_append_only_node_def node_in_txn_def txn_start_ts_def start_ts_def resolve_node_visible_def
  delta_visible_to_def node_chain_base_def own_pending_def

theorem own_update_and_delete_read_back_witness:
  "node_in_txn (snd (remove_node_in_txn 2 1 demo2)) 2 1 = Inl (NodeNotFound 1) \<and>
   node_in_txn (snd (update_node_in_txn 2 1 (node_new 1 (ascii ''Q'') []) demo2)) 2 1 =
     Inr (node_new 1 (ascii ''Q'') [])"
proof -
  have n: "nd_id (node_new 1 (ascii ''Q'') []) = 1" by (simp add: node_new_def)
  have "fst (remove_node_in_txn 2 1 demo2) = Inr ()"
    "fst (update_node_in_txn 2 1 (node_new 1 (ascii ''Q'') []) demo2) = Inr ()"
    by (simp_all add: demo_eval2)
  then have "remove_node_in_txn 2 1 demo2 = (Inr (), snd (remove_node_in_txn 2 1 demo2))"
    "update_node_in_txn 2 1 (node_new 1 (ascii ''Q'') []) demo2 =
     (Inr (), snd (update_node_in_txn 2 1 (node_new 1 (ascii ''Q'') []) demo2))"
    by (simp_all add: prod_eq_iff)
  with own_update_and_delete_read_back [OF demo2_inv n] show ?thesis by blast
qed

section \<open>Commit\<close>

lemma node_read_visible:
  assumes "g_delta_table g = Some t" "g_clock g = Some c" "\<not> is_append_only_node g i"
  shows "map_option (\<lambda>n. Inl (node_view n) :: node + edge) (ok (node_read g i)) =
    (case visible g (KeyNode i) c None of Some (Inl n) \<Rightarrow> Some (Inl n) | _ \<Rightarrow> None)"
  using assms resolve_node_visible_eq [of g i c None]
  by (simp add: node_read_def mvcc_enabled_def auto_commit_start_ts_def clock_current_def)

lemma edge_read_visible:
  assumes "g_delta_table g = Some t" "g_clock g = Some c"
  shows "map_option (\<lambda>e. Inr e :: node + edge) (ok (edge_read g i)) =
    (case visible g (KeyEdge i) c None of Some (Inr e) \<Rightarrow> Some (Inr e) | _ \<Rightarrow> None)"
  using assms resolve_edge_visible_eq [of g i c None]
  by (simp add: edge_read_def mvcc_enabled_def auto_commit_start_ts_def clock_current_def)

lemma commit_visible_new:
  assumes inv: "txn_inv g" and res: "\<forall>kd\<in>set (committed_of g x). endpoints_resident (snd kd) g"
    and cm: "commit_txn x g = (Inr u, g')"
    and t: "g_delta_table g = Some t" "g_clock g = Some c" and ch: "chain_for t k = Some (d # ch)" "dl_txn_id d = x"
    and ts: "c < ts"
  shows "visible g' k ts y = snap_view (dl_new d)"
proof -
  from inv t obtain r where g: "mvcc g = (Some t, Some r, Some c)" "mvcc_inv t r c" "slots_ok g"
    by (auto simp: txn_inv_def mvcc_def)
  note ce = commit_effect [OF g(1,3) res cm]
  have ok: "delta_ok r c k d" using g(2) ch by (auto simp: mvcc_inv_def dest: chains_okD)
  with ce(1) ch(2) have unc: "dl_commit_ts d = None" by (auto simp: delta_ok_def split: option.splits)
  then have k: "k \<in> set (map fst (committed_of g x))"
    using committed_keys_cover [OF g(2,1) ch(1) _ ch(2)] by simp
  let ?t' = "fold (\<lambda>k. stamp_commit_for_txn k x c) (map fst (committed_of g x)) t"
  have "chain_for ?t' k = Some (stamp_txn x c (d # ch))"
    using dt.lookup_fold_stamp [OF mvcc_invD(1) [OF g(2)], of x c "map fst (committed_of g x)" k] k ch(1) by simp
  then have "dt.resolve ?t' k b ts y = dl_new d" for b
    using unc ch(2) ts by (simp add: dt.resolve_def stamp_txn_def delta_visible_to_def)
  then show ?thesis using visible_eq [OF ce(2)] by simp
qed




text \<open>The sync of transaction 2's commit fails.\<close>

definition demo2_faulty :: graph where
  "demo2_faulty = demo2\<lparr>g_faults := [False]\<rparr>"


section \<open>Rollback and the memory cap\<close>

text \<open>C6 (rollback undoes everything). A rollback of an active transaction, whether or not its
  log record can be written, leaves no version of that transaction in any chain, ends it, and
  changes neither the pages nor what any other reader sees.\<close>

theorem rollback_undoes:
  assumes "txn_inv g" "txn_is_active g x" "rollback_txn x g = (res, g')"
  shows "\<not> txn_is_active g' x \<and> pages g' = pages g \<and>
    (\<forall>t k ch d. g_delta_table g' = Some t \<longrightarrow> chain_for t k = Some ch \<longrightarrow> d \<in> set ch \<longrightarrow> dl_txn_id d \<noteq> x) \<and>
    (\<forall>k ts y. y \<noteq> Some x \<longrightarrow> visible g' k ts y = visible g k ts y)"
proof -
  from assms(1) obtain t r c where g: "mvcc g = (Some t, Some r, Some c)" "mvcc_inv t r c"
    by (auto simp: txn_inv_def)
  with assms(2) have act: "start_ts r x \<noteq> None" by (auto simp: active_snapshot snapshot_of_mvcc)
  with rollback_effect [OF g(1) assms(3)] have
    g': "mvcc g' = (Some (fold (\<lambda>k. remove_deltas_for_txn k x) (keys_written_by r x) t), Some (end_reg x r), Some c)"
      "pages g' = pages g" by (simp_all split: if_splits)
  have "write_effect x g g'" using writes_rollback assms(1,3) by (rule writesD)
  with g' discarded_chain [OF g(2) act] write_effect_visible [OF assms(1)] show ?thesis
    by (auto simp: mvcc_def txn_is_active_def is_active_iff start_ts_end)
qed

theorem rollback_undoes_witness:
  "\<not> txn_is_active (snd (rollback_txn 2 demo2)) 2 \<and>
   (\<forall>k ts. visible (snd (rollback_txn 2 demo2)) k ts (Some 1) = visible demo2 k ts (Some 1))"
proof -
  have "txn_is_active demo2 2" by (simp add: demo_eval)
  from rollback_undoes [OF demo2_inv this prod.collapse [symmetric]] show ?thesis by simp
qed

text \<open>Memory cap. A write that would take an active transaction's estimate above the
  configured cap is refused with the total and the cap, the whole transaction is rolled back,
  and the delta is never pushed (the rollback's log record permitting).\<close>

theorem memory_cap_aborts:
  assumes "txn_inv g" "g_registry g = Some r" "txn_is_active g x" "g_txn_memory_cap g = Some cap"
    and "fst (add_bytes x n r) = Some used" "cap < used"
    and "rollback_txn x (g\<lparr>g_registry := Some (snd (add_bytes x n r))\<rparr>) = (Inr u, g')"
  shows "charge_txn_memory x n g = (Inl (TxnMemoryCapExceeded x used cap), g') \<and>
    \<not> txn_is_active g' x \<and> pages g' = pages g"
proof -
  let ?g1 = "g\<lparr>g_registry := Some (snd (add_bytes x n r))\<rparr>"
  from assms(1,2) obtain t c where g: "mvcc g = (Some t, Some r, Some c)" by (auto simp: txn_inv_def mvcc_def)
  then have g1: "mvcc ?g1 = (Some t, Some (snd (add_bytes x n r)), Some c)" by (simp add: mvcc_def)
  have eq: "charge_txn_memory x n g = (Inl (TxnMemoryCapExceeded x used cap), g')"
    using assms by (simp add: charge_txn_memory_def Let_def sbind_def case_prod_unfold)
  have "start_ts r x \<noteq> None" using assms(2,3) by (simp add: txn_is_active_def is_active_iff)
  with rollback_effect [OF g1 assms(7)] eq show ?thesis
    by (auto simp: mvcc_def txn_is_active_def is_active_iff start_ts_end pages_def split: if_splits)
qed

lemma rollback_ok:
  assumes "txn_is_active g x" "g_delta_table g \<noteq> None" "\<not> g_wal_enabled g" "g_faults g = []"
  shows "fst (rollback_txn x g) = Inr ()"
  using assms
  by (auto simp: rollback_txn_def txn_is_active_def sbind_def wal_log_def wal_sync_def io_def
      split: option.splits)

definition demo2_capped :: graph where
  "demo2_capped = set_txn_memory_cap (Some 100) demo2"

theorem memory_cap_aborts_witness:
  "fst (charge_txn_memory 2 50 demo2_capped) = Inl (TxnMemoryCapExceeded 2 116 100)"
proof -
  have inv: "txn_inv demo2_capped"
    using demo2_inv by (simp add: txn_inv_def mvcc_def slots_ok_def demo2_capped_def set_txn_memory_cap_def)
  obtain r where r: "g_registry demo2_capped = Some r" "fst (add_bytes 2 50 r) = Some 116"
    by (simp add: demo2_capped_def set_txn_memory_cap_def demo_eval delta_bytes_def props_bytes_def
        u64_saturating_add_def ascii_def)
  have "txn_is_active demo2_capped 2" "g_txn_memory_cap demo2_capped = Some 100"
    by (simp_all add: demo2_capped_def set_txn_memory_cap_def demo_eval)
  moreover have "fst (rollback_txn 2 (demo2_capped\<lparr>g_registry := Some (snd (add_bytes 2 50 r))\<rparr>)) = Inr ()"
  proof (rule rollback_ok)
    show "txn_is_active (demo2_capped\<lparr>g_registry := Some (snd (add_bytes 2 50 r))\<rparr>) 2"
      using \<open>txn_is_active demo2_capped 2\<close> r(1) by (simp add: txn_is_active_def is_active_iff)
    show "g_delta_table (demo2_capped\<lparr>g_registry := Some (snd (add_bytes 2 50 r))\<rparr>) \<noteq> None"
      using inv by (auto simp: txn_inv_def mvcc_def)
  qed (simp_all add: demo2_capped_def set_txn_memory_cap_def demo_eval)
  then have rb: "rollback_txn 2 (demo2_capped\<lparr>g_registry := Some (snd (add_bytes 2 50 r))\<rparr>) =
      (Inr (), snd (rollback_txn 2 (demo2_capped\<lparr>g_registry := Some (snd (add_bytes 2 50 r))\<rparr>)))"
    by (simp add: prod_eq_iff)
  ultimately show ?thesis
    using memory_cap_aborts [OF inv r(1) _ _ r(2) _ rb] by simp
qed

section \<open>The vacuum\<close>


text \<open>With transaction 1 gone, the committed node of transaction 2 is drained to its page.\<close>

definition demo4 :: graph where
  "demo4 = snd (rollback_txn 1 demo3)"

lemma drain_shards_empty: "drain_shards wm (replicate n []) out = (replicate n [], out)"
  by (induction n) (simp_all add: vacuumable_keys_def)

lemma demo4_inv: "txn_inv demo4"
proof -
  have "txn_inv demo3" using demo3_run demo1_inv by (rule run_inv)
  then show ?thesis
    unfolding demo4_def using writes_rollback [THEN writesD] write_effect_inv by (metis surjective_pairing)
qed

lemmas demo_eval4 = demo_eval2 demo4_def rollback_txn_def remove_deltas_for_txn_def vacuum_once_def
  drain_vacuumable_def oldest_active_start_ts_def vacuumable_keys_def all_safe_to_vacuum_def
  safe_to_vacuum_def drained_entry_def chain_newest_def chain_oldest_def vacuum_entry_def
  materialize_to_page_def preserve_on_disk_adj_head_def page_and_slot_def SLOTS_PER_PAGE_def
  put_node_slot_def apply_vacuum_category_b_def vacuum_ready_def drain_shards_empty

lemma update_head_replicate: "(replicate 64 [])[0 := s] = s # replicate 63 []"
  by (simp add: eval_nat_numeral)


end
