(* ===== verification/Storage_Meta.thy ===== *)
theory Storage_Meta
  imports Storage_Page
begin

text \<open>
  The metadata page of a store (\<^verbatim>\<open>crates/ermya-graph/src/storage/meta.rs\<close>): counters, page
  counts and the free-page bookkeeping of each data file, and its 4096-byte image.
\<close>

section \<open>Arrays of 32-bit words in a buffer\<close>

fun put_u32s :: "nat \<Rightarrow> u32 list \<Rightarrow> bytes \<Rightarrow> bytes" where
  "put_u32s off [] buf = buf"
| "put_u32s off (x # xs) buf = put_u32s (off + 4) xs (splice off (le32 x) buf)"

fun get_u32s :: "nat \<Rightarrow> nat \<Rightarrow> bytes \<Rightarrow> u32 list" where
  "get_u32s off 0 buf = []"
| "get_u32s off (Suc n) buf = word_of_nat (le_nat (subslice off 4 buf)) # get_u32s (off + 4) n buf"

lemma length_get_u32s [simp]: "length (get_u32s off n buf) = n"
  by (induction n arbitrary: off) simp_all

lemma length_put_u32s [simp]:
  "off + 4 * length xs \<le> length buf \<Longrightarrow> length (put_u32s off xs buf) = length buf"
  by (induction xs arbitrary: off buf) simp_all

lemma subslice_put_u32s:
  assumes "off + 4 * length xs \<le> length buf" "o' + n \<le> off \<or> off + 4 * length xs \<le> o'" "o' + n \<le> length buf"
  shows "subslice o' n (put_u32s off xs buf) = subslice o' n buf"
  using assms by (induction xs arbitrary: off buf) (auto simp: subslice_splice_other)

lemma get_put_u32s:
  "off + 4 * length xs \<le> length buf \<Longrightarrow> get_u32s off (length xs) (put_u32s off xs buf) = xs"
proof (induction xs arbitrary: off buf)
  case (Cons x xs)
  then show ?case by (simp add: subslice_put_u32s)
qed simp

lemma put_u32s_splice:
  assumes "off + 4 * length xs \<le> length buf"
  shows "put_u32s off xs buf = splice off (concat (map le32 xs)) buf"
  using assms
proof (induction xs arbitrary: off buf)
  case (Cons x xs)
  have "length (concat (map le32 xs)) = 4 * length xs" by (induction xs) simp_all
  with Cons show ?case by (simp add: splice_def ac_simps)
qed (simp add: splice_def)

lemma length_concat_le32 [simp]: "length (concat (map le32 xs)) = 4 * length xs"
  by (induction xs) simp_all

lemma get_u32s_append: "get_u32s (length pre) (length xs) (pre @ concat (map le32 xs) @ post) = xs"
proof (induction xs arbitrary: pre)
  case (Cons x xs)
  from Cons.IH [of "pre @ le32 x"] show ?case by (simp add: subslice_def)
qed simp

lemma get_u32s_cong:
  "(\<And>k. k < n \<Longrightarrow> subslice (off + 4 * k) 4 buf = subslice (off + 4 * k) 4 buf') \<Longrightarrow>
    get_u32s off n buf = get_u32s off n buf'"
proof (induction n arbitrary: off)
  case (Suc n)
  have "subslice off 4 buf = subslice off 4 buf'" using Suc.prems [of 0] by simp
  moreover have "get_u32s (off + 4) n buf = get_u32s (off + 4) n buf'"
    by (rule Suc.IH) (use Suc.prems [of "Suc _"] in \<open>simp add: algebra_simps\<close>)
  ultimately show ?case by simp
qed simp

lemma get_u32s_splice_other:
  assumes "off' + length bs \<le> length buf" "off' + length bs \<le> off \<or> off + 4 * n \<le> off'" "off + 4 * n \<le> length buf"
  shows "get_u32s off n (splice off' bs buf) = get_u32s off n buf"
  using assms by (intro get_u32s_cong subslice_splice_other) auto

lemma get_u32s_put_other:
  assumes "off' + 4 * length xs \<le> length buf" "off' + 4 * length xs \<le> off \<or> off + 4 * n \<le> off'"
    "off + 4 * n \<le> length buf"
  shows "get_u32s off n (put_u32s off' xs buf) = get_u32s off n buf"
  using assms by (intro get_u32s_cong subslice_put_u32s) auto

section \<open>The metadata\<close>

definition META_VERSION :: u16 where "META_VERSION = 4"
definition FREE_DIRECTORY_EMPTY :: u32 where "FREE_DIRECTORY_EMPTY = 0xFFFFFFFF"
definition FREE_SPARE_EMPTY :: u32 where "FREE_SPARE_EMPTY = 0xFFFFFFFF"
definition FREE_HEADS_OFFSET :: nat where "FREE_HEADS_OFFSET = 64"
definition FREE_COUNTS_OFFSET :: nat where
  "FREE_COUNTS_OFFSET = FREE_HEADS_OFFSET + length ALL_DATA_FILES * 4"
definition FREE_SPARE_OFFSET :: nat where
  "FREE_SPARE_OFFSET = FREE_COUNTS_OFFSET + length ALL_DATA_FILES * 4"

record graph_meta =
  gm_next_node_id :: u64
  gm_next_edge_id :: u64
  gm_node_count :: u64
  gm_edge_count :: u64
  gm_nodes_page_count :: u32
  gm_edges_page_count :: u32
  gm_adj_page_count :: u32
  gm_strings_page_count :: u32
  gm_overflow_page_count :: u32
  gm_index_page_count :: u32
  gm_flags :: u16
  gm_strings_write_offset :: u32
  gm_free_directory_heads :: "u32 list"
  gm_free_page_counts :: "u32 list"
  gm_free_spare_pages :: "u32 list"

definition meta_new :: graph_meta where
  "meta_new =
     \<lparr>gm_next_node_id = 1, gm_next_edge_id = 1, gm_node_count = 0, gm_edge_count = 0,
      gm_nodes_page_count = 0, gm_edges_page_count = 0, gm_adj_page_count = 0,
      gm_strings_page_count = 0, gm_overflow_page_count = 0, gm_index_page_count = 0,
      gm_flags = 0, gm_strings_write_offset = 0,
      gm_free_directory_heads = replicate 5 FREE_DIRECTORY_EMPTY,
      gm_free_page_counts = replicate 5 0,
      gm_free_spare_pages = replicate 5 FREE_SPARE_EMPTY\<rparr>"

definition free_spare_page :: "graph_meta \<Rightarrow> data_file \<Rightarrow> u32" where
  "free_spare_page m f = gm_free_spare_pages m ! file_index_of f"

definition set_free_spare_page :: "data_file \<Rightarrow> u32 \<Rightarrow> graph_meta \<Rightarrow> graph_meta" where
  "set_free_spare_page f p m =
     m\<lparr>gm_free_spare_pages := (gm_free_spare_pages m)[file_index_of f := p]\<rparr>"

definition free_directory_head :: "graph_meta \<Rightarrow> data_file \<Rightarrow> u32" where
  "free_directory_head m f = gm_free_directory_heads m ! file_index_of f"

definition set_free_directory_head :: "data_file \<Rightarrow> u32 \<Rightarrow> graph_meta \<Rightarrow> graph_meta" where
  "set_free_directory_head f p m =
     m\<lparr>gm_free_directory_heads := (gm_free_directory_heads m)[file_index_of f := p]\<rparr>"

definition free_page_count :: "graph_meta \<Rightarrow> data_file \<Rightarrow> u32" where
  "free_page_count m f = gm_free_page_counts m ! file_index_of f"

definition set_free_page_count :: "data_file \<Rightarrow> u32 \<Rightarrow> graph_meta \<Rightarrow> graph_meta" where
  "set_free_page_count f n m =
     m\<lparr>gm_free_page_counts := (gm_free_page_counts m)[file_index_of f := n]\<rparr>"

definition is_dirty :: "graph_meta \<Rightarrow> bool" where
  "is_dirty m \<longleftrightarrow> and (gm_flags m) 1 \<noteq> 0"

definition set_dirty :: "graph_meta \<Rightarrow> graph_meta" where
  "set_dirty m = m\<lparr>gm_flags := or (gm_flags m) 1\<rparr>"

definition clear_dirty :: "graph_meta \<Rightarrow> graph_meta" where
  "clear_dirty m = m\<lparr>gm_flags := and (gm_flags m) (not 1)\<rparr>"

section \<open>The image of the metadata page\<close>

definition serialize :: "(bytes \<Rightarrow> u32) \<Rightarrow> graph_meta \<Rightarrow> bytes" where
  "serialize crc m =
     (let p = PAGE_HEADER_SIZE;
          b1 = splice p (le64 (gm_next_node_id m)) new_page_buf;
          b2 = splice (p + 8) (le64 (gm_next_edge_id m)) b1;
          b3 = splice (p + 16) (le64 (gm_node_count m)) b2;
          b4 = splice (p + 24) (le64 (gm_edge_count m)) b3;
          b5 = splice (p + 32) (le32 (gm_nodes_page_count m)) b4;
          b6 = splice (p + 36) (le32 (gm_edges_page_count m)) b5;
          b7 = splice (p + 40) (le32 (gm_adj_page_count m)) b6;
          b8 = splice (p + 44) (le32 (gm_strings_page_count m)) b7;
          b9 = splice (p + 48) (le32 (gm_overflow_page_count m)) b8;
          b10 = splice (p + 52) (le32 (gm_index_page_count m)) b9;
          b11 = splice (p + 56) (le16 (gm_flags m)) b10;
          b12 = splice (p + 60) (le32 (gm_strings_write_offset m)) b11;
          b13 = put_u32s (p + FREE_HEADS_OFFSET) (gm_free_directory_heads m) b12;
          b14 = put_u32s (p + FREE_COUNTS_OFFSET) (gm_free_page_counts m) b13;
          b15 = put_u32s (p + FREE_SPARE_OFFSET) (gm_free_spare_pages m) b14
      in finalize_page crc META_MAGIC META_VERSION MetaPage 0 b15)"

datatype meta_error = MetaInvalidMagic | IncompatibleVersion u16 u16 | MetaChecksum u32 u32

definition deserialize :: "(bytes \<Rightarrow> u32) \<Rightarrow> bytes \<Rightarrow> meta_error + graph_meta" where
  "deserialize crc buf =
     (if subslice 0 4 buf \<noteq> META_MAGIC then Inl MetaInvalidMagic
      else let version = word_of_nat (le_nat (subslice 4 2 buf)) in
      if version \<noteq> META_VERSION then Inl (IncompatibleVersion version META_VERSION)
      else let stored = word_of_nat (le_nat (subslice 8 4 buf)); computed = compute_crc32 crc buf in
      if stored \<noteq> computed then Inl (MetaChecksum stored computed)
      else let p = PAGE_HEADER_SIZE in
      Inr \<lparr>gm_next_node_id = word_of_nat (le_nat (subslice p 8 buf)),
           gm_next_edge_id = word_of_nat (le_nat (subslice (p + 8) 8 buf)),
           gm_node_count = word_of_nat (le_nat (subslice (p + 16) 8 buf)),
           gm_edge_count = word_of_nat (le_nat (subslice (p + 24) 8 buf)),
           gm_nodes_page_count = word_of_nat (le_nat (subslice (p + 32) 4 buf)),
           gm_edges_page_count = word_of_nat (le_nat (subslice (p + 36) 4 buf)),
           gm_adj_page_count = word_of_nat (le_nat (subslice (p + 40) 4 buf)),
           gm_strings_page_count = word_of_nat (le_nat (subslice (p + 44) 4 buf)),
           gm_overflow_page_count = word_of_nat (le_nat (subslice (p + 48) 4 buf)),
           gm_index_page_count = word_of_nat (le_nat (subslice (p + 52) 4 buf)),
           gm_flags = word_of_nat (le_nat (subslice (p + 56) 2 buf)),
           gm_strings_write_offset = word_of_nat (le_nat (subslice (p + 60) 4 buf)),
           gm_free_directory_heads = get_u32s (p + FREE_HEADS_OFFSET) (length ALL_DATA_FILES) buf,
           gm_free_page_counts = get_u32s (p + FREE_COUNTS_OFFSET) (length ALL_DATA_FILES) buf,
           gm_free_spare_pages = get_u32s (p + FREE_SPARE_OFFSET) (length ALL_DATA_FILES) buf\<rparr>)"

section \<open>Lemmas\<close>

text \<open>The three per-file arrays have one entry per data file.\<close>

definition meta_ok :: "graph_meta \<Rightarrow> bool" where
  "meta_ok m \<longleftrightarrow> length (gm_free_directory_heads m) = 5 \<and> length (gm_free_page_counts m) = 5 \<and>
     length (gm_free_spare_pages m) = 5"

lemma meta_ok_new [simp]: "meta_ok meta_new"
  by (simp add: meta_ok_def meta_new_def)

lemma file_index_less [simp]: "file_index_of f < 5"
  by (cases f) simp_all

lemma file_index_inject [simp]: "file_index_of f = file_index_of f' \<longleftrightarrow> f = f'"
  by (cases f; cases f') simp_all

lemma meta_ok_setters [simp]:
  "meta_ok (set_free_spare_page f p m) = meta_ok m"
  "meta_ok (set_free_directory_head f p m) = meta_ok m"
  "meta_ok (set_free_page_count f n m) = meta_ok m"
  by (simp_all add: meta_ok_def set_free_spare_page_def set_free_directory_head_def set_free_page_count_def)

lemma free_getters [simp]:
  "meta_ok m \<Longrightarrow> free_spare_page (set_free_spare_page f p m) f' = (if f' = f then p else free_spare_page m f')"
  "free_spare_page (set_free_directory_head f p m) f' = free_spare_page m f'"
  "free_spare_page (set_free_page_count f n m) f' = free_spare_page m f'"
  "meta_ok m \<Longrightarrow> free_directory_head (set_free_directory_head f p m) f' = (if f' = f then p else free_directory_head m f')"
  "free_directory_head (set_free_spare_page f p m) f' = free_directory_head m f'"
  "free_directory_head (set_free_page_count f n m) f' = free_directory_head m f'"
  "meta_ok m \<Longrightarrow> free_page_count (set_free_page_count f n m) f' = (if f' = f then n else free_page_count m f')"
  "free_page_count (set_free_spare_page f p m) f' = free_page_count m f'"
  "free_page_count (set_free_directory_head f p m) f' = free_page_count m f'"
  by (auto simp: meta_ok_def free_spare_page_def set_free_spare_page_def free_directory_head_def
      set_free_directory_head_def free_page_count_def set_free_page_count_def nth_list_update)

lemma length_meta_magic [simp]: "length META_MAGIC = 4"
  by (simp add: META_MAGIC_def)

lemma length_all_files: "length ALL_DATA_FILES = 5"
  by (simp add: ALL_DATA_FILES_def)

lemmas meta_offsets = PAGE_HEADER_SIZE_def PAGE_SIZE_def FREE_HEADS_OFFSET_def FREE_COUNTS_OFFSET_def
  FREE_SPARE_OFFSET_def length_all_files

text \<open>A finalised page and its payload have the same slices behind the header.\<close>

lemma subslice_payload:
  assumes "drop 16 page = drop 16 buf" "16 \<le> off"
  shows "subslice off n page = subslice off n buf"
proof -
  have "drop off b = drop (off - 16) (drop 16 b)" for b using assms(2) by simp
  with assms(1) show ?thesis unfolding subslice_def by metis
qed

section \<open>The codec inverts\<close>

lemma deserialize_serialize:
  assumes "meta_ok m"
  shows "deserialize crc (serialize crc m) = Inr m" "length (serialize crc m) = PAGE_SIZE"
proof -
  have arr: "length (gm_free_directory_heads m) = 5" "length (gm_free_page_counts m) = 5"
      "length (gm_free_spare_pages m) = 5"
    using assms by (simp_all add: meta_ok_def)
  define pre where "pre = replicate 16 (0 :: byte) @ le64 (gm_next_node_id m) @ le64 (gm_next_edge_id m) @
    le64 (gm_node_count m) @ le64 (gm_edge_count m) @ le32 (gm_nodes_page_count m) @
    le32 (gm_edges_page_count m) @ le32 (gm_adj_page_count m) @ le32 (gm_strings_page_count m) @
    le32 (gm_overflow_page_count m) @ le32 (gm_index_page_count m) @ le16 (gm_flags m) @
    replicate 2 0 @ le32 (gm_strings_write_offset m)"
  define body where "body = pre @ concat (map le32 (gm_free_directory_heads m)) @
    concat (map le32 (gm_free_page_counts m)) @ concat (map le32 (gm_free_spare_pages m)) @ replicate 3956 0"
  have pre: "length pre = 80" by (simp add: pre_def)
  have ser: "serialize crc m = finalize_page_with_lsn crc META_MAGIC META_VERSION MetaPage 0 0 body"
    using arr
    by (simp add: serialize_def Let_def finalize_page_def meta_offsets new_page_padded put_u32s_splice splice_padded)
      (simp add: body_def pre_def padded_def)
  have len: "length body = PAGE_SIZE"
    using pre arr by (simp add: body_def PAGE_SIZE_def)
  note f = finalize_frame [OF length_meta_magic len, of crc META_VERSION MetaPage 0 0, folded ser]
  have hdr: "subslice 0 4 (serialize crc m) = META_MAGIC"
      "word_of_nat (le_nat (subslice 4 2 (serialize crc m))) = META_VERSION"
      "word_of_nat (le_nat (subslice 8 4 (serialize crc m))) = compute_crc32 crc body"
    using f(3) by (simp_all add: header_read_def)
  have crc_eq: "compute_crc32 crc (serialize crc m) = compute_crc32 crc body"
    using f(2) by (simp add: compute_crc32_def PAGE_HEADER_SIZE_def)
  have payload: "subslice off n (serialize crc m) = subslice off n body" if "16 \<le> off" for off n
    using subslice_payload [OF f(2) that] .
  have arrays: "get_u32s off n (serialize crc m) = get_u32s off n body" if "16 \<le> off" for off n
    using that by (intro get_u32s_cong payload) simp
  have b: "word_of_nat (le_nat (subslice 16 8 body)) = gm_next_node_id m"
      "word_of_nat (le_nat (subslice 24 8 body)) = gm_next_edge_id m"
      "word_of_nat (le_nat (subslice 32 8 body)) = gm_node_count m"
      "word_of_nat (le_nat (subslice 40 8 body)) = gm_edge_count m"
      "word_of_nat (le_nat (subslice 48 4 body)) = gm_nodes_page_count m"
      "word_of_nat (le_nat (subslice 52 4 body)) = gm_edges_page_count m"
      "word_of_nat (le_nat (subslice 56 4 body)) = gm_adj_page_count m"
      "word_of_nat (le_nat (subslice 60 4 body)) = gm_strings_page_count m"
      "word_of_nat (le_nat (subslice 64 4 body)) = gm_overflow_page_count m"
      "word_of_nat (le_nat (subslice 68 4 body)) = gm_index_page_count m"
      "word_of_nat (le_nat (subslice 72 2 body)) = gm_flags m"
      "word_of_nat (le_nat (subslice 76 4 body)) = gm_strings_write_offset m"
    by (simp_all add: body_def pre_def subslice_def)
  have a: "get_u32s 80 5 body = gm_free_directory_heads m" "get_u32s 100 5 body = gm_free_page_counts m"
      "get_u32s 120 5 body = gm_free_spare_pages m"
    using pre arr get_u32s_append [of pre "gm_free_directory_heads m"]
      get_u32s_append [of "pre @ concat (map le32 (gm_free_directory_heads m))" "gm_free_page_counts m"]
      get_u32s_append [of "pre @ concat (map le32 (gm_free_directory_heads m)) @ concat (map le32 (gm_free_page_counts m))"
        "gm_free_spare_pages m"]
    by (simp_all add: body_def)
  show "deserialize crc (serialize crc m) = Inr m"
    by (simp add: deserialize_def Let_def hdr crc_eq meta_offsets payload arrays b a del: get_u32s.simps)
  show "length (serialize crc m) = PAGE_SIZE" by (rule f(1))
qed

section \<open>Properties\<close>

text \<open>C33 (metadata round trip). The image of the metadata page is a valid 4096-byte page, reading
  it back gives the same metadata, and a page with another format version is refused with
  both versions, whatever else it holds.\<close>

theorem meta_roundtrip:
  assumes "meta_ok m"
  shows "deserialize crc (serialize crc m) = Inr m \<and> length (serialize crc m) = PAGE_SIZE \<and>
    (\<forall>buf v. subslice 0 4 buf = META_MAGIC \<longrightarrow> subslice 4 2 buf = le16 v \<longrightarrow> v \<noteq> META_VERSION \<longrightarrow>
       deserialize crc buf = Inl (IncompatibleVersion v META_VERSION))"
proof -
  have "deserialize crc buf = Inl (IncompatibleVersion v META_VERSION)"
    if "subslice 0 4 buf = META_MAGIC" "subslice 4 2 buf = le16 v" "v \<noteq> META_VERSION" for buf v
    using that by (simp add: deserialize_def Let_def)
  with deserialize_serialize [OF assms, of crc] show ?thesis by simp
qed

theorem meta_roundtrip_witness:
  "deserialize (\<lambda>_. 7) (serialize (\<lambda>_. 7) meta_new) = Inr meta_new"
  using meta_roundtrip [of meta_new "\<lambda>_. 7"] by simp

end
