(* ===== verification/Wal_Record.thy ===== *)
theory Wal_Record
  imports Storage_Page
begin

text \<open>
  The write-ahead log's record codec, writer and reader
  (\<^verbatim>\<open>crates/ermya-graph/src/wal/record.rs\<close>, \<^verbatim>\<open>writer.rs\<close>, \<^verbatim>\<open>reader.rs\<close>).
  The checksum of the \<^verbatim>\<open>crc32fast\<close> package is the parameter \<open>crc\<close>, an arbitrary
  function from bytes to 32-bit words. A slot image is a list of 128 bytes, a page of 4096.
\<close>

section \<open>Records\<close>

definition SLOT_SIZE :: nat where "SLOT_SIZE = 128"

datatype wal_record =
    WriteNode (lsn: u64) (page_id: u32) (slot_idx: byte) (slot: bytes) (txn: "u64 option")
  | WriteEdge (lsn: u64) (page_id: u32) (slot_idx: byte) (slot: bytes) (txn: "u64 option")
  | TombstoneNode (lsn: u64) (node_id: u64) (txn: "u64 option")
  | TombstoneEdge (lsn: u64) (edge_id: u64) (txn: "u64 option")
  | WriteAdjPage (lsn: u64) (page_id: u32) (data: bytes) (txn: "u64 option")
  | WriteStringPage (lsn: u64) (page_id: u32) (data: bytes) (txn: "u64 option")
  | WriteOverflowPage (lsn: u64) (page_id: u32) (data: bytes) (txn: "u64 option")
  | Checkpoint (lsn: u64)
  | Begin (lsn: u64) (txn_id: u64)
  | Commit (lsn: u64) (txn_id: u64)
  | Rollback (lsn: u64) (txn_id: u64)
  | FreeListState (lsn: u64) (file_index: byte) (directory_head: u32) (spare_page: u32) (free_count: u32)

datatype wal_error = WalCorrupt string

section \<open>Encoding\<close>


definition encode_slot :: "byte \<Rightarrow> u64 \<Rightarrow> u32 \<Rightarrow> byte \<Rightarrow> bytes \<Rightarrow> bytes" where
  "encode_slot tag l p i s = [tag] @ le64 l @ le32 p @ [i] @ s"

definition encode_page :: "byte \<Rightarrow> u64 \<Rightarrow> u32 \<Rightarrow> bytes \<Rightarrow> bytes" where
  "encode_page tag l p d = [tag] @ le64 l @ le32 p @ d"

definition encode_id :: "byte \<Rightarrow> u64 \<Rightarrow> u64 \<Rightarrow> bytes" where
  "encode_id tag l i = [tag] @ le64 l @ le64 i"

definition encode_opt_txn_id :: "u64 option \<Rightarrow> bytes" where
  "encode_opt_txn_id t = (case t of Some i \<Rightarrow> [1] @ le64 i | None \<Rightarrow> [0])"

text \<open>The bytes the checksum covers: tag, sequence number, payload.\<close>

fun encode_body :: "wal_record \<Rightarrow> bytes" where
  "encode_body (WriteNode l p i s t) = encode_slot 0x01 l p i s @ encode_opt_txn_id t"
| "encode_body (WriteEdge l p i s t) = encode_slot 0x02 l p i s @ encode_opt_txn_id t"
| "encode_body (TombstoneNode l n t) = encode_id 0x03 l n @ encode_opt_txn_id t"
| "encode_body (TombstoneEdge l e t) = encode_id 0x04 l e @ encode_opt_txn_id t"
| "encode_body (WriteAdjPage l p d t) = encode_page 0x05 l p d @ encode_opt_txn_id t"
| "encode_body (WriteStringPage l p d t) = encode_page 0x07 l p d @ encode_opt_txn_id t"
| "encode_body (WriteOverflowPage l p d t) = encode_page 0x08 l p d @ encode_opt_txn_id t"
| "encode_body (Checkpoint l) = [0x06] @ le64 l"
| "encode_body (Begin l x) = encode_id 0x09 l x"
| "encode_body (Commit l x) = encode_id 0x0A l x"
| "encode_body (Rollback l x) = encode_id 0x0B l x"
| "encode_body (FreeListState l f h s c) = [0x0C] @ le64 l @ [f] @ le32 h @ le32 s @ le32 c"

definition encode :: "(bytes \<Rightarrow> u32) \<Rightarrow> wal_record \<Rightarrow> bytes" where
  "encode crc r =
     (let body = encode_body r
      in le_bytes 4 (length body + 4) @ body @ le32 (crc body))"

section \<open>Decoding\<close>

definition decode_opt_txn_id :: "bytes \<Rightarrow> string \<Rightarrow> wal_error + u64 option" where
  "decode_opt_txn_id rest label =
     (case rest of
        [] \<Rightarrow> Inr None
      | b # bs \<Rightarrow>
          if b = 0 then Inr None
          else if b = 1 then
            (if length rest < 9 then Inl (WalCorrupt label)
             else Inr (Some (word_of_nat (le_nat (subslice 1 8 rest)))))
          else Inl (WalCorrupt label))"

definition decode_slot :: "bytes \<Rightarrow> string \<Rightarrow> wal_error + u32 \<times> byte \<times> bytes" where
  "decode_slot payload label =
     (if length payload < 5 + SLOT_SIZE then Inl (WalCorrupt label)
      else Inr (word_of_nat (le_nat (subslice 0 4 payload)), payload ! 4, subslice 5 SLOT_SIZE payload))"

definition decode_page :: "bytes \<Rightarrow> string \<Rightarrow> wal_error + u32 \<times> bytes" where
  "decode_page payload label =
     (if length payload < 4 + PAGE_SIZE then Inl (WalCorrupt label)
      else Inr (word_of_nat (le_nat (subslice 0 4 payload)), subslice 4 PAGE_SIZE payload))"

definition decode_id :: "bytes \<Rightarrow> string \<Rightarrow> wal_error + u64" where
  "decode_id payload label =
     (if length payload < 8 then Inl (WalCorrupt label)
      else Inr (word_of_nat (le_nat (subslice 0 8 payload))))"

text \<open>The match on the tag.\<close>

definition decode_payload :: "byte \<Rightarrow> u64 \<Rightarrow> bytes \<Rightarrow> wal_error + wal_record" where
  "decode_payload tag l payload =
     (if tag = 0x01 then rbind (decode_slot payload ''truncated WriteNode payload'') (\<lambda>(p, i, s).
        rbind (decode_opt_txn_id (drop (5 + SLOT_SIZE) payload) ''corrupt WriteNode txn_id'') (\<lambda>t.
        Inr (WriteNode l p i s t)))
      else if tag = 0x02 then rbind (decode_slot payload ''truncated WriteEdge payload'') (\<lambda>(p, i, s).
        rbind (decode_opt_txn_id (drop (5 + SLOT_SIZE) payload) ''corrupt WriteEdge txn_id'') (\<lambda>t.
        Inr (WriteEdge l p i s t)))
      else if tag = 0x03 then rbind (decode_id payload ''truncated TombstoneNode payload'') (\<lambda>i.
        rbind (decode_opt_txn_id (drop 8 payload) ''corrupt TombstoneNode txn_id'') (\<lambda>t.
        Inr (TombstoneNode l i t)))
      else if tag = 0x04 then rbind (decode_id payload ''truncated TombstoneEdge payload'') (\<lambda>i.
        rbind (decode_opt_txn_id (drop 8 payload) ''corrupt TombstoneEdge txn_id'') (\<lambda>t.
        Inr (TombstoneEdge l i t)))
      else if tag = 0x05 then rbind (decode_page payload ''truncated WriteAdjPage payload'') (\<lambda>(p, d).
        rbind (decode_opt_txn_id (drop (4 + PAGE_SIZE) payload) ''corrupt WriteAdjPage txn_id'') (\<lambda>t.
        Inr (WriteAdjPage l p d t)))
      else if tag = 0x07 then rbind (decode_page payload ''truncated WriteStringPage payload'') (\<lambda>(p, d).
        rbind (decode_opt_txn_id (drop (4 + PAGE_SIZE) payload) ''corrupt WriteStringPage txn_id'') (\<lambda>t.
        Inr (WriteStringPage l p d t)))
      else if tag = 0x08 then rbind (decode_page payload ''truncated WriteOverflowPage payload'') (\<lambda>(p, d).
        rbind (decode_opt_txn_id (drop (4 + PAGE_SIZE) payload) ''corrupt WriteOverflowPage txn_id'') (\<lambda>t.
        Inr (WriteOverflowPage l p d t)))
      else if tag = 0x06 then Inr (Checkpoint l)
      else if tag = 0x09 then rbind (decode_id payload ''truncated Begin payload'') (\<lambda>x. Inr (Begin l x))
      else if tag = 0x0A then rbind (decode_id payload ''truncated Commit payload'') (\<lambda>x. Inr (Commit l x))
      else if tag = 0x0B then rbind (decode_id payload ''truncated Rollback payload'') (\<lambda>x. Inr (Rollback l x))
      else if tag = 0x0C then
        (if length payload < 13 then Inl (WalCorrupt ''truncated FreeListState payload'')
         else Inr (FreeListState l (payload ! 0)
           (word_of_nat (le_nat (subslice 1 4 payload)))
           (word_of_nat (le_nat (subslice 5 4 payload)))
           (word_of_nat (le_nat (subslice 9 4 payload)))))
      else Inl (WalCorrupt ''unknown record tag''))"

definition decode :: "(bytes \<Rightarrow> u32) \<Rightarrow> bytes \<Rightarrow> wal_error + wal_record \<times> nat" where
  "decode crc buf =
     (if length buf < 4 then Inl (WalCorrupt ''truncated record length'')
      else let record_len = le_nat (subslice 0 4 buf); total_len = 4 + record_len in
      if length buf < total_len then Inl (WalCorrupt ''truncated record body'')
      else if record_len < 13 then Inl (WalCorrupt ''record too small'')
      else let crc_offset = total_len - 4;
               stored_crc = word_of_nat (le_nat (subslice crc_offset 4 buf));
               computed_crc = crc (subslice 4 (crc_offset - 4) buf) in
      if stored_crc \<noteq> computed_crc then Inl (WalCorrupt ''CRC mismatch'')
      else rbind (decode_payload (buf ! 4) (word_of_nat (le_nat (subslice 5 8 buf)))
                   (subslice 13 (crc_offset - 13) buf))
             (\<lambda>r. Inr (r, total_len)))"

section \<open>Reading a log\<close>

text \<open>
  The iterator of the reader: a record that does not decode is skipped byte by byte; each
  maximal skipped region is counted once (\<open>skipping\<close> says whether one is open).
\<close>

lemma decode_consumed: "decode crc buf = Inr (r, n) \<Longrightarrow> 17 \<le> n \<and> n \<le> length buf"
  by (auto simp: decode_def Let_def split: if_splits)

function scan :: "(bytes \<Rightarrow> u32) \<Rightarrow> bool \<Rightarrow> bytes \<Rightarrow> wal_record list \<times> nat" where
  "scan crc skipping buf =
     (if buf = [] then ([], 0)
      else (case decode crc buf of
          Inr (r, n) \<Rightarrow> (case scan crc False (drop n buf) of (rs, k) \<Rightarrow> (r # rs, k))
        | Inl _ \<Rightarrow>
            (case scan crc True (drop 1 buf) of (rs, k) \<Rightarrow> (rs, (if skipping then k else k + 1)))))"
  by auto
termination
  by (relation "measure (\<lambda>(crc, skipping, buf). length buf)") (auto dest: decode_consumed)

declare scan.simps [simp del]

record wal_read_result =
  wr_records :: "wal_record list"
  wr_skipped :: nat
  wr_committed :: "u64 set"

fun committed_ids :: "wal_record list \<Rightarrow> u64 set" where
  "committed_ids [] = {}"
| "committed_ids (r # rs) = (case r of Commit l x \<Rightarrow> insert x (committed_ids rs) | _ \<Rightarrow> committed_ids rs)"

definition read_all :: "(bytes \<Rightarrow> u32) \<Rightarrow> bytes \<Rightarrow> wal_read_result" where
  "read_all crc buf =
     (case scan crc False buf of (rs, k) \<Rightarrow>
        \<lparr>wr_records = rs, wr_skipped = k, wr_committed = committed_ids rs\<rparr>)"

section \<open>Writing a log\<close>

text \<open>\<open>ww_file\<close> is the content of the file with the writer's buffer behind it.\<close>

record wal_writer =
  ww_file :: bytes
  ww_next_lsn :: u64
  ww_bytes_written :: nat

fun set_lsn :: "u64 \<Rightarrow> wal_record \<Rightarrow> wal_record" where
  "set_lsn k (WriteNode l p i s t) = WriteNode k p i s t"
| "set_lsn k (WriteEdge l p i s t) = WriteEdge k p i s t"
| "set_lsn k (TombstoneNode l n t) = TombstoneNode k n t"
| "set_lsn k (TombstoneEdge l e t) = TombstoneEdge k e t"
| "set_lsn k (WriteAdjPage l p d t) = WriteAdjPage k p d t"
| "set_lsn k (WriteStringPage l p d t) = WriteStringPage k p d t"
| "set_lsn k (WriteOverflowPage l p d t) = WriteOverflowPage k p d t"
| "set_lsn k (Checkpoint l) = Checkpoint k"
| "set_lsn k (Begin l x) = Begin k x"
| "set_lsn k (Commit l x) = Commit k x"
| "set_lsn k (Rollback l x) = Rollback k x"
| "set_lsn k (FreeListState l f h s c) = FreeListState k f h s c"

definition wal_writer_append :: "(bytes \<Rightarrow> u32) \<Rightarrow> wal_record \<Rightarrow> wal_writer \<Rightarrow> u64 \<times> wal_writer" where
  "wal_writer_append crc r w =
     (let l = ww_next_lsn w; bs = encode crc (set_lsn l r)
      in (l, \<lparr>ww_file = ww_file w @ bs, ww_next_lsn = l + 1,
              ww_bytes_written = ww_bytes_written w + length bs\<rparr>))"

definition wal_writer_truncate :: "wal_writer \<Rightarrow> wal_writer" where
  "wal_writer_truncate w = w\<lparr>ww_file := [], ww_bytes_written := 0\<rparr>"

text \<open>The scan at open: the largest sequence number and the extent of the intact prefix.\<close>

function scan_lsn :: "(bytes \<Rightarrow> u32) \<Rightarrow> bytes \<Rightarrow> nat \<Rightarrow> u64 \<Rightarrow> u64 \<times> nat" where
  "scan_lsn crc buf off max_lsn =
     (if length buf \<le> off then (max_lsn, off)
      else (case decode crc (drop off buf) of
          Inr (r, n) \<Rightarrow> scan_lsn crc buf (off + n) (if lsn r > max_lsn then lsn r else max_lsn)
        | Inl _ \<Rightarrow> (max_lsn, off)))"
  by auto
termination
  by (relation "measure (\<lambda>(crc, buf, off, m). length buf - off)") (auto dest!: decode_consumed)

declare scan_lsn.simps [simp del]

definition recover_next_lsn :: "(bytes \<Rightarrow> u32) \<Rightarrow> bytes \<Rightarrow> u64 \<times> nat" where
  "recover_next_lsn crc buf =
     (case scan_lsn crc buf 0 0 of (m, off) \<Rightarrow> ((if m = 0 then 1 else m + 1), off))"

definition wal_writer_open :: "(bytes \<Rightarrow> u32) \<Rightarrow> bytes \<Rightarrow> wal_writer" where
  "wal_writer_open crc buf =
     (case recover_next_lsn crc buf of (l, n) \<Rightarrow>
        \<lparr>ww_file = buf, ww_next_lsn = l, ww_bytes_written = n\<rparr>)"

section \<open>Lemmas\<close>

text \<open>A record whose slot and page images have their fixed sizes.\<close>

fun record_ok :: "wal_record \<Rightarrow> bool" where
  "record_ok (WriteNode l p i s t) \<longleftrightarrow> length s = SLOT_SIZE"
| "record_ok (WriteEdge l p i s t) \<longleftrightarrow> length s = SLOT_SIZE"
| "record_ok (WriteAdjPage l p d t) \<longleftrightarrow> length d = PAGE_SIZE"
| "record_ok (WriteStringPage l p d t) \<longleftrightarrow> length d = PAGE_SIZE"
| "record_ok (WriteOverflowPage l p d t) \<longleftrightarrow> length d = PAGE_SIZE"
| "record_ok _ \<longleftrightarrow> True"

lemma length_opt_txn [simp]: "length (encode_opt_txn_id t) = (if t = None then 1 else 9)"
  by (simp add: encode_opt_txn_id_def split: option.splits)

lemma length_body: "record_ok r \<Longrightarrow> 9 \<le> length (encode_body r) \<and> length (encode_body r) \<le> 4118"
  by (cases r) (simp_all add: encode_slot_def encode_page_def encode_id_def SLOT_SIZE_def PAGE_SIZE_def)

lemma decode_opt_txn [simp]: "decode_opt_txn_id (encode_opt_txn_id t) label = Inr t"
  by (cases t) (simp_all add: decode_opt_txn_id_def encode_opt_txn_id_def subslice_def le64_def)

lemma take_append_le [simp]:
  "take 4 (le32 a @ xs) = le32 a" "drop 4 (le32 a @ xs) = xs"
  "take 8 (le64 b @ xs) = le64 b" "drop 8 (le64 b @ xs) = xs"
  by simp_all

text \<open>A framed body is checked and handed to the match on its tag.\<close>

lemma decode_frame:
  assumes "9 \<le> length body" "length body \<le> 4118"
  shows "decode crc (le_bytes 4 (length body + 4) @ body @ le32 (crc body) @ rest) =
    rbind (decode_payload (body ! 0) (word_of_nat (le_nat (take 8 (drop 1 body)))) (drop 9 body))
      (\<lambda>r. Inr (r, length body + 8))"
proof -
  let ?buf = "le_bytes 4 (length body + 4) @ body @ le32 (crc body) @ rest"
  have len: "le_nat (le_bytes 4 (length body + 4)) = length body + 4"
    using assms(2) by (simp add: le_nat_le_bytes)
  have "subslice 0 4 ?buf = le_bytes 4 (length body + 4)" by (simp add: subslice_def)
  moreover have "subslice (4 + length body) 4 ?buf = le32 (crc body)" by (simp add: subslice_def)
  moreover have "subslice 4 (length body) ?buf = body" by (simp add: subslice_def)
  moreover have "?buf ! 4 = body ! 0" using assms(1) by (cases body) (simp_all add: nth_append)
  moreover have "subslice 5 8 ?buf = take 8 (drop 1 body)" using assms(1) by (simp add: subslice_def)
  moreover have "subslice 13 (length body - 9) ?buf = drop 9 body"
    using assms(1) by (simp add: subslice_def)
  ultimately show ?thesis
    using assms len by (simp add: decode_def Let_def) (simp add: add.commute)
qed

lemma decode_payload_body:
  assumes "record_ok r"
  shows "decode_payload (encode_body r ! 0) (word_of_nat (le_nat (take 8 (drop 1 (encode_body r)))))
    (drop 9 (encode_body r)) = Inr r"
  using assms
  by (cases r)
    (simp_all add: encode_slot_def encode_page_def encode_id_def decode_payload_def decode_slot_def
      decode_page_def decode_id_def subslice_def SLOT_SIZE_def PAGE_SIZE_def nth_append)

lemma decode_encode:
  assumes "record_ok r"
  shows "decode crc (encode crc r @ rest) = Inr (r, length (encode crc r))"
  using decode_frame [of "encode_body r" crc rest] length_body [OF assms] decode_payload_body [OF assms]
  by (simp add: encode_def Let_def)

lemma length_encode: "length (encode crc r) = length (encode_body r) + 8"
  by (simp add: encode_def Let_def)

lemma encode_not_Nil [simp]: "encode crc r \<noteq> []"
  using length_encode [of crc r] by auto

text \<open>Records that were written in full are all read back, whatever follows them.\<close>

lemma scan_encoded:
  assumes "list_all record_ok rs"
  shows "scan crc sk (concat (map (encode crc) rs) @ rest) =
    (case scan crc (if rs = [] then sk else False) rest of (rs', k) \<Rightarrow> (rs @ rs', k))"
  using assms
proof (induction rs arbitrary: sk)
  case Nil
  then show ?case by (cases "scan crc sk rest") simp
next
  case (Cons r rs)
  then have "decode crc (encode crc r @ concat (map (encode crc) rs) @ rest) = Inr (r, length (encode crc r))"
    by (simp add: decode_encode)
  with Cons show ?case
    by (subst scan.simps) (simp split: prod.splits)
qed

lemma set_lsn_lsn [simp]: "lsn (set_lsn k r) = k" "record_ok (set_lsn k r) = record_ok r"
  by (cases r; simp)+

lemma scan_lsn_encoded:
  assumes "list_all record_ok rs"
  shows "scan_lsn crc (pre @ concat (map (encode crc) rs)) (length pre) m =
    (fold (\<lambda>r m. if lsn r > m then lsn r else m) rs m, length pre + length (concat (map (encode crc) rs)))"
  using assms
proof (induction rs arbitrary: pre m)
  case Nil
  then show ?case by (subst scan_lsn.simps) simp
next
  case (Cons r rs)
  have d: "decode crc (encode crc r @ concat (map (encode crc) rs)) = Inr (r, length (encode crc r))"
    using Cons.prems by (simp add: decode_encode)
  from Cons show ?case
    using Cons.IH [of "pre @ encode crc r"] by (subst scan_lsn.simps) (simp add: d)
qed

section \<open>Properties\<close>

text \<open>Record round trip. A record with well-sized slot and page images decodes from its own
  encoding, whatever bytes follow it in the log, and exactly its own bytes are consumed.\<close>

theorem wal_record_roundtrip:
  assumes "record_ok r"
  shows "decode crc (encode crc r @ rest) = Inr (r, length (encode crc r))"
  by (rule decode_encode [OF assms])

theorem wal_record_roundtrip_witness:
  "decode (\<lambda>bs. word_of_nat (length bs)) (encode (\<lambda>bs. word_of_nat (length bs)) (Commit 7 42) @ [1, 2, 3]) =
     Inr (Commit 7 42, 25)"
  using wal_record_roundtrip [of "Commit 7 42" "\<lambda>bs. word_of_nat (length bs)" "[1, 2, 3]"]
  by (simp add: length_encode encode_id_def)



text \<open>Forward scan. Reading a log that holds fully written records followed by any bytes at
  all (a torn last write, stale data) yields every one of those records first and in order; a
  log of whole records is read back exactly, with no corrupt region counted.\<close>

theorem wal_scan_recovers_prefix:
  assumes "list_all record_ok rs"
  shows "(\<exists>more k. scan crc False (concat (map (encode crc) rs) @ tail) = (rs @ more, k)) \<and>
    scan crc False (concat (map (encode crc) rs)) = (rs, 0)"
proof -
  have "scan crc False [] = ([], 0)" by (subst scan.simps) simp
  with scan_encoded [OF assms, of crc False tail] scan_encoded [OF assms, of crc False "[]"] show ?thesis
    by (cases "scan crc False tail") (auto split: if_splits)
qed

theorem wal_scan_recovers_prefix_witness:
  "\<exists>more k. scan (\<lambda>_. 0) False (concat (map (encode (\<lambda>_. 0)) [Begin 1 5, Commit 2 5]) @ [1, 2]) =
     ([Begin 1 5, Commit 2 5] @ more, k)"
  using wal_scan_recovers_prefix [of "[Begin 1 5, Commit 2 5]" "\<lambda>_. 0" "[1, 2]"] by simp

text \<open>The records of a log with the sequence numbers the writer gives them.\<close>

fun stamp :: "u64 \<Rightarrow> wal_record list \<Rightarrow> wal_record list" where
  "stamp k [] = []"
| "stamp k (r # rs) = set_lsn k r # stamp (k + 1) rs"

definition append_all :: "(bytes \<Rightarrow> u32) \<Rightarrow> wal_record list \<Rightarrow> wal_writer \<Rightarrow> wal_writer" where
  "append_all crc rs w = fold (\<lambda>r w. snd (wal_writer_append crc r w)) rs w"

lemma append_all_eq:
  "append_all crc rs w =
     \<lparr>ww_file = ww_file w @ concat (map (encode crc) (stamp (ww_next_lsn w) rs)),
      ww_next_lsn = ww_next_lsn w + word_of_nat (length rs),
      ww_bytes_written = ww_bytes_written w + length (concat (map (encode crc) (stamp (ww_next_lsn w) rs)))\<rparr>"
proof (induction rs arbitrary: w)
  case Nil
  then show ?case by (cases w) (simp add: append_all_def)
next
  case (Cons r rs)
  have "append_all crc (r # rs) w = append_all crc rs (snd (wal_writer_append crc r w))"
    by (simp add: append_all_def)
  with Cons show ?case by (simp add: wal_writer_append_def Let_def add.assoc)
qed

lemma record_ok_stamp [simp]: "list_all record_ok (stamp k rs) \<longleftrightarrow> list_all record_ok rs"
  by (induction rs arbitrary: k) simp_all

lemma max_lsn_stamp:
  assumes "m < k" "unat k + length rs < 2 ^ 64"
  shows "fold (\<lambda>r m. if lsn r > m then lsn r else m) (stamp k rs) m =
    (if rs = [] then m else k + word_of_nat (length rs) - 1)"
  using assms
proof (induction rs arbitrary: k m)
  case Nil
  then show ?case by simp
next
  case (Cons r rs)
  from Cons.prems(2) have "unat k + 1 < 2 ^ 64" by simp
  then have k1: "unat (k + 1) = unat k + 1" by (simp add: unat_word_ariths)
  have "k < k + 1" using k1 by (simp add: word_less_nat_alt)
  with Cons.IH [of k "k + 1"] Cons.prems k1 show ?case by simp
qed

lemma open_empty: "wal_writer_open crc [] = \<lparr>ww_file = [], ww_next_lsn = 1, ww_bytes_written = 0\<rparr>"
  by (simp add: wal_writer_open_def recover_next_lsn_def scan_lsn.simps)

lemma append_all_fresh:
  "append_all crc rs (wal_writer_open crc []) =
     \<lparr>ww_file = concat (map (encode crc) (stamp 1 rs)), ww_next_lsn = 1 + word_of_nat (length rs),
      ww_bytes_written = length (concat (map (encode crc) (stamp 1 rs)))\<rparr>"
  by (simp add: open_empty append_all_eq)

lemma read_whole_log: "list_all record_ok rs \<Longrightarrow> wr_records (read_all crc (concat (map (encode crc) rs))) = rs"
  using scan_encoded [of rs crc False "[]"] by (simp add: read_all_def scan.simps split: if_splits)

lemma stamp_append: "stamp k (rs @ qs) = stamp k rs @ stamp (k + word_of_nat (length rs)) qs"
  by (induction rs arbitrary: k) (simp_all add: add.assoc)

lemma stamp_mem: "r \<in> set rs \<Longrightarrow> \<exists>l. set_lsn l r \<in> set (stamp k rs)"
  by (induction rs arbitrary: k) auto

lemma stamp_from: "q \<in> set (stamp k rs) \<Longrightarrow> \<exists>l. \<exists>r\<in>set rs. q = set_lsn l r"
  by (induction rs arbitrary: k) fastforce+

text \<open>C9 (the writer and the reader agree). After any sequence of appends to a fresh log, reading
  the file back gives the same records in order with consecutive sequence numbers from 1 and
  no corrupt region, and opening the file again recovers the very state of the writer: its
  next sequence number and its size.\<close>

theorem wal_writer_reader_agree:
  assumes "list_all record_ok rs" "length rs < 2 ^ 64 - 1"
    and "w = append_all crc rs (wal_writer_open crc [])"
  shows "wr_records (read_all crc (ww_file w)) = stamp 1 rs \<and> wr_skipped (read_all crc (ww_file w)) = 0 \<and>
    wal_writer_open crc (ww_file w) = w"
proof -
  let ?f = "concat (map (encode crc) (stamp 1 rs))"
  have w: "w = \<lparr>ww_file = ?f, ww_next_lsn = 1 + word_of_nat (length rs), ww_bytes_written = length ?f\<rparr>"
    unfolding assms(3) by (rule append_all_fresh)
  have ok: "list_all record_ok (stamp 1 rs)" using assms(1) by simp
  have "scan crc False [] = ([], 0)" by (subst scan.simps) simp
  then have scan: "scan crc False ?f = (stamp 1 rs, 0)"
    using scan_encoded [OF ok, of crc False "[]"] by (simp split: if_splits)
  have lsn: "scan_lsn crc ?f 0 0 =
      (fold (\<lambda>r m. if lsn r > m then lsn r else m) (stamp 1 rs) 0, length ?f)"
    using scan_lsn_encoded [OF ok, of crc "[]" 0] by simp
  have mx: "fold (\<lambda>r m. if lsn r > m then lsn r else m) (stamp 1 rs) 0 = word_of_nat (length rs)"
    using max_lsn_stamp [of 0 1 rs] assms(2) by (cases rs) simp_all
  have "unat (word_of_nat (length rs) :: u64) = length rs"
    using assms(2) by (simp add: unat_of_nat)
  then have "word_of_nat (length rs) = (0 :: u64) \<longleftrightarrow> rs = []"
    by (metis length_0_conv of_nat_0 unat_eq_zero)
  with mx have "wal_writer_open crc ?f = w"
    by (simp add: wal_writer_open_def recover_next_lsn_def lsn w add.commute)
  with scan w show ?thesis by (simp add: read_all_def)
qed

theorem wal_writer_reader_agree_witness:
  "wr_records (read_all (\<lambda>_. 0) (ww_file (append_all (\<lambda>_. 0) [Begin 0 5, Commit 0 5] (wal_writer_open (\<lambda>_. 0) [])))) =
     [Begin 1 5, Commit 2 5]"
  using wal_writer_reader_agree [of "[Begin 0 5, Commit 0 5]", OF _ _ refl, of "\<lambda>_. 0"] by simp

end
