(* ===== verification/Wal_Recovery.thy ===== *)
theory Wal_Recovery
  imports Storage_Meta Wal_Record
begin

text \<open>
  Crash recovery (\<^verbatim>\<open>crates/ermya-graph/src/storage/file.rs\<close>): the records of the
  write-ahead log are replayed into the pages and the metadata before a store is opened. The
  pages a \<^verbatim>\<open>get_page\<close> of the buffer pool answers are the map \<open>rc_pages\<close>; a page it
  cannot answer is absent. Page ids are 32-bit words, so \<^verbatim>\<open>page_id + 1\<close> wraps.
\<close>

section \<open>State\<close>

record recovery =
  rc_pages :: "data_file \<times> u32 \<Rightarrow> bytes option"
  rc_meta :: graph_meta

fun file_page_count :: "graph_meta \<Rightarrow> data_file \<Rightarrow> u32" where
  "file_page_count m Nodes = gm_nodes_page_count m"
| "file_page_count m Edges = gm_edges_page_count m"
| "file_page_count m Adjacency = gm_adj_page_count m"
| "file_page_count m Strings = gm_strings_page_count m"
| "file_page_count m Overflow = gm_overflow_page_count m"

fun set_meta_page_count :: "data_file \<Rightarrow> u32 \<Rightarrow> graph_meta \<Rightarrow> graph_meta" where
  "set_meta_page_count Nodes n m = m\<lparr>gm_nodes_page_count := n\<rparr>"
| "set_meta_page_count Edges n m = m\<lparr>gm_edges_page_count := n\<rparr>"
| "set_meta_page_count Adjacency n m = m\<lparr>gm_adj_page_count := n\<rparr>"
| "set_meta_page_count Strings n m = m\<lparr>gm_strings_page_count := n\<rparr>"
| "set_meta_page_count Overflow n m = m\<lparr>gm_overflow_page_count := n\<rparr>"

definition ensure_page_count :: "data_file \<Rightarrow> u32 \<Rightarrow> graph_meta \<Rightarrow> graph_meta" where
  "ensure_page_count f n m = (if file_page_count m f < n then set_meta_page_count f n m else m)"

definition read_page_or_new :: "bytes option \<Rightarrow> bytes" where
  "read_page_or_new a = (case a of None \<Rightarrow> new_page_buf | Some page \<Rightarrow> page)"

definition put_page :: "data_file \<Rightarrow> u32 \<Rightarrow> bytes \<Rightarrow> recovery \<Rightarrow> recovery" where
  "put_page f p page st = st\<lparr>rc_pages := (rc_pages st)((f, p) \<mapsto> page)\<rparr>"

section \<open>Replay\<close>

definition replay_slot ::
  "(bytes \<Rightarrow> u32) \<Rightarrow> data_file \<Rightarrow> u32 \<Rightarrow> byte \<Rightarrow> bytes \<Rightarrow> page_type \<Rightarrow> u64 \<Rightarrow> recovery \<Rightarrow> recovery" where
  "replay_slot crc f p i img pt l st =
     (let page = read_page_or_new (rc_pages st (f, p));
          offset = PAGE_HEADER_SIZE + unat i * 128;
          page1 = (if offset + 128 \<le> PAGE_SIZE then splice offset img page else page);
          slots = max (ph_slot_count (header_read page1)) (ucast i + 1)
      in put_page f p (finalize_page_with_lsn crc (file_magic f) 1 pt slots (ucast l) page1) st)"

definition replay_tombstone ::
  "(bytes \<Rightarrow> u32) \<Rightarrow> data_file \<Rightarrow> u64 \<Rightarrow> page_type \<Rightarrow> recovery \<Rightarrow> recovery" where
  "replay_tombstone crc f i pt st =
     (let zero_based = unat (i - 1);
          page_idx = word_of_nat (zero_based div SLOTS_PER_PAGE);
          slot_index = zero_based mod SLOTS_PER_PAGE;
          st1 = st\<lparr>rc_meta := ensure_page_count f (page_idx + 1) (rc_meta st)\<rparr>;
          page = read_page_or_new (rc_pages st1 (f, page_idx));
          offset = PAGE_HEADER_SIZE + slot_index * 128;
          page1 = (if offset < PAGE_SIZE then page[offset := SLOT_TOMBSTONE] else page);
          slots = max (ph_slot_count (header_read page1)) (word_of_nat slot_index + 1)
      in put_page f page_idx (finalize_page crc (file_magic f) 1 pt slots page1) st1)"

definition replay_free_list_state :: "byte \<Rightarrow> u32 \<Rightarrow> u32 \<Rightarrow> u32 \<Rightarrow> graph_meta \<Rightarrow> graph_meta \<times> bool" where
  "replay_free_list_state fi h s c m =
     (if unat fi < length ALL_DATA_FILES
      then let f = ALL_DATA_FILES ! unat fi
           in (set_free_page_count f c (set_free_spare_page f s (set_free_directory_head f h m)), True)
      else (m, False))"

definition is_durable :: "u64 set \<Rightarrow> u64 option \<Rightarrow> bool" where
  "is_durable committed t \<longleftrightarrow> (case t of None \<Rightarrow> True | Some x \<Rightarrow> x \<in> committed)"

text \<open>A whole-page record: the page count follows and the page is put.\<close>

definition replay_page :: "data_file \<Rightarrow> u32 \<Rightarrow> bytes \<Rightarrow> recovery \<Rightarrow> recovery" where
  "replay_page f p d st = put_page f p d (st\<lparr>rc_meta := ensure_page_count f (p + 1) (rc_meta st)\<rparr>)"

text \<open>One arm of the dispatch per record type; the flag says whether the record counts as
  replayed.\<close>

fun replay_record :: "(bytes \<Rightarrow> u32) \<Rightarrow> u64 set \<Rightarrow> wal_record \<Rightarrow> recovery \<Rightarrow> recovery \<times> bool" where
  "replay_record crc committed (WriteNode l p i s t) st =
     (if \<not> is_durable committed t then (st, False)
      else (replay_slot crc Nodes p i s NodePage l (st\<lparr>rc_meta := ensure_page_count Nodes (p + 1) (rc_meta st)\<rparr>), True))"
| "replay_record crc committed (WriteEdge l p i s t) st =
     (if \<not> is_durable committed t then (st, False)
      else (replay_slot crc Edges p i s EdgePage l (st\<lparr>rc_meta := ensure_page_count Edges (p + 1) (rc_meta st)\<rparr>), True))"
| "replay_record crc committed (TombstoneNode l i t) st =
     (if \<not> is_durable committed t then (st, False) else (replay_tombstone crc Nodes i NodePage st, True))"
| "replay_record crc committed (TombstoneEdge l i t) st =
     (if \<not> is_durable committed t then (st, False) else (replay_tombstone crc Edges i EdgePage st, True))"
| "replay_record crc committed (WriteAdjPage l p d t) st =
     (if \<not> is_durable committed t then (st, False) else (replay_page Adjacency p d st, True))"
| "replay_record crc committed (WriteStringPage l p d t) st =
     (if \<not> is_durable committed t then (st, False) else (replay_page Strings p d st, True))"
| "replay_record crc committed (WriteOverflowPage l p d t) st =
     (if \<not> is_durable committed t then (st, False) else (replay_page Overflow p d st, True))"
| "replay_record crc committed (FreeListState l f h s c) st =
     (case replay_free_list_state f h s c (rc_meta st) of (m, b) \<Rightarrow> (st\<lparr>rc_meta := m\<rparr>, b))"
| "replay_record crc committed _ st = (st, False)"

fun replay_records :: "(bytes \<Rightarrow> u32) \<Rightarrow> u64 set \<Rightarrow> wal_record list \<Rightarrow> recovery \<Rightarrow> recovery \<times> nat" where
  "replay_records crc committed [] st = (st, 0)"
| "replay_records crc committed (r # rs) st =
     (case replay_record crc committed r st of (st1, b) \<Rightarrow>
        case replay_records crc committed rs st1 of (st2, n) \<Rightarrow> (st2, if b then n + 1 else n))"

definition recover_from_wal :: "(bytes \<Rightarrow> u32) \<Rightarrow> bytes \<Rightarrow> recovery \<Rightarrow> recovery \<times> nat" where
  "recover_from_wal crc buf st =
     (let r = read_all crc buf in replay_records crc (wr_committed r) (wr_records r) st)"

section \<open>The effect of a record on its page\<close>

text \<open>A slot write or a tombstone patches one range of a page; the other data records replace
  their page.\<close>

datatype page_change =
    Patch (pc_off: nat) (pc_bytes: bytes) (pc_slots: u16) (pc_type: page_type) (pc_lsn: u16)
  | Replace bytes

fun change_of :: "wal_record \<Rightarrow> ((data_file \<times> u32) \<times> page_change) option" where
  "change_of (WriteNode l p i s t) = Some ((Nodes, p),
     (if unat i < SLOTS_PER_PAGE then Patch (16 + unat i * 128) s (ucast i + 1) NodePage (ucast l)
      else Patch 16 [] (ucast i + 1) NodePage (ucast l)))"
| "change_of (WriteEdge l p i s t) = Some ((Edges, p),
     (if unat i < SLOTS_PER_PAGE then Patch (16 + unat i * 128) s (ucast i + 1) EdgePage (ucast l)
      else Patch 16 [] (ucast i + 1) EdgePage (ucast l)))"
| "change_of (TombstoneNode l i t) = Some ((Nodes, word_of_nat (unat (i - 1) div SLOTS_PER_PAGE)),
     Patch (16 + (unat (i - 1) mod SLOTS_PER_PAGE) * 128) [SLOT_TOMBSTONE]
       (word_of_nat (unat (i - 1) mod SLOTS_PER_PAGE) + 1) NodePage 0)"
| "change_of (TombstoneEdge l i t) = Some ((Edges, word_of_nat (unat (i - 1) div SLOTS_PER_PAGE)),
     Patch (16 + (unat (i - 1) mod SLOTS_PER_PAGE) * 128) [SLOT_TOMBSTONE]
       (word_of_nat (unat (i - 1) mod SLOTS_PER_PAGE) + 1) EdgePage 0)"
| "change_of (WriteAdjPage l p d t) = Some ((Adjacency, p), Replace d)"
| "change_of (WriteStringPage l p d t) = Some ((Strings, p), Replace d)"
| "change_of (WriteOverflowPage l p d t) = Some ((Overflow, p), Replace d)"
| "change_of _ = None"

fun record_txn :: "wal_record \<Rightarrow> u64 option" where
  "record_txn (WriteNode l p i s t) = t"
| "record_txn (WriteEdge l p i s t) = t"
| "record_txn (TombstoneNode l i t) = t"
| "record_txn (TombstoneEdge l i t) = t"
| "record_txn (WriteAdjPage l p d t) = t"
| "record_txn (WriteStringPage l p d t) = t"
| "record_txn (WriteOverflowPage l p d t) = t"
| "record_txn _ = None"

fun change_page :: "(bytes \<Rightarrow> u32) \<Rightarrow> data_file \<Rightarrow> page_change \<Rightarrow> bytes option \<Rightarrow> bytes option" where
  "change_page crc f (Replace d) a = Some d"
| "change_page crc f (Patch off bs sc pt l) a =
     (let page1 = splice off bs (read_page_or_new a)
      in Some (finalize_page_with_lsn crc (file_magic f) 1 pt
           (max (ph_slot_count (header_read page1)) sc) l page1))"

text \<open>The changes a log makes to one page, in order.\<close>

definition changes :: "u64 set \<Rightarrow> data_file \<times> u32 \<Rightarrow> wal_record list \<Rightarrow> page_change list" where
  "changes C loc rs =
     map (snd \<circ> the \<circ> change_of)
       (filter (\<lambda>r. is_durable C (record_txn r) \<and> map_option fst (change_of r) = Some loc) rs)"

lemma list_update_splice: "i < length xs \<Longrightarrow> xs[i := x] = splice i [x] xs"
  by (simp add: splice_def upd_conv_take_nth_drop)

lemma rc_pages_put [simp]: "rc_pages (put_page f p d st) = (rc_pages st)((f, p) \<mapsto> d)"
  "rc_meta (put_page f p d st) = rc_meta st"
  by (simp_all add: put_page_def)

lemma read_page_or_new_Some [simp]: "read_page_or_new (Some d) = d"
  by (simp add: read_page_or_new_def)

lemma length_read_page_or_new:
  "(\<And>d. a = Some d \<Longrightarrow> length d = PAGE_SIZE) \<Longrightarrow> length (read_page_or_new a) = PAGE_SIZE"
  by (cases a) (simp_all add: read_page_or_new_def)

lemma mod_slots_offset: "16 + n mod SLOTS_PER_PAGE * 128 < PAGE_SIZE"
  using mod_less_divisor [of SLOTS_PER_PAGE n] by (simp add: SLOTS_PER_PAGE_def PAGE_SIZE_def)

definition pages_ok :: "recovery \<Rightarrow> bool" where
  "pages_ok st \<longleftrightarrow> (\<forall>loc d. rc_pages st loc = Some d \<longrightarrow> length d = PAGE_SIZE)"

lemma pages_okD: "pages_ok st \<Longrightarrow> rc_pages st loc = Some d \<Longrightarrow> length d = PAGE_SIZE"
  unfolding pages_ok_def by blast

lemma replay_record_pages:
  assumes "pages_ok st"
  shows "rc_pages (fst (replay_record crc C r st)) loc =
    (if is_durable C (record_txn r) \<and> map_option fst (change_of r) = Some loc
     then change_page crc (fst loc) (snd (the (change_of r))) (rc_pages st loc) else rc_pages st loc)"
proof -
  have len: "length (read_page_or_new (rc_pages st l)) = PAGE_SIZE" for l
    by (rule length_read_page_or_new) (rule pages_okD [OF assms])
  have slot: "rc_pages (replay_slot crc f p i s pt l st') loc = (if loc = (f, p) then
      change_page crc f (if unat i < SLOTS_PER_PAGE then Patch (16 + unat i * 128) s (ucast i + 1) pt (ucast l)
        else Patch 16 [] (ucast i + 1) pt (ucast l)) (rc_pages st' loc) else rc_pages st' loc)" for f p i s pt l st'
    by (auto simp: replay_slot_def Let_def PAGE_HEADER_SIZE_def PAGE_SIZE_def SLOTS_PER_PAGE_def splice_def)
  have tomb: "rc_pages (replay_tombstone crc f i pt st) loc =
      (if loc = (f, word_of_nat (unat (i - 1) div SLOTS_PER_PAGE)) then
      change_page crc f (Patch (16 + (unat (i - 1) mod SLOTS_PER_PAGE) * 128) [SLOT_TOMBSTONE]
       (word_of_nat (unat (i - 1) mod SLOTS_PER_PAGE) + 1) pt 0) (rc_pages st loc) else rc_pages st loc)" for f i pt
    using mod_slots_offset [of "unat (i - 1)"] len
    by (simp add: replay_tombstone_def Let_def PAGE_HEADER_SIZE_def finalize_page_def list_update_splice)
  show ?thesis
    by (cases r) (auto simp: slot tomb replay_page_def split: prod.splits)
qed

section \<open>Replay page by page\<close>

text \<open>A change that stays inside a page and behind its header.\<close>

fun change_ok :: "page_change \<Rightarrow> bool" where
  "change_ok (Patch off bs sc pt l) \<longleftrightarrow> 16 \<le> off \<and> off + length bs \<le> PAGE_SIZE"
| "change_ok (Replace d) \<longleftrightarrow> length d = PAGE_SIZE"

lemma change_of_ok: "record_ok r \<Longrightarrow> change_of r = Some (loc, c) \<Longrightarrow> change_ok c"
  using mod_slots_offset [of "unat (node_id r - 1)"] mod_slots_offset [of "unat (edge_id r - 1)"]
  by (cases r) (auto simp: SLOT_SIZE_def PAGE_SIZE_def SLOTS_PER_PAGE_def split: if_splits)

lemma change_page_length:
  assumes "change_ok c" "\<And>d. a = Some d \<Longrightarrow> length d = PAGE_SIZE" "change_page crc f c a = Some d"
  shows "length d = PAGE_SIZE"
  using assms length_read_page_or_new [of a] by (cases c) (auto simp: finalize_frame Let_def)

lemma replay_record_pages_ok:
  assumes "pages_ok st" "record_ok r"
  shows "pages_ok (fst (replay_record crc C r st))"
proof -
  have "length d = PAGE_SIZE" if "rc_pages (fst (replay_record crc C r st)) loc = Some d" for loc d
  proof -
    note pages = pages_okD [OF assms(1)]
    note eq = replay_record_pages [OF assms(1), of crc C r loc, unfolded that]
    show ?thesis
    proof (cases "is_durable C (record_txn r) \<and> map_option fst (change_of r) = Some loc")
      case True
      with change_of_ok [OF assms(2)] have "change_ok (snd (the (change_of r)))" by fastforce
      then show ?thesis
        by (rule change_page_length) (use eq True pages in auto)
    next
      case False
      with eq have "rc_pages st loc = Some d" by (auto split: if_splits)
      then show ?thesis by (rule pages)
    qed
  qed
  then show ?thesis by (simp add: pages_ok_def)
qed

lemma replay_records_Cons:
  "fst (replay_records crc C (r # rs) st) = fst (replay_records crc C rs (fst (replay_record crc C r st)))"
  "snd (replay_records crc C (r # rs) st) =
     (if snd (replay_record crc C r st) then 1 else 0) + snd (replay_records crc C rs (fst (replay_record crc C r st)))"
  by (simp_all split: prod.splits)

lemma replay_records_pages:
  assumes "pages_ok st" "list_all record_ok rs"
  shows "pages_ok (fst (replay_records crc C rs st)) \<and>
    rc_pages (fst (replay_records crc C rs st)) loc =
      fold (change_page crc (fst loc)) (changes C loc rs) (rc_pages st loc)"
  using assms
proof (induction rs arbitrary: st)
  case (Cons r rs)
  let ?st = "fst (replay_record crc C r st)"
  have ok: "pages_ok ?st" using Cons.prems replay_record_pages_ok by simp
  have "rc_pages ?st loc = fold (change_page crc (fst loc)) (changes C loc [r]) (rc_pages st loc)"
    using replay_record_pages [OF Cons.prems(1), of crc C r loc] by (auto simp: changes_def)
  moreover have "changes C loc (r # rs) = changes C loc [r] @ changes C loc rs"
    by (simp add: changes_def)
  ultimately show ?case
    using Cons.IH [OF ok] Cons.prems(2) by (simp add: replay_records_Cons del: replay_records.simps)
qed (simp add: changes_def)

text \<open>The metadata and the number of replayed records do not depend on the pages.\<close>

lemma replay_record_meta:
  "rc_meta st = rc_meta st' \<Longrightarrow>
    rc_meta (fst (replay_record crc C r st)) = rc_meta (fst (replay_record crc C r st')) \<and>
    snd (replay_record crc C r st) = snd (replay_record crc C r st')"
  by (cases r)
    (auto simp: replay_slot_def replay_tombstone_def replay_page_def Let_def split: prod.splits)

lemma replay_records_meta:
  "rc_meta st = rc_meta st' \<Longrightarrow>
    rc_meta (fst (replay_records crc C rs st)) = rc_meta (fst (replay_records crc C rs st')) \<and>
    snd (replay_records crc C rs st) = snd (replay_records crc C rs st')"
proof (induction rs arbitrary: st st')
  case (Cons r rs)
  from replay_record_meta [OF Cons.prems, of crc C r]
    Cons.IH [of "fst (replay_record crc C r st)" "fst (replay_record crc C r st')"]
  show ?case by (simp add: replay_records_Cons del: replay_records.simps)
qed simp

section \<open>Replaying over a partly replayed page\<close>

definition patch_covers :: "page_change \<Rightarrow> nat \<Rightarrow> bool" where
  "patch_covers c i \<longleftrightarrow> pc_off c \<le> i \<and> i < pc_off c + length (pc_bytes c)"

definition slots_of :: "bytes option \<Rightarrow> u16" where
  "slots_of a = ph_slot_count (header_read (read_page_or_new a))"

text \<open>Two pages that the remaining patches \<open>R\<close> will make equal: outside the ranges they
  overwrite the payloads agree, and the slot counts agree once raised by \<open>R\<close>.\<close>

definition agree :: "page_change list \<Rightarrow> bytes option \<Rightarrow> bytes option \<Rightarrow> bool" where
  "agree R a b \<longleftrightarrow>
     (if R = [] then a = b
      else (\<forall>i. 16 \<le> i \<longrightarrow> i < PAGE_SIZE \<longrightarrow> \<not> (\<exists>c\<in>set R. patch_covers c i) \<longrightarrow>
              read_page_or_new a ! i = read_page_or_new b ! i) \<and>
           Max (insert (slots_of a) (pc_slots ` set R)) = Max (insert (slots_of b) (pc_slots ` set R)))"

fun is_patch :: "page_change \<Rightarrow> bool" where
  "is_patch (Patch off bs sc pt l) = True"
| "is_patch (Replace d) = False"

lemma header_read_splice:
  "16 \<le> off \<Longrightarrow> off + length bs \<le> length page \<Longrightarrow> header_read (splice off bs page) = header_read page"
  by (simp add: header_read_def subslice_splice_other)

lemma drop_nth: "drop 16 xs = drop 16 ys \<Longrightarrow> 16 \<le> i \<Longrightarrow> i < length xs \<Longrightarrow> i < length ys \<Longrightarrow> xs ! i = ys ! i"
  using nth_drop [of 16 xs "i - 16"] nth_drop [of 16 ys "i - 16"] by simp

lemma patched_page:
  assumes "is_patch c" "change_ok c" "length (read_page_or_new a) = PAGE_SIZE"
  shows "slots_of (change_page crc f c a) = max (slots_of a) (pc_slots c)"
    and "length (read_page_or_new (change_page crc f c a)) = PAGE_SIZE"
    and "16 \<le> i \<Longrightarrow> i < PAGE_SIZE \<Longrightarrow> read_page_or_new (change_page crc f c a) ! i =
      (if patch_covers c i then pc_bytes c ! (i - pc_off c) else read_page_or_new a ! i)"
proof -
  obtain off bs sc pt l where c: "c = Patch off bs sc pt l" using assms(1) by (cases c) auto
  let ?p = "splice off bs (read_page_or_new a)"
  let ?q = "finalize_page_with_lsn crc (file_magic f) 1 pt (max (ph_slot_count (header_read ?p)) sc) l ?p"
  have q: "read_page_or_new (change_page crc f c a) = ?q" by (simp add: c read_page_or_new_def Let_def)
  have len: "length ?p = PAGE_SIZE" using assms(2,3) c by simp
  note fin = finalize_frame [OF length_file_magic len, of crc f 1 pt "max (ph_slot_count (header_read ?p)) sc" l]
  show "slots_of (change_page crc f c a) = max (slots_of a) (pc_slots c)"
    using assms(2,3) c fin(3) unfolding slots_of_def q by (simp add: header_read_splice)
  show "length (read_page_or_new (change_page crc f c a)) = PAGE_SIZE" using fin(1) q by simp
  assume "16 \<le> i" "i < PAGE_SIZE"
  with drop_nth [OF fin(2)] fin(1) len have "?q ! i = ?p ! i" by simp
  with assms(2,3) c \<open>i < PAGE_SIZE\<close> show "read_page_or_new (change_page crc f c a) ! i =
      (if patch_covers c i then pc_bytes c ! (i - pc_off c) else read_page_or_new a ! i)"
    unfolding q by (simp add: nth_splice patch_covers_def)
qed

lemma agree_trans: "agree R a b \<Longrightarrow> agree R b c \<Longrightarrow> agree R a c"
  by (auto simp: agree_def split: if_splits)

text \<open>A patch that is still to come makes no difference.\<close>

lemma agree_pending:
  assumes "c \<in> set R" "is_patch c" "change_ok c" "length (read_page_or_new a) = PAGE_SIZE"
  shows "agree R (change_page crc f c a) a"
proof -
  have "Max (insert (max (slots_of a) (pc_slots c)) (pc_slots ` set R)) = Max (insert (slots_of a) (pc_slots ` set R))"
    using assms(1) by (intro antisym Max.boundedI) (auto simp: le_max_iff_disj Max_ge_iff)
  with assms show ?thesis
    by (auto simp: agree_def patched_page)
qed

lemma agree_step:
  assumes "agree (c # R) a b" "is_patch c" "change_ok c"
    and len: "length (read_page_or_new a) = PAGE_SIZE" "length (read_page_or_new b) = PAGE_SIZE"
  shows "agree R (change_page crc f c a) (change_page crc f c b)"
proof -
  from assms(1) have max_eq: "Max (insert (slots_of a) (insert (pc_slots c) (pc_slots ` set R))) =
      Max (insert (slots_of b) (insert (pc_slots c) (pc_slots ` set R)))"
    and bytes: "\<And>i. 16 \<le> i \<Longrightarrow> i < PAGE_SIZE \<Longrightarrow> \<not> patch_covers c i \<Longrightarrow> \<not> (\<exists>d\<in>set R. patch_covers d i) \<Longrightarrow>
      read_page_or_new a ! i = read_page_or_new b ! i"
    by (auto simp: agree_def)
  show ?thesis
  proof (cases "R = []")
    case False
    with max_eq bytes assms(2-) show ?thesis by (auto simp: agree_def patched_page max.assoc)
  next
    case True
    obtain off bs sc pt l where c: "c = Patch off bs sc pt l" using assms(2) by (cases c) auto
    let ?a = "splice off bs (read_page_or_new a)" and ?b = "splice off bs (read_page_or_new b)"
    have hdr: "max (ph_slot_count (header_read ?a)) sc = max (ph_slot_count (header_read ?b)) sc"
      using max_eq True assms(3) c len by (simp add: header_read_splice slots_of_def)
    have "drop 16 ?a = drop 16 ?b"
    proof (rule nth_equalityI)
      fix i assume "i < length (drop 16 ?a)"
      with assms(3) c len bytes [of "16 + i"] True show "drop 16 ?a ! i = drop 16 ?b ! i"
        by (auto simp: nth_splice patch_covers_def)
    qed (use assms(3) c len in simp)
    then have "finalize_page_with_lsn crc (file_magic f) 1 pt n l ?a = finalize_page_with_lsn crc (file_magic f) 1 pt n l ?b" for n
      using assms(3) c len
      by (simp add: finalize_page_with_lsn_def header_write_take compute_crc32_def PAGE_HEADER_SIZE_def PAGE_SIZE_def)
    with hdr True show ?thesis by (simp add: agree_def c Let_def)
  qed
qed

lemma agree_fold:
  assumes "agree R a b" "list_all (\<lambda>c. is_patch c \<and> change_ok c) R"
    and "length (read_page_or_new a) = PAGE_SIZE" "length (read_page_or_new b) = PAGE_SIZE"
  shows "fold (change_page crc f) R a = fold (change_page crc f) R b"
  using assms
proof (induction R arbitrary: a b)
  case (Cons c R)
  then show ?case using agree_step [of c R a b crc f] by (simp add: patched_page(2))
qed (simp add: agree_def)

lemma agree_replayed:
  assumes "set Q \<subseteq> set R" "list_all (\<lambda>c. is_patch c \<and> change_ok c) R"
    and "length (read_page_or_new a) = PAGE_SIZE"
  shows "agree R (fold (change_page crc f) Q a) a \<and> length (read_page_or_new (fold (change_page crc f) Q a)) = PAGE_SIZE"
  using assms
proof (induction Q arbitrary: a)
  case Nil
  then show ?case by (simp add: agree_def)
next
  case (Cons c Q)
  then have c: "c \<in> set R" "is_patch c" "change_ok c" by (auto simp: list_all_iff)
  with Cons.prems(3) have "length (read_page_or_new (change_page crc f c a)) = PAGE_SIZE"
    by (simp add: patched_page(2))
  with Cons c show ?case
    using agree_pending [of c R a crc f] by (auto intro: agree_trans)
qed

text \<open>Replaying all changes of a page over any of them replayed before, in any order, gives
  what replaying them over the original page gives.\<close>

lemma refold_page:
  assumes "set Q \<subseteq> set R" "list_all change_ok R" "list_all is_patch R \<or> (\<forall>c\<in>set R. \<not> is_patch c)"
    and "length (read_page_or_new a) = PAGE_SIZE"
  shows "fold (change_page crc f) R (fold (change_page crc f) Q a) = fold (change_page crc f) R a"
proof (cases "list_all is_patch R")
  case True
  with assms(2) have "list_all (\<lambda>c. is_patch c \<and> change_ok c) R" by (simp add: list_all_iff)
  with agree_replayed [OF assms(1) this assms(4), of crc f] show ?thesis
    using agree_fold assms(4) by blast
next
  case False
  with assms(3) have "R \<noteq> []" "\<forall>c\<in>set R. \<not> is_patch c" by auto
  then obtain d R' where "R = Replace d # R'" by (metis is_patch.elims(3) list.exhaust list.set_intros(1))
  then show ?thesis by simp
qed

section \<open>The changes of a log\<close>

lemma changes_ok: "list_all record_ok rs \<Longrightarrow> list_all change_ok (changes C loc rs)"
  by (auto simp: changes_def list_all_iff intro: change_of_ok)

lemma change_of_kind: "change_of r = Some (loc, c) \<Longrightarrow> is_patch c \<longleftrightarrow> fst loc = Nodes \<or> fst loc = Edges"
  by (cases r) (auto split: if_splits)

lemma changes_kind:
  "list_all is_patch (changes C loc rs) \<or> (\<forall>c\<in>set (changes C loc rs). \<not> is_patch c)"
proof -
  have "is_patch c \<longleftrightarrow> fst loc = Nodes \<or> fst loc = Edges" if "c \<in> set (changes C loc rs)" for c
  proof -
    from that obtain r where "change_of r = Some (loc, c)" by (auto simp: changes_def)
    then show ?thesis by (rule change_of_kind)
  qed
  then show ?thesis by (auto simp: list_all_iff)
qed

lemma changes_mono: "set qs \<subseteq> set rs \<Longrightarrow> set (changes C loc qs) \<subseteq> set (changes C loc rs)"
  by (auto simp: changes_def)

text \<open>A record that is not durable leaves everything as it is.\<close>

lemma replay_not_durable: "\<not> is_durable C (record_txn r) \<Longrightarrow> replay_record crc C r st = (st, False)"
  by (cases r) (auto simp: is_durable_def)

lemma replay_filter:
  assumes "\<And>r. r \<in> set rs \<Longrightarrow> \<not> P r \<Longrightarrow> \<not> is_durable C (record_txn r)"
  shows "replay_records crc C (filter P rs) st = replay_records crc C rs st"
  using assms
  by (induction rs arbitrary: st) (auto simp: replay_not_durable split: prod.splits)

lemma committed_ids_iff: "x \<in> committed_ids rs \<longleftrightarrow> (\<exists>l. Commit l x \<in> set rs)"
  by (induction rs) (auto split: wal_record.splits)

section \<open>Properties\<close>

text \<open>C11 (atomic recovery). A transaction with no commit record in the log leaves no trace:
  recovery yields exactly the pages, the metadata and the count it would yield had none of the
  transaction's data records been written.\<close>

theorem recovery_atomic:
  assumes "wr_records (read_all crc buf) = rs" "\<forall>l. Commit l x \<notin> set rs"
  shows "recover_from_wal crc buf st =
    replay_records crc (committed_ids rs) (filter (\<lambda>r. record_txn r \<noteq> Some x) rs) st"
proof -
  have "wr_committed (read_all crc buf) = committed_ids rs"
    using assms(1) by (auto simp: read_all_def split: prod.splits)
  moreover have "x \<notin> committed_ids rs" using assms(2) by (simp add: committed_ids_iff)
  ultimately show ?thesis
    using assms(1) by (subst replay_filter) (auto simp: recover_from_wal_def Let_def is_durable_def)
qed

definition demo_log :: "wal_record list" where
  "demo_log = [Begin 1 5, TombstoneNode 2 1 (Some 5), TombstoneNode 3 2 None]"

theorem recovery_atomic_witness:
  "recover_from_wal (\<lambda>_. 0) (concat (map (encode (\<lambda>_. 0)) demo_log)) \<lparr>rc_pages = Map.empty, rc_meta = meta_new\<rparr> =
   replay_records (\<lambda>_. 0) {} [Begin 1 5, TombstoneNode 3 2 None] \<lparr>rc_pages = Map.empty, rc_meta = meta_new\<rparr>"
proof -
  have rs: "wr_records (read_all (\<lambda>_. 0) (concat (map (encode (\<lambda>_. 0)) demo_log))) = demo_log"
    by (rule read_whole_log) (simp add: demo_log_def)
  have "\<forall>l. Commit l 5 \<notin> set demo_log" by (simp add: demo_log_def)
  from recovery_atomic [OF rs this] show ?thesis by (simp add: demo_log_def del: replay_records.simps)
qed

text \<open>C12 (recovery is restartable). Suppose a first recovery was cut off: the metadata is still
  the old one, and each page on disk is in whatever state replaying some of the log's records,
  in any order, would leave it. Recovering again gives exactly the result of an uninterrupted
  recovery of the original store.\<close>

theorem recovery_restartable:
  assumes "pages_ok st" "list_all record_ok (wr_records (read_all crc buf))"
    and "rc_meta st' = rc_meta st"
    and "\<forall>loc. \<exists>qs. set qs \<subseteq> set (wr_records (read_all crc buf)) \<and>
      rc_pages st' loc = rc_pages (fst (replay_records crc (wr_committed (read_all crc buf)) qs st)) loc"
  shows "recover_from_wal crc buf st' = recover_from_wal crc buf st"
proof -
  let ?C = "wr_committed (read_all crc buf)" and ?rs = "wr_records (read_all crc buf)"
  let ?run = "\<lambda>rs st. fst (replay_records crc ?C rs st)"
  have qs_ok: "list_all record_ok qs" if "set qs \<subseteq> set ?rs" for qs
    using that assms(2) by (auto simp: list_all_iff)
  have ok': "pages_ok st'"
    unfolding pages_ok_def
  proof (intro allI impI)
    fix loc d assume d: "rc_pages st' loc = Some d"
    from assms(4) obtain qs where qs: "set qs \<subseteq> set ?rs" "rc_pages st' loc = rc_pages (?run qs st) loc" by blast
    with replay_records_pages [OF assms(1) qs_ok, of qs crc ?C loc] d show "length d = PAGE_SIZE"
      using pages_okD by metis
  qed
  have pages: "rc_pages (?run ?rs st') loc = rc_pages (?run ?rs st) loc" for loc
  proof -
    from assms(4) obtain qs where qs: "set qs \<subseteq> set ?rs" "rc_pages st' loc = rc_pages (?run qs st) loc" by blast
    have "length (read_page_or_new (rc_pages st loc)) = PAGE_SIZE"
      by (rule length_read_page_or_new) (rule pages_okD [OF assms(1)])
    from refold_page [OF changes_mono [OF qs(1)] changes_ok [OF assms(2)] changes_kind this, of crc "fst loc" ?C]
    show ?thesis
      using qs replay_records_pages [OF assms(1) qs_ok [OF qs(1)], of crc ?C loc]
        replay_records_pages [OF assms(1,2), of crc ?C loc] replay_records_pages [OF ok' assms(2), of crc ?C loc]
      by simp
  qed
  have "fst (recover_from_wal crc buf st') = fst (recover_from_wal crc buf st)"
    using pages replay_records_meta [OF assms(3), of crc ?C ?rs]
    by (intro recovery.equality ext) (simp_all add: recover_from_wal_def Let_def)
  with replay_records_meta [OF assms(3), of crc ?C ?rs] show ?thesis
    by (simp add: prod_eq_iff recover_from_wal_def Let_def)
qed

theorem recovery_restartable_witness:
  "recover_from_wal (\<lambda>_. 0) (concat (map (encode (\<lambda>_. 0)) demo_log))
     \<lparr>rc_pages = rc_pages (fst (replay_records (\<lambda>_. 0) {} [TombstoneNode 3 2 None] \<lparr>rc_pages = Map.empty, rc_meta = meta_new\<rparr>)),
      rc_meta = meta_new\<rparr> =
   recover_from_wal (\<lambda>_. 0) (concat (map (encode (\<lambda>_. 0)) demo_log)) \<lparr>rc_pages = Map.empty, rc_meta = meta_new\<rparr>"
proof (rule recovery_restartable)
  have ok: "list_all record_ok demo_log" by (simp add: demo_log_def)
  have rs: "wr_records (read_all (\<lambda>_. 0) (concat (map (encode (\<lambda>_. 0)) demo_log))) = demo_log"
    by (rule read_whole_log [OF ok])
  then have C: "wr_committed (read_all (\<lambda>_. 0) (concat (map (encode (\<lambda>_. 0)) demo_log))) = {}"
    by (auto simp: read_all_def demo_log_def split: prod.splits)
  show "list_all record_ok (wr_records (read_all (\<lambda>_. 0) (concat (map (encode (\<lambda>_. 0)) demo_log))))"
    using ok rs by simp
  show "\<forall>loc. \<exists>qs. set qs \<subseteq> set (wr_records (read_all (\<lambda>_. 0) (concat (map (encode (\<lambda>_. 0)) demo_log)))) \<and>
      rc_pages \<lparr>rc_pages = rc_pages (fst (replay_records (\<lambda>_. 0) {} [TombstoneNode 3 2 None] \<lparr>rc_pages = Map.empty, rc_meta = meta_new\<rparr>)),
        rc_meta = meta_new\<rparr> loc =
      rc_pages (fst (replay_records (\<lambda>_. 0) (wr_committed (read_all (\<lambda>_. 0) (concat (map (encode (\<lambda>_. 0)) demo_log))))
        qs \<lparr>rc_pages = Map.empty, rc_meta = meta_new\<rparr>)) loc"
    unfolding rs C by (intro allI exI [of _ "[TombstoneNode 3 2 None]"])
      (simp add: demo_log_def del: replay_records.simps)
qed (simp_all add: pages_ok_def)

text \<open>The slot a record writes, and its image when it is not a tombstone.\<close>

fun slot_target :: "wal_record \<Rightarrow> (data_file \<times> u32 \<times> nat) option" where
  "slot_target (WriteNode l p i s t) = Some (Nodes, p, unat i)"
| "slot_target (WriteEdge l p i s t) = Some (Edges, p, unat i)"
| "slot_target (TombstoneNode l i t) =
     Some (Nodes, word_of_nat (unat (i - 1) div SLOTS_PER_PAGE), unat (i - 1) mod SLOTS_PER_PAGE)"
| "slot_target (TombstoneEdge l i t) =
     Some (Edges, word_of_nat (unat (i - 1) div SLOTS_PER_PAGE), unat (i - 1) mod SLOTS_PER_PAGE)"
| "slot_target _ = None"

fun slot_image :: "wal_record \<Rightarrow> bytes option" where
  "slot_image (WriteNode l p i s t) = Some s"
| "slot_image (WriteEdge l p i s t) = Some s"
| "slot_image _ = None"

lemma change_target:
  assumes "record_ok r" "change_of r = Some ((f, p), c)" "f = Nodes \<or> f = Edges"
  shows "\<exists>j. slot_target r = Some (f, p, j) \<and> is_patch c \<and> pc_slots c = word_of_nat j + 1 \<and>
    (\<forall>k. patch_covers c k \<longrightarrow> 16 + j * 128 \<le> k \<and> k < 16 + j * 128 + 128)"
  using assms by (cases r) (auto simp: patch_covers_def SLOT_SIZE_def split: if_splits)

lemma fold_patches:
  assumes "list_all (\<lambda>c. is_patch c \<and> change_ok c) R" "length (read_page_or_new a) = PAGE_SIZE"
  shows "length (read_page_or_new (fold (change_page crc f) R a)) = PAGE_SIZE \<and>
    slots_of a \<le> slots_of (fold (change_page crc f) R a) \<and>
    (16 \<le> k \<longrightarrow> k < PAGE_SIZE \<longrightarrow> (\<forall>c\<in>set R. \<not> patch_covers c k) \<longrightarrow>
      read_page_or_new (fold (change_page crc f) R a) ! k = read_page_or_new a ! k)"
  using assms
proof (induction R arbitrary: a)
  case (Cons c R)
  then have "length (read_page_or_new (change_page crc f c a)) = PAGE_SIZE" by (simp add: patched_page(2))
  with Cons.IH [of "change_page crc f c a"] Cons.prems show ?case
    by (auto simp: patched_page(1,3))
qed simp

lemma changed_page_valid:
  assumes "R \<noteq> []" "list_all (\<lambda>c. is_patch c \<and> change_ok c) R" "length (read_page_or_new a) = PAGE_SIZE"
  shows "validate_page_buf crc (file_magic f) (read_page_or_new (fold (change_page crc f) R a)) = Inr ()"
proof -
  obtain R' c where R: "R = R' @ [c]" using assms(1) by (metis rev_exhaust)
  let ?b = "fold (change_page crc f) R' a"
  have len: "length (read_page_or_new ?b) = PAGE_SIZE" using fold_patches [of R' a crc f 0] assms R by simp
  obtain off bs sc pt l where c: "c = Patch off bs sc pt l" using assms(2) R by (cases c) auto
  with len assms(2) R have "length (splice off bs (read_page_or_new ?b)) = PAGE_SIZE" by simp
  from finalize_validates [OF length_file_magic this] show ?thesis by (simp add: R c Let_def)
qed

lemma ensure_page_count_le:
  "file_page_count m f' \<le> file_page_count (ensure_page_count f n m) f'" "n \<le> file_page_count (ensure_page_count f n m) f"
  by (cases f; cases f'; auto simp: ensure_page_count_def)+

lemma page_count_set_free [simp]:
  "file_page_count (set_free_spare_page f p m) f' = file_page_count m f'"
  "file_page_count (set_free_directory_head f p m) f' = file_page_count m f'"
  "file_page_count (set_free_page_count f n m) f' = file_page_count m f'"
  by (cases f'; simp add: set_free_spare_page_def set_free_directory_head_def set_free_page_count_def)+

lemma replay_record_count:
  "file_page_count (rc_meta st) f \<le> file_page_count (rc_meta (fst (replay_record crc C r st))) f"
  by (cases r) (simp_all add: replay_slot_def replay_tombstone_def replay_page_def
      replay_free_list_state_def Let_def ensure_page_count_le(1))

lemma replay_records_count:
  "file_page_count (rc_meta st) f \<le> file_page_count (rc_meta (fst (replay_records crc C rs st))) f"
proof (induction rs arbitrary: st)
  case (Cons r rs)
  from Cons.IH [of "fst (replay_record crc C r st)"] replay_record_count [of st f crc C r]
  show ?case by (simp add: replay_records_Cons del: replay_records.simps)
qed simp

lemma replay_records_append:
  "fst (replay_records crc C (qs @ rs) st) = fst (replay_records crc C rs (fst (replay_records crc C qs st)))"
  by (induction qs arbitrary: st) (simp_all add: replay_records_Cons del: replay_records.simps(2))

lemma slot_write_counts:
  assumes "slot_target r = Some (f, p, i)" "slot_image r = Some img" "is_durable C (record_txn r)"
  shows "p + 1 \<le> file_page_count (rc_meta (fst (replay_record crc C r st))) f"
  using assms ensure_page_count_le(2) [of "p + 1" f "rc_meta st"]
  by (cases r) (auto simp: replay_slot_def Let_def)

lemma change_page_Some: "change_page crc f c a \<noteq> None"
  by (cases c) (simp_all add: Let_def)

text \<open>A patch that nothing later touches stays.\<close>

lemma fold_last_patch:
  assumes ok: "list_all (\<lambda>c. is_patch c \<and> change_ok c) (R1 @ c # R2)" "length (read_page_or_new a) = PAGE_SIZE"
    and free: "\<And>c' k. c' \<in> set R2 \<Longrightarrow> patch_covers c k \<Longrightarrow> \<not> patch_covers c' k"
  obtains page where "fold (change_page crc f) (R1 @ c # R2) a = Some page"
    and "subslice (pc_off c) (length (pc_bytes c)) page = pc_bytes c"
    and "validate_page_buf crc (file_magic f) page = Inr ()"
    and "pc_slots c \<le> ph_slot_count (header_read page)"
proof -
  let ?d = "fold (change_page crc f) (R1 @ c # R2) a" and ?b = "fold (change_page crc f) R1 a"
  have "fold (change_page crc f) (rev R) a \<noteq> None" if "R \<noteq> []" for R
    using that by (cases R) (simp_all add: change_page_Some)
  from this [of "rev (R1 @ c # R2)"] obtain page where page: "?d = Some page" by auto
  have c: "is_patch c" "change_ok c" using ok(1) by simp_all
  have lenb: "length (read_page_or_new ?b) = PAGE_SIZE" using fold_patches [of R1 a crc f 0] ok by simp
  note step = patched_page [OF c lenb, where crc = crc and f = f]
  have R2: "list_all (\<lambda>c. is_patch c \<and> change_ok c) R2" using ok(1) by simp
  have rest: "length (read_page_or_new ?d) = PAGE_SIZE" "slots_of (change_page crc f c ?b) \<le> slots_of ?d"
      "\<lbrakk>16 \<le> k; k < PAGE_SIZE; \<forall>c'\<in>set R2. \<not> patch_covers c' k\<rbrakk> \<Longrightarrow>
        read_page_or_new ?d ! k = read_page_or_new (change_page crc f c ?b) ! k" for k
    using fold_patches [OF R2 step(2), of crc f k] by simp_all
  have len: "length page = PAGE_SIZE" using page rest(1) by simp
  have range: "16 \<le> pc_off c" "pc_off c + length (pc_bytes c) \<le> PAGE_SIZE" using c by (cases c; simp)+
  have "page ! k = pc_bytes c ! (k - pc_off c)" if "patch_covers c k" for k
    using that rest(3) [of k] step(3) [of k] page free [OF _ that] range
    by (auto simp: patch_covers_def)
  then have "subslice (pc_off c) (length (pc_bytes c)) page = pc_bytes c"
    using range len by (intro nth_equalityI) (simp_all add: nth_subslice patch_covers_def)
  moreover have "validate_page_buf crc (file_magic f) page = Inr ()"
    using changed_page_valid [OF _ ok, of crc f] page by simp
  moreover have "pc_slots c \<le> ph_slot_count (header_read page)"
    using rest(2) step(1) page by (simp add: slots_of_def)
  ultimately show ?thesis using page that by blast
qed

lemma last_durable_write:
  assumes "pages_ok st" "list_all record_ok (wr_records (read_all crc buf))"
    and "wr_records (read_all crc buf) = rs1 @ r # rs2" "C = wr_committed (read_all crc buf)"
    and "slot_target r = Some (f, p, i)" "slot_image r = Some img" "is_durable C (record_txn r)"
    and "\<forall>r'\<in>set rs2. is_durable C (record_txn r') \<longrightarrow> slot_target r' \<noteq> Some (f, p, i)"
    and "i < SLOTS_PER_PAGE" "p + 1 \<noteq> 0"
  shows "\<exists>page. rc_pages (fst (recover_from_wal crc buf st)) (f, p) = Some page \<and>
    subslice (PAGE_HEADER_SIZE + i * SLOT_SIZE) SLOT_SIZE page = img \<and>
    validate_page_buf crc (file_magic f) page = Inr () \<and>
    i < unat (ph_slot_count (header_read page)) \<and>
    p < file_page_count (rc_meta (fst (recover_from_wal crc buf st))) f"
proof -
  let ?rs = "rs1 @ r # rs2" and ?loc = "(f, p)" and ?a = "rc_pages st (f, p)"
  have fs: "f = Nodes \<or> f = Edges" and img: "length img = SLOT_SIZE"
    using assms(2,3,5,6) by (cases r; auto)+
  have rok: "record_ok r'" if "r' \<in> set ?rs" for r' using that assms(2,3) by (auto simp: list_all_iff)
  obtain c where c: "change_of r = Some (?loc, c)" "pc_off c = 16 + i * 128" "pc_bytes c = img"
      "pc_slots c = word_of_nat i + 1"
    using assms(5,6,9) by (cases r) auto
  have R: "changes C ?loc ?rs = changes C ?loc rs1 @ c # changes C ?loc rs2"
    using assms(7) c(1) by (simp add: changes_def)
  have "list_all is_patch (changes C ?loc ?rs)"
    using fs change_of_kind by (fastforce simp: changes_def list_all_iff)
  with changes_ok [OF assms(2), of C ?loc] have ok: "list_all (\<lambda>c. is_patch c \<and> change_ok c) (changes C ?loc ?rs)"
    by (simp add: assms(3) list_all_iff)
  have len: "length (read_page_or_new ?a) = PAGE_SIZE"
    by (rule length_read_page_or_new) (rule pages_okD [OF assms(1)])
  have free: "\<not> patch_covers c' k" if c': "c' \<in> set (changes C ?loc rs2)" and k: "patch_covers c k" for c' k
  proof
    assume cov: "patch_covers c' k"
    from c' obtain r' where r': "r' \<in> set rs2" "is_durable C (record_txn r')" "change_of r' = Some (?loc, c')"
      by (auto simp: changes_def)
    from change_target [OF rok r'(3) fs] r'(1) cov obtain j where
      "slot_target r' = Some (f, p, j)" "16 + j * 128 \<le> k" "k < 16 + j * 128 + 128" by auto
    moreover from this k c img have "j = i" by (simp add: patch_covers_def SLOT_SIZE_def)
    ultimately show False using assms(8) r' by blast
  qed
  obtain page where page: "fold (change_page crc f) (changes C ?loc ?rs) ?a = Some page"
      "subslice (16 + i * 128) SLOT_SIZE page = img" "validate_page_buf crc (file_magic f) page = Inr ()"
      "word_of_nat i + 1 \<le> ph_slot_count (header_read page)"
    using fold_last_patch [OF ok [unfolded R] len free, of crc f] c img unfolding R by metis
  have "unat (word_of_nat i + 1 :: u16) = i + 1" using assms(9) by (simp add: SLOTS_PER_PAGE_def unat_word_ariths unat_of_nat)
  with page(4) have "i < unat (ph_slot_count (header_read page))" by (simp add: word_le_nat_alt)
  moreover have "rc_pages (fst (recover_from_wal crc buf st)) ?loc = Some page"
    using replay_records_pages [OF assms(1,2), of crc C ?loc] page(1) assms(3,4)
    by (simp add: recover_from_wal_def Let_def)
  moreover have "p + 1 \<le> file_page_count (rc_meta (fst (recover_from_wal crc buf st))) f"
    using order_trans [OF slot_write_counts [OF assms(5-7)] replay_records_count]
    by (simp add: recover_from_wal_def Let_def assms(3) assms(4) [symmetric] replay_records_append
        replay_records_Cons del: replay_records.simps)
  moreover have "p < p + 1" using assms(10) unatSuc [of p] by (simp add: word_less_nat_alt add.commute)
  ultimately show ?thesis
    using page(2,3) by (auto simp: PAGE_HEADER_SIZE_def SLOT_SIZE_def)
qed

text \<open>C13 (the last durable write wins). After recovery a slot holds the image of the last
  durable record that targets it, in a page that passes validation, is inside the file's page
  count and whose slot count reaches the slot, so the rebuild of the indexes finds it.\<close>

theorem recovery_last_write_wins:
  assumes "pages_ok st" "list_all record_ok (wr_records (read_all crc buf))"
    and "wr_records (read_all crc buf) = rs1 @ r # rs2" "C = wr_committed (read_all crc buf)"
    and "slot_target r = Some (f, p, i)" "slot_image r = Some img" "is_durable C (record_txn r)"
    and "\<forall>r'\<in>set rs2. is_durable C (record_txn r') \<longrightarrow> slot_target r' \<noteq> Some (f, p, i)"
    and "i < SLOTS_PER_PAGE" "p + 1 \<noteq> 0"
  shows "\<exists>page. rc_pages (fst (recover_from_wal crc buf st)) (f, p) = Some page \<and>
    subslice (PAGE_HEADER_SIZE + i * SLOT_SIZE) SLOT_SIZE page = img \<and>
    validate_page_buf crc (file_magic f) page = Inr () \<and>
    i < unat (ph_slot_count (header_read page)) \<and>
    p < file_page_count (rc_meta (fst (recover_from_wal crc buf st))) f"
  by (rule last_durable_write [OF assms])

theorem recovery_last_write_wins_witness:
  "\<exists>page. rc_pages (fst (recover_from_wal (\<lambda>_. 0)
       (concat (map (encode (\<lambda>_. 0)) [WriteNode 1 0 3 (replicate 128 7) None, TombstoneNode 2 9 None]))
       \<lparr>rc_pages = Map.empty, rc_meta = meta_new\<rparr>)) (Nodes, 0) = Some page \<and>
     subslice (PAGE_HEADER_SIZE + 3 * SLOT_SIZE) SLOT_SIZE page = replicate 128 7"
proof -
  let ?rs = "[WriteNode 1 0 3 (replicate 128 7) None, TombstoneNode 2 9 None]"
  have ok: "list_all record_ok ?rs" by (simp add: SLOT_SIZE_def)
  note rs = read_whole_log [OF ok, of "\<lambda>_. 0"]
  from recovery_last_write_wins [of "\<lparr>rc_pages = Map.empty, rc_meta = meta_new\<rparr>" "\<lambda>_. 0"
      "concat (map (encode (\<lambda>_. 0)) ?rs)" "[]" "WriteNode 1 0 3 (replicate 128 7) None" "[TombstoneNode 2 9 None]" _
      Nodes 0 3 "replicate 128 7"]
  show ?thesis
    unfolding rs using ok by (simp add: pages_ok_def is_durable_def SLOTS_PER_PAGE_def) blast
qed

end
