(* ===== verification/Graph_Durability.thy ===== *)
theory Graph_Durability
  imports Graph_Theorems Wal_Recovery
begin

text \<open>
  Durability: what a commit has put into the write-ahead log when it returns, and what the
  recovery of \<open>Wal_Recovery\<close> makes of that log after a crash. The engine's log entries are
  turned into the records of \<open>Wal_Record\<close> by \<open>record_of\<close>; the slot codecs, which are not
  part of this theory, are its parameters.
\<close>

named_theorems grows_intros

section \<open>Steps that only append to the log\<close>

definition log_grows :: "'a gstep \<Rightarrow> bool" where
  "log_grows m \<longleftrightarrow> (\<forall>g. (\<exists>ys. g_wal (snd (m g)) = g_wal g @ ys) \<and> g_wal_synced (snd (m g)) = g_wal_synced g)"

lemma log_growsI: "(\<And>g. (\<exists>ys. g_wal (snd (m g)) = g_wal g @ ys) \<and> g_wal_synced (snd (m g)) = g_wal_synced g) \<Longrightarrow> log_grows m"
  by (simp add: log_grows_def)

lemma grows_sbind [grows_intros]:
  assumes "log_grows m" "\<And>x. log_grows (f x)"
  shows "log_grows (sbind m f)"
proof (rule log_growsI)
  fix g
  obtain r g1 where m: "m g = (r, g1)" by fastforce
  from assms(1) m obtain ys where ys: "g_wal g1 = g_wal g @ ys" "g_wal_synced g1 = g_wal_synced g"
    unfolding log_grows_def by (metis snd_conv)
  show "(\<exists>ys. g_wal (snd (sbind m f g)) = g_wal g @ ys) \<and> g_wal_synced (snd (sbind m f g)) = g_wal_synced g"
  proof (cases r)
    case (Inl e)
    with m ys show ?thesis by (simp add: sbind_def)
  next
    case (Inr x)
    from assms(2) [of x] obtain zs where "g_wal (snd (f x g1)) = g_wal g1 @ zs" "g_wal_synced (snd (f x g1)) = g_wal_synced g1"
      unfolding log_grows_def by metis
    with Inr m ys show ?thesis by (simp add: sbind_def)
  qed
qed

lemma grows_basic [grows_intros]: "log_grows (sret x)" "log_grows (sfail e)" "log_grows (sread h)"
  by (simp_all add: log_grows_def)

lemma grows_smodify [grows_intros]:
  "(\<And>g. g_wal (f g) = g_wal g \<and> g_wal_synced (f g) = g_wal_synced g) \<Longrightarrow> log_grows (smodify f)"
  by (simp add: log_grows_def)

lemma grows_io [grows_intros]: "log_grows io"
  by (simp add: log_grows_def io_def split: list.splits)

lemma grows_wal_append [grows_intros]: "log_grows (wal_append r)"
proof -
  have "log_grows (smodify (\<lambda>g. g\<lparr>g_wal := g_wal g @ [r]\<rparr>))" by (simp add: log_grows_def)
  then show ?thesis unfolding wal_append_def by (rule grows_sbind [OF grows_io])
qed

lemma grows_pointwise:
  "(\<And>g. \<exists>m'. log_grows m' \<and> m g = m' g) \<Longrightarrow> log_grows m"
  unfolding log_grows_def by metis

lemma grows_wal_log [grows_intros]: "log_grows (wal_log r)"
proof (rule grows_pointwise)
  fix g show "\<exists>m'. log_grows m' \<and> wal_log r g = m' g"
    using grows_wal_append [of r] grows_basic(1) [of "()"] by (cases "g_wal_enabled g") (auto simp: wal_log_def sret_def)
qed

lemma grows_siter [grows_intros]: "(\<And>x. log_grows (f x)) \<Longrightarrow> log_grows (siter f xs)"
  by (induction xs) (auto intro!: grows_intros)

lemma grows_slots [grows_intros]: "log_grows (put_node_slot i n)" "log_grows (log_node_slot i n)"
  unfolding log_node_slot_def put_node_slot_def by (intro grows_intros; simp)+

lemma grows_with [grows_intros]: "log_grows (with_table f)" "log_grows (with_registry h)"
  by (simp_all add: log_grows_def with_table_def with_registry_def split: option.splits)

lemma grows_materialize [grows_intros]: "log_grows (materialize_node_slot_with_pointer i p)"
proof (rule grows_pointwise)
  fix g show "\<exists>m'. log_grows m' \<and> materialize_node_slot_with_pointer i p g = m' g"
    using grows_slots(2) grows_basic(1) [of "()"]
    by (auto simp: materialize_node_slot_with_pointer_def sret_def split: sum.splits)
qed

lemma grows_persist [grows_intros]: "log_grows (persist_adj_pointer_to_slot i p)"
proof (rule grows_pointwise)
  fix g show "\<exists>m'. log_grows m' \<and> persist_adj_pointer_to_slot i p g = m' g"
    using grows_slots(2) grows_materialize grows_basic(2) [of StorageError]
    by (auto simp: persist_adj_pointer_to_slot_def sfail_def split: option.splits) metis+
qed

lemma grows_resolve_adj [grows_intros]: "log_grows (resolve_adj_pointer i)"
  by (simp add: log_grows_def resolve_adj_pointer_def Let_def split: option.splits)

lemma grows_append_adj [grows_intros]: "log_grows (append_and_update_caches i dir p ids)"
proof (rule grows_pointwise)
  fix g show "\<exists>m'. log_grows m' \<and> append_and_update_caches i dir p ids g = m' g"
    unfolding append_and_update_caches_def Let_def
    by (rule exI, rule conjI [rotated], rule refl) (intro grows_intros; simp)
qed

lemma grows_add_adj [grows_intros]: "log_grows (add_edge_to_adjacency i dir e)"
proof (rule grows_pointwise)
  have "log_grows (write_adj_immediate i dir e)"
    unfolding write_adj_immediate_def by (intro grows_intros)
  moreover have "log_grows (smodify (\<lambda>g. g\<lparr>g_adj_pending := alter_default [] (\<lambda>es. es @ [e]) (i, dir) (g_adj_pending g)\<rparr>))"
    by (intro grows_intros) simp
  ultimately show "\<exists>m'. log_grows m' \<and> add_edge_to_adjacency i dir e g = m' g" for g
    by (cases "g_batch_depth g > 0") (auto simp: add_edge_to_adjacency_def smodify_def)
qed

lemma grows_reconcile [grows_intros]: "log_grows (reconcile_committed_delta k d)"
proof (rule grows_pointwise)
  have ins: "log_grows (reconcile_edge_insert e)" for e
    unfolding reconcile_edge_insert_def by (intro grows_intros) (simp add: insert_pair_index_def)
  have "log_grows (reconcile_net k op prior new)" for op prior new
    unfolding reconcile_net_def
    using ins by (auto simp: log_grows_def reconcile_node_insert_def reconcile_node_update_add_only_def
        reconcile_edge_update_add_only_def insert_pair_index_def
        split: entity_key.splits delta_op.splits option.splits entity_snapshot.splits)
  then show "\<exists>m'. log_grows m' \<and> reconcile_committed_delta k d g = m' g" for g
    by (auto simp: reconcile_committed_delta_def Let_def)
qed

lemma grows_commit_apply: "log_grows (commit_apply x tc)"
  unfolding commit_apply_def by (intro grows_intros)

section \<open>What a commit logs\<close>

text \<open>The redo entry of one committed delta.\<close>

fun redo_entry :: "nat \<Rightarrow> entity_key \<times> delta \<Rightarrow> wal_entry" where
  "redo_entry x (KeyNode i, d) =
     (case dl_new d of Some (SnapNode n) \<Rightarrow> WalWriteNode (nd_id n) n (Some x) | _ \<Rightarrow> WalTombstoneNode i (Some x))"
| "redo_entry x (KeyEdge i, d) =
     (case dl_new d of Some (SnapEdge e) \<Rightarrow> WalWriteEdge (ed_id e) e (Some x) | _ \<Rightarrow> WalTombstoneEdge i (Some x))"

lemma wal_append_logged: "wal_append r g = (Inr u, g') \<Longrightarrow> g_wal g' = g_wal g @ [r]"
  by (auto simp: wal_append_def sbind_eq_Inr io_def split: list.splits if_splits)

lemma redo_logged:
  assumes "wal_log_committed_delta x kd g = (Inr u, g')" "g_wal_enabled g"
  shows "g_wal g' = g_wal g @ [redo_entry x kd]"
proof -
  have io: "g_wal g2 = g_wal g1" if "io g1 = (Inr v, g2)" for g1 g2 v
    using that by (auto simp: io_def split: list.splits if_splits)
  show ?thesis
    using assms
    by (cases kd) (auto simp: wal_log_committed_delta_def sbind_eq_Inr
        split: entity_key.splits option.splits entity_snapshot.splits dest!: wal_append_logged io)
qed

lemma wal_enabled_kept: "keeps core m \<Longrightarrow> m g = (r, g') \<Longrightarrow> g_wal_enabled g' = g_wal_enabled g"
  "keeps core m \<Longrightarrow> m g = (r, g') \<Longrightarrow> g_batch_depth g' = g_batch_depth g"
  by (rule core_eqD(4), erule (1) keepsD) (rule core_eqD(3), erule (1) keepsD)

lemma redo_all_logged:
  assumes "siter (wal_log_committed_delta x) kds g = (Inr u, g')" "g_wal_enabled g"
  shows "g_wal g' = g_wal g @ map (redo_entry x) kds"
  using assms
proof (induction kds arbitrary: g)
  case (Cons kd kds)
  then obtain v g1 where g1: "wal_log_committed_delta x kd g = (Inr v, g1)"
      "siter (wal_log_committed_delta x) kds g1 = (Inr u, g')"
    by (auto simp: sbind_eq_Inr)
  moreover have "g_wal_enabled g1"
    using wal_enabled_kept(1) [OF keeps_core_wal_log_committed g1(1)] Cons.prems(2) by simp
  ultimately show ?case using Cons.IH [of g1] redo_logged [OF g1(1) Cons.prems(2)] by simp
qed simp

lemma commit_log_logged:
  assumes "commit_log x g = (Inr tc, g')" "g_wal_enabled g" "g_batch_depth g = 0"
  shows "g_wal g' = g_wal g @ map (redo_entry x) (committed_of g x) @ [WalCommit x] \<and>
    g_wal_synced g' = length (g_wal g')"
proof -
  obtain c r t where s: "g_clock g = Some c" "g_registry g = Some r" "g_delta_table g = Some t"
    using assms(1) by (auto simp: commit_log_def Let_def split: if_splits option.splits prod.splits)
  let ?g1 = "g\<lparr>g_clock := Some (snd (clock_next c))\<rparr>"
  have cm: "committed_of g x = collect_committed t x {} (keys_written_by r x)"
    using s by (simp add: committed_of_def)
  obtain u1 g2 u2 g3 u3 where st:
      "siter (wal_log_committed_delta x) (committed_of g x) ?g1 = (Inr u1, g2)"
      "wal_log (WalCommit x) g2 = (Inr u2, g3)" "wal_sync g3 = (Inr u3, g')"
    using assms(1) s cm
    by (auto simp: commit_log_def Let_def sbind_eq_Inr clock_next_def split: if_splits)
  have "keeps core (siter (wal_log_committed_delta x) (committed_of g x))" by (intro keeps_intros)
  note k2 = wal_enabled_kept [OF this st(1)] and k3 = wal_enabled_kept [OF keeps_core_wal_log st(2)]
  have "g_wal g2 = g_wal g @ map (redo_entry x) (committed_of g x)"
    using redo_all_logged [OF st(1)] assms(2) by simp
  moreover have "g_wal g3 = g_wal g2 @ [WalCommit x]"
    using st(2) k2 assms(2) wal_append_logged by (auto simp: wal_log_def)
  moreover have "g_wal g' = g_wal g3 \<and> g_wal_synced g' = length (g_wal g3)"
    using st(3) k2 k3 assms(3)
    by (auto simp: wal_sync_def sbind_eq_Inr io_def split: list.splits if_splits)
  ultimately show ?thesis by simp
qed

section \<open>The log as records\<close>

text \<open>
  The record an entry is written as (\<^verbatim>\<open>wal_log_slot\<close>, \<^verbatim>\<open>wal_log_tombstone\<close>,
  \<^verbatim>\<open>wal_log_adj_page\<close>): \<open>en\<close> and \<open>ee\<close> encode a node and an edge slot, \<open>ap\<close> is
  the image of an adjacency page. The writer stamps the sequence number.
\<close>

fun record_of :: "(node \<Rightarrow> bytes) \<Rightarrow> (edge \<Rightarrow> bytes) \<Rightarrow> (u32 \<Rightarrow> bytes) \<Rightarrow> wal_entry \<Rightarrow> wal_record" where
  "record_of en ee ap (WalBegin x) = Begin 0 (word_of_nat x)"
| "record_of en ee ap (WalCommit x) = Commit 0 (word_of_nat x)"
| "record_of en ee ap (WalRollback x) = Rollback 0 (word_of_nat x)"
| "record_of en ee ap (WalWriteNode i n t) =
     WriteNode 0 (word_of_nat (fst (page_and_slot i))) (word_of_nat (snd (page_and_slot i))) (en n) (map_option word_of_nat t)"
| "record_of en ee ap (WalWriteEdge i e t) =
     WriteEdge 0 (word_of_nat (fst (page_and_slot i))) (word_of_nat (snd (page_and_slot i))) (ee e) (map_option word_of_nat t)"
| "record_of en ee ap (WalTombstoneNode i t) = TombstoneNode 0 (word_of_nat i) (map_option word_of_nat t)"
| "record_of en ee ap (WalTombstoneEdge i t) = TombstoneEdge 0 (word_of_nat i) (map_option word_of_nat t)"
| "record_of en ee ap (WalWriteAdjPage p t) = WriteAdjPage 0 p (ap p) (map_option word_of_nat t)"

text \<open>The log file after the entries were appended to a fresh log.\<close>

definition log_file ::
  "(bytes \<Rightarrow> u32) \<Rightarrow> (node \<Rightarrow> bytes) \<Rightarrow> (edge \<Rightarrow> bytes) \<Rightarrow> (u32 \<Rightarrow> bytes) \<Rightarrow> wal_entry list \<Rightarrow> bytes" where
  "log_file crc en ee ap es =
     ww_file (append_all crc (map (record_of en ee ap) es) (wal_writer_open crc []))"

lemma record_set_lsn [simp]:
  "record_txn (set_lsn l r) = record_txn r" "slot_target (set_lsn l r) = slot_target r"
  "slot_image (set_lsn l r) = slot_image r"
  by (cases r; simp)+

text \<open>The node slot an entry concerns.\<close>

fun entry_slot :: "wal_entry \<Rightarrow> (nat \<times> nat) option" where
  "entry_slot (WalWriteNode i n t) = Some (page_and_slot i)"
| "entry_slot (WalTombstoneNode i t) = Some (page_and_slot i)"
| "entry_slot _ = None"

lemma page_and_slot_bounds: "fst (page_and_slot i) < 2 ^ 32" "snd (page_and_slot i) < SLOTS_PER_PAGE"
  by (simp_all add: page_and_slot_def Let_def SLOTS_PER_PAGE_def)

lemma unat_pred: "unat (word_of_nat i - 1 :: u64) = (i + (2 ^ 64 - 1)) mod 2 ^ 64"
proof -
  have m: "(of_nat (2 ^ 64 - 1) :: u64) = - 1" by simp
  have "(word_of_nat i - 1 :: u64) = of_nat (i + (2 ^ 64 - 1))"
    unfolding of_nat_add m by simp
  then show ?thesis by (simp only: unat_of_nat) simp
qed

text \<open>The records of the engine target the slots \<^verbatim>\<open>page_and_slot\<close> gives.\<close>

lemma slot_target_record:
  "slot_target (record_of en ee ap e) = Some (Nodes, p, j) \<longleftrightarrow>
     (\<exists>ps. entry_slot e = Some ps \<and> p = word_of_nat (fst ps) \<and> j = snd ps)"
proof -
  have "unat (word_of_nat (snd (page_and_slot i)) :: byte) = snd (page_and_slot i)" for i
    using page_and_slot_bounds(2) [of i] by (simp add: SLOTS_PER_PAGE_def unat_of_nat)
  moreover have "(word_of_nat (m div 31 mod 2 ^ 32) :: u32) = word_of_nat (m div 31)" for m
    by (simp add: word_of_nat_eq_iff take_bit_eq_mod)
  ultimately show ?thesis
    by (cases e) (auto simp: unat_pred page_and_slot_def Let_def SLOTS_PER_PAGE_def simp del: of_nat_diff)
qed

definition codecs_ok :: "(node \<Rightarrow> bytes) \<Rightarrow> (edge \<Rightarrow> bytes) \<Rightarrow> (u32 \<Rightarrow> bytes) \<Rightarrow> bool" where
  "codecs_ok en ee ap \<longleftrightarrow> (\<forall>n. length (en n) = SLOT_SIZE) \<and> (\<forall>e. length (ee e) = SLOT_SIZE) \<and>
     (\<forall>p. length (ap p) = PAGE_SIZE)"

lemma record_of_ok: "codecs_ok en ee ap \<Longrightarrow> list_all record_ok (map (record_of en ee ap) es)"
proof (induction es)
  case (Cons e es)
  then show ?case by (cases e) (simp_all add: codecs_ok_def)
qed simp

lemma log_file_records:
  assumes "codecs_ok en ee ap"
  shows "wr_records (read_all crc (log_file crc en ee ap es)) = stamp 1 (map (record_of en ee ap) es)"
    and "wr_committed (read_all crc (log_file crc en ee ap es)) = committed_ids (stamp 1 (map (record_of en ee ap) es))"
proof -
  show r: "wr_records (read_all crc (log_file crc en ee ap es)) = stamp 1 (map (record_of en ee ap) es)"
    using record_of_ok [OF assms, of es] by (simp add: log_file_def append_all_fresh read_whole_log)
  show "wr_committed (read_all crc (log_file crc en ee ap es)) = committed_ids (stamp 1 (map (record_of en ee ap) es))"
    unfolding r [symmetric] by (simp add: read_all_def split: prod.splits)
qed

text \<open>A transaction whose commit entry is in the log counts as committed.\<close>

lemma commit_entry_durable:
  assumes "codecs_ok en ee ap" "WalCommit x \<in> set es"
  shows "word_of_nat x \<in> wr_committed (read_all crc (log_file crc en ee ap es))"
proof -
  from assms(2) have "Commit 0 (word_of_nat x) \<in> set (map (record_of en ee ap) es)" by force
  then obtain l where "set_lsn l (Commit 0 (word_of_nat x)) \<in> set (stamp 1 (map (record_of en ee ap) es))"
    using stamp_mem by blast
  then show ?thesis by (auto simp: log_file_records(2) [OF assms(1)] committed_ids_iff)
qed

text \<open>What recovery makes of a node write of a committed transaction that nothing later in the
  log touches.\<close>

lemma node_write_recovered:
  assumes "codecs_ok en ee ap" "pages_ok st" "es = es1 @ WalWriteNode i n (Some x) # es2" "WalCommit x \<in> set es"
    and "\<forall>e\<in>set es2. entry_slot e \<noteq> Some (page_and_slot i)" "fst (page_and_slot i) + 1 < 2 ^ 32"
  shows "\<exists>page. rc_pages (fst (recover_from_wal crc (log_file crc en ee ap es) st))
      (Nodes, word_of_nat (fst (page_and_slot i))) = Some page \<and>
    subslice (PAGE_HEADER_SIZE + snd (page_and_slot i) * SLOT_SIZE) SLOT_SIZE page = en n"
proof -
  let ?rec = "record_of en ee ap" and ?buf = "log_file crc en ee ap es"
  let ?k = "1 + word_of_nat (length es1) :: u64" and ?p = "word_of_nat (fst (page_and_slot i)) :: u32"
  let ?r = "set_lsn ?k (?rec (WalWriteNode i n (Some x)))" and ?rs2 = "stamp (?k + 1) (map ?rec es2)"
  have split: "wr_records (read_all crc ?buf) = stamp 1 (map ?rec es1) @ ?r # ?rs2"
    unfolding log_file_records(1) [OF assms(1)] assms(3) by (simp add: stamp_append)
  have ok: "list_all record_ok (wr_records (read_all crc ?buf))"
    unfolding log_file_records(1) [OF assms(1)] using record_of_ok [OF assms(1)] by simp
  have tgt: "slot_target ?r = Some (Nodes, ?p, snd (page_and_slot i))"
    using slot_target_record [of en ee ap "WalWriteNode i n (Some x)" ?p "snd (page_and_slot i)"] by simp
  have dur: "is_durable (wr_committed (read_all crc ?buf)) (record_txn ?r)"
    using commit_entry_durable [OF assms(1,4)] by (simp add: is_durable_def)
  have "slot_target q \<noteq> Some (Nodes, ?p, snd (page_and_slot i))" if "q \<in> set ?rs2" for q
  proof
    assume q: "slot_target q = Some (Nodes, ?p, snd (page_and_slot i))"
    from stamp_from [OF that] obtain l e where e: "e \<in> set es2" "q = set_lsn l (?rec e)" by auto
    with q obtain ps where ps: "entry_slot e = Some ps" "?p = word_of_nat (fst ps)" "snd (page_and_slot i) = snd ps"
      using slot_target_record [of en ee ap e] by auto
    moreover have "fst ps < 2 ^ 32" using ps(1) page_and_slot_bounds(1) by (cases e) auto
    ultimately have "fst ps = fst (page_and_slot i)"
      using page_and_slot_bounds(1) [of i] arg_cong [OF ps(2), of unat, unfolded unat_of_nat] by simp
    with ps e(1) assms(5) show False by (metis prod.collapse)
  qed
  moreover have "?p + 1 \<noteq> 0"
  proof
    assume "?p + 1 = 0"
    then have "(word_of_nat (fst (page_and_slot i) + 1) :: u32) = 0" by (simp add: add.commute)
    from arg_cong [OF this, of unat, unfolded unat_of_nat] assms(6) show False by simp
  qed
  ultimately show ?thesis
    using last_durable_write [OF assms(2) ok split refl tgt _ dur _ page_and_slot_bounds(2)] by simp blast
qed

section \<open>Properties\<close>

text \<open>C10 (a committed transaction survives a crash). With the log on and outside a batch, a commit
  of \<open>x\<close> that returns has appended, behind everything logged before, the redo entry of each of
  its keys and the commit marker, and synced the log up to them. Take any crash after that: the
  log keeps at least its synced entries. Then recovery counts \<open>x\<close> as committed, and every node
  \<open>n\<close> it wrote, unless a later entry concerns the same slot, is back in its slot of the recovered
  page.\<close>

theorem commit_survives_crash:
  assumes "g_wal_enabled g" "g_batch_depth g = 0" "commit_txn x g = (Inr u, g')"
    and "g_wal_synced g' \<le> k" "es = take k (g_wal g')" "codecs_ok en ee ap" "pages_ok st"
  shows "(\<exists>rest. es = (g_wal g @ map (redo_entry x) (committed_of g x) @ [WalCommit x]) @ rest) \<and>
    word_of_nat x \<in> wr_committed (read_all crc (log_file crc en ee ap es)) \<and>
    (\<forall>i d n. (KeyNode i, d) \<in> set (committed_of g x) \<longrightarrow> dl_new d = Some (SnapNode n) \<longrightarrow>
       (\<forall>e\<in>set (drop (length (g_wal g)) es). entry_slot e = Some (page_and_slot (nd_id n)) \<longrightarrow>
          e = WalWriteNode (nd_id n) n (Some x)) \<longrightarrow>
       fst (page_and_slot (nd_id n)) + 1 < 2 ^ 32 \<longrightarrow>
       (\<exists>page. rc_pages (fst (recover_from_wal crc (log_file crc en ee ap es) st))
            (Nodes, word_of_nat (fst (page_and_slot (nd_id n)))) = Some page \<and>
          subslice (PAGE_HEADER_SIZE + snd (page_and_slot (nd_id n)) * SLOT_SIZE) SLOT_SIZE page = en n))"
proof -
  obtain tc g1 where g1: "commit_log x g = (Inr tc, g1)" "commit_apply x tc g1 = (Inr u, g')"
    using assms(3) by (auto simp: commit_txn_def sbind_eq_Inr)
  let ?redo = "map (redo_entry x) (committed_of g x)"
  have log1: "g_wal g1 = g_wal g @ ?redo @ [WalCommit x]" "g_wal_synced g1 = length (g_wal g1)"
    using commit_log_logged [OF g1(1) assms(1,2)] by simp_all
  obtain ys where ys: "g_wal g' = g_wal g1 @ ys" "g_wal_synced g' = g_wal_synced g1"
    using grows_commit_apply [of x tc] g1(2) unfolding log_grows_def by (metis snd_conv)
  have es: "es = (g_wal g @ ?redo @ [WalCommit x]) @ take (k - length (g_wal g1)) ys"
    using assms(4) ys(2) log1(2) unfolding assms(5) ys(1) log1(1) [symmetric] by simp
  have com: "WalCommit x \<in> set es" using es by simp
  have "\<exists>page. rc_pages (fst (recover_from_wal crc (log_file crc en ee ap es) st))
          (Nodes, word_of_nat (fst (page_and_slot (nd_id n)))) = Some page \<and>
        subslice (PAGE_HEADER_SIZE + snd (page_and_slot (nd_id n)) * SLOT_SIZE) SLOT_SIZE page = en n"
    if n: "(KeyNode i, d) \<in> set (committed_of g x)" "dl_new d = Some (SnapNode n)"
      and only: "\<forall>e\<in>set (drop (length (g_wal g)) es). entry_slot e = Some (page_and_slot (nd_id n)) \<longrightarrow>
          e = WalWriteNode (nd_id n) n (Some x)" and page: "fst (page_and_slot (nd_id n)) + 1 < 2 ^ 32" for i d n
  proof -
    let ?e = "WalWriteNode (nd_id n) n (Some x)" and ?t = "drop (length (g_wal g)) es"
    have "?e \<in> set ?redo" using n by force
    then have "?e \<in> set ?t" using es by simp
    then obtain t1 t2 where t: "?t = t1 @ ?e # t2" "?e \<notin> set t2" by (meson split_list_last)
    then have "es = (take (length (g_wal g)) es @ t1) @ ?e # t2" by (metis append_assoc append_take_drop_id)
    moreover have "\<forall>e\<in>set t2. entry_slot e \<noteq> Some (page_and_slot (nd_id n))"
      using only t by auto
    ultimately show ?thesis
      using node_write_recovered [OF assms(6,7) _ com _ page] by blast
  qed
  then show ?thesis using es commit_entry_durable [OF assms(6) com] by blast
qed

text \<open>A logged run: transaction 1 adds a node on a graph that keeps a log.\<close>

definition logged1 :: graph where
  "logged1 = snd (begin_txn ((enable_mvcc (graph_new (\<lambda>_. 0) (\<lambda>_. 0) 64 64 (\<lambda>_ _ _. 7)))\<lparr>g_wal_enabled := True\<rparr>))"

definition logged2 :: graph where
  "logged2 = snd (add_node_in_txn 1 (ascii ''P'') [(ascii ''k'', PropI64 1)] logged1)"

lemmas logged_eval = logged1_def logged2_def demo_eval wal_append_def committed_of_def

definition plain_codec :: "'a \<Rightarrow> bytes" where
  "plain_codec _ = replicate 128 7"

definition empty_store :: recovery where
  "empty_store = \<lparr>rc_pages = Map.empty, rc_meta = meta_new\<rparr>"

lemma plain_codecs_ok: "codecs_ok plain_codec plain_codec (\<lambda>_. new_page_buf)" "pages_ok empty_store"
  by (simp_all add: codecs_ok_def plain_codec_def SLOT_SIZE_def pages_ok_def empty_store_def)

theorem commit_survives_crash_witness:
  "word_of_nat 1 \<in> wr_committed (read_all (\<lambda>_. 0) (log_file (\<lambda>_. 0) plain_codec plain_codec (\<lambda>_. new_page_buf)
      (take 3 (g_wal (snd (commit_txn 1 logged2))))))"
proof -
  have "g_wal_enabled logged2" "g_batch_depth logged2 = 0" "commit_txn 1 logged2 = (Inr (), snd (commit_txn 1 logged2))"
    "g_wal_synced (snd (commit_txn 1 logged2)) \<le> 3"
    by (simp_all add: logged_eval)
  from commit_survives_crash [OF this refl plain_codecs_ok, of "\<lambda>_. 0"] show ?thesis by blast
qed

text \<open>The same commit on a device whose sync fails once: the redo entry and the commit marker are
  already appended when the error is returned, and the rollback that follows succeeds.\<close>

definition torn1 :: graph where
  "torn1 = snd (commit_txn 1 (logged2\<lparr>g_faults := [True, True, True, False]\<rparr>))"

definition torn2 :: graph where
  "torn2 = snd (rollback_txn 1 torn1)"

lemmas torn_eval = torn1_def torn2_def logged_eval rollback_txn_def remove_deltas_for_txn_def

lemma torn_log: "g_wal torn2 = [WalBegin 1, WalWriteNode 1 (node_new 1 (ascii ''P'') [(ascii ''k'', PropI64 1)]) (Some 1),
    WalCommit 1, WalRollback 1] \<and> g_wal_synced torn2 = 4"
  by (simp add: torn_eval remove_txn_def)

text \<open>C37 (a rolled-back transaction can come back). The engine tells its client that the commit
  failed and that the rollback succeeded, and the node is gone; but the log holds the commit
  marker, recovery ignores rollback markers, and after a restart the rolled-back node is in its
  slot.\<close>

theorem rolled_back_commit_recovered:
  "fst (commit_txn 1 (logged2\<lparr>g_faults := [True, True, True, False]\<rparr>)) = Inl StorageError \<and>
   fst (rollback_txn 1 torn1) = Inr () \<and> \<not> txn_is_active torn2 1 \<and> node_read torn2 1 = Inl (NodeNotFound 1) \<and>
   (\<exists>page. rc_pages (fst (recover_from_wal crc
        (log_file crc plain_codec plain_codec (\<lambda>_. new_page_buf) (g_wal torn2)) empty_store)) (Nodes, 0) = Some page \<and>
      subslice PAGE_HEADER_SIZE SLOT_SIZE page = plain_codec (node_new 1 (ascii ''P'') [(ascii ''k'', PropI64 1)]))"
proof -
  let ?n = "node_new 1 (ascii ''P'') [(ascii ''k'', PropI64 1)]"
  have ps: "page_and_slot 1 = (0, 0)" by (simp add: page_and_slot_def)
  have "fst (commit_txn 1 (logged2\<lparr>g_faults := [True, True, True, False]\<rparr>)) = Inl StorageError"
    by (simp add: torn_eval)
  moreover have "fst (rollback_txn 1 torn1) = Inr ()" "\<not> txn_is_active torn2 1" "node_read torn2 1 = Inl (NodeNotFound 1)"
    by (simp_all add: torn_eval remove_txn_def node_read_def is_append_only_node_def resolve_node_visible_def
        mvcc_enabled_def auto_commit_start_ts_def)
  moreover have "g_wal torn2 = [WalBegin 1] @ WalWriteNode 1 ?n (Some 1) # [WalCommit 1, WalRollback 1]"
    using torn_log by simp
  from node_write_recovered [OF plain_codecs_ok this, of crc] torn_log ps
  have "\<exists>page. rc_pages (fst (recover_from_wal crc
        (log_file crc plain_codec plain_codec (\<lambda>_. new_page_buf) (g_wal torn2)) empty_store)) (Nodes, 0) = Some page \<and>
      subslice PAGE_HEADER_SIZE SLOT_SIZE page = plain_codec ?n"
    by simp
  ultimately show ?thesis by blast
qed

end
