(* ===== verification/Graph_Findings.thy ===== *)
theory Graph_Findings
  imports Graph_Theorems Graph_Auto "HOL-Library.Code_Target_Numeral"
begin

text \<open>
  Runs of the engine that show where its behaviour differs from what its interface promises:
  a phantom read, a lost update, and an index entry that the vacuum drops. Each is a closed run
  from a fresh graph.
\<close>

section \<open>A phantom read\<close>

text \<open>Transaction 1 and 2 are open, 2 has added node 1; it also adds an edge from the node to
  itself.\<close>

definition phantom1 :: graph where
  "phantom1 = snd (add_edge_in_txn 2 (ascii ''E'') 1 1 [] demo2)"

definition phantom2 :: graph where
  "phantom2 = snd (commit_txn 2 phantom1)"

lemmas edge_eval = demo_eval2 phantom1_def phantom2_def add_edge_in_txn_def require_endpoint_def
  mark_edge_pending_def edge_new_def reconcile_edge_insert_def add_edge_to_adjacency_def
  write_adj_immediate_def resolve_adj_pointer_def append_and_update_caches_def
  persist_adj_pointer_to_slot_def materialize_node_slot_with_pointer_def page_and_slot_def
  SLOTS_PER_PAGE_def patch_adj_pointer_def put_node_slot_def insert_pair_index_def ptr_absent_def
  log_node_slot_def auto_commit_start_ts_def mvcc_enabled_def read_node_def ok_def


section \<open>A lost update\<close>

text \<open>Transactions 3 and 4 both update node 1, 3 first; 4 commits, then 3 commits.\<close>

definition lost1 :: graph where
  "lost1 = snd (begin_txn (snd (begin_txn demo3)))"

definition lost2 :: graph where
  "lost2 = snd (update_node_in_txn 4 1 (node_new 1 (ascii ''P'') [(ascii ''k'', PropI64 20)])
     (snd (update_node_in_txn 3 1 (node_new 1 (ascii ''P'') [(ascii ''k'', PropI64 10)]) lost1)))"

definition lost3 :: graph where "lost3 = snd (commit_txn 4 lost2)"
definition lost4 :: graph where "lost4 = snd (commit_txn 3 lost3)"


section \<open>A dropped index entry\<close>

text \<open>Node 1 is on its page and indexed; transaction 3 adds a property to it and leaves the others
  as they are, commits, and the vacuum runs.\<close>

definition dropped1 :: graph where
  "dropped1 = snd (vacuum_once demo4)"

definition dropped2 :: graph where
  "dropped2 = snd (commit_txn 3 (snd (update_node_in_txn 3 1
     (node_new 1 (ascii ''P'') [(ascii ''k'', PropI64 1), (ascii ''j'', PropI64 2)])
     (snd (begin_txn dropped1)))))"

definition dropped3 :: graph where
  "dropped3 = (let g = snd (vacuum_once dropped2)
     in g\<lparr>g_catalog := add_unique_constraint (ascii ''P'') (ascii ''k'') (g_catalog g)\<rparr>)"


end
