(* ===== verification/Buffer_Pool.thy ===== *)
theory Buffer_Pool
  imports Storage_Page "HOL-Library.AList"
begin

text \<open>
  The page cache (\<^verbatim>\<open>crates/ermya-graph/src/storage/buffer_pool.rs\<close>): frames, the
  intrusive doubly linked list that orders them by use, eviction and flushing, over the data
  files. The list is shown here to be the recency order of the cached pages; \<open>Pool_Pages\<close> shows what
  the pool is to its clients.

  A \<^verbatim>\<open>HashMap\<close> that is counted or iterated is an association list, one that is only
  looked up is a map. A \<^verbatim>\<open>File\<close> is its bytes with a script of faults: \<open>None\<close> lets the next
  access succeed, \<open>Some k\<close> makes it fail, a write after \<open>k\<close> bytes have reached the file. The
  lock is not modelled: each method is one atomic step.
\<close>

section \<open>Errors\<close>

text \<open>The errors of the storage layer; \<open>CorruptProperties\<close> is a corrupt page whose file name is \<^verbatim>\<open>properties\<close>.
  \<open>Diverges\<close> stands for a call that does not return.\<close>

datatype storage_error =
    CorruptPage data_file u32 string
  | PageChecksum data_file u32 u32 u32
  | CorruptProperties u32 string
  | RecordTooLarge nat
  | InvalidStringRef u32
  | NodeMissing nat
  | EdgeMissing nat
  | BufferPoolExhausted
  | IoError
  | Diverges

fun page_fault :: "data_file \<Rightarrow> u32 \<Rightarrow> page_error \<Rightarrow> storage_error" where
  "page_fault f p InvalidMagic = CorruptPage f p ''invalid magic''"
| "page_fault f p (ChecksumMismatch e a) = PageChecksum f p e a"

section \<open>Files\<close>

record disk_file =
  fh_bytes :: bytes
  fh_faults :: "nat option list"

fun next_fault :: "nat option list \<Rightarrow> nat option" where
  "next_fault [] = None"
| "next_fault (x # xs) = x"

text \<open>Writing at an offset: a gap behind the end of the file reads as zeroes.\<close>

definition write_at :: "nat \<Rightarrow> bytes \<Rightarrow> bytes \<Rightarrow> bytes" where
  "write_at off bs xs = take off (xs @ replicate (off - length xs) 0) @ bs @ drop (off + length bs) xs"

definition read_exact :: "nat \<Rightarrow> nat \<Rightarrow> (disk_file, storage_error, bytes) step" where
  "read_exact off n fh =
     ((if next_fault (fh_faults fh) = None \<and> off + n \<le> length (fh_bytes fh)
       then Inr (subslice off n (fh_bytes fh)) else Inl IoError),
      fh\<lparr>fh_faults := tl (fh_faults fh)\<rparr>)"

definition write_all :: "nat \<Rightarrow> bytes \<Rightarrow> (disk_file, storage_error, unit) step" where
  "write_all off bs fh =
     (case next_fault (fh_faults fh) of
        None \<Rightarrow> (Inr (), fh\<lparr>fh_bytes := write_at off bs (fh_bytes fh), fh_faults := tl (fh_faults fh)\<rparr>)
      | Some k \<Rightarrow> (Inl IoError, fh\<lparr>fh_bytes := write_at off (take k bs) (fh_bytes fh), fh_faults := tl (fh_faults fh)\<rparr>))"

section \<open>The pool\<close>

type_synonym page_key = "data_file \<times> u32"

record buffer_frame =
  bf_data :: bytes
  bf_dirty :: bool
  bf_pin_count :: u32

record lru_node =
  ln_prev :: "page_key option"
  ln_next :: "page_key option"

record pool_inner =
  pi_frames :: "(page_key \<times> buffer_frame) list"
  pi_lru_nodes :: "page_key \<rightharpoonup> lru_node"
  pi_lru_head :: "page_key option"
  pi_lru_tail :: "page_key option"
  pi_files :: "data_file \<rightharpoonup> disk_file"

record buffer_pool =
  bp_inner :: pool_inner
  bp_max_pages :: nat

definition MIN_POOL_PAGES :: nat where "MIN_POOL_PAGES = 8"

definition pool_new :: "nat \<Rightarrow> buffer_pool" where
  "pool_new memory_limit_bytes =
     \<lparr>bp_inner = \<lparr>pi_frames = [], pi_lru_nodes = Map.empty, pi_lru_head = None, pi_lru_tail = None,
        pi_files = Map.empty\<rparr>,
      bp_max_pages = max (memory_limit_bytes div PAGE_SIZE) MIN_POOL_PAGES\<rparr>"

definition register_file :: "data_file \<Rightarrow> disk_file \<Rightarrow> buffer_pool \<Rightarrow> buffer_pool" where
  "register_file f fh pool =
     pool\<lparr>bp_inner := (bp_inner pool)\<lparr>pi_files := (pi_files (bp_inner pool))(f \<mapsto> fh)\<rparr>\<rparr>"

subsection \<open>The recency list\<close>

definition set_next :: "page_key option \<Rightarrow> (page_key \<rightharpoonup> lru_node) \<Rightarrow> page_key \<Rightarrow> page_key \<rightharpoonup> lru_node" where
  "set_next q nodes k = (case nodes k of None \<Rightarrow> nodes | Some n \<Rightarrow> nodes(k \<mapsto> n\<lparr>ln_next := q\<rparr>))"

definition set_prev :: "page_key option \<Rightarrow> (page_key \<rightharpoonup> lru_node) \<Rightarrow> page_key \<Rightarrow> page_key \<rightharpoonup> lru_node" where
  "set_prev q nodes k = (case nodes k of None \<Rightarrow> nodes | Some n \<Rightarrow> nodes(k \<mapsto> n\<lparr>ln_prev := q\<rparr>))"

definition lru_unlink_inner :: "page_key \<Rightarrow> pool_inner \<Rightarrow> pool_inner" where
  "lru_unlink_inner key s =
     (case pi_lru_nodes s key of
        None \<Rightarrow> s
      | Some node \<Rightarrow>
          let s1 = s\<lparr>pi_lru_nodes := (pi_lru_nodes s)(key := None)\<rparr>;
              s2 = (case ln_prev node of
                      Some k \<Rightarrow> s1\<lparr>pi_lru_nodes := set_next (ln_next node) (pi_lru_nodes s1) k\<rparr>
                    | None \<Rightarrow> s1\<lparr>pi_lru_head := ln_next node\<rparr>)
          in (case ln_next node of
                Some k \<Rightarrow> s2\<lparr>pi_lru_nodes := set_prev (ln_prev node) (pi_lru_nodes s2) k\<rparr>
              | None \<Rightarrow> s2\<lparr>pi_lru_tail := ln_prev node\<rparr>))"

definition lru_push_front_inner :: "page_key \<Rightarrow> pool_inner \<Rightarrow> pool_inner" where
  "lru_push_front_inner key s =
     (let old_head = pi_lru_head s;
          s1 = s\<lparr>pi_lru_nodes := (pi_lru_nodes s)(key \<mapsto> \<lparr>ln_prev = None, ln_next = old_head\<rparr>)\<rparr>;
          s2 = (case old_head of
                  Some k \<Rightarrow> s1\<lparr>pi_lru_nodes := set_prev (Some key) (pi_lru_nodes s1) k\<rparr>
                | None \<Rightarrow> s1\<lparr>pi_lru_tail := Some key\<rparr>)
      in s2\<lparr>pi_lru_head := Some key\<rparr>)"

definition touch_lru_inner :: "page_key \<Rightarrow> pool_inner \<Rightarrow> pool_inner" where
  "touch_lru_inner key s = lru_push_front_inner key (lru_unlink_inner key s)"

subsection \<open>Disk access and eviction\<close>

definition page_offset :: "u32 \<Rightarrow> nat" where
  "page_offset p = unat p * PAGE_SIZE"

definition read_from_disk ::
  "(bytes \<Rightarrow> u32) \<Rightarrow> data_file \<Rightarrow> u32 \<Rightarrow> (disk_file, storage_error, bytes) step" where
  "read_from_disk crc f p =
     sbind (read_exact (page_offset p) PAGE_SIZE) (\<lambda>buf.
       case validate_page_buf crc (file_magic f) buf of
         Inl e \<Rightarrow> sfail (page_fault f p e)
       | Inr _ \<Rightarrow> sret buf)"

definition write_to_disk :: "u32 \<Rightarrow> bytes \<Rightarrow> (disk_file, storage_error, unit) step" where
  "write_to_disk p data = write_all (page_offset p) data"

text \<open>\<^verbatim>\<open>inner.files.get_mut(&file).ok_or_else(..)?\<close> and an access through the handle.\<close>

definition with_file :: "data_file \<Rightarrow> (disk_file, storage_error, 'a) step \<Rightarrow> (pool_inner, storage_error, 'a) step" where
  "with_file f m s =
     (case pi_files s f of
        None \<Rightarrow> (Inl (CorruptPage f 0 ''data file not registered''), s)
      | Some fh \<Rightarrow> (case m fh of (r, fh') \<Rightarrow> (r, s\<lparr>pi_files := (pi_files s)(f \<mapsto> fh')\<rparr>)))"

definition evictable :: "pool_inner \<Rightarrow> page_key \<Rightarrow> bool" where
  "evictable s k = (case map_of (pi_frames s) k of None \<Rightarrow> False | Some fr \<Rightarrow> bf_pin_count fr = 0)"

text \<open>The cursor walks from the tail along \<^verbatim>\<open>prev\<close>; on a cyclic list it would not stop.\<close>

partial_function (option) find_victim :: "pool_inner \<Rightarrow> page_key option \<Rightarrow> page_key option option" where
  "find_victim s cursor =
     (case cursor of
        None \<Rightarrow> Some None
      | Some key \<Rightarrow>
          if evictable s key then Some (Some key)
          else find_victim s (case pi_lru_nodes s key of None \<Rightarrow> None | Some n \<Rightarrow> ln_prev n))"

definition evict_one_inner :: "(pool_inner, storage_error, unit) step" where
  "evict_one_inner s =
     (case find_victim s (pi_lru_tail s) of
        None \<Rightarrow> (Inl Diverges, s)
      | Some None \<Rightarrow> (Inl BufferPoolExhausted, s)
      | Some (Some victim) \<Rightarrow>
          let s1 = lru_unlink_inner victim s;
              removed = map_of (pi_frames s1) victim;
              s2 = s1\<lparr>pi_frames := AList.delete victim (pi_frames s1)\<rparr>
          in (case removed of
                None \<Rightarrow> (Inr (), s2)
              | Some fr \<Rightarrow>
                  if bf_dirty fr then with_file (fst victim) (write_to_disk (snd victim) (bf_data fr)) s2
                  else (Inr (), s2)))"

lemma find_victim_evictable:
  assumes "find_victim s c = Some (Some k)"
  shows "evictable s k"
proof -
  have "Some k = Some k' \<longrightarrow> evictable s k'" for k'
  proof (rule find_victim.raw_induct [of "\<lambda>s c r. r = Some k' \<longrightarrow> evictable s k'", OF _ assms])
    fix rec s c r
    assume rec: "\<And>s c y. rec s c = Some y \<Longrightarrow> y = Some k' \<longrightarrow> evictable s k'"
      and body: "(case c of None \<Rightarrow> Some None | Some key \<Rightarrow> if evictable s key then Some (Some key)
        else rec s (case pi_lru_nodes s key of None \<Rightarrow> None | Some n \<Rightarrow> ln_prev n)) = Some r"
    show "r = Some k' \<longrightarrow> evictable s k'"
      using body rec by (cases c) (auto split: if_splits)
  qed
  then show ?thesis by simp
qed

lemma frames_kept [simp]:
  "pi_frames (lru_unlink_inner k s) = pi_frames s" "pi_files (lru_unlink_inner k s) = pi_files s"
  "pi_frames (lru_push_front_inner k s) = pi_frames s" "pi_files (lru_push_front_inner k s) = pi_files s"
  "pi_frames (touch_lru_inner k s) = pi_frames s" "pi_files (touch_lru_inner k s) = pi_files s"
  by (auto simp: lru_unlink_inner_def lru_push_front_inner_def touch_lru_inner_def Let_def split: option.splits)

lemma with_file_pool:
  assumes "with_file f m s = (r, s')"
  shows "pi_frames s' = pi_frames s" "pi_lru_nodes s' = pi_lru_nodes s" "pi_lru_head s' = pi_lru_head s"
    "pi_lru_tail s' = pi_lru_tail s" "f' \<noteq> f \<Longrightarrow> pi_files s' f' = pi_files s f'"
    "pi_files s' f' = None \<longleftrightarrow> pi_files s f' = None"
  using assms by (auto simp: with_file_def split: option.splits prod.splits if_splits)

lemma delete_shrinks: "k \<in> fst ` set al \<Longrightarrow> length (AList.delete k al) < length al"
  by (induction al) (force simp: less_Suc_eq_le length_delete_le)+

lemma evict_frames:
  assumes "evict_one_inner s = (r, s')"
  obtains "pi_frames s' = pi_frames s" "r = Inl Diverges \<or> r = Inl BufferPoolExhausted"
  | k where "pi_frames s' = AList.delete k (pi_frames s)" "find_victim s (pi_lru_tail s) = Some (Some k)" "evictable s k"
proof (cases "find_victim s (pi_lru_tail s)")
  case (Some v)
  show thesis
  proof (cases v)
    case (Some k)
    with \<open>find_victim s (pi_lru_tail s) = Some v\<close> have k: "find_victim s (pi_lru_tail s) = Some (Some k)" by simp
    with assms have "pi_frames s' = AList.delete k (pi_frames s)"
      by (auto simp: evict_one_inner_def Let_def split: option.splits if_splits dest: with_file_pool(1))
    then show thesis by (rule that(2) [OF _ k find_victim_evictable [OF k]])
  qed (use assms Some that(1) in \<open>simp add: evict_one_inner_def\<close>)
qed (use assms that(1) in \<open>simp add: evict_one_inner_def\<close>)

function ensure_capacity_inner :: "nat \<Rightarrow> (pool_inner, storage_error, unit) step" where
  "ensure_capacity_inner max_pages s =
     (if length (pi_frames s) \<ge> max_pages then
        (case evict_one_inner s of
           (Inl e, s') \<Rightarrow> (Inl e, s')
         | (Inr _, s') \<Rightarrow> ensure_capacity_inner max_pages s')
      else (Inr (), s))"
  by auto
termination
proof (relation "measure (\<lambda>(m, s). length (pi_frames s))")
  fix m s r s' b
  assume e: "(r, s') = evict_one_inner s" "r = Inr b"
  show "((m, s'), (m, s)) \<in> measure (\<lambda>(m, s). length (pi_frames s))"
    using e(1) [symmetric] 
  proof (rule evict_frames)
    fix k assume "pi_frames s' = AList.delete k (pi_frames s)" "evictable s k"
    then show ?thesis by (force simp: evictable_def split: option.splits dest: map_of_SomeD intro!: delete_shrinks)
  qed (use e(2) in auto)
qed simp


subsection \<open>Reading, writing and flushing\<close>

definition get_page_inner ::
  "(bytes \<Rightarrow> u32) \<Rightarrow> nat \<Rightarrow> data_file \<Rightarrow> u32 \<Rightarrow> (pool_inner, storage_error, bytes) step" where
  "get_page_inner crc max_pages f p s =
     (case map_of (pi_frames s) (f, p) of
        Some fr \<Rightarrow> (Inr (bf_data fr), s)
      | None \<Rightarrow>
          sbind (ensure_capacity_inner max_pages) (\<lambda>_.
          sbind (with_file f (read_from_disk crc f p)) (\<lambda>data.
          sbind (smodify (\<lambda>s. touch_lru_inner (f, p)
            (s\<lparr>pi_frames := AList.update (f, p) \<lparr>bf_data = data, bf_dirty = False, bf_pin_count = 0\<rparr> (pi_frames s)\<rparr>)))
            (\<lambda>_. sret data))) s)"

definition put_page_inner ::
  "nat \<Rightarrow> data_file \<Rightarrow> u32 \<Rightarrow> bytes \<Rightarrow> (pool_inner, storage_error, unit) step" where
  "put_page_inner max_pages f p data s =
     (case map_of (pi_frames s) (f, p) of
        Some fr \<Rightarrow> (Inr (), touch_lru_inner (f, p)
          (s\<lparr>pi_frames := AList.update (f, p) (fr\<lparr>bf_data := data, bf_dirty := True\<rparr>) (pi_frames s)\<rparr>))
      | None \<Rightarrow>
          sbind (ensure_capacity_inner max_pages) (\<lambda>_.
          smodify (\<lambda>s. lru_push_front_inner (f, p)
            (s\<lparr>pi_frames := AList.update (f, p) \<lparr>bf_data = data, bf_dirty = True, bf_pin_count = 0\<rparr> (pi_frames s)\<rparr>))) s)"

definition mark_clean :: "page_key \<Rightarrow> pool_inner \<Rightarrow> pool_inner" where
  "mark_clean k s = s\<lparr>pi_frames := AList.map_entry k (\<lambda>fr. fr\<lparr>bf_dirty := False\<rparr>) (pi_frames s)\<rparr>"

definition flush_one_page :: "data_file \<Rightarrow> u32 \<Rightarrow> (pool_inner, storage_error, unit) step" where
  "flush_one_page f p s =
     (case map_of (pi_frames s) (f, p) of
        None \<Rightarrow> (Inr (), s)
      | Some fr \<Rightarrow>
          sbind (with_file f (write_to_disk p (bf_data fr))) (\<lambda>_. smodify (mark_clean (f, p))) s)"

definition dirty_pages :: "data_file \<Rightarrow> pool_inner \<Rightarrow> u32 list" where
  "dirty_pages f s = map (snd \<circ> fst) (filter (\<lambda>(k, fr). fst k = f \<and> bf_dirty fr) (pi_frames s))"

definition flush_file_inner :: "data_file \<Rightarrow> (pool_inner, storage_error, unit) step" where
  "flush_file_inner f s = siter (flush_one_page f) (dirty_pages f s) s"

definition on_inner :: "(pool_inner, 'e, 'a) step \<Rightarrow> (buffer_pool, 'e, 'a) step" where
  "on_inner m pool = (case m (bp_inner pool) of (r, s) \<Rightarrow> (r, pool\<lparr>bp_inner := s\<rparr>))"

definition get_page :: "(bytes \<Rightarrow> u32) \<Rightarrow> data_file \<Rightarrow> u32 \<Rightarrow> (buffer_pool, storage_error, bytes) step" where
  "get_page crc f p pool = on_inner (get_page_inner crc (bp_max_pages pool) f p) pool"

definition pool_put_page :: "data_file \<Rightarrow> u32 \<Rightarrow> bytes \<Rightarrow> (buffer_pool, storage_error, unit) step" where
  "pool_put_page f p data pool = on_inner (put_page_inner (bp_max_pages pool) f p data) pool"

definition flush_file :: "data_file \<Rightarrow> (buffer_pool, storage_error, unit) step" where
  "flush_file f = on_inner (flush_file_inner f)"

section \<open>The list is the recency order\<close>

text \<open>\<open>linked nodes p ks q\<close>: the keys form a segment with \<open>p\<close> before its first and \<open>q\<close> behind its
  last key.\<close>

definition first_of :: "'k list \<Rightarrow> 'k option \<Rightarrow> 'k option" where
  "first_of ks q = (case ks of [] \<Rightarrow> q | k # _ \<Rightarrow> Some k)"

definition last_of :: "'k list \<Rightarrow> 'k option \<Rightarrow> 'k option" where
  "last_of ks p = (if ks = [] then p else Some (last ks))"

fun linked :: "(page_key \<rightharpoonup> lru_node) \<Rightarrow> page_key option \<Rightarrow> page_key list \<Rightarrow> page_key option \<Rightarrow> bool" where
  "linked nodes p [] q = True"
| "linked nodes p (k # ks) q \<longleftrightarrow> nodes k = Some \<lparr>ln_prev = p, ln_next = first_of ks q\<rparr> \<and> linked nodes (Some k) ks q"

definition lru_list :: "pool_inner \<Rightarrow> page_key list \<Rightarrow> bool" where
  "lru_list s ks \<longleftrightarrow> linked (pi_lru_nodes s) None ks None \<and> distinct ks \<and> dom (pi_lru_nodes s) = set ks \<and>
     pi_lru_head s = first_of ks None \<and> pi_lru_tail s = last_of ks None"

lemma first_last_simps [simp]:
  "first_of [] q = q" "first_of (k # ks) q = Some k" "last_of [] p = p" "last_of (k # ks) p = last_of ks (Some k)"
  "first_of (ks @ ls) q = first_of ks (first_of ls q)" "last_of (ks @ ls) p = last_of ls (last_of ks p)"
  by (auto simp: first_of_def last_of_def split: list.splits)

lemma linked_append:
  "linked N p (xs @ ys) q \<longleftrightarrow> linked N p xs (first_of ys q) \<and> linked N (last_of xs p) ys q"
  by (induction xs arbitrary: p) auto

lemma linked_cong: "(\<And>k. k \<in> set ks \<Longrightarrow> N' k = N k) \<Longrightarrow> linked N' p ks q = linked N p ks q"
  by (induction ks arbitrary: p) auto

lemma linked_upd [simp]: "k \<notin> set ks \<Longrightarrow> linked (N(k := v)) p ks q = linked N p ks q"
  by (rule linked_cong) auto

lemma linked_set_next:
  assumes "linked N p (xs @ [k]) q" "k \<notin> set xs"
  shows "linked (set_next q' N k) p (xs @ [k]) q'"
proof -
  have "linked (set_next q' N k) p xs (Some k) = linked N p xs (Some k)"
    using assms(2) by (intro linked_cong) (auto simp: set_next_def split: option.splits)
  then show ?thesis using assms(1) by (auto simp: linked_append set_next_def)
qed

lemma linked_set_prev:
  assumes "linked N p (k # ks) q" "k \<notin> set ks"
  shows "linked (set_prev p' N k) p' (k # ks) q"
proof -
  have "linked (set_prev p' N k) (Some k) ks q = linked N (Some k) ks q"
    using assms(2) by (intro linked_cong) (auto simp: set_prev_def split: option.splits)
  then show ?thesis using assms(1) by (auto simp: set_prev_def)
qed

lemma set_next_other: "k' \<noteq> k \<Longrightarrow> set_next q N k k' = N k'" "dom (set_next q N k) = dom N"
  by (auto simp: set_next_def split: option.splits)

lemma linked_set_other [simp]:
  "k \<notin> set ks \<Longrightarrow> linked (set_next x N k) p ks q = linked N p ks q"
  "k \<notin> set ks \<Longrightarrow> linked (set_prev x N k) p ks q = linked N p ks q"
  by (rule linked_cong, auto simp: set_next_def set_prev_def split: option.splits)+

lemma set_prev_other: "k' \<noteq> k \<Longrightarrow> set_prev q N k k' = N k'" "dom (set_prev q N k) = dom N"
  by (auto simp: set_prev_def split: option.splits)


text \<open>What unlinking does to the nodes, on both sides of the key.\<close>

lemma unlink_nodes:
  assumes "pi_lru_nodes s k = Some \<lparr>ln_prev = p, ln_next = q\<rparr>"
  shows "pi_lru_nodes (lru_unlink_inner k s) =
      (let N1 = (pi_lru_nodes s)(k := None);
           N2 = (case p of None \<Rightarrow> N1 | Some a \<Rightarrow> set_next q N1 a)
       in case q of None \<Rightarrow> N2 | Some b \<Rightarrow> set_prev p N2 b)"
    and "pi_lru_head (lru_unlink_inner k s) = (if p = None then q else pi_lru_head s)"
    and "pi_lru_tail (lru_unlink_inner k s) = (if q = None then p else pi_lru_tail s)"
  using assms by (simp_all add: lru_unlink_inner_def Let_def split: option.splits)

lemma unlink_lru_list:
  assumes "lru_list s (xs @ k # ys)"
  shows "lru_list (lru_unlink_inner k s) (xs @ ys)"
proof -
  let ?N = "pi_lru_nodes s" and ?p = "last_of xs None" and ?q = "first_of ys None"
  let ?N1 = "?N(k := None)"
  let ?N2 = "case ?p of None \<Rightarrow> ?N1 | Some a \<Rightarrow> set_next ?q ?N1 a"
  let ?N3 = "case ?q of None \<Rightarrow> ?N2 | Some b \<Rightarrow> set_prev ?p ?N2 b"
  have ok: "linked ?N None xs (Some k)" "linked ?N (Some k) ys None" "distinct (xs @ k # ys)" "dom ?N = set (xs @ k # ys)"
      "?N k = Some \<lparr>ln_prev = ?p, ln_next = ?q\<rparr>"
    using assms by (auto simp: lru_list_def linked_append)
  note new = unlink_nodes [OF ok(5)]
  have xs: "linked ?N2 None xs ?q"
  proof (cases xs rule: rev_exhaust)
    case (snoc as a)
    then have "linked ?N1 None (as @ [a]) (Some k)" using ok(1,3) by auto
    then show ?thesis using snoc ok(3) linked_set_next [of ?N1 None as a "Some k" ?q] by auto
  qed simp
  have ys: "linked ?N2 (Some k) ys None"
    using ok(2,3) by (cases xs rule: rev_exhaust) auto
  have dom2: "dom ?N2 = set xs \<union> set ys"
    using ok(3,4) by (cases xs rule: rev_exhaust) (auto simp: set_next_other)
  have ys': "linked ?N3 ?p ys None"
  proof (cases ys)
    case (Cons b bs)
    then show ?thesis using ys ok(3) linked_set_prev [of ?N2 "Some k" b bs None ?p] by auto
  qed simp
  have xs': "linked ?N3 None xs ?q"
    using xs ok(3) by (cases ys) auto
  have "dom ?N3 = set (xs @ ys)" using dom2 by (cases ys) (auto simp: set_prev_other)
  moreover have "pi_lru_head s = first_of xs (Some k)" "pi_lru_tail s = last_of ys (Some k)"
    using assms by (simp_all add: lru_list_def)
  then have "pi_lru_head (lru_unlink_inner k s) = first_of (xs @ ys) None"
      "pi_lru_tail (lru_unlink_inner k s) = last_of (xs @ ys) None"
    using new(2,3) by (simp_all add: first_of_def last_of_def split: list.split)
  ultimately show ?thesis
    unfolding lru_list_def new(1) Let_def using xs' ys' ok(3) by (simp add: linked_append)
qed

lemma unlink_absent: "lru_list s ks \<Longrightarrow> k \<notin> set ks \<Longrightarrow> lru_unlink_inner k s = s"
  unfolding lru_list_def lru_unlink_inner_def by (auto split: option.splits)

lemma push_front_lru_list:
  assumes "lru_list s ks" "k \<notin> set ks"
  shows "lru_list (lru_push_front_inner k s) (k # ks)"
proof (cases ks)
  case Nil
  then show ?thesis using assms by (simp add: lru_list_def lru_push_front_inner_def Let_def)
next
  case (Cons a as)
  let ?N = "(pi_lru_nodes s)(k \<mapsto> \<lparr>ln_prev = None, ln_next = Some a\<rparr>)"
  have "linked ?N None ks None"
    using assms by (simp add: lru_list_def)
  then have "linked (set_prev (Some k) ?N a) (Some k) ks None"
    using Cons assms(1) linked_set_prev [of ?N None a as None "Some k"] by (simp add: lru_list_def)
  moreover have "dom (set_prev (Some k) ?N a) = insert k (set ks)" "set_prev (Some k) ?N a k = ?N k"
    using assms Cons set_prev_other(1) [of k a "Some k" ?N] by (auto simp: lru_list_def set_prev_other(2))
  ultimately show ?thesis
    using assms Cons by (auto simp: lru_list_def lru_push_front_inner_def Let_def)
qed

lemma touch_lru_list:
  assumes "lru_list s ks"
  shows "lru_list (touch_lru_inner k s) (k # removeAll k ks)"
proof (cases "k \<in> set ks")
  case True
  then obtain xs ys where ks: "ks = xs @ k # ys" by (meson split_list)
  moreover have "k \<notin> set (xs @ ys)" using assms ks by (auto simp: lru_list_def)
  ultimately show ?thesis
    using push_front_lru_list [OF unlink_lru_list [of s xs k ys]] assms by (simp add: touch_lru_inner_def)
next
  case False
  then show ?thesis using assms push_front_lru_list by (simp add: touch_lru_inner_def unlink_absent)
qed

text \<open>The cursor finds the last unpinned key of the order.\<close>

lemma find_victim_last:
  assumes "linked (pi_lru_nodes s) None ks q"
  shows "find_victim s (last_of ks None) = Some (find (evictable s) (rev ks))"
  using assms
proof (induction ks arbitrary: q rule: rev_induct)
  case Nil
  then show ?case by (simp add: find_victim.simps)
next
  case (snoc k ks)
  then have "pi_lru_nodes s k = Some \<lparr>ln_prev = last_of ks None, ln_next = q\<rparr>"
      "find_victim s (last_of ks None) = Some (find (evictable s) (rev ks))"
    by (auto simp: linked_append)
  then show ?case by (subst find_victim.simps) simp
qed

end
