(* ===== verification/Pool_Pages.thy ===== *)
theory Pool_Pages
  imports Buffer_Pool
begin

text \<open>
  What the buffer pool is to its clients: a map of pages. The invariant of the pool, what each
  operation keeps of it and of the pages on every outcome, transparency against a plain page map, what
  a flush leaves on disk, the order of eviction, and the page a failed write-back loses.
\<close>

section \<open>The pages a pool stands for\<close>

definition page_valid :: "(bytes \<Rightarrow> u32) \<Rightarrow> data_file \<Rightarrow> bytes \<Rightarrow> bool" where
  "page_valid crc f d \<longleftrightarrow> length d = PAGE_SIZE \<and> validate_page_buf crc (file_magic f) d = Inr ()"

definition disk_page :: "(bytes \<Rightarrow> u32) \<Rightarrow> data_file \<Rightarrow> u32 \<Rightarrow> bytes \<Rightarrow> bytes option" where
  "disk_page crc f p xs =
     (if page_offset p + PAGE_SIZE \<le> length xs \<and> page_valid crc f (subslice (page_offset p) PAGE_SIZE xs)
      then Some (subslice (page_offset p) PAGE_SIZE xs) else None)"

definition file_page :: "(bytes \<Rightarrow> u32) \<Rightarrow> pool_inner \<Rightarrow> page_key \<Rightarrow> bytes option" where
  "file_page crc s k = (case pi_files s (fst k) of None \<Rightarrow> None | Some fh \<Rightarrow> disk_page crc (fst k) (snd k) (fh_bytes fh))"

definition pool_page :: "(bytes \<Rightarrow> u32) \<Rightarrow> pool_inner \<Rightarrow> page_key \<Rightarrow> bytes option" where
  "pool_page crc s k =
     (case map_of (pi_frames s) k of Some fr \<Rightarrow> Some (bf_data fr) | None \<Rightarrow> file_page crc s k)"

text \<open>The invariant: the frames and the list hold the same pages, at most as many as allowed; every
  frame holds a valid page, unpinned (only the tests pin), and a clean frame is what the file has.\<close>

definition pool_synced :: "pool_inner \<Rightarrow> bool" where
  "pool_synced s \<longleftrightarrow> distinct (map fst (pi_frames s)) \<and> (\<exists>ks. lru_list s ks \<and> set ks = fst ` set (pi_frames s))"

definition frame_ok :: "(bytes \<Rightarrow> u32) \<Rightarrow> pool_inner \<Rightarrow> page_key \<Rightarrow> buffer_frame \<Rightarrow> bool" where
  "frame_ok crc s k fr \<longleftrightarrow> page_valid crc (fst k) (bf_data fr) \<and> bf_pin_count fr = 0 \<and>
     (\<not> bf_dirty fr \<longrightarrow> file_page crc s k = Some (bf_data fr))"

definition pool_ok :: "(bytes \<Rightarrow> u32) \<Rightarrow> nat \<Rightarrow> pool_inner \<Rightarrow> bool" where
  "pool_ok crc max_pages s \<longleftrightarrow> pool_synced s \<and> 0 < max_pages \<and> length (pi_frames s) \<le> max_pages \<and>
     (\<forall>k fr. map_of (pi_frames s) k = Some fr \<longrightarrow> frame_ok crc s k fr) \<and> (\<forall>f. pi_files s f \<noteq> None)"

definition no_faults :: "pool_inner \<Rightarrow> bool" where
  "no_faults s \<longleftrightarrow> (\<forall>f fh. pi_files s f = Some fh \<longrightarrow> fh_faults fh = [])"

definition keeps_pages :: "(bytes \<Rightarrow> u32) \<Rightarrow> page_key set \<Rightarrow> pool_inner \<Rightarrow> pool_inner \<Rightarrow> bool" where
  "keeps_pages crc K s s' \<longleftrightarrow> (\<forall>k d. k \<in> K \<longrightarrow> pool_page crc s k = Some d \<longrightarrow> pool_page crc s' k = Some d)"

subsection \<open>Files\<close>

lemma length_write_at [simp]: "length (write_at off bs xs) = max (length xs) (off + length bs)"
  by (auto simp: write_at_def)

lemma nth_write_at:
  assumes "i < off \<or> off + length bs \<le> i" "i < length xs"
  shows "write_at off bs xs ! i = xs ! i"
  using assms by (auto simp: write_at_def nth_append min_def)

lemma subslice_write_at_other:
  assumes "a + n \<le> off \<or> off + length bs \<le> a" "a + n \<le> length xs"
  shows "subslice a n (write_at off bs xs) = subslice a n xs"
  using assms by (auto simp: subslice_def nth_write_at intro!: nth_equalityI)

lemma subslice_write_at: "subslice off (length bs) (write_at off bs xs) = bs"
  by (auto simp: subslice_def write_at_def min_def)

lemma pages_disjoint:
  "p \<noteq> q \<Longrightarrow> page_offset p + PAGE_SIZE \<le> page_offset q \<or> page_offset q + PAGE_SIZE \<le> page_offset p"
proof -
  assume "p \<noteq> q"
  then have "unat p + 1 \<le> unat q \<or> unat q + 1 \<le> unat p" by (metis Suc_eq_plus1 Suc_leI linorder_neqE_nat word_unat_eq_iff)
  then show ?thesis unfolding page_offset_def PAGE_SIZE_def by linarith
qed

lemma disk_page_write_other:
  assumes "disk_page crc f q xs = Some d" "p \<noteq> q" "length bs \<le> PAGE_SIZE"
  shows "disk_page crc f q (write_at (page_offset p) bs xs) = Some d"
proof -
  have "subslice (page_offset q) PAGE_SIZE (write_at (page_offset p) bs xs) = subslice (page_offset q) PAGE_SIZE xs"
    using assms pages_disjoint [of p q]
    by (intro subslice_write_at_other) (auto simp: disk_page_def split: if_splits)
  then show ?thesis using assms(1) by (auto simp: disk_page_def split: if_splits)
qed

lemma disk_page_write:
  assumes "page_valid crc f bs"
  shows "disk_page crc f p (write_at (page_offset p) bs xs) = Some bs"
proof -
  have "subslice (page_offset p) PAGE_SIZE (write_at (page_offset p) bs xs) = bs"
    using assms subslice_write_at [of "page_offset p" bs xs] by (simp add: page_valid_def)
  then show ?thesis using assms by (simp add: disk_page_def page_valid_def)
qed

text \<open>A page write through the pool's handle: what it does to the pages of the files.\<close>

lemma write_through:
  assumes "with_file f (write_to_disk p d) s = (r, s')" "page_valid crc f d" "\<forall>f. pi_files s f \<noteq> None"
  shows "r = Inr () \<Longrightarrow> file_page crc s' (f, p) = Some d"
    and "k \<noteq> (f, p) \<Longrightarrow> file_page crc s k = Some e \<Longrightarrow> file_page crc s' k = Some e"
    and "no_faults s \<Longrightarrow> r = Inr () \<and> no_faults s'"
    and "\<forall>f. pi_files s' f \<noteq> None"
proof -
  obtain fh where fh: "pi_files s f = Some fh" using assms(3) by auto
  obtain fh' where w: "write_all (page_offset p) d fh = (r, fh')" and s': "s' = s\<lparr>pi_files := (pi_files s)(f \<mapsto> fh')\<rparr>"
    using assms(1) fh by (auto simp: with_file_def write_to_disk_def split: prod.splits)
  show "r = Inr () \<Longrightarrow> file_page crc s' (f, p) = Some d"
    using w assms(2) s' by (auto simp: write_all_def file_page_def disk_page_write split: option.splits)
  obtain bs where "fh_bytes fh' = write_at (page_offset p) bs (fh_bytes fh)" "length bs \<le> PAGE_SIZE"
    using w assms(2) by (cases "next_fault (fh_faults fh)") (auto simp: write_all_def page_valid_def intro: that)
  then show "k \<noteq> (f, p) \<Longrightarrow> file_page crc s k = Some e \<Longrightarrow> file_page crc s' k = Some e"
    using s' fh disk_page_write_other by (cases k) (auto simp: file_page_def)
  show "no_faults s \<Longrightarrow> r = Inr () \<and> no_faults s'"
    using w s' fh by (auto simp: no_faults_def write_all_def split: option.splits)
  show "\<forall>f. pi_files s' f \<noteq> None" using s' assms(3) by simp
qed


subsection \<open>Eviction\<close>

definition dropped :: "page_key \<Rightarrow> pool_inner \<Rightarrow> pool_inner" where
  "dropped k s = (lru_unlink_inner k s)\<lparr>pi_frames := AList.delete k (pi_frames s)\<rparr>"

lemma lru_list_frames [simp]: "lru_list (s\<lparr>pi_frames := x\<rparr>) ks = lru_list s ks" "lru_list (s\<lparr>pi_files := y\<rparr>) ks = lru_list s ks"
  by (simp_all add: lru_list_def)

lemma with_file_lru: "with_file f m s = (r, s') \<Longrightarrow> lru_list s' ks = lru_list s ks"
  by (simp add: lru_list_def with_file_pool)

lemma with_file_synced: "with_file f m s = (r, s') \<Longrightarrow> pool_synced s' = pool_synced s"
  by (simp add: pool_synced_def with_file_pool with_file_lru)

lemma dropped_synced:
  assumes "pool_synced s" "k \<in> fst ` set (pi_frames s)"
  shows "pool_synced (dropped k s)" "pi_files (dropped k s) = pi_files s"
    "pi_frames (dropped k s) = AList.delete k (pi_frames s)"
proof -
  obtain ks where ks: "lru_list s ks" "set ks = fst ` set (pi_frames s)" using assms(1) by (auto simp: pool_synced_def)
  then obtain xs ys where split: "ks = xs @ k # ys" using assms(2) by (metis split_list)
  then have "lru_list (dropped k s) (xs @ ys)" using ks(1) unlink_lru_list by (simp add: dropped_def)
  moreover have "set (map fst (AList.delete k (pi_frames s))) = set ks - {k}"
    unfolding delete_keys using ks(2) by simp
  then have "set (xs @ ys) = fst ` set (AList.delete k (pi_frames s))"
    using ks(1) split by (auto simp: lru_list_def)
  ultimately have "lru_list (dropped k s) (xs @ ys)" "set (xs @ ys) = fst ` set (pi_frames (dropped k s))"
    by (simp_all add: dropped_def)
  moreover have "distinct (map fst (pi_frames (dropped k s)))"
    using assms(1) by (simp add: pool_synced_def dropped_def distinct_delete)
  ultimately show "pool_synced (dropped k s)" unfolding pool_synced_def by blast
qed (simp_all add: dropped_def)

lemma synced_victim:
  assumes "lru_list s ks" "evict_one_inner s = (r, s')"
  shows "case find (evictable s) (rev ks) of
      None \<Rightarrow> r = Inl BufferPoolExhausted \<and> s' = s
    | Some k \<Rightarrow> (\<exists>fr. map_of (pi_frames s) k = Some fr \<and> bf_pin_count fr = 0 \<and>
        (if bf_dirty fr then with_file (fst k) (write_to_disk (snd k) (bf_data fr)) (dropped k s) = (r, s')
         else r = Inr () \<and> s' = dropped k s))"
proof -
  have v: "find_victim s (pi_lru_tail s) = Some (find (evictable s) (rev ks))"
    using assms(1) find_victim_last [of s ks None] by (simp add: lru_list_def)
  show ?thesis
  proof (cases "find (evictable s) (rev ks)")
    case None
    then show ?thesis using v assms(2) by (simp add: evict_one_inner_def)
  next
    case (Some k)
    then have "evictable s k" by (auto simp: find_Some_iff)
    then obtain fr where "map_of (pi_frames s) k = Some fr" "bf_pin_count fr = 0"
      by (auto simp: evictable_def split: option.splits)
    then show ?thesis using Some v assms(2) by (auto simp: evict_one_inner_def Let_def dropped_def)
  qed
qed

lemma keeps_pages_trans: "keeps_pages crc K s s1 \<Longrightarrow> keeps_pages crc K s1 s2 \<Longrightarrow> keeps_pages crc K s s2"
  unfolding keeps_pages_def by blast

lemma keeps_pagesD: "keeps_pages crc K s s' \<Longrightarrow> k \<in> K \<Longrightarrow> pool_page crc s k = Some d \<Longrightarrow> pool_page crc s' k = Some d"
  unfolding keeps_pages_def by blast

lemma keeps_pages_all:
  assumes "keeps_pages crc (- {k}) s s'" "pool_page crc s k = Some d" "pool_page crc s' k = Some d"
  shows "keeps_pages crc UNIV s s'"
  unfolding keeps_pages_def
proof (intro allI impI)
  fix k' e assume "pool_page crc s k' = Some e"
  then show "pool_page crc s' k' = Some e" using assms keeps_pagesD [OF assms(1), of k' e] by (cases "k' = k") auto
qed

lemma keeps_pages_refl [simp]: "keeps_pages crc K s s"
  by (simp add: keeps_pages_def)

lemma pool_okD:
  "pool_ok crc m s \<Longrightarrow> map_of (pi_frames s) k = Some fr \<Longrightarrow>
     page_valid crc (fst k) (bf_data fr) \<and> bf_pin_count fr = 0 \<and> (\<not> bf_dirty fr \<longrightarrow> file_page crc s k = Some (bf_data fr))"
  unfolding pool_ok_def frame_ok_def by blast

text \<open>A frame leaves the pool after its page, if dirty, has been written.\<close>

lemma frame_leaves:
  assumes "pool_ok crc m s" "map_of (pi_frames s) k = Some fr"
    and "pi_frames s' = AList.delete k (pi_frames s)" "pool_synced s'" "\<forall>f. pi_files s' f \<noteq> None"
    and "\<And>k' e. k' \<noteq> k \<Longrightarrow> file_page crc s k' = Some e \<Longrightarrow> file_page crc s' k' = Some e"
  shows "pool_ok crc m s'" "file_page crc s' k = Some (bf_data fr) \<Longrightarrow> keeps_pages crc UNIV s s'"
proof -
  have fr: "frame_ok crc s' k' fr'" if "map_of (pi_frames s') k' = Some fr'" for k' fr'
  proof -
    have "k' \<noteq> k" "map_of (pi_frames s) k' = Some fr'" using that assms(3) by (auto simp: delete_conv split: if_splits)
    then show ?thesis using pool_okD [OF assms(1), of k' fr'] assms(6) [of k'] by (auto simp: frame_ok_def)
  qed
  then show "pool_ok crc m s'"
    using assms(1,3,4,5) length_delete_le [of k "pi_frames s"] unfolding pool_ok_def by auto
  assume k: "file_page crc s' k = Some (bf_data fr)"
  have "pool_page crc s' k' = Some d" if "pool_page crc s k' = Some d" for k' d
    using that k assms(2,3) assms(6) [of k' d]
    by (cases "k' = k") (auto simp: pool_page_def delete_conv split: option.splits)
  then show "keeps_pages crc UNIV s s'" by (simp add: keeps_pages_def)
qed

lemma file_page_cong: "pi_files s' = pi_files s \<Longrightarrow> file_page crc s' = file_page crc s"
  by (simp add: file_page_def fun_eq_iff)

lemma write_frame_back:
  assumes "pool_ok crc m s" "map_of (pi_frames s) k = Some fr"
    and "if bf_dirty fr then with_file (fst k) (write_to_disk (snd k) (bf_data fr)) (dropped k s) = (r, s')
         else r = Inr () \<and> s' = dropped k s"
  shows "pool_ok crc m s' \<and> (r = Inr () \<longrightarrow> keeps_pages crc UNIV s s') \<and>
    (no_faults s \<longrightarrow> r = Inr () \<and> no_faults s') \<and> pi_frames s' = AList.delete k (pi_frames s)"
proof -
  have "k \<in> fst ` set (pi_frames s)" using assms(2) by (force dest: map_of_SomeD)
  then have d: "pool_synced (dropped k s)" "pi_files (dropped k s) = pi_files s"
      "pi_frames (dropped k s) = AList.delete k (pi_frames s)"
    using assms(1) dropped_synced [of s k] by (auto simp: pool_ok_def)
  have files: "\<forall>f. pi_files (dropped k s) f \<noteq> None" using assms(1) d(2) by (simp add: pool_ok_def)
  note fr = pool_okD [OF assms(1,2)]
  show ?thesis
  proof (cases "bf_dirty fr")
    case True
    with assms(3) have w: "with_file (fst k) (write_to_disk (snd k) (bf_data fr)) (dropped k s) = (r, s')" by simp
    have v: "page_valid crc (fst k) (bf_data fr)" using fr by simp
    note t = write_through [OF w v files] and frames = with_file_pool(1) [OF w] and sy = with_file_synced [OF w]
    have "file_page crc s' k' = Some e" if "k' \<noteq> k" "file_page crc s k' = Some e" for k' e
      using t(2) [of k' e] that file_page_cong [OF d(2)] by simp
    note l = frame_leaves [OF assms(1,2) frames [unfolded d(3)] _ t(4) this, unfolded sy, OF d(1)]
    have "no_faults (dropped k s) = no_faults s" using d(2) by (simp add: no_faults_def)
    with l t(1,3) frames d(3) show ?thesis by auto
  next
    case False
    with assms(3) have s': "r = Inr ()" "s' = dropped k s" by simp_all
    have "file_page crc (dropped k s) k' = Some e" if "k' \<noteq> k" "file_page crc s k' = Some e" for k' e
      using that file_page_cong [OF d(2)] by simp
    note l = frame_leaves [OF assms(1,2) d(3,1) files this]
    have "no_faults (dropped k s) = no_faults s" using d(2) by (simp add: no_faults_def)
    then show ?thesis using l s' d(3) fr False file_page_cong [OF d(2)] by simp
  qed
qed

lemma evict_one:
  assumes "pool_ok crc m s" "evict_one_inner s = (r, s')"
  shows "pool_ok crc m s' \<and> (r = Inr () \<longrightarrow> keeps_pages crc UNIV s s') \<and>
    (no_faults s \<longrightarrow> pi_frames s \<noteq> [] \<longrightarrow> r = Inr () \<and> no_faults s') \<and>
    set (map fst (pi_frames s')) \<subseteq> set (map fst (pi_frames s))"
proof -
  obtain ks where ks: "lru_list s ks" "set ks = fst ` set (pi_frames s)"
    using assms(1) by (auto simp: pool_ok_def pool_synced_def)
  note victim = synced_victim [OF ks(1) assms(2)]
  have ev: "evictable s k" if k: "k \<in> fst ` set (pi_frames s)" for k
  proof -
    obtain fr where "map_of (pi_frames s) k = Some fr"
      using k map_of_eq_None_iff [of "pi_frames s" k] by (cases "map_of (pi_frames s) k") auto
    then show ?thesis using pool_okD [OF assms(1)] by (simp add: evictable_def)
  qed
  show ?thesis
  proof (cases "find (evictable s) (rev ks)")
    case None
    then have none: "\<not> evictable s k" if "k \<in> set ks" for k
      using that unfolding find_None_iff set_rev by blast
    have "k \<notin> set ks" for k using none [of k] ev [of k] ks(2) by metis
    then have "set ks = {}" by (simp only: set_eq_iff empty_iff simp_thms)
    then show ?thesis using victim None assms(1) ks(2) by simp
  next
    case (Some k)
    from victim obtain fr where "map_of (pi_frames s) k = Some fr"
        "if bf_dirty fr then with_file (fst k) (write_to_disk (snd k) (bf_data fr)) (dropped k s) = (r, s')
         else r = Inr () \<and> s' = dropped k s" unfolding Some option.case by blast
    from write_frame_back [OF assms(1) this] show ?thesis using dom_delete_subset [of k "pi_frames s"] by simp
  qed
qed

declare ensure_capacity_inner.simps [simp del]

lemma ensure_capacity:
  assumes "pool_ok crc m s" "ensure_capacity_inner m s = (r, s')"
  shows "pool_ok crc m s' \<and> (r = Inr () \<longrightarrow> keeps_pages crc UNIV s s' \<and> length (pi_frames s') < m) \<and>
    (no_faults s \<longrightarrow> r = Inr () \<and> no_faults s') \<and> set (map fst (pi_frames s')) \<subseteq> set (map fst (pi_frames s))"
  using assms
proof (induction m s arbitrary: r s' rule: ensure_capacity_inner.induct)
  case (1 m s)
  show ?case
  proof (cases "length (pi_frames s) \<ge> m")
    case True
    obtain r1 s1 where e: "evict_one_inner s = (r1, s1)" by fastforce
    note ev = evict_one [OF 1(2) e]
    have ne: "pi_frames s \<noteq> []" using True 1(2) by (auto simp: pool_ok_def)
    show ?thesis
    proof (cases r1)
      case (Inl x)
      then have "r = Inl x" "s' = s1" using 1(3) True e by (simp_all add: ensure_capacity_inner.simps [of m s])
      then show ?thesis using ev ne Inl by simp
    next
      case (Inr x)
      then have "ensure_capacity_inner m s1 = (r, s')"
        using 1(3) True e by (simp add: ensure_capacity_inner.simps [of m s])
      from 1(1) [OF True e [symmetric] Inr conjunct1 [OF ev] this] show ?thesis
        using ev ne Inr keeps_pages_trans [of crc UNIV s s1 s'] by auto
    qed
  qed (use 1(2,3) in \<open>simp add: ensure_capacity_inner.simps [of m s]\<close>)
qed


subsection \<open>Reads and writes\<close>

lemma length_update: "length (AList.update k v al) = (if k \<in> fst ` set al then length al else Suc (length al))"
  by (induction al) (auto simp: image_iff)

text \<open>A frame is stored under a key and the key becomes the most recently used.\<close>

lemma frame_enters:
  assumes "pool_ok crc m s" "frame_ok crc s k fr" "length (pi_frames s) < m \<or> map_of (pi_frames s) k \<noteq> None"
    and "pi_frames s' = AList.update k fr (pi_frames s)" "pi_files s' = pi_files s"
    and "\<And>ks. lru_list s ks \<Longrightarrow> lru_list s' (k # removeAll k ks)"
  shows "pool_ok crc m s'" "pool_page crc s' k = Some (bf_data fr)" "keeps_pages crc (- {k}) s s'"
proof -
  obtain ks where ks: "lru_list s ks" "set ks = fst ` set (pi_frames s)"
    using assms(1) by (auto simp: pool_ok_def pool_synced_def)
  have "set (k # removeAll k ks) = fst ` set (pi_frames s')" using ks(2) assms(4) by (auto simp: dom_update)
  moreover have "distinct (map fst (pi_frames s'))"
    using assms(1,4) by (simp add: pool_ok_def pool_synced_def distinct_update)
  ultimately have "pool_synced s'" using assms(6) [OF ks(1)] unfolding pool_synced_def by blast
  moreover have "length (pi_frames s') \<le> m"
  proof -
    have "map_of (pi_frames s) k \<noteq> None \<longleftrightarrow> k \<in> fst ` set (pi_frames s)" by (simp add: map_of_eq_None_iff)
    then show ?thesis using assms(1,3,4) by (auto simp: pool_ok_def length_update)
  qed
  moreover have "frame_ok crc s' k' fr'" if "map_of (pi_frames s') k' = Some fr'" for k' fr'
    using that assms(2,4) pool_okD [OF assms(1), of k' fr'] file_page_cong [OF assms(5)]
    by (auto simp: update_conv frame_ok_def split: if_splits)
  ultimately show "pool_ok crc m s'" using assms(1,5) unfolding pool_ok_def by simp
  show "pool_page crc s' k = Some (bf_data fr)" "keeps_pages crc (- {k}) s s'"
    using assms(4) file_page_cong [OF assms(5), of crc] by (auto simp: pool_page_def update_conv keeps_pages_def split: option.splits)
qed

lemma touched: "lru_list (s\<lparr>pi_frames := x\<rparr>) ks \<Longrightarrow> lru_list (touch_lru_inner k (s\<lparr>pi_frames := x\<rparr>)) (k # removeAll k ks)"
  by (rule touch_lru_list)

lemma put_page_ok:
  assumes "pool_ok crc m s" "put_page_inner m f p d s = (r, s')" "page_valid crc f d"
  shows "pool_ok crc m s' \<and> (r = Inr () \<longrightarrow> pool_page crc s' (f, p) = Some d \<and> keeps_pages crc (- {(f, p)}) s s') \<and>
    (no_faults s \<longrightarrow> r = Inr () \<and> no_faults s')"
proof (cases "map_of (pi_frames s) (f, p)")
  case (Some fr)
  let ?fr = "fr\<lparr>bf_data := d, bf_dirty := True\<rparr>"
  let ?s = "touch_lru_inner (f, p) (s\<lparr>pi_frames := AList.update (f, p) ?fr (pi_frames s)\<rparr>)"
  have "frame_ok crc s (f, p) ?fr" using pool_okD [OF assms(1) Some] assms(3) by (simp add: frame_ok_def)
  note en = frame_enters [OF assms(1) this, of ?s]
  have "r = Inr ()" "s' = ?s" using assms(2) Some by (simp_all add: put_page_inner_def)
  then show ?thesis using en Some touched by (simp add: no_faults_def)
next
  case None
  let ?fr = "\<lparr>bf_data = d, bf_dirty = True, bf_pin_count = 0\<rparr>"
  let ?t = "\<lambda>s. s\<lparr>pi_frames := AList.update (f, p) ?fr (pi_frames s)\<rparr>"
  obtain r1 s1 where c: "ensure_capacity_inner m s = (r1, s1)" by fastforce
  note ec = ensure_capacity [OF assms(1) c]
  have absent: "(f, p) \<notin> fst ` set (pi_frames s1)" using ec None by (auto simp: map_of_eq_None_iff)
  have fr: "frame_ok crc s1 (f, p) ?fr" using assms(3) by (simp add: frame_ok_def)
  have lru: "lru_list (lru_push_front_inner (f, p) (?t s1)) ((f, p) # removeAll (f, p) ks)" if "lru_list s1 ks" for ks
  proof -
    obtain ks1 where "lru_list s1 ks1" "set ks1 = fst ` set (pi_frames s1)" using ec by (auto simp: pool_ok_def pool_synced_def)
    then have "(f, p) \<notin> set ks" using that absent by (auto simp: lru_list_def)
    then show ?thesis using push_front_lru_list [of "?t s1" ks "(f, p)"] that by simp
  qed
  show ?thesis
  proof (cases r1)
    case (Inl e)
    then show ?thesis using assms(2) None c ec by (auto simp: put_page_inner_def sbind_def)
  next
    case (Inr u)
    then have "r = Inr ()" "s' = lru_push_front_inner (f, p) (?t s1)"
      using assms(2) None c by (auto simp: put_page_inner_def sbind_def)
    moreover have "pool_ok crc m (lru_push_front_inner (f, p) (?t s1))"
        "pool_page crc (lru_push_front_inner (f, p) (?t s1)) (f, p) = Some d"
        "keeps_pages crc (- {(f, p)}) s1 (lru_push_front_inner (f, p) (?t s1))"
      using frame_enters [OF _ fr _ _ _ lru, of m] ec Inr by auto
    moreover have "keeps_pages crc (- {(f, p)}) s s1" using ec Inr by (auto simp: keeps_pages_def)
    ultimately show ?thesis using ec Inr keeps_pages_trans by (auto simp: no_faults_def)
  qed
qed


lemma read_through:
  assumes "with_file f (read_from_disk crc f p) s = (r, s')" "pi_files s f = Some fh"
  shows "file_page crc s' = file_page crc s" "r = Inr d \<Longrightarrow> file_page crc s (f, p) = Some d"
    "no_faults s \<Longrightarrow> no_faults s'" "no_faults s \<Longrightarrow> file_page crc s (f, p) = Some d \<Longrightarrow> r = Inr d"
    "\<forall>f. pi_files s f \<noteq> None \<Longrightarrow> \<forall>f. pi_files s' f \<noteq> None"
proof -
  let ?off = "page_offset p"
  obtain fh' where rd: "read_from_disk crc f p fh = (r, fh')" and s': "s' = s\<lparr>pi_files := (pi_files s)(f \<mapsto> fh')\<rparr>"
    using assms by (auto simp: with_file_def split: prod.splits)
  have fh': "fh' = fh\<lparr>fh_faults := tl (fh_faults fh)\<rparr>"
    using rd by (auto simp: read_from_disk_def read_exact_def sbind_def split: if_splits sum.splits)
  show "file_page crc s' = file_page crc s" using s' fh' assms(2) by (auto simp: file_page_def fun_eq_iff)
  show "no_faults s \<Longrightarrow> no_faults s'" using s' fh' assms(2) by (auto simp: no_faults_def)
  show "\<forall>f. pi_files s f \<noteq> None \<Longrightarrow> \<forall>f. pi_files s' f \<noteq> None" using s' by simp
  have len: "length (subslice ?off PAGE_SIZE (fh_bytes fh)) = PAGE_SIZE" if "?off + PAGE_SIZE \<le> length (fh_bytes fh)"
    using that by (simp add: subslice_def)
  show "r = Inr d \<Longrightarrow> file_page crc s (f, p) = Some d"
    using rd assms(2) len
    by (auto simp: read_from_disk_def read_exact_def sbind_def file_page_def disk_page_def page_valid_def split: if_splits sum.splits)
  show "no_faults s \<Longrightarrow> file_page crc s (f, p) = Some d \<Longrightarrow> r = Inr d"
    using rd assms(2)
    by (auto simp: read_from_disk_def read_exact_def sbind_def file_page_def disk_page_def page_valid_def no_faults_def split: if_splits)
qed

text \<open>A state with the same frames and list whose files read the same.\<close>

lemma pool_ok_files:
  assumes "pool_ok crc m s" "pi_frames s' = pi_frames s" "\<And>ks. lru_list s' ks = lru_list s ks"
    and "file_page crc s' = file_page crc s" "\<forall>f. pi_files s' f \<noteq> None"
  shows "pool_ok crc m s'" "pool_page crc s' = pool_page crc s"
proof -
  show "pool_ok crc m s'"
    using assms(1,5) unfolding pool_ok_def pool_synced_def frame_ok_def assms(2-4) by blast
  show "pool_page crc s' = pool_page crc s" unfolding pool_page_def fun_eq_iff assms(2,4) by blast
qed

lemma get_page_ok:
  assumes "pool_ok crc m s" "get_page_inner crc m f p s = (r, s')"
  shows "pool_ok crc m s' \<and>
    (\<forall>d. r = Inr d \<longrightarrow> pool_page crc s' (f, p) = Some d \<and> page_valid crc f d \<and> keeps_pages crc UNIV s s') \<and>
    (no_faults s \<longrightarrow> no_faults s' \<and> (\<forall>d. pool_page crc s (f, p) = Some d \<longrightarrow> r = Inr d))"
proof (cases "map_of (pi_frames s) (f, p)")
  case (Some fr)
  then show ?thesis using assms pool_okD [OF assms(1) Some] by (auto simp: get_page_inner_def pool_page_def)
next
  case None
  obtain r1 s1 where c: "ensure_capacity_inner m s = (r1, s1)" by fastforce
  note ec = ensure_capacity [OF assms(1) c]
  show ?thesis
  proof (cases r1)
    case (Inl e)
    then show ?thesis using assms(2) None c ec by (auto simp: get_page_inner_def sbind_def)
  next
    case r1: (Inr u)
    have absent: "map_of (pi_frames s1) (f, p) = None" using ec None by (auto simp: map_of_eq_None_iff)
    have "pi_files s1 f \<noteq> None" using ec by (simp add: pool_ok_def)
    then obtain fh where fh: "pi_files s1 f = Some fh" by blast
    obtain r2 s2 where rd: "with_file f (read_from_disk crc f p) s1 = (r2, s2)" by fastforce
    note rt = read_through [OF rd fh] and keep = with_file_pool [OF rd]
    have "\<forall>f. pi_files s1 f \<noteq> None" using ec by (simp add: pool_ok_def)
    note ok2 = pool_ok_files [OF conjunct1 [OF ec] keep(1) with_file_lru [OF rd] rt(1) rt(5) [OF this]]
    have k1: "keeps_pages crc UNIV s s2" using ec r1 ok2(2) by (simp add: keeps_pages_def)
    show ?thesis
    proof (cases r2)
      case (Inl e)
      then have "r = Inl e" "s' = s2" using assms(2) None c r1 rd by (simp_all add: get_page_inner_def sbind_def)
      moreover have "\<forall>d. no_faults s \<longrightarrow> pool_page crc s (f, p) \<noteq> Some d"
      proof (intro allI impI notI)
        fix d assume that: "no_faults s" "pool_page crc s (f, p) = Some d"
        have "pool_page crc s1 (f, p) = Some d" using keeps_pagesD [OF k1 UNIV_I that(2)] ok2(2) by simp
        then have "file_page crc s1 (f, p) = Some d" using absent by (simp add: pool_page_def)
        then show False using rt(4) ec that(1) Inl by auto
      qed
      ultimately show ?thesis using ok2(1) rt(3) ec by blast
    next
      case (Inr d)
      let ?fr = "\<lparr>bf_data = d, bf_dirty = False, bf_pin_count = 0\<rparr>"
      let ?s = "touch_lru_inner (f, p) (s2\<lparr>pi_frames := AList.update (f, p) ?fr (pi_frames s2)\<rparr>)"
      have r: "r = Inr d" "s' = ?s" using assms(2) None c r1 rd Inr by (simp_all add: get_page_inner_def sbind_def)
      have d: "file_page crc s2 (f, p) = Some d" using rt(1,2) Inr by simp
      then have v: "page_valid crc f d" by (auto simp: file_page_def disk_page_def split: option.splits if_splits)
      then have "frame_ok crc s2 (f, p) ?fr" using d by (simp add: frame_ok_def)
      moreover have "length (pi_frames s2) < m" using ec r1 keep(1) by simp
      ultimately have en: "pool_ok crc m ?s" "pool_page crc ?s (f, p) = Some d" "keeps_pages crc (- {(f, p)}) s2 ?s"
        using frame_enters [OF ok2(1), of "(f, p)" ?fr ?s] touched by simp_all
      have "pool_page crc s2 (f, p) = Some d" using d absent keep(1) by (simp add: pool_page_def)
      from keeps_pages_all [OF en(3) this en(2)] have "keeps_pages crc UNIV s2 ?s" .
      with k1 have k2: "keeps_pages crc UNIV s ?s" by (rule keeps_pages_trans)
      have eq: "d' = d" if "pool_page crc s (f, p) = Some d'" for d'
        using keeps_pagesD [OF k2 UNIV_I that] en(2) by simp
      have "no_faults s \<Longrightarrow> no_faults ?s" using rt(3) ec by (simp add: no_faults_def)
      then show ?thesis unfolding r using en(1,2) v k2 eq by (intro conjI allI impI) blast+
    qed
  qed
qed


subsection \<open>Flushing\<close>

lemma map_of_map_entry: "map_of (AList.map_entry k g al) k' = (if k' = k then map_option g (map_of al k) else map_of al k')"
  by (induction al) auto

lemma keys_map_entry [simp]: "map fst (AList.map_entry k g al) = map fst al"
  by (induction al) auto

lemma mark_clean_simps [simp]:
  "pi_files (mark_clean k s) = pi_files s" "lru_list (mark_clean k s) ks = lru_list s ks"
  "map fst (pi_frames (mark_clean k s)) = map fst (pi_frames s)"
  by (simp_all add: mark_clean_def)

lemma mark_clean_ok:
  assumes "pool_ok crc m s" "map_of (pi_frames s) k = Some fr" "file_page crc s k = Some (bf_data fr)"
  shows "pool_ok crc m (mark_clean k s)" "pool_page crc (mark_clean k s) = pool_page crc s"
proof -
  have frames: "map_of (pi_frames (mark_clean k s)) k' =
      (if k' = k then Some (fr\<lparr>bf_dirty := False\<rparr>) else map_of (pi_frames s) k')" for k'
    using assms(2) by (simp add: mark_clean_def map_of_map_entry)
  have keys: "fst ` set (pi_frames (mark_clean k s)) = fst ` set (pi_frames s)"
      "length (pi_frames (mark_clean k s)) = length (pi_frames s)"
    using arg_cong [OF mark_clean_simps(3) [of k s], of set] arg_cong [OF mark_clean_simps(3) [of k s], of length]
    unfolding set_map length_map .
  have fp: "file_page crc (mark_clean k s) = file_page crc s" by (rule file_page_cong) simp
  have "frame_ok crc (mark_clean k s) k' fr'" if "map_of (pi_frames (mark_clean k s)) k' = Some fr'" for k' fr'
    using that frames [of k'] pool_okD [OF assms(1), of k'] assms(2,3)
    by (auto simp: frame_ok_def fp split: if_splits)
  then show "pool_ok crc m (mark_clean k s)"
    using assms(1) unfolding pool_ok_def pool_synced_def keys by simp
  show "pool_page crc (mark_clean k s) = pool_page crc s"
    using assms(2) unfolding fun_eq_iff pool_page_def frames fp by simp
qed

lemma write_cached_back:
  assumes "pool_ok crc m s" "map_of (pi_frames s) (f, p) = Some fr" "bf_dirty fr"
    and "with_file f (write_to_disk p (bf_data fr)) s = (r, s1)"
  shows "pool_ok crc m s1" "keeps_pages crc UNIV s s1" "r = Inr () \<Longrightarrow> file_page crc s1 (f, p) = Some (bf_data fr)"
    "no_faults s \<Longrightarrow> r = Inr () \<and> no_faults s1" "file_page crc s k = Some e \<Longrightarrow> k \<noteq> (f, p) \<Longrightarrow> file_page crc s1 k = Some e"
proof -
  have v: "page_valid crc f (bf_data fr)" using pool_okD [OF assms(1,2)] by simp
  have files: "\<forall>f. pi_files s f \<noteq> None" using assms(1) by (simp add: pool_ok_def)
  note t = write_through [OF assms(4) v files] and keep = with_file_pool [OF assms(4)]
  show "r = Inr () \<Longrightarrow> file_page crc s1 (f, p) = Some (bf_data fr)" "no_faults s \<Longrightarrow> r = Inr () \<and> no_faults s1"
    "file_page crc s k = Some e \<Longrightarrow> k \<noteq> (f, p) \<Longrightarrow> file_page crc s1 k = Some e"
    using t(1,3) t(2) [of k e] by blast+
  have "frame_ok crc s1 k' fr'" if "map_of (pi_frames s) k' = Some fr'" for k' fr'
    using that pool_okD [OF assms(1), of k' fr'] t(2) [of k' "bf_data fr'"] assms(2,3)
    by (cases "k' = (f, p)") (auto simp: frame_ok_def)
  then show "pool_ok crc m s1"
    using assms(1) t(4) with_file_synced [OF assms(4)] unfolding pool_ok_def keep(1) by simp
  have "pool_page crc s1 k' = Some d" if "pool_page crc s k' = Some d" for k' d
    using that t(2) [of k' d] assms(2) by (cases "k' = (f, p)") (auto simp: pool_page_def keep(1) split: option.splits)
  then show "keeps_pages crc UNIV s s1" by (simp add: keeps_pages_def)
qed

text \<open>A frame of the flushed file is clean from the moment it was written.\<close>

definition dirty_in :: "data_file \<Rightarrow> pool_inner \<Rightarrow> u32 set" where
  "dirty_in f s = {p. \<exists>fr. map_of (pi_frames s) (f, p) = Some fr \<and> bf_dirty fr}"

lemma flush_one:
  assumes "pool_ok crc m s" "flush_one_page f p s = (r, s')" "p \<in> dirty_in f s"
  shows "pool_ok crc m s'" "keeps_pages crc UNIV s s'" "no_faults s \<Longrightarrow> r = Inr () \<and> no_faults s'"
    "r = Inr () \<Longrightarrow> dirty_in f s' = dirty_in f s - {p}"
proof -
  obtain fr where fr: "map_of (pi_frames s) (f, p) = Some fr" "bf_dirty fr" using assms(3) by (auto simp: dirty_in_def)
  obtain r1 s1 where w: "with_file f (write_to_disk p (bf_data fr)) s = (r1, s1)" by fastforce
  note b = write_cached_back [OF assms(1) fr w] and keep = with_file_pool(1) [OF w]
  have "pool_ok crc m s' \<and> keeps_pages crc UNIV s s' \<and> (no_faults s \<longrightarrow> r = Inr () \<and> no_faults s') \<and>
      (r = Inr () \<longrightarrow> dirty_in f s' = dirty_in f s - {p})"
  proof (cases r1)
    case (Inl e)
    then show ?thesis using assms(2) fr(1) w b(1,2,4) by (auto simp: flush_one_page_def sbind_def)
  next
    case (Inr u)
    then have s': "r = Inr ()" "s' = mark_clean (f, p) s1" using assms(2) fr(1) w by (auto simp: flush_one_page_def sbind_def)
    have fr1: "map_of (pi_frames s1) (f, p) = Some fr" using fr(1) keep by simp
    have "file_page crc s1 (f, p) = Some (bf_data fr)" using b(3) Inr by simp
    note c = mark_clean_ok [OF b(1) fr1 this]
    have "dirty_in f s' = dirty_in f s - {p}"
      using fr(1) by (auto simp: s'(2) dirty_in_def mark_clean_def map_of_map_entry keep split: if_splits)
    then show ?thesis using s' c b(2,4) Inr by (auto simp: keeps_pages_def no_faults_def)
  qed
  then show "pool_ok crc m s'" "keeps_pages crc UNIV s s'" "no_faults s \<Longrightarrow> r = Inr () \<and> no_faults s'"
    "r = Inr () \<Longrightarrow> dirty_in f s' = dirty_in f s - {p}" by simp_all
qed

lemma flush_pages:
  assumes "pool_ok crc m s" "siter (flush_one_page f) ps s = (r, s')" "distinct ps" "set ps \<subseteq> dirty_in f s"
  shows "pool_ok crc m s' \<and> keeps_pages crc UNIV s s' \<and> (no_faults s \<longrightarrow> r = Inr () \<and> no_faults s') \<and>
    (r = Inr () \<longrightarrow> dirty_in f s' = dirty_in f s - set ps)"
  using assms
proof (induction ps arbitrary: s)
  case Nil
  then show ?case by simp
next
  case (Cons p ps)
  obtain r1 s1 where o: "flush_one_page f p s = (r1, s1)" by fastforce
  have "p \<in> dirty_in f s" using Cons.prems(4) by simp
  note f1 = flush_one [OF Cons.prems(1) o this]
  show ?case
  proof (cases r1)
    case (Inl e)
    then show ?thesis using Cons.prems(2) o f1 by (auto simp: sbind_def)
  next
    case (Inr u)
    then have "siter (flush_one_page f) ps s1 = (r, s')" "dirty_in f s1 = dirty_in f s - {p}"
      using Cons.prems(2) o f1(4) by (auto simp: sbind_def)
    with Cons.IH [OF f1(1)] Cons.prems(3,4)
    have "pool_ok crc m s' \<and> keeps_pages crc UNIV s1 s' \<and> (no_faults s1 \<longrightarrow> r = Inr () \<and> no_faults s') \<and>
      (r = Inr () \<longrightarrow> dirty_in f s' = dirty_in f s - {p} - set ps)" by auto
    then show ?thesis using f1(2,3) keeps_pages_trans [of crc UNIV s s1 s'] by auto
  qed
qed

lemma dirty_pages_set:
  assumes "distinct (map fst (pi_frames s))"
  shows "set (dirty_pages f s) = dirty_in f s" "distinct (dirty_pages f s)"
proof -
  show "set (dirty_pages f s) = dirty_in f s"
    using assms by (force simp: dirty_pages_def dirty_in_def)
  have "distinct (map fst (filter (\<lambda>(k, fr). fst k = f \<and> bf_dirty fr) (pi_frames s)))"
    using assms by (simp add: distinct_map_filter)
  moreover have "inj_on snd (set (map fst (filter (\<lambda>(k, fr). fst k = f \<and> bf_dirty fr) (pi_frames s))))"
    by (auto simp: inj_on_def)
  ultimately have "distinct (map snd (map fst (filter (\<lambda>(k, fr). fst k = f \<and> bf_dirty fr) (pi_frames s))))"
    by (simp only: distinct_map)
  then show "distinct (dirty_pages f s)" by (simp add: dirty_pages_def)
qed

lemma flush_file_ok:
  assumes "pool_ok crc m s" "flush_file_inner f s = (r, s')"
  shows "pool_ok crc m s'" "keeps_pages crc UNIV s s'" "no_faults s \<Longrightarrow> r = Inr () \<and> no_faults s'"
    "r = Inr () \<Longrightarrow> dirty_in f s' = {}"
proof -
  have "distinct (map fst (pi_frames s))" using assms(1) by (simp add: pool_ok_def pool_synced_def)
  note d = dirty_pages_set [OF this, of f]
  note f = flush_pages [OF assms(1) assms(2) [unfolded flush_file_inner_def] d(2)]
  show "pool_ok crc m s'" "keeps_pages crc UNIV s s'" "no_faults s \<Longrightarrow> r = Inr () \<and> no_faults s'"
    "r = Inr () \<Longrightarrow> dirty_in f s' = {}" using f d(1) by auto
qed


text \<open>A flush of one file leaves the other files and the marks of their frames alone.\<close>

lemma flush_one_other:
  assumes "flush_one_page f p s = (r, s')" "f' \<noteq> f"
  shows "pi_files s' f' = pi_files s f' \<and> dirty_in f' s' = dirty_in f' s"
proof (cases "map_of (pi_frames s) (f, p)")
  case None
  then show ?thesis using assms(1) by (simp add: flush_one_page_def)
next
  case (Some fr)
  obtain r1 s1 where w: "with_file f (write_to_disk p (bf_data fr)) s = (r1, s1)" by fastforce
  have 1: "pi_files s1 f' = pi_files s f'" "pi_frames s1 = pi_frames s" using with_file_pool(1,5) [OF w] assms(2) by auto
  have "s' = s1 \<or> s' = mark_clean (f, p) s1"
    using assms(1) Some w by (cases r1) (auto simp: flush_one_page_def sbind_def)
  then show ?thesis using 1 assms(2) by (auto simp: dirty_in_def mark_clean_def map_of_map_entry)
qed

lemma flush_pages_other:
  "siter (flush_one_page f) ps s = (r, s') \<Longrightarrow> f' \<noteq> f \<Longrightarrow> pi_files s' f' = pi_files s f' \<and> dirty_in f' s' = dirty_in f' s"
proof (induction ps arbitrary: s)
  case (Cons p ps)
  obtain r1 s1 where o: "flush_one_page f p s = (r1, s1)" by fastforce
  note one = flush_one_other [OF o Cons.prems(2)]
  show ?case
  proof (cases r1)
    case (Inl e)
    then show ?thesis using Cons.prems(1) o one by (simp add: sbind_def)
  next
    case (Inr u)
    then have "siter (flush_one_page f) ps s1 = (r, s')" using Cons.prems(1) o by (simp add: sbind_def)
    from Cons.IH [OF this Cons.prems(2)] one show ?thesis by simp
  qed
qed simp

lemma clean_on_disk:
  assumes "pool_ok crc m s" "dirty_in f s = {}" "pool_page crc s (f, p) = Some d"
  shows "file_page crc s (f, p) = Some d"
proof (cases "map_of (pi_frames s) (f, p)")
  case (Some fr)
  then have "\<not> bf_dirty fr" using assms(2) by (auto simp: dirty_in_def)
  then show ?thesis using pool_okD [OF assms(1) Some] Some assms(3) by (simp add: pool_page_def)
qed (use assms(3) in \<open>simp add: pool_page_def\<close>)

section \<open>Properties\<close>

text \<open>The operations of a client, and what they do on a plain map of pages.\<close>

datatype pool_op = GetPage data_file u32 | PutPage data_file u32 bytes | FlushFile data_file

fun pool_run :: "(bytes \<Rightarrow> u32) \<Rightarrow> pool_op list \<Rightarrow> (buffer_pool, storage_error, bytes list) step" where
  "pool_run crc [] = sret []"
| "pool_run crc (GetPage f p # ops) = sbind (get_page crc f p) (\<lambda>d. sbind (pool_run crc ops) (\<lambda>ds. sret (d # ds)))"
| "pool_run crc (PutPage f p d # ops) = sbind (pool_put_page f p d) (\<lambda>_. pool_run crc ops)"
| "pool_run crc (FlushFile f # ops) = sbind (flush_file f) (\<lambda>_. pool_run crc ops)"

fun page_run :: "pool_op list \<Rightarrow> (page_key \<rightharpoonup> bytes) \<Rightarrow> bytes list option" where
  "page_run [] M = Some []"
| "page_run (GetPage f p # ops) M = (case M (f, p) of None \<Rightarrow> None | Some d \<Rightarrow> map_option ((#) d) (page_run ops M))"
| "page_run (PutPage f p d # ops) M = page_run ops (M((f, p) \<mapsto> d))"
| "page_run (FlushFile f # ops) M = page_run ops M"

definition pool_good :: "(bytes \<Rightarrow> u32) \<Rightarrow> buffer_pool \<Rightarrow> bool" where
  "pool_good crc pool \<longleftrightarrow> pool_ok crc (bp_max_pages pool) (bp_inner pool)"

definition pool_holds :: "(bytes \<Rightarrow> u32) \<Rightarrow> buffer_pool \<Rightarrow> page_key \<rightharpoonup> bytes" where
  "pool_holds crc pool = pool_page crc (bp_inner pool)"

fun puts_valid :: "(bytes \<Rightarrow> u32) \<Rightarrow> pool_op \<Rightarrow> bool" where
  "puts_valid crc (PutPage f p d) = page_valid crc f d"
| "puts_valid crc _ = True"

lemma map_leD: "M \<subseteq>\<^sub>m N \<Longrightarrow> M k = Some d \<Longrightarrow> N k = Some d"
  unfolding map_le_def by (metis domI)

lemma pool_get:
  assumes "pool_good crc pool" "get_page crc f p pool = (r, pool')"
  shows "pool_good crc pool'" "r = Inr d \<Longrightarrow> pool_holds crc pool' (f, p) = Some d \<and> page_valid crc f d"
    "r = Inr d \<Longrightarrow> pool_holds crc pool \<subseteq>\<^sub>m pool_holds crc pool'" "bp_max_pages pool' = bp_max_pages pool"
    "no_faults (bp_inner pool) \<Longrightarrow> no_faults (bp_inner pool')"
    "no_faults (bp_inner pool) \<Longrightarrow> pool_holds crc pool (f, p) = Some d \<Longrightarrow> r = Inr d"
proof -
  obtain s' where g: "get_page_inner crc (bp_max_pages pool) f p (bp_inner pool) = (r, s')" "pool' = pool\<lparr>bp_inner := s'\<rparr>"
    using assms(2) by (auto simp: get_page_def on_inner_def split: prod.splits)
  note k = get_page_ok [OF assms(1) [unfolded pool_good_def] g(1)]
  show "pool_good crc pool'" "r = Inr d \<Longrightarrow> pool_holds crc pool' (f, p) = Some d \<and> page_valid crc f d"
    "bp_max_pages pool' = bp_max_pages pool"
    "no_faults (bp_inner pool) \<Longrightarrow> no_faults (bp_inner pool')"
    "no_faults (bp_inner pool) \<Longrightarrow> pool_holds crc pool (f, p) = Some d \<Longrightarrow> r = Inr d"
    using k g(2) by (simp_all add: pool_good_def pool_holds_def)
  show "r = Inr d \<Longrightarrow> pool_holds crc pool \<subseteq>\<^sub>m pool_holds crc pool'"
    using k g(2) by (auto simp: map_le_def pool_holds_def dest: keeps_pagesD)
qed

lemma pool_put:
  assumes "pool_good crc pool" "pool_put_page f p d pool = (r, pool')" "page_valid crc f d"
  shows "pool_good crc pool'" "r = Inr () \<Longrightarrow> pool_holds crc pool' (f, p) = Some d"
    "r = Inr () \<Longrightarrow> k \<noteq> (f, p) \<Longrightarrow> pool_holds crc pool k = Some e \<Longrightarrow> pool_holds crc pool' k = Some e"
    "bp_max_pages pool' = bp_max_pages pool"
    "no_faults (bp_inner pool) \<Longrightarrow> r = Inr () \<and> no_faults (bp_inner pool')"
proof -
  obtain s' where g: "put_page_inner (bp_max_pages pool) f p d (bp_inner pool) = (r, s')" "pool' = pool\<lparr>bp_inner := s'\<rparr>"
    using assms(2) by (auto simp: pool_put_page_def on_inner_def split: prod.splits)
  note o = put_page_ok [OF assms(1) [unfolded pool_good_def] g(1) assms(3)]
  show "pool_good crc pool'" "r = Inr () \<Longrightarrow> pool_holds crc pool' (f, p) = Some d" "bp_max_pages pool' = bp_max_pages pool"
    "no_faults (bp_inner pool) \<Longrightarrow> r = Inr () \<and> no_faults (bp_inner pool')"
    using o g(2) by (simp_all add: pool_good_def pool_holds_def)
  show "r = Inr () \<Longrightarrow> k \<noteq> (f, p) \<Longrightarrow> pool_holds crc pool k = Some e \<Longrightarrow> pool_holds crc pool' k = Some e"
    using o g(2) keeps_pagesD [of crc "- {(f, p)}" "bp_inner pool" s' k e] by (auto simp: pool_holds_def)
qed

lemma pool_flush:
  assumes "pool_good crc pool" "flush_file f pool = (r, pool')"
  shows "pool_good crc pool'" "pool_holds crc pool \<subseteq>\<^sub>m pool_holds crc pool'" "bp_max_pages pool' = bp_max_pages pool"
    "no_faults (bp_inner pool) \<Longrightarrow> r = Inr () \<and> no_faults (bp_inner pool')"
    "r = Inr () \<Longrightarrow> dirty_in f (bp_inner pool') = {}"
    "f' \<noteq> f \<Longrightarrow> dirty_in f' (bp_inner pool') = dirty_in f' (bp_inner pool)"
proof -
  obtain s' where g: "flush_file_inner f (bp_inner pool) = (r, s')" "pool' = pool\<lparr>bp_inner := s'\<rparr>"
    using assms(2) by (auto simp: flush_file_def on_inner_def split: prod.splits)
  note o = flush_file_ok [OF assms(1) [unfolded pool_good_def] g(1)]
  show "pool_good crc pool'" "bp_max_pages pool' = bp_max_pages pool"
    "no_faults (bp_inner pool) \<Longrightarrow> r = Inr () \<and> no_faults (bp_inner pool')"
    using o g(2) by (simp_all add: pool_good_def)
  show "pool_holds crc pool \<subseteq>\<^sub>m pool_holds crc pool'"
    using o(2) g(2) by (auto simp: map_le_def pool_holds_def dest: keeps_pagesD)
  show "r = Inr () \<Longrightarrow> dirty_in f (bp_inner pool') = {}" using o(4) g(2) by simp
  show "f' \<noteq> f \<Longrightarrow> dirty_in f' (bp_inner pool') = dirty_in f' (bp_inner pool)"
    using flush_pages_other [OF g(1) [unfolded flush_file_inner_def]] g(2) by simp
qed

text \<open>C14 (transparency). A sequence of page reads, page writes and file flushes on a pool in a good
  state, with no I/O fault and only valid pages written, returns what the same sequence returns on a plain map
  of the pages the pool holds, whatever is evicted on the way; the pool ends in a good state within its
  capacity.\<close>

theorem pool_transparent:
  assumes "pool_good crc pool" "no_faults (bp_inner pool)" "list_all (puts_valid crc) ops"
    and "M \<subseteq>\<^sub>m pool_holds crc pool" "page_run ops M = Some ds"
  shows "\<exists>pool'. pool_run crc ops pool = (Inr ds, pool') \<and> pool_good crc pool' \<and>
    length (pi_frames (bp_inner pool')) \<le> bp_max_pages pool"
  using assms
proof (induction ops arbitrary: pool M ds)
  case Nil
  then show ?case by (simp add: pool_good_def pool_ok_def)
next
  case (Cons op ops)
  show ?case
  proof (cases op)
    case (GetPage f p)
    then obtain d es where d: "M (f, p) = Some d" "page_run ops M = Some es" "ds = d # es"
      using Cons.prems(5) by (auto split: option.splits)
    obtain r pool1 where g: "get_page crc f p pool = (r, pool1)" by fastforce
    note k = pool_get [OF Cons.prems(1) g]
    have r: "r = Inr d" using k(6) Cons.prems(2) map_leD [OF Cons.prems(4) d(1)] by simp
    have "M \<subseteq>\<^sub>m pool_holds crc pool1" using k(3) [OF r] Cons.prems(4) map_le_trans by blast
    from Cons.IH [OF k(1) k(5) [OF Cons.prems(2)] _ this d(2)] show ?thesis
      using Cons.prems(3) GetPage g r d(3) k(4) by (auto simp: sbind_def)
  next
    case (PutPage f p d)
    then have v: "page_valid crc f d" using Cons.prems(3) by simp
    obtain r pool1 where g: "pool_put_page f p d pool = (r, pool1)" by fastforce
    note k = pool_put [OF Cons.prems(1) g v]
    have r: "r = Inr ()" "no_faults (bp_inner pool1)" using k(5) Cons.prems(2) by auto
    have "(M((f, p) \<mapsto> d)) q = pool_holds crc pool1 q" if q: "q \<in> dom (M((f, p) \<mapsto> d))" for q
    proof (cases "q = (f, p)")
      case False
      then obtain e where "M q = Some e" using q by auto
      moreover have "pool_holds crc pool q = Some e" by (rule map_leD [OF Cons.prems(4) calculation])
      ultimately show ?thesis using k(3) [OF r(1) False] False by simp
    qed (use k(2) [OF r(1)] in simp)
    then have "M((f, p) \<mapsto> d) \<subseteq>\<^sub>m pool_holds crc pool1" unfolding map_le_def by blast
    moreover have "page_run ops (M((f, p) \<mapsto> d)) = Some ds" using Cons.prems(5) PutPage by simp
    ultimately show ?thesis
      using Cons.IH [OF k(1) r(2)] Cons.prems(3) PutPage g r(1) k(4) by (simp add: sbind_def)
  next
    case (FlushFile f)
    obtain r pool1 where g: "flush_file f pool = (r, pool1)" by fastforce
    note k = pool_flush [OF Cons.prems(1) g]
    have r: "r = Inr ()" "no_faults (bp_inner pool1)" using k(4) Cons.prems(2) by auto
    have "M \<subseteq>\<^sub>m pool_holds crc pool1" using k(2) Cons.prems(4) map_le_trans by blast
    from Cons.IH [OF k(1) r(2) _ this] show ?thesis
      using Cons.prems(3,5) FlushFile g r(1) k(3) by (auto simp: sbind_def)
  qed
qed


text \<open>A store with five empty files.\<close>

definition fresh_pool :: "nat \<Rightarrow> buffer_pool" where
  "fresh_pool limit = fold (\<lambda>f. register_file f \<lparr>fh_bytes = [], fh_faults = []\<rparr>) ALL_DATA_FILES (pool_new limit)"

lemma fresh_pool_good: "pool_good crc (fresh_pool limit)" "no_faults (bp_inner (fresh_pool limit))"
proof -
  have files: "pi_files (bp_inner (fresh_pool limit)) f = Some \<lparr>fh_bytes = [], fh_faults = []\<rparr>" for f
    by (cases f) (simp_all add: fresh_pool_def ALL_DATA_FILES_def register_file_def)
  have rest: "pi_frames (bp_inner (fresh_pool limit)) = []" "lru_list (bp_inner (fresh_pool limit)) []" "0 < bp_max_pages (fresh_pool limit)"
    by (simp_all add: fresh_pool_def ALL_DATA_FILES_def register_file_def pool_new_def lru_list_def MIN_POOL_PAGES_def)
  show "no_faults (bp_inner (fresh_pool limit))" by (simp add: no_faults_def files)
  have "pool_synced (bp_inner (fresh_pool limit))"
    unfolding pool_synced_def using rest by (intro conjI exI [of _ "[]"]) simp_all
  then show "pool_good crc (fresh_pool limit)"
    using files rest by (simp add: pool_good_def pool_ok_def)
qed

lemma zero_page_valid [simp]: "page_valid crc f new_page_buf"
  by (simp add: page_valid_def validate_page_buf_def new_page_buf_def list_all_iff)

theorem pool_transparent_witness:
  "\<exists>pool'. pool_run (\<lambda>_. 0) (map (\<lambda>i. PutPage Nodes i new_page_buf) [0, 1, 2, 3, 4, 5, 6, 7, 8] @ [FlushFile Nodes, GetPage Nodes 0])
     (fresh_pool 0) = (Inr [new_page_buf], pool') \<and> pool_good (\<lambda>_. 0) pool' \<and>
     length (pi_frames (bp_inner pool')) \<le> bp_max_pages (fresh_pool 0)"
  by (rule pool_transparent [OF fresh_pool_good, where M = Map.empty]) simp_all

text \<open>A flush reaches the file. After a flush of a file that reports success, every page of the file that
  the pool held before is on disk, readable and valid, at its own offset.\<close>

theorem flush_persists:
  assumes "pool_good crc pool" "flush_file f pool = (Inr u, pool')" "pool_holds crc pool (f, p) = Some d"
  shows "\<exists>fh. pi_files (bp_inner pool') f = Some fh \<and> page_offset p + PAGE_SIZE \<le> length (fh_bytes fh) \<and>
    subslice (page_offset p) PAGE_SIZE (fh_bytes fh) = d \<and> validate_page_buf crc (file_magic f) d = Inr ()"
proof -
  note k = pool_flush [OF assms(1,2)]
  have "pool_holds crc pool' (f, p) = Some d" using map_leD [OF k(2) assms(3)] .
  then have "file_page crc (bp_inner pool') (f, p) = Some d"
    using clean_on_disk [OF k(1) [unfolded pool_good_def] k(5)] by (simp add: pool_holds_def)
  then show ?thesis by (auto simp: file_page_def disk_page_def page_valid_def split: option.splits if_splits)
qed

theorem flush_persists_witness:
  "\<exists>fh. pi_files (bp_inner (snd (flush_file Nodes (snd (pool_put_page Nodes 1 new_page_buf (fresh_pool 0)))))) Nodes = Some fh \<and>
     page_offset 1 + PAGE_SIZE \<le> length (fh_bytes fh) \<and>
     subslice (page_offset 1) PAGE_SIZE (fh_bytes fh) = new_page_buf \<and>
     validate_page_buf (\<lambda>_. 0) (file_magic Nodes) new_page_buf = Inr ()"
proof -
  obtain r1 p1 where put: "pool_put_page Nodes 1 new_page_buf (fresh_pool 0) = (r1, p1)" by fastforce
  note k = pool_put [OF fresh_pool_good(1) [of "\<lambda>_. 0"] put zero_page_valid]
  obtain r2 p2 where fl: "flush_file Nodes p1 = (r2, p2)" by fastforce
  have "r1 = Inr ()" "r2 = Inr ()" using k(5) fresh_pool_good(2) pool_flush(4) [OF k(1) fl] by auto
  then show ?thesis using flush_persists [OF k(1), of Nodes "()" p2 1 new_page_buf] fl k(2) put by simp
qed

text \<open>C18 (eviction order). On a pool whose list and frames agree, an eviction terminates: walking the list from
  its tail it drops exactly the least recently used page that is not pinned and keeps the order of the others,
  or reports exhaustion without a change when every page is pinned. The list and the frames agree again, also when
  writing the page back failed.\<close>

theorem evict_least_recent:
  assumes "pool_synced s" "evict_one_inner s = (r, s')"
  shows "r \<noteq> Inl Diverges \<and> pool_synced s' \<and>
    (\<exists>order. lru_list s order \<and> set order = set (map fst (pi_frames s)) \<and>
      (case find (evictable s) (rev order) of
         None \<Rightarrow> r = Inl BufferPoolExhausted \<and> s' = s
       | Some k \<Rightarrow> lru_list s' (removeAll k order) \<and> pi_frames s' = AList.delete k (pi_frames s)))"
proof -
  obtain ks where ks: "lru_list s ks" "set ks = fst ` set (pi_frames s)" using assms(1) by (auto simp: pool_synced_def)
  note v = synced_victim [OF ks(1) assms(2)]
  have "r \<noteq> Inl Diverges \<and> pool_synced s' \<and> (case find (evictable s) (rev ks) of
         None \<Rightarrow> r = Inl BufferPoolExhausted \<and> s' = s
       | Some k \<Rightarrow> lru_list s' (removeAll k ks) \<and> pi_frames s' = AList.delete k (pi_frames s))"
  proof (cases "find (evictable s) (rev ks)")
    case None
    then show ?thesis using v assms(1) by simp
  next
    case (Some k)
    then have "k \<in> set ks" by (metis find_Some_iff nth_mem set_rev)
    then obtain xs ys where split: "ks = xs @ k # ys" by (meson split_list)
    have un: "lru_list (dropped k s) (removeAll k ks)"
      using unlink_lru_list [of s xs k ys] ks(1) split by (auto simp: dropped_def lru_list_def)
    note d = dropped_synced [OF assms(1), of k]
    obtain fr where fr: "map_of (pi_frames s) k = Some fr \<and> bf_pin_count fr = 0 \<and>
        (if bf_dirty fr then with_file (fst k) (write_to_disk (snd k) (bf_data fr)) (dropped k s) = (r, s')
         else r = Inr () \<and> s' = dropped k s)" using v unfolding Some option.case ..
    have "r \<noteq> Inl Diverges" using fr
      by (auto simp: with_file_def write_to_disk_def write_all_def split: if_splits option.splits prod.splits)
    moreover have "lru_list s' ls = lru_list (dropped k s) ls" "pi_frames s' = pi_frames (dropped k s)"
        "pool_synced s' = pool_synced (dropped k s)" for ls
      using fr with_file_lru with_file_pool(1) with_file_synced by (cases "bf_dirty fr"; fastforce)+
    ultimately show ?thesis using Some un d \<open>k \<in> set ks\<close> ks(2) by simp
  qed
  with ks show ?thesis by auto
qed


definition demo_pool :: pool_inner where
  "demo_pool = \<lparr>pi_frames = [((Nodes, 0), \<lparr>bf_data = new_page_buf, bf_dirty = True, bf_pin_count = 0\<rparr>),
       ((Nodes, 1), \<lparr>bf_data = new_page_buf, bf_dirty = False, bf_pin_count = 1\<rparr>)],
     pi_lru_nodes = [(Nodes, 0) \<mapsto> \<lparr>ln_prev = None, ln_next = Some (Nodes, 1)\<rparr>,
       (Nodes, 1) \<mapsto> \<lparr>ln_prev = Some (Nodes, 0), ln_next = None\<rparr>],
     pi_lru_head = Some (Nodes, 0), pi_lru_tail = Some (Nodes, 1),
     pi_files = [Nodes \<mapsto> \<lparr>fh_bytes = [], fh_faults = [Some 0]\<rparr>]\<rparr>"

lemma demo_pool_synced: "pool_synced demo_pool"
  unfolding pool_synced_def
  by (intro conjI exI [of _ "[(Nodes, 0), (Nodes, 1)]"]) (auto simp: demo_pool_def lru_list_def)

theorem evict_least_recent_witness:
  "pool_synced (snd (evict_one_inner demo_pool))"
  using evict_least_recent [OF demo_pool_synced, of "fst (evict_one_inner demo_pool)" "snd (evict_one_inner demo_pool)"] by simp

definition full_pool :: "bytes \<Rightarrow> buffer_pool" where
  "full_pool page = snd (siter (\<lambda>p. pool_put_page Nodes p page) [0, 1, 2, 3, 4, 5, 6, 7]
     (register_file Nodes \<lparr>fh_bytes = new_page_buf, fh_faults = [Some 0]\<rparr> (pool_new 0)))"

lemma put_new:
  assumes "map_of (pi_frames s) (f, p) = None" "length (pi_frames s) < n"
  shows "put_page_inner n f p d s = (Inr (), lru_push_front_inner (f, p)
    (s\<lparr>pi_frames := AList.update (f, p) \<lparr>bf_data = d, bf_dirty = True, bf_pin_count = 0\<rparr> (pi_frames s)\<rparr>))"
  using assms by (simp add: put_page_inner_def sbind_def ensure_capacity_inner.simps)

definition filled :: "bytes \<Rightarrow> pool_inner" where
  "filled page =
    \<lparr>pi_frames = map (\<lambda>p. ((Nodes, p), \<lparr>bf_data = page, bf_dirty = True, bf_pin_count = 0\<rparr>)) [0, 1, 2, 3, 4, 5, 6, 7],
     pi_lru_nodes = [(Nodes, 0) \<mapsto> \<lparr>ln_prev = Some (Nodes, 1), ln_next = None\<rparr>,
       (Nodes, 1) \<mapsto> \<lparr>ln_prev = Some (Nodes, 2), ln_next = Some (Nodes, 0)\<rparr>,
       (Nodes, 2) \<mapsto> \<lparr>ln_prev = Some (Nodes, 3), ln_next = Some (Nodes, 1)\<rparr>,
       (Nodes, 3) \<mapsto> \<lparr>ln_prev = Some (Nodes, 4), ln_next = Some (Nodes, 2)\<rparr>,
       (Nodes, 4) \<mapsto> \<lparr>ln_prev = Some (Nodes, 5), ln_next = Some (Nodes, 3)\<rparr>,
       (Nodes, 5) \<mapsto> \<lparr>ln_prev = Some (Nodes, 6), ln_next = Some (Nodes, 4)\<rparr>,
       (Nodes, 7) \<mapsto> \<lparr>ln_prev = None, ln_next = Some (Nodes, 6)\<rparr>,
       (Nodes, 6) \<mapsto> \<lparr>ln_prev = Some (Nodes, 7), ln_next = Some (Nodes, 5)\<rparr>],
     pi_lru_head = Some (Nodes, 7), pi_lru_tail = Some (Nodes, 0),
     pi_files = [Nodes \<mapsto> \<lparr>fh_bytes = new_page_buf, fh_faults = [Some 0]\<rparr>]\<rparr>"

lemma full: "full_pool page = \<lparr>bp_inner = filled page, bp_max_pages = 8\<rparr>"
  by (simp add: full_pool_def filled_def sbind_def pool_put_page_def on_inner_def put_new pool_new_def register_file_def MIN_POOL_PAGES_def
    lru_push_front_inner_def set_prev_def Let_def)

text \<open>C40 (a failed write-back loses the page). The eviction drops the frame before it writes it: when the
  write fails, the error goes to the caller that needed the room, and an acknowledged page write is gone. In a pool of
  eight pages, filled by eight successful writes, the write of a ninth page fails with an I/O error; page 0 then reads as the old
  page of the file.\<close>

theorem failed_eviction_loses_page:
  "\<exists>pool'. pool_put_page Nodes 8 new_page_buf (full_pool page) = (Inl IoError, pool') \<and>
     fst (get_page crc Nodes 0 (full_pool page)) = Inr page \<and> fst (get_page crc Nodes 0 pool') = Inr new_page_buf"
proof -
  define s' where "s' = snd (evict_one_inner (filled page))"
  have fr: "fst (evict_one_inner (filled page)) = Inl IoError" "length (pi_frames s') = 7" "map_of (pi_frames s') (Nodes, 0) = None"
      "pi_files s' Nodes = Some \<lparr>fh_bytes = new_page_buf, fh_faults = []\<rparr>"
    by (simp_all add: s'_def filled_def evict_one_inner_def find_victim.simps [of _ "Some _"] evictable_def lru_unlink_inner_def
        with_file_def write_to_disk_def write_all_def write_at_def page_offset_def Let_def)
  then have ev: "evict_one_inner (filled page) = (Inl IoError, s')" by (simp add: s'_def prod_eq_iff)
  have "ensure_capacity_inner 8 (filled page) = (Inl IoError, s')"
    by (subst ensure_capacity_inner.simps) (simp add: ev, simp add: filled_def)
  then have "pool_put_page Nodes 8 new_page_buf (full_pool page) = (Inl IoError, (full_pool page)\<lparr>bp_inner := s'\<rparr>)"
    by (simp add: pool_put_page_def on_inner_def put_page_inner_def sbind_def full) (simp add: filled_def sbind_def)
  moreover have "fst (get_page crc Nodes 0 (full_pool page)) = Inr page"
    by (simp add: get_page_def on_inner_def get_page_inner_def full filled_def)
  moreover have "fst (get_page crc Nodes 0 ((full_pool page)\<lparr>bp_inner := s'\<rparr>)) = Inr new_page_buf"
    using zero_page_valid [of crc Nodes] fr(2-4)
    by (simp add: get_page_def on_inner_def get_page_inner_def full sbind_def ensure_capacity_inner.simps with_file_def
        read_from_disk_def read_exact_def page_offset_def page_valid_def subslice_def)
  ultimately show ?thesis by blast
qed
end
