(* ===== verification/Free_List.thy ===== *)
theory Free_List
  imports Wal_Recovery Pool_Pages "HOL-Library.Multiset"
begin

text \<open>
  Page reuse (\<^verbatim>\<open>crates/ermya-graph/src/storage/free_list.rs\<close>) over directory pages
  (\<^verbatim>\<open>storage/codec/free_directory_codec.rs\<close>). The algorithm is written once against the
  \<^verbatim>\<open>FreeListStore\<close> trait: here a record of operations, with the laws a store owes as the
  locale \<open>free_list_store\<close>. The client lemmas are proved in the locale; the two backends are its
  instances in \<open>Storage_Backend\<close>.
\<close>

section \<open>Directory pages\<close>

definition FREE_DIRECTORY_VERSION :: u16 where "FREE_DIRECTORY_VERSION = 1"
definition OFF_NEXT :: nat where "OFF_NEXT = 0"
definition OFF_LEN :: nat where "OFF_LEN = 4"
definition OFF_ENTRIES :: nat where "OFF_ENTRIES = 8"
definition ENTRIES_PER_PAGE :: nat where "ENTRIES_PER_PAGE = (PAGE_PAYLOAD_SIZE - OFF_ENTRIES) div 4"

record free_directory_page =
  fd_next :: u32
  fd_entries :: "u32 list"

definition directory_empty :: free_directory_page where
  "directory_empty = \<lparr>fd_next = FREE_DIRECTORY_EMPTY, fd_entries = []\<rparr>"

definition has_room :: "free_directory_page \<Rightarrow> bool" where
  "has_room d \<longleftrightarrow> length (fd_entries d) < ENTRIES_PER_PAGE"

definition directory_encode ::
  "(bytes \<Rightarrow> u32) \<Rightarrow> bytes \<Rightarrow> free_directory_page \<Rightarrow> storage_error + bytes" where
  "directory_encode crc magic d =
     (if length (fd_entries d) > ENTRIES_PER_PAGE then Inl (RecordTooLarge (length (fd_entries d)))
      else let p = PAGE_HEADER_SIZE;
               b1 = splice (p + OFF_NEXT) (le32 (fd_next d)) new_page_buf;
               b2 = splice (p + OFF_LEN) (le32 (word_of_nat (length (fd_entries d)))) b1;
               b3 = put_u32s (p + OFF_ENTRIES) (fd_entries d) b2
           in Inr (finalize_page crc magic FREE_DIRECTORY_VERSION FreeDirectory 0 b3))"

definition directory_decode :: "data_file \<Rightarrow> u32 \<Rightarrow> bytes \<Rightarrow> storage_error + free_directory_page" where
  "directory_decode f pid buf =
     (if ph_page_type (header_read buf) \<noteq> page_type_code FreeDirectory
      then Inl (CorruptPage f pid ''expected a free-directory page'')
      else let p = PAGE_HEADER_SIZE;
               next = word_of_nat (le_nat (subslice (p + OFF_NEXT) 4 buf));
               len = le_nat (subslice (p + OFF_LEN) 4 buf)
           in if len > ENTRIES_PER_PAGE
              then Inl (CorruptPage f pid ''free-directory entry count exceeds page capacity'')
              else Inr \<lparr>fd_next = next, fd_entries = get_u32s (p + OFF_ENTRIES) len buf\<rparr>)"

section \<open>The algorithm\<close>

text \<open>\<^verbatim>\<open>FreeListStore\<close>: raw page access, the metadata, and the journal.\<close>

record 's fl_ops =
  fl_read :: "data_file \<Rightarrow> u32 \<Rightarrow> ('s, storage_error, bytes) step"
  fl_write :: "data_file \<Rightarrow> u32 \<Rightarrow> bytes \<Rightarrow> ('s, storage_error, unit) step"
  fl_meta :: "'s \<Rightarrow> graph_meta"
  fl_set_meta :: "graph_meta \<Rightarrow> 's \<Rightarrow> 's"
  fl_journal :: "data_file \<Rightarrow> ('s, storage_error, unit) step"

definition modify_meta :: "'s fl_ops \<Rightarrow> (graph_meta \<Rightarrow> graph_meta) \<Rightarrow> ('s, storage_error, unit) step" where
  "modify_meta ops h = smodify (\<lambda>s. fl_set_meta ops (h (fl_meta ops s)) s)"

definition u32_saturating_sub1 :: "u32 \<Rightarrow> u32" where
  "u32_saturating_sub1 n = (if n = 0 then 0 else n - 1)"

definition u32_saturating_add1 :: "u32 \<Rightarrow> u32" where
  "u32_saturating_add1 n = (if n = 0xFFFFFFFF then n else n + 1)"

definition decrement_free_count :: "'s fl_ops \<Rightarrow> data_file \<Rightarrow> ('s, storage_error, unit) step" where
  "decrement_free_count ops f =
     modify_meta ops (\<lambda>m. set_free_page_count f (u32_saturating_sub1 (free_page_count m f)) m)"

definition increment_free_count :: "'s fl_ops \<Rightarrow> data_file \<Rightarrow> ('s, storage_error, unit) step" where
  "increment_free_count ops f =
     modify_meta ops (\<lambda>m. set_free_page_count f (u32_saturating_add1 (free_page_count m f)) m)"

definition write_directory ::
  "(bytes \<Rightarrow> u32) \<Rightarrow> 's fl_ops \<Rightarrow> data_file \<Rightarrow> u32 \<Rightarrow> free_directory_page \<Rightarrow> ('s, storage_error, unit) step" where
  "write_directory crc ops f p d =
     sbind (sread (\<lambda>_. directory_encode crc (file_magic f) d)) (fl_write ops f p)"

definition read_directory :: "'s fl_ops \<Rightarrow> data_file \<Rightarrow> u32 \<Rightarrow> ('s, storage_error, free_directory_page) step" where
  "read_directory ops f p = sbind (fl_read ops f p) (\<lambda>buf. sread (\<lambda>_. directory_decode f p buf))"

definition take_free_page ::
  "(bytes \<Rightarrow> u32) \<Rightarrow> 's fl_ops \<Rightarrow> data_file \<Rightarrow> ('s, storage_error, u32 option) step" where
  "take_free_page crc ops f s =
     (let spare = free_spare_page (fl_meta ops s) f; head = free_directory_head (fl_meta ops s) f in
      if spare \<noteq> FREE_SPARE_EMPTY then
        sbind (modify_meta ops (set_free_spare_page f FREE_SPARE_EMPTY)) (\<lambda>_.
        sbind (decrement_free_count ops f) (\<lambda>_.
        sbind (fl_journal ops f) (\<lambda>_. sret (Some spare)))) s
      else if head = FREE_DIRECTORY_EMPTY then (Inr None, s)
      else sbind (read_directory ops f head) (\<lambda>d.
        if fd_entries d \<noteq> [] then
          sbind (write_directory crc ops f head (d\<lparr>fd_entries := butlast (fd_entries d)\<rparr>)) (\<lambda>_.
          sbind (decrement_free_count ops f) (\<lambda>_.
          sbind (fl_journal ops f) (\<lambda>_. sret (Some (last (fd_entries d))))))
        else
          sbind (modify_meta ops (set_free_directory_head f (fd_next d))) (\<lambda>_.
          sbind (fl_journal ops f) (\<lambda>_. sret (Some head)))) s)"

definition release_page ::
  "(bytes \<Rightarrow> u32) \<Rightarrow> 's fl_ops \<Rightarrow> data_file \<Rightarrow> u32 \<Rightarrow> ('s, storage_error, unit) step" where
  "release_page crc ops f p s =
     (let head = free_directory_head (fl_meta ops s) f in
      if free_spare_page (fl_meta ops s) f = FREE_SPARE_EMPTY then
        sbind (modify_meta ops (set_free_spare_page f p)) (\<lambda>_.
        sbind (increment_free_count ops f) (\<lambda>_. fl_journal ops f)) s
      else if head = FREE_DIRECTORY_EMPTY then
        sbind (write_directory crc ops f p directory_empty) (\<lambda>_.
        sbind (modify_meta ops (set_free_directory_head f p)) (\<lambda>_. fl_journal ops f)) s
      else sbind (read_directory ops f head) (\<lambda>d.
        if has_room d then
          sbind (write_directory crc ops f head (d\<lparr>fd_entries := fd_entries d @ [p]\<rparr>)) (\<lambda>_.
          sbind (increment_free_count ops f) (\<lambda>_. fl_journal ops f))
        else
          sbind (write_directory crc ops f p \<lparr>fd_next = head, fd_entries = []\<rparr>) (\<lambda>_.
          sbind (modify_meta ops (set_free_directory_head f p)) (\<lambda>_. fl_journal ops f))) s)"

section \<open>The directory codec\<close>

lemma entries_per_page: "ENTRIES_PER_PAGE = 1018"
  by (simp add: ENTRIES_PER_PAGE_def PAGE_PAYLOAD_SIZE_def PAGE_SIZE_def PAGE_HEADER_SIZE_def OFF_ENTRIES_def)

lemma directory_decode_encode:
  assumes "directory_encode crc magic d = Inr page" "length magic = 4"
  shows "directory_decode f p page = Inr d" "length page = PAGE_SIZE" "validate_page_buf crc magic page = Inr ()"
proof -
  have n: "length (fd_entries d) \<le> 1018"
    using assms(1) by (auto simp: directory_encode_def entries_per_page split: if_splits)
  define pre where "pre = replicate 16 0 @ le32 (fd_next d) @ le32 (word_of_nat (length (fd_entries d)))"
  define body where "body = pre @ concat (map le32 (fd_entries d)) @ replicate (4072 - 4 * length (fd_entries d)) 0"
  have page: "page = finalize_page_with_lsn crc magic FREE_DIRECTORY_VERSION FreeDirectory 0 0 body"
    using assms(1) n
    by (simp add: directory_encode_def entries_per_page Let_def PAGE_HEADER_SIZE_def OFF_NEXT_def OFF_LEN_def
        OFF_ENTRIES_def new_page_padded put_u32s_splice splice_padded PAGE_SIZE_def finalize_page_def)
      (simp add: body_def pre_def padded_def)
  have len: "length body = PAGE_SIZE" using n by (simp add: body_def pre_def PAGE_SIZE_def)
  note f = finalize_frame [OF assms(2) len, of crc FREE_DIRECTORY_VERSION FreeDirectory 0 0, folded page]
  show "length page = PAGE_SIZE" by (rule f(1))
  show "validate_page_buf crc magic page = Inr ()" unfolding page by (rule finalize_validates [OF assms(2) len])
  have pay: "subslice off k page = subslice off k body" if "16 \<le> off" for off k
    using subslice_payload [OF f(2) that] .
  have "get_u32s 24 (length (fd_entries d)) page = get_u32s 24 (length (fd_entries d)) body"
    by (intro get_u32s_cong pay) simp
  also have "\<dots> = fd_entries d"
    using get_u32s_append [of pre "fd_entries d"] by (simp add: body_def pre_def)
  finally have entries: "get_u32s 24 (length (fd_entries d)) page = fd_entries d" .
  have "le_nat (subslice 20 4 body) = length (fd_entries d)"
    using n by (simp add: body_def pre_def subslice_def le32_def le_nat_le_bytes unat_of_nat)
  moreover have "word_of_nat (le_nat (subslice 16 4 body)) = fd_next d"
    by (simp add: body_def pre_def subslice_def)
  ultimately show "directory_decode f p page = Inr d"
    using f(3) n entries
    by (simp add: directory_decode_def Let_def pay PAGE_HEADER_SIZE_def OFF_NEXT_def OFF_LEN_def OFF_ENTRIES_def
        entries_per_page)
qed

section \<open>The free pages of a file\<close>

text \<open>The chain of directory pages from a head, each with its entries.\<close>

definition directory_at :: "(page_key \<rightharpoonup> bytes) \<Rightarrow> data_file \<Rightarrow> u32 \<Rightarrow> free_directory_page option" where
  "directory_at V f p =
     (case V (f, p) of None \<Rightarrow> None
      | Some buf \<Rightarrow> (case directory_decode f p buf of Inl _ \<Rightarrow> None | Inr d \<Rightarrow> Some d))"

fun dir_chain :: "(page_key \<rightharpoonup> bytes) \<Rightarrow> data_file \<Rightarrow> u32 \<Rightarrow> (u32 \<times> u32 list) list \<Rightarrow> bool" where
  "dir_chain V f h [] \<longleftrightarrow> h = FREE_DIRECTORY_EMPTY"
| "dir_chain V f h ((p, es) # ds) \<longleftrightarrow> h = p \<and> p \<noteq> FREE_DIRECTORY_EMPTY \<and>
     (case directory_at V f p of None \<Rightarrow> False | Some d \<Rightarrow> fd_entries d = es \<and> dir_chain V f (fd_next d) ds)"

definition spare_list :: "graph_meta \<Rightarrow> data_file \<Rightarrow> u32 list" where
  "spare_list m f = (if free_spare_page m f = FREE_SPARE_EMPTY then [] else [free_spare_page m f])"

definition listed :: "graph_meta \<Rightarrow> data_file \<Rightarrow> (u32 \<times> u32 list) list \<Rightarrow> u32 list" where
  "listed m f ds = spare_list m f @ concat (map (\<lambda>(p, es). p # es) ds)"

text \<open>The free list of a file is well formed: its chain ends, no page is listed twice, the
  sentinel is no page, and the count is the number of recorded ids.\<close>

definition free_list_ok :: "graph_meta \<Rightarrow> (page_key \<rightharpoonup> bytes) \<Rightarrow> data_file \<Rightarrow> (u32 \<times> u32 list) list \<Rightarrow> bool" where
  "free_list_ok m V f ds \<longleftrightarrow>
     dir_chain V f (free_directory_head m f) ds \<and>
     distinct (listed m f ds) \<and> FREE_DIRECTORY_EMPTY \<notin> set (listed m f ds) \<and>
     unat (free_page_count m f) = length (spare_list m f) + sum_list (map (length \<circ> snd) ds)"

definition free_set :: "graph_meta \<Rightarrow> (page_key \<rightharpoonup> bytes) \<Rightarrow> data_file \<Rightarrow> u32 set \<Rightarrow> bool" where
  "free_set m V f F \<longleftrightarrow> (\<exists>ds. free_list_ok m V f ds \<and> F = set (listed m f ds))"

lemma dir_chain_mono:
  assumes "dir_chain V f h ds" "\<And>p d. p \<in> fst ` set ds \<Longrightarrow> V (f, p) = Some d \<Longrightarrow> V' (f, p) = Some d"
  shows "dir_chain V' f h ds"
  using assms
proof (induction ds arbitrary: h)
  case (Cons d ds)
  obtain p es where d: "d = (p, es)" by (cases d)
  from Cons.prems(1) d obtain buf dir where "V (f, p) = Some buf" "directory_decode f p buf = Inr dir"
      "fd_entries dir = es" "dir_chain V f (fd_next dir) ds" "h = p" "p \<noteq> FREE_DIRECTORY_EMPTY"
    by (auto simp: directory_at_def split: option.splits sum.splits)
  moreover have "V' (f, p) = Some buf" using Cons.prems(2) [of p buf] d calculation(1) by simp
  moreover have "dir_chain V' f (fd_next dir) ds" using Cons.IH [OF calculation(4)] Cons.prems(2) by simp
  ultimately show ?case using d by (simp add: directory_at_def)
qed simp

lemma u32_saturating:
  "n \<noteq> 0 \<Longrightarrow> unat (u32_saturating_sub1 n) = unat n - 1"
  "n \<noteq> 0xFFFFFFFF \<Longrightarrow> unat (u32_saturating_add1 n) = unat n + 1"
proof -
  show "n \<noteq> 0 \<Longrightarrow> unat (u32_saturating_sub1 n) = unat n - 1"
    by (simp add: u32_saturating_sub1_def unat_minus_one)
  assume n: "n \<noteq> 0xFFFFFFFF"
  have "n + 1 \<noteq> 0"
  proof
    assume "n + 1 = 0"
    then have "n = - 1" by (simp add: eq_neg_iff_add_eq_0)
    with n show False by simp
  qed
  then show "unat (u32_saturating_add1 n) = unat n + 1"
    using n unatSuc [of n] by (simp add: u32_saturating_add1_def add.commute)
qed

text \<open>Distinct pages that leave the sentinel and one more page out cannot saturate the count.\<close>

lemma distinct_u32_bound:
  assumes "distinct xs" "(FREE_DIRECTORY_EMPTY :: u32) \<notin> set xs" "p \<notin> set xs" "p \<noteq> FREE_DIRECTORY_EMPTY"
  shows "length xs + 2 \<le> 2 ^ 32"
proof -
  have "distinct (FREE_DIRECTORY_EMPTY # p # xs)" using assms by simp
  then have "length (FREE_DIRECTORY_EMPTY # p # xs) = card (set (FREE_DIRECTORY_EMPTY # p # xs))"
    by (simp only: distinct_card)
  also have "\<dots> \<le> card (UNIV :: u32 set)" by (intro card_mono) auto
  finally show ?thesis by (simp add: card_word)
qed

lemma listed_length: "length (listed m f ds) = length (spare_list m f) + sum_list (map (length \<circ> snd) ds) + length ds"
  by (induction ds) (auto simp: listed_def)

text \<open>A free list is read from pages that stay as they are; nothing else of the metadata matters.\<close>

lemma free_list_ok_mono:
  assumes "free_list_ok m V f ds" "V \<subseteq>\<^sub>m V'"
  shows "free_list_ok m V' f ds"
  using assms(1) dir_chain_mono [of V f _ ds V'] map_leD [OF assms(2)] by (auto simp: free_list_ok_def)

definition same_but :: "data_file \<Rightarrow> graph_meta \<Rightarrow> graph_meta \<Rightarrow> bool" where
  "same_but f m m' \<longleftrightarrow> (\<forall>f'. file_page_count m' f' = file_page_count m f') \<and>
     (\<forall>f'. f' \<noteq> f \<longrightarrow> free_directory_head m' f' = free_directory_head m f' \<and>
        free_spare_page m' f' = free_spare_page m f' \<and> free_page_count m' f' = free_page_count m f')"

lemma free_set_cong:
  assumes "free_set m V f F" "free_directory_head m' f = free_directory_head m f" "free_spare_page m' f = free_spare_page m f"
    "free_page_count m' f = free_page_count m f" "\<And>p d. p \<in> F \<Longrightarrow> V (f, p) = Some d \<Longrightarrow> V' (f, p) = Some d"
  shows "free_set m' V' f F"
proof -
  obtain ds where ds: "free_list_ok m V f ds" "F = set (listed m f ds)" using assms(1) by (auto simp: free_set_def)
  have l: "listed m' f ds = listed m f ds" "spare_list m' f = spare_list m f" using assms(3) by (simp_all add: listed_def spare_list_def)
  have "p \<in> F" if "p \<in> fst ` set ds" for p using that ds(2) by (force simp: listed_def)
  then have "V' (f, p) = Some d" if "p \<in> fst ` set ds" "V (f, p) = Some d" for p d using that assms(5) by blast
  moreover have "dir_chain V f (free_directory_head m f) ds" using ds(1) by (simp add: free_list_ok_def)
  ultimately have "dir_chain V' f (free_directory_head m f) ds" using dir_chain_mono by blast
  then show ?thesis unfolding free_set_def using ds assms(2,4) l by (intro exI [of _ ds]) (simp add: free_list_ok_def)
qed

lemma same_but_set [simp]:
  "meta_ok m \<Longrightarrow> same_but f m (set_free_directory_head f h m)" "meta_ok m \<Longrightarrow> same_but f m (set_free_spare_page f h m)"
  "meta_ok m \<Longrightarrow> same_but f m (set_free_page_count f h m)"
  by (simp_all add: same_but_def)

lemma same_but_trans: "same_but f m m1 \<Longrightarrow> same_but f m1 m2 \<Longrightarrow> same_but f m m2"
  by (simp add: same_but_def)

text \<open>The head page of the directory is rewritten, with another list of entries.\<close>

lemma head_rewritten:
  assumes "free_list_ok m V f ((h, es) # ds)" "dir_chain V f (fd_next d) ds"
    and "directory_at V' f h = Some d" "\<And>k e. k \<noteq> (f, h) \<Longrightarrow> V k = Some e \<Longrightarrow> V' k = Some e"
    and "free_directory_head m' f = h" "spare_list m' f = spare_list m f"
    and "distinct (fd_entries d)" "set (fd_entries d) \<subseteq> set es \<union> X"
    and "X \<inter> insert FREE_DIRECTORY_EMPTY (set (listed m f ((h, es) # ds))) = {}"
    and "unat (free_page_count m' f) + length es = unat (free_page_count m f) + length (fd_entries d)"
  shows "free_list_ok m' V' f ((h, fd_entries d) # ds)"
proof -
  have "p \<noteq> h" if "p \<in> fst ` set ds" for p using assms(1) that by (force simp: free_list_ok_def listed_def)
  then have "dir_chain V' f (fd_next d) ds" by (intro dir_chain_mono [OF assms(2)] assms(4)) auto
  then have "dir_chain V' f h ((h, fd_entries d) # ds)" using assms(1,3) by (simp add: free_list_ok_def)
  moreover have "distinct (listed m' f ((h, fd_entries d) # ds)) \<and> FREE_DIRECTORY_EMPTY \<notin> set (listed m' f ((h, fd_entries d) # ds))"
  proof -
    define S D where "S = spare_list m f" and "D = concat (map (\<lambda>(p, es). p # es) ds)"
    have old: "listed m f ((h, es) # ds) = S @ h # es @ D" and new: "listed m' f ((h, fd_entries d) # ds) = S @ h # fd_entries d @ D"
      using assms(6) by (simp_all add: listed_def S_def D_def)
    have "distinct (S @ h # es @ D)" "FREE_DIRECTORY_EMPTY \<notin> set (S @ h # es @ D)"
      using assms(1) unfolding free_list_ok_def old by blast+
    then show ?thesis using assms(7-9) unfolding old new by auto
  qed
  moreover have "unat (free_page_count m' f) = length (spare_list m' f) + (length (fd_entries d) + sum_list (map (length \<circ> snd) ds))"
    using assms(1,6,10) by (simp add: free_list_ok_def)
  ultimately show ?thesis using assms(5) by (simp add: free_list_ok_def)
qed

section \<open>The contract of a store\<close>

locale free_list_store =
  fixes ops :: "'s fl_ops" and crc :: "bytes \<Rightarrow> u32" and ok :: "'s \<Rightarrow> bool" and view :: "'s \<Rightarrow> page_key \<rightharpoonup> bytes"
  assumes ok_meta: "ok s \<Longrightarrow> meta_ok (fl_meta ops s)"
    and set_meta_law: "ok s \<Longrightarrow> meta_ok m \<Longrightarrow> file_page_count m = file_page_count (fl_meta ops s) \<Longrightarrow> ok (fl_set_meta ops m s)"
      "fl_meta ops (fl_set_meta ops m s) = m" "view (fl_set_meta ops m s) = view s"
      "fl_set_meta ops m' (fl_set_meta ops m s) = fl_set_meta ops m' s"
    and read_law: "fl_read ops f p s = (r, s') \<Longrightarrow> ok s \<Longrightarrow> ok s'"
      "fl_read ops f p s = (r, s') \<Longrightarrow> fl_meta ops s' = fl_meta ops s"
      "fl_read ops f p s = (Inr d, s') \<Longrightarrow> ok s \<Longrightarrow> view s \<subseteq>\<^sub>m view s'"
      "fl_read ops f p s = (Inr d, s') \<Longrightarrow> ok s \<Longrightarrow> view s' (f, p) = Some d"
    and write_law: "fl_write ops f p d s = (w, s') \<Longrightarrow> ok s \<Longrightarrow> page_valid crc f d \<Longrightarrow> ok s'"
      "fl_write ops f p d s = (w, s') \<Longrightarrow> fl_meta ops s' = fl_meta ops s"
      "fl_write ops f p d s = (Inr u, s') \<Longrightarrow> ok s \<Longrightarrow> page_valid crc f d \<Longrightarrow> view s' (f, p) = Some d"
      "fl_write ops f p d s = (Inr u, s') \<Longrightarrow> ok s \<Longrightarrow> page_valid crc f d \<Longrightarrow> k \<noteq> (f, p) \<Longrightarrow>
         view s k = Some e \<Longrightarrow> view s' k = Some e"
    and journal_law: "fl_journal ops f s = (w, s') \<Longrightarrow> ok s \<Longrightarrow> ok s'"
      "fl_journal ops f s = (w, s') \<Longrightarrow> fl_meta ops s' = fl_meta ops s"
      "fl_journal ops f s = (w, s') \<Longrightarrow> view s' = view s"
begin

lemma modify_meta_eq: "modify_meta ops h s = (Inr (), fl_set_meta ops (h (fl_meta ops s)) s)"
  by (simp add: modify_meta_def)

lemma written_directory:
  assumes "write_directory crc ops f p d s = (Inr u, s')" "ok s"
  shows "ok s'" "fl_meta ops s' = fl_meta ops s" "directory_at (view s') f p = Some d"
    "k \<noteq> (f, p) \<Longrightarrow> view s k = Some e \<Longrightarrow> view s' k = Some e"
proof -
  from assms(1) obtain page where p: "directory_encode crc (file_magic f) d = Inr page"
      "fl_write ops f p page s = (Inr u, s')" by (auto simp: write_directory_def sbind_eq_Inr)
  note page = directory_decode_encode [OF p(1) length_file_magic]
  have v: "page_valid crc f page" using page(2,3) by (simp add: page_valid_def)
  show "ok s'" by (rule write_law(1) [OF p(2) assms(2) v])
  show "fl_meta ops s' = fl_meta ops s" by (rule write_law(2) [OF p(2)])
  show "directory_at (view s') f p = Some d"
    using write_law(3) [OF p(2) assms(2) v] page(1) by (simp add: directory_at_def)
  show "k \<noteq> (f, p) \<Longrightarrow> view s k = Some e \<Longrightarrow> view s' k = Some e" by (rule write_law(4) [OF p(2) assms(2) v])
qed

text \<open>The end of every update: the metadata changes and the change is journalled.\<close>

lemma finish_ok:
  assumes "sbind (modify_meta ops h) (\<lambda>_. fl_journal ops f) s = (Inr u, s')"
    and "ok s" "\<And>m. meta_ok m \<Longrightarrow> meta_ok (h m) \<and> same_but f m (h m)"
  shows "ok s'" "fl_meta ops s' = h (fl_meta ops s)" "view s' = view s"
proof -
  let ?s = "fl_set_meta ops (h (fl_meta ops s)) s"
  have j: "fl_journal ops f ?s = (Inr u, s')"
    using assms(1) by (simp add: sbind_def modify_meta_eq)
  have "ok ?s" using assms(2) assms(3) [OF ok_meta [OF assms(2)]] by (intro set_meta_law(1)) (auto simp: same_but_def)
  then show "ok s'" by (rule journal_law(1) [OF j])
  show "fl_meta ops s' = h (fl_meta ops s)" using journal_law(2) [OF j] set_meta_law(2) by simp
  show "view s' = view s" using journal_law(3) [OF j] set_meta_law(3) by simp
qed

lemma modify_modify:
  "sbind (modify_meta ops h1) (\<lambda>_. sbind (modify_meta ops h2) k) = sbind (modify_meta ops (h2 \<circ> h1)) k"
  by (simp add: fun_eq_iff sbind_def modify_meta_eq set_meta_law)

text \<open>One page leaves the list, or joins it; no page outside the list changes, and no other file.\<close>

definition free_pages :: "data_file \<Rightarrow> 's \<Rightarrow> u32 set \<Rightarrow> bool" where
  "free_pages f s F \<longleftrightarrow> free_set (fl_meta ops s) (view s) f F"

definition moved :: "data_file \<Rightarrow> u32 set \<Rightarrow> 's \<Rightarrow> u32 set \<Rightarrow> 's \<Rightarrow> bool" where
  "moved f F s F' s' \<longleftrightarrow> ok s' \<and> free_pages f s' F' \<and> same_but f (fl_meta ops s) (fl_meta ops s') \<and>
     (\<forall>f' p' d. p' \<notin> F \<union> F' \<or> f' \<noteq> f \<longrightarrow> view s (f', p') = Some d \<longrightarrow> view s' (f', p') = Some d)"

lemma moved_after_read:
  assumes "moved f F s1 F' s'" "view s \<subseteq>\<^sub>m view s1" "fl_meta ops s1 = fl_meta ops s"
  shows "moved f F s F' s'"
  using assms(1,3) map_leD [OF assms(2)] unfolding moved_def by simp

lemma moved_meta:
  assumes "sbind (modify_meta ops h) (\<lambda>_. fl_journal ops f) s = (Inr u, s')" "ok s"
    and "\<And>m. meta_ok m \<Longrightarrow> meta_ok (h m) \<and> same_but f m (h m)"
    and "free_list_ok (h (fl_meta ops s)) (view s) f ds"
  shows "moved f F s (set (listed (h (fl_meta ops s)) f ds)) s'"
proof -
  note fin = finish_ok [OF assms(1-3)]
  show ?thesis
    using fin assms(3,4) ok_meta [OF assms(2)] unfolding moved_def free_pages_def free_set_def by auto
qed

text \<open>The metadata part of an update after a directory page was written.\<close>

lemma moved_directory:
  assumes "write_directory crc ops f p d s = (Inr v, s1)"
    and "sbind (modify_meta ops h) (\<lambda>_. fl_journal ops f) s1 = (Inr u, s')" "ok s"
    and "\<And>m. meta_ok m \<Longrightarrow> meta_ok (h m) \<and> same_but f m (h m)"
    and "\<And>V. directory_at V f p = Some d \<Longrightarrow> (\<And>k e. k \<noteq> (f, p) \<Longrightarrow> view s k = Some e \<Longrightarrow> V k = Some e) \<Longrightarrow>
           free_list_ok (h (fl_meta ops s)) V f ds"
    and "p \<in> F \<or> p \<in> set (listed (h (fl_meta ops s)) f ds)"
  shows "moved f F s (set (listed (h (fl_meta ops s)) f ds)) s'"
proof -
  note w = written_directory [OF assms(1,3)]
  have "moved f F s1 (set (listed (h (fl_meta ops s1)) f ds)) s'"
    using w(2,3) assms(5) [OF w(3)] w(4) by (intro moved_meta [OF assms(2) w(1) assms(4)]) simp_all
  moreover have "view s1 (f', p') = Some e"
    if "p' \<notin> F \<union> set (listed (h (fl_meta ops s)) f ds) \<or> f' \<noteq> f" "view s (f', p') = Some e" for f' p' e
    using w(4) [of "(f', p')" e] that assms(6) by auto
  ultimately show ?thesis unfolding moved_def w(2) by blast
qed

lemma free_list_meta:
  assumes "free_list_ok m V f ds" "same_but f m m'" "free_directory_head m' f = free_directory_head m f"
    and "distinct (listed m' f ds)" "FREE_DIRECTORY_EMPTY \<notin> set (listed m' f ds)"
    and "unat (free_page_count m' f) = length (spare_list m' f) + sum_list (map (length \<circ> snd) ds)"
  shows "free_list_ok m' V f ds"
  using assms by (simp add: free_list_ok_def)

lemma take_spare:
  assumes "sbind (modify_meta ops (set_free_spare_page f FREE_SPARE_EMPTY)) (\<lambda>_.
      sbind (decrement_free_count ops f) (\<lambda>_. fl_journal ops f)) s = (Inr u, s')"
    and "free_spare_page (fl_meta ops s) f = p" "p \<noteq> FREE_SPARE_EMPTY" "ok s" "free_pages f s F"
  shows "p \<in> F \<and> moved f F s (F - {p}) s'"
proof -
  let ?h = "(\<lambda>m. set_free_page_count f (u32_saturating_sub1 (free_page_count m f)) m) \<circ> set_free_spare_page f FREE_SPARE_EMPTY"
  let ?m = "fl_meta ops s"
  have s': "sbind (modify_meta ops ?h) (\<lambda>_. fl_journal ops f) s = (Inr u, s')"
    using assms(1) by (simp add: decrement_free_count_def modify_modify)
  obtain ds where ds: "free_list_ok ?m (view s) f ds" "F = set (listed ?m f ds)" using assms(5) by (auto simp: free_pages_def free_set_def)
  have mok: "meta_ok (?h m) \<and> same_but f m (?h m)" if "meta_ok m" for m
    using that by (auto intro: same_but_trans [OF same_but_set(2) same_but_set(3)])
  have "free_page_count ?m f \<noteq> 0" using assms(2,3) ds(1) by (auto simp: free_list_ok_def spare_list_def)
  moreover have l: "listed ?m f ds = p # listed (?h ?m) f ds"
    using assms(2,3) ok_meta [OF assms(4)] by (simp add: listed_def spare_list_def)
  ultimately have "free_list_ok (?h ?m) (view s) f ds"
    using ds(1) assms(2,3) ok_meta [OF assms(4)] u32_saturating(1) by (auto simp: free_list_ok_def spare_list_def)
  from moved_meta [OF s' assms(4) mok this] show ?thesis using ds l by (auto simp: free_list_ok_def)
qed

lemma head_page:
  assumes "free_pages f s F" "ok s" "free_directory_head (fl_meta ops s) f = h" "h \<noteq> FREE_DIRECTORY_EMPTY"
    and "read_directory ops f h s = (Inr d, s1)"
  obtains ds where "free_list_ok (fl_meta ops s1) (view s1) f ((h, fd_entries d) # ds)" "ok s1"
    "dir_chain (view s1) f (fd_next d) ds" "F = set (listed (fl_meta ops s1) f ((h, fd_entries d) # ds))"
    "view s \<subseteq>\<^sub>m view s1" "fl_meta ops s1 = fl_meta ops s" "length (fd_entries d) \<le> ENTRIES_PER_PAGE"
proof -
  obtain buf where rd: "fl_read ops f h s = (Inr buf, s1)" "directory_decode f h buf = Inr d"
    using assms(5) by (auto simp: read_directory_def sbind_eq_Inr)
  note r = read_law(1) [OF rd(1) assms(2)] read_law(2) [OF rd(1)] read_law(3,4) [OF rd(1) assms(2)]
  obtain ds where ds: "free_list_ok (fl_meta ops s) (view s) f ds" "F = set (listed (fl_meta ops s) f ds)"
    using assms(1) by (auto simp: free_pages_def free_set_def)
  have ok1: "free_list_ok (fl_meta ops s1) (view s1) f ds" using free_list_ok_mono [OF ds(1) r(3)] r(2) by simp
  have at: "directory_at (view s1) f h = Some d" using r(4) rd(2) by (simp add: directory_at_def)
  obtain p es ds1 where ds1: "ds = (p, es) # ds1"
    using ok1 assms(3,4) r(2) by (cases ds) (auto simp: free_list_ok_def)
  have e: "p = h" "es = fd_entries d" "dir_chain (view s1) f (fd_next d) ds1"
    using ok1 at assms(3) r(2) unfolding ds1 free_list_ok_def by auto
  have len: "length (fd_entries d) \<le> ENTRIES_PER_PAGE"
    using rd(2) by (auto simp: directory_decode_def Let_def split: if_splits)
  show thesis by (rule that [OF ok1 [unfolded ds1 e(1,2)] r(1) e(3) ds(2) [folded r(2), unfolded ds1 e(1,2)] r(3,2) len])
qed

lemma take_entry:
  assumes "sbind (write_directory crc ops f h (d\<lparr>fd_entries := butlast (fd_entries d)\<rparr>)) (\<lambda>_.
      sbind (decrement_free_count ops f) (\<lambda>_. fl_journal ops f)) s = (Inr u, s')"
    and "free_directory_head (fl_meta ops s) f = h" "free_spare_page (fl_meta ops s) f = FREE_SPARE_EMPTY"
    and "ok s" "free_list_ok (fl_meta ops s) (view s) f ((h, fd_entries d) # ds)" "dir_chain (view s) f (fd_next d) ds"
    and "fd_entries d \<noteq> []" "F = set (listed (fl_meta ops s) f ((h, fd_entries d) # ds))"
  shows "last (fd_entries d) \<in> F \<and> moved f F s (F - {last (fd_entries d)}) s'"
proof -
  let ?d = "d\<lparr>fd_entries := butlast (fd_entries d)\<rparr>" and ?ds = "(h, butlast (fd_entries d)) # ds" and ?m = "fl_meta ops s"
  let ?h = "\<lambda>m. set_free_page_count f (u32_saturating_sub1 (free_page_count m f)) m"
  obtain v s1 where s1: "write_directory crc ops f h ?d s = (Inr v, s1)"
      "sbind (modify_meta ops ?h) (\<lambda>_. fl_journal ops f) s1 = (Inr u, s')"
    using assms(1) by (auto simp: sbind_eq_Inr decrement_free_count_def)
  have mok: "meta_ok (?h m) \<and> same_but f m (?h m)" if "meta_ok m" for m using that by simp
  have split: "fd_entries d = butlast (fd_entries d) @ [last (fd_entries d)]" using assms(7) by simp
  have "free_page_count ?m f \<noteq> 0" using assms(5,7) by (auto simp: free_list_ok_def)
  then have cnt: "unat (free_page_count (?h ?m) f) = unat (free_page_count ?m f) - 1" "0 < unat (free_page_count ?m f)"
    using ok_meta [OF assms(4)] u32_saturating(1) by (simp_all add: unat_gt_0)
  have dist: "distinct (fd_entries d)" using assms(5) by (simp add: free_list_ok_def listed_def)
  have new: "free_list_ok (?h ?m) V f ?ds"
    if "directory_at V f h = Some ?d" "\<And>k e. k \<noteq> (f, h) \<Longrightarrow> view s k = Some e \<Longrightarrow> V k = Some e" for V
  proof -
    have "set (butlast (fd_entries d)) \<subseteq> set (fd_entries d)" using in_set_butlastD by fast
    moreover obtain n where "length (fd_entries d) = Suc n" using assms(7) by (cases "fd_entries d") auto
    ultimately show ?thesis
      using that(2) assms(2,6,7) cnt dist ok_meta [OF assms(4)]
      by (intro head_rewritten [OF assms(5) _ that(1), of "?h ?m" "{}", simplified])
        (simp_all add: spare_list_def distinct_butlast)
  qed
  have m: "moved f F s (set (listed (?h ?m) f ?ds)) s'"
    using assms(8) by (intro moved_directory [OF s1 assms(4) mok new]) (auto simp: listed_def)
  have l: "listed (?h ?m) f ?ds = h # butlast (fd_entries d) @ concat (map (\<lambda>(p, es). p # es) ds)"
      "listed ?m f ((h, fd_entries d) # ds) = h # fd_entries d @ concat (map (\<lambda>(p, es). p # es) ds)"
    using assms(3) ok_meta [OF assms(4)] by (simp_all add: listed_def spare_list_def)
  have "distinct (h # (butlast (fd_entries d) @ [last (fd_entries d)]) @ concat (map (\<lambda>(p, es). p # es) ds))"
    using assms(5) unfolding split [symmetric] free_list_ok_def l(2) by blast
  moreover have "F = set (h # (butlast (fd_entries d) @ [last (fd_entries d)]) @ concat (map (\<lambda>(p, es). p # es) ds))"
    unfolding split [symmetric] using assms(8) l(2) by simp
  ultimately have "F - {last (fd_entries d)} = set (listed (?h ?m) f ?ds)" "last (fd_entries d) \<in> F"
    unfolding l(1) by auto
  with m show ?thesis by simp
qed

lemma take_head:
  assumes "sbind (modify_meta ops (set_free_directory_head f (fd_next d))) (\<lambda>_. fl_journal ops f) s = (Inr u, s')"
    and "free_directory_head (fl_meta ops s) f = h"
    and "ok s" "free_list_ok (fl_meta ops s) (view s) f ((h, []) # ds)" "dir_chain (view s) f (fd_next d) ds"
    and "F = set (listed (fl_meta ops s) f ((h, []) # ds))"
  shows "h \<in> F \<and> moved f F s (F - {h}) s'"
proof -
  let ?m = "fl_meta ops s" and ?h = "set_free_directory_head f (fd_next d)"
  have mok: "meta_ok (?h m) \<and> same_but f m (?h m)" if "meta_ok m" for m using that by simp
  have ml: "mset (listed ?m f ((h, []) # ds)) = add_mset h (mset (listed (?h ?m) f ds))"
    using ok_meta [OF assms(3)] by (simp add: listed_def spare_list_def)
  have set: "set (listed ?m f ((h, []) # ds)) = insert h (set (listed (?h ?m) f ds))"
    using arg_cong [OF ml, of set_mset] by simp
  have "distinct (listed ?m f ((h, []) # ds)) = distinct (h # listed (?h ?m) f ds)"
    using ml by (intro mset_eq_imp_distinct_iff) simp
  then have h: "h \<notin> set (listed (?h ?m) f ds)" and new: "free_list_ok (?h ?m) (view s) f ds"
    using assms(4,5) set ok_meta [OF assms(3)] by (auto simp: free_list_ok_def spare_list_def)
  from moved_meta [OF assms(1,3) mok new] set h assms(6) show ?thesis by auto
qed

lemma take_spec:
  assumes "take_free_page crc ops f s = (Inr r, s')" "ok s" "free_pages f s F"
  shows "case r of None \<Rightarrow> F = {} \<and> s' = s | Some p \<Rightarrow> p \<in> F \<and> moved f F s (F - {p}) s'"
proof (cases "free_spare_page (fl_meta ops s) f = FREE_SPARE_EMPTY")
  case False
  with assms(1) have "r = Some (free_spare_page (fl_meta ops s) f)"
      "sbind (modify_meta ops (set_free_spare_page f FREE_SPARE_EMPTY)) (\<lambda>_.
        sbind (decrement_free_count ops f) (\<lambda>_. fl_journal ops f)) s = (Inr (), s')"
    by (auto simp: take_free_page_def Let_def sbind_eq_Inr)
  with take_spare [OF this(2) refl False assms(2,3)] show ?thesis by simp
next
  case spare: True
  let ?h = "free_directory_head (fl_meta ops s) f"
  show ?thesis
  proof (cases "?h = FREE_DIRECTORY_EMPTY")
    case True
    obtain ds where "free_list_ok (fl_meta ops s) (view s) f ds" "F = set (listed (fl_meta ops s) f ds)"
      using assms(3) by (auto simp: free_pages_def free_set_def)
    with True spare assms(1) show ?thesis
      by (cases ds) (auto simp: take_free_page_def Let_def free_list_ok_def listed_def spare_list_def)
  next
    case False
    with spare assms(1) obtain d s1 where d: "read_directory ops f ?h s = (Inr d, s1)"
      by (auto simp: take_free_page_def Let_def sbind_eq_Inr)
    obtain ds where ds: "free_list_ok (fl_meta ops s1) (view s1) f ((?h, fd_entries d) # ds)" "ok s1"
        "dir_chain (view s1) f (fd_next d) ds" "F = set (listed (fl_meta ops s1) f ((?h, fd_entries d) # ds))"
        "view s \<subseteq>\<^sub>m view s1" "fl_meta ops s1 = fl_meta ops s"
      using head_page [OF assms(3,2) refl False d] by blast
    have meta: "free_directory_head (fl_meta ops s1) f = ?h" "free_spare_page (fl_meta ops s1) f = FREE_SPARE_EMPTY"
      using ds(6) spare by simp_all
    show ?thesis
    proof (cases "fd_entries d = []")
      case True
      with spare False assms(1) d have r: "r = Some ?h"
          "sbind (modify_meta ops (set_free_directory_head f (fd_next d))) (\<lambda>_. fl_journal ops f) s1 = (Inr (), s')"
        by (auto simp: take_free_page_def Let_def sbind_eq_Inr)
      from take_head [OF r(2) meta(1) ds(2) ds(1) [unfolded True] ds(3) ds(4) [unfolded True]]
      show ?thesis using r(1) moved_after_read [OF _ ds(5,6)] by simp
    next
      case ne: False
      with spare False assms(1) d have r: "r = Some (last (fd_entries d))"
          "sbind (write_directory crc ops f ?h (d\<lparr>fd_entries := butlast (fd_entries d)\<rparr>)) (\<lambda>_.
            sbind (decrement_free_count ops f) (\<lambda>_. fl_journal ops f)) s1 = (Inr (), s')"
        by (auto simp: take_free_page_def Let_def sbind_eq_Inr)
      from take_entry [OF r(2) meta ds(2,1,3) ne ds(4)] show ?thesis using r(1) moved_after_read [OF _ ds(5,6)] by simp
    qed
  qed
qed

text \<open>A page outside the list is released; the count cannot saturate.\<close>

lemma count_increments:
  assumes "free_list_ok m V f ds" "p \<notin> set (listed m f ds)" "p \<noteq> FREE_DIRECTORY_EMPTY"
  shows "unat (u32_saturating_add1 (free_page_count m f)) = unat (free_page_count m f) + 1"
proof (rule u32_saturating(2))
  have "length (listed m f ds) + 2 \<le> 2 ^ 32"
    using assms by (intro distinct_u32_bound [of _ p]) (auto simp: free_list_ok_def)
  then have "unat (free_page_count m f) < 2 ^ 32 - 1"
    using assms(1) by (simp add: free_list_ok_def listed_length)
  then show "free_page_count m f \<noteq> 0xFFFFFFFF" by auto
qed

lemma release_spare:
  assumes "sbind (modify_meta ops (set_free_spare_page f p)) (\<lambda>_.
      sbind (increment_free_count ops f) (\<lambda>_. fl_journal ops f)) s = (Inr u, s')"
    and "free_spare_page (fl_meta ops s) f = FREE_SPARE_EMPTY" "ok s" "free_pages f s F" "p \<notin> F" "p \<noteq> FREE_DIRECTORY_EMPTY"
  shows "moved f F s (insert p F) s'"
proof -
  let ?h = "(\<lambda>m. set_free_page_count f (u32_saturating_add1 (free_page_count m f)) m) \<circ> set_free_spare_page f p"
  let ?m = "fl_meta ops s"
  have s': "sbind (modify_meta ops ?h) (\<lambda>_. fl_journal ops f) s = (Inr u, s')"
    using assms(1) by (simp add: increment_free_count_def modify_modify)
  obtain ds where ds: "free_list_ok ?m (view s) f ds" "F = set (listed ?m f ds)" using assms(4) by (auto simp: free_pages_def free_set_def)
  have mok: "meta_ok (?h m) \<and> same_but f m (?h m)" if "meta_ok m" for m
    using that by (auto intro: same_but_trans [OF same_but_set(2) same_but_set(3)])
  have m: "free_page_count (?h ?m) f = u32_saturating_add1 (free_page_count ?m f)"
      "spare_list (?h ?m) f = [p]" "free_directory_head (?h ?m) f = free_directory_head ?m f" "spare_list ?m f = []"
    using ok_meta [OF assms(3)] assms(2,6) by (simp_all add: spare_list_def FREE_SPARE_EMPTY_def FREE_DIRECTORY_EMPTY_def)
  then have l: "listed (?h ?m) f ds = p # listed ?m f ds" by (simp add: listed_def)
  have "free_list_ok (?h ?m) (view s) f ds"
    using ds assms(5,6) m l count_increments [OF ds(1)] unfolding free_list_ok_def by auto
  from moved_meta [OF s' assms(3) mok this] show ?thesis using ds(2) l by simp
qed

text \<open>The page becomes the head of the directory, in front of the old head.\<close>

lemma release_head:
  assumes "sbind (write_directory crc ops f p \<lparr>fd_next = h, fd_entries = []\<rparr>) (\<lambda>_.
      sbind (modify_meta ops (set_free_directory_head f p)) (\<lambda>_. fl_journal ops f)) s = (Inr u, s')"
    and "free_directory_head (fl_meta ops s) f = h" "ok s" "free_pages f s F" "p \<notin> F" "p \<noteq> FREE_DIRECTORY_EMPTY"
  shows "moved f F s (insert p F) s'"
proof -
  let ?h = "set_free_directory_head f p" and ?m = "fl_meta ops s"
  obtain v s1 where s1: "write_directory crc ops f p \<lparr>fd_next = h, fd_entries = []\<rparr> s = (Inr v, s1)"
      "sbind (modify_meta ops ?h) (\<lambda>_. fl_journal ops f) s1 = (Inr u, s')"
    using assms(1) by (auto simp: sbind_eq_Inr)
  obtain ds where ds: "free_list_ok ?m (view s) f ds" "F = set (listed ?m f ds)" using assms(4) by (auto simp: free_pages_def free_set_def)
  have mok: "meta_ok (?h m) \<and> same_but f m (?h m)" if "meta_ok m" for m using that by simp
  have "mset (listed (?h ?m) f ((p, []) # ds)) = add_mset p (mset (listed ?m f ds))"
    using ok_meta [OF assms(3)] by (simp add: listed_def spare_list_def)
  then have ml: "mset (listed (?h ?m) f ((p, []) # ds)) = mset (p # listed ?m f ds)" by simp
  note l = mset_eq_setD [OF ml] mset_eq_imp_distinct_iff [OF ml]
  have new: "free_list_ok (?h ?m) V f ((p, []) # ds)"
    if V: "directory_at V f p = Some \<lparr>fd_next = h, fd_entries = []\<rparr>" "\<And>k e. k \<noteq> (f, p) \<Longrightarrow> view s k = Some e \<Longrightarrow> V k = Some e" for V
  proof -
    have old: "dir_chain (view s) f h ds" using ds(1) assms(2) by (simp add: free_list_ok_def)
    have "q \<noteq> p" if "q \<in> fst ` set ds" for q using ds(2) assms(5) that by (force simp: listed_def)
    then have "V (f, q) = Some e" if "q \<in> fst ` set ds" "view s (f, q) = Some e" for q e
      using V(2) [OF _ that(2)] that(1) by blast
    with old have "dir_chain V f h ds" by (rule dir_chain_mono)
    then have chain: "dir_chain V f p ((p, []) # ds)" using V(1) assms(6) by simp
    have "distinct (listed (?h ?m) f ((p, []) # ds))" "FREE_DIRECTORY_EMPTY \<notin> set (listed (?h ?m) f ((p, []) # ds))"
      unfolding l using ds assms(5,6) by (auto simp: free_list_ok_def)
    then show ?thesis
      using chain ds(1) ok_meta [OF assms(3)] by (simp add: free_list_ok_def spare_list_def)
  qed
  have "moved f F s (set (listed (?h ?m) f ((p, []) # ds))) s'"
    by (rule moved_directory [OF s1 assms(3) mok new]) (simp_all add: l(1))
  then show ?thesis unfolding l(1) ds(2) by simp
qed

text \<open>The page is recorded in the head directory page, which has room.\<close>

lemma release_entry:
  assumes "sbind (write_directory crc ops f h (d\<lparr>fd_entries := fd_entries d @ [p]\<rparr>)) (\<lambda>_.
      sbind (increment_free_count ops f) (\<lambda>_. fl_journal ops f)) s = (Inr u, s')"
    and "free_directory_head (fl_meta ops s) f = h" "ok s"
    and "free_list_ok (fl_meta ops s) (view s) f ((h, fd_entries d) # ds)" "dir_chain (view s) f (fd_next d) ds"
    and "F = set (listed (fl_meta ops s) f ((h, fd_entries d) # ds))" "p \<notin> F" "p \<noteq> FREE_DIRECTORY_EMPTY"
  shows "moved f F s (insert p F) s'"
proof -
  let ?d = "d\<lparr>fd_entries := fd_entries d @ [p]\<rparr>" and ?ds = "(h, fd_entries d @ [p]) # ds" and ?m = "fl_meta ops s"
  let ?h = "\<lambda>m. set_free_page_count f (u32_saturating_add1 (free_page_count m f)) m"
  obtain v s1 where s1: "write_directory crc ops f h ?d s = (Inr v, s1)"
      "sbind (modify_meta ops ?h) (\<lambda>_. fl_journal ops f) s1 = (Inr u, s')"
    using assms(1) by (auto simp: sbind_eq_Inr increment_free_count_def)
  have mok: "meta_ok (?h m) \<and> same_but f m (?h m)" if "meta_ok m" for m using that by simp
  have cnt: "unat (free_page_count (?h ?m) f) = unat (free_page_count ?m f) + 1"
    using count_increments [OF assms(4)] assms(6-8) ok_meta [OF assms(3)] by simp
  have dist: "distinct (fd_entries d @ [p])" using assms(4,6,7) by (simp add: free_list_ok_def listed_def)
  have new: "free_list_ok (?h ?m) V f ?ds"
    if "directory_at V f h = Some ?d" "\<And>k e. k \<noteq> (f, h) \<Longrightarrow> view s k = Some e \<Longrightarrow> V k = Some e" for V
    using that(2) assms(2,5-8) cnt dist ok_meta [OF assms(3)]
    by (intro head_rewritten [OF assms(4) _ that(1), of "?h ?m" "{p}", simplified]) (simp_all add: spare_list_def)
  have l: "set (listed (?h ?m) f ?ds) = insert p F"
    using assms(6) ok_meta [OF assms(3)] by (auto simp: listed_def spare_list_def)
  have "moved f F s (set (listed (?h ?m) f ?ds)) s'"
    using assms(6) by (intro moved_directory [OF s1 assms(3) mok new]) (auto simp: listed_def)
  then show ?thesis unfolding l .
qed

lemma release_spec:
  assumes "release_page crc ops f p s = (Inr u, s')" "ok s" "free_pages f s F" "p \<notin> F" "p \<noteq> FREE_DIRECTORY_EMPTY"
  shows "moved f F s (insert p F) s'"
proof (cases "free_spare_page (fl_meta ops s) f = FREE_SPARE_EMPTY")
  case True
  then show ?thesis using assms release_spare [of f p s u s' F] by (simp add: release_page_def Let_def)
next
  case spare: False
  let ?h = "free_directory_head (fl_meta ops s) f"
  show ?thesis
  proof (cases "?h = FREE_DIRECTORY_EMPTY")
    case True
    then show ?thesis
      using assms spare release_head [of f p ?h s u s' F] by (simp add: release_page_def Let_def directory_empty_def)
  next
    case False
    with spare assms(1) obtain d s1 where d: "read_directory ops f ?h s = (Inr d, s1)"
      by (auto simp: release_page_def Let_def sbind_eq_Inr)
    obtain ds where ds: "free_list_ok (fl_meta ops s1) (view s1) f ((?h, fd_entries d) # ds)" "ok s1"
        "dir_chain (view s1) f (fd_next d) ds" "F = set (listed (fl_meta ops s1) f ((?h, fd_entries d) # ds))"
        "view s \<subseteq>\<^sub>m view s1" "fl_meta ops s1 = fl_meta ops s"
      using head_page [OF assms(3,2) refl False d] by blast
    have meta: "free_directory_head (fl_meta ops s1) f = ?h" using ds(6) by simp
    have "moved f F s1 (insert p F) s'"
    proof (cases "has_room d")
      case True
      with spare False assms(1) d have
        "sbind (write_directory crc ops f ?h (d\<lparr>fd_entries := fd_entries d @ [p]\<rparr>)) (\<lambda>_.
            sbind (increment_free_count ops f) (\<lambda>_. fl_journal ops f)) s1 = (Inr u, s')"
        by (auto simp: release_page_def Let_def sbind_eq_Inr)
      from release_entry [OF this meta ds(2,1,3,4) assms(4,5)] show ?thesis .
    next
      case full: False
      with spare False assms(1) d have *:
        "sbind (write_directory crc ops f p \<lparr>fd_next = ?h, fd_entries = []\<rparr>) (\<lambda>_.
            sbind (modify_meta ops (set_free_directory_head f p)) (\<lambda>_. fl_journal ops f)) s1 = (Inr u, s')"
        by (auto simp: release_page_def Let_def sbind_eq_Inr)
      have "free_pages f s1 F" using ds(1,4) by (auto simp: free_pages_def free_set_def)
      from release_head [OF * meta ds(2) this assms(4,5)] show ?thesis .
    qed
    then show ?thesis using ds(5,6) by (rule moved_after_read)
  qed
qed

end

end
