(* ===== verification/Storage_Backend.thy ===== *)
theory Storage_Backend
  imports Free_List
begin

text \<open>
  The two storage backends: \<^verbatim>\<open>storage/memory.rs\<close> and \<^verbatim>\<open>storage/file.rs\<close>. Each gives the
  free-list algorithm raw page access, allocates and releases pages; the file backend also journals, flushes and
  checkpoints. The contract of an allocator is the locale \<open>page_allocator\<close>; both backends are instances.
  The directory of the store is its five data files in the pool, the metadata file and the log; \<open>fb_faults\<close> scripts
  the failures of the last two.
\<close>

section \<open>The memory backend\<close>

record mem_backend =
  mb_pages :: "page_key \<rightharpoonup> bytes"
  mb_page_counts :: "data_file \<rightharpoonup> u32"
  mb_meta :: graph_meta

definition mem_new :: mem_backend where
  "mem_new = \<lparr>mb_pages = Map.empty, mb_page_counts = Map.empty, mb_meta = meta_new\<rparr>"

definition mem_page_count :: "mem_backend \<Rightarrow> data_file \<Rightarrow> u32" where
  "mem_page_count s f = (case mb_page_counts s f of None \<Rightarrow> 0 | Some n \<Rightarrow> n)"

definition mem_read_page :: "data_file \<Rightarrow> u32 \<Rightarrow> (mem_backend, storage_error, bytes) step" where
  "mem_read_page f p = sread (\<lambda>s. ok_or (CorruptPage f p ''page not allocated'') (mb_pages s (f, p)))"

definition mem_put :: "data_file \<Rightarrow> u32 \<Rightarrow> bytes \<Rightarrow> (mem_backend, storage_error, unit) step" where
  "mem_put f p d = smodify (\<lambda>s. s\<lparr>mb_pages := (mb_pages s)((f, p) \<mapsto> d)\<rparr>)"

definition mem_write_page :: "data_file \<Rightarrow> u32 \<Rightarrow> bytes \<Rightarrow> (mem_backend, storage_error, unit) step" where
  "mem_write_page f p d s =
     (if p \<ge> mem_page_count s f then (Inl (CorruptPage f p ''page not allocated''), s) else mem_put f p d s)"

definition mem_ops :: "mem_backend fl_ops" where
  "mem_ops = \<lparr>fl_read = mem_read_page, fl_write = mem_put, fl_meta = mb_meta,
     fl_set_meta = (\<lambda>m s. s\<lparr>mb_meta := m\<rparr>), fl_journal = (\<lambda>f. sret ())\<rparr>"

definition mem_grow :: "data_file \<Rightarrow> (mem_backend, storage_error, u32) step" where
  "mem_grow f s =
     (let p = mem_page_count s f in
      (Inr p, s\<lparr>mb_page_counts := (mb_page_counts s)(f \<mapsto> p + 1), mb_meta := set_meta_page_count f (p + 1) (mb_meta s),
                mb_pages := (mb_pages s)((f, p) \<mapsto> new_page_buf)\<rparr>))"

definition mem_allocate_page :: "(bytes \<Rightarrow> u32) \<Rightarrow> data_file \<Rightarrow> (mem_backend, storage_error, u32) step" where
  "mem_allocate_page crc f =
     sbind (take_free_page crc mem_ops f) (\<lambda>r. case r of
       Some recycled \<Rightarrow> sbind (mem_put f recycled new_page_buf) (\<lambda>_. sret recycled)
     | None \<Rightarrow> mem_grow f)"

definition mem_free_page :: "(bytes \<Rightarrow> u32) \<Rightarrow> data_file \<Rightarrow> u32 \<Rightarrow> (mem_backend, storage_error, unit) step" where
  "mem_free_page crc f p = release_page crc mem_ops f p"

section \<open>The file backend\<close>

record file_backend =
  fb_meta :: graph_meta
  fb_pool :: buffer_pool
  fb_wal :: "wal_writer option"
  fb_threshold :: "u64 option"
  fb_pending :: bool
  fb_meta_file :: bytes
  fb_faults :: "bool list"

definition fb_io :: "(file_backend, storage_error, unit) step" where
  "fb_io s = ((if fb_faults s \<noteq> [] \<and> hd (fb_faults s) then Inl IoError else Inr ()), s\<lparr>fb_faults := tl (fb_faults s)\<rparr>)"

definition note_wal_growth :: "file_backend \<Rightarrow> file_backend" where
  "note_wal_growth s =
     (if fb_pending s then s
      else (case (fb_wal s, fb_threshold s) of
              (Some w, Some t) \<Rightarrow> if ww_bytes_written w > unat t then s\<lparr>fb_pending := True\<rparr> else s
            | _ \<Rightarrow> s))"

definition file_wal_append :: "(bytes \<Rightarrow> u32) \<Rightarrow> wal_record \<Rightarrow> (file_backend, storage_error, unit) step" where
  "file_wal_append crc r s =
     (case fb_wal s of
        None \<Rightarrow> (Inr (), s)
      | Some w \<Rightarrow> sbind fb_io (\<lambda>_. smodify (\<lambda>s. note_wal_growth (s\<lparr>fb_wal := Some (snd (wal_writer_append crc r w))\<rparr>))) s)"

definition file_wal_sync :: "(file_backend, storage_error, unit) step" where
  "file_wal_sync s = (case fb_wal s of None \<Rightarrow> (Inr (), s) | Some w \<Rightarrow> fb_io s)"

definition log_page :: "(bytes \<Rightarrow> u32) \<Rightarrow> data_file \<Rightarrow> u32 \<Rightarrow> bytes \<Rightarrow> (file_backend, storage_error, unit) step" where
  "log_page crc f p d =
     (case f of
        Strings \<Rightarrow> file_wal_append crc (WriteStringPage 0 p d None)
      | Overflow \<Rightarrow> file_wal_append crc (WriteOverflowPage 0 p d None)
      | _ \<Rightarrow> sret ())"

definition on_pool :: "(buffer_pool, storage_error, 'a) step \<Rightarrow> (file_backend, storage_error, 'a) step" where
  "on_pool m s = (case m (fb_pool s) of (r, pool) \<Rightarrow> (r, s\<lparr>fb_pool := pool\<rparr>))"

definition file_read_page :: "(bytes \<Rightarrow> u32) \<Rightarrow> data_file \<Rightarrow> u32 \<Rightarrow> (file_backend, storage_error, bytes) step" where
  "file_read_page crc f p s =
     (if p \<ge> file_page_count (fb_meta s) f then (Inl (CorruptPage f p ''page not allocated''), s)
      else on_pool (get_page crc f p) s)"

definition file_write_page :: "(bytes \<Rightarrow> u32) \<Rightarrow> data_file \<Rightarrow> u32 \<Rightarrow> bytes \<Rightarrow> (file_backend, storage_error, unit) step" where
  "file_write_page crc f p d s =
     (if p \<ge> file_page_count (fb_meta s) f then (Inl (CorruptPage f p ''page not allocated''), s)
      else sbind (log_page crc f p d) (\<lambda>_. on_pool (pool_put_page f p d)) s)"

definition file_write_raw :: "(bytes \<Rightarrow> u32) \<Rightarrow> data_file \<Rightarrow> u32 \<Rightarrow> bytes \<Rightarrow> (file_backend, storage_error, unit) step" where
  "file_write_raw crc f p d = sbind (log_page crc f p d) (\<lambda>_. on_pool (pool_put_page f p d))"

definition journal_free_list_state :: "(bytes \<Rightarrow> u32) \<Rightarrow> data_file \<Rightarrow> (file_backend, storage_error, unit) step" where
  "journal_free_list_state crc f s =
     file_wal_append crc (FreeListState 0 (word_of_nat (file_index_of f)) (free_directory_head (fb_meta s) f)
       (free_spare_page (fb_meta s) f) (free_page_count (fb_meta s) f)) s"

definition file_ops :: "(bytes \<Rightarrow> u32) \<Rightarrow> file_backend fl_ops" where
  "file_ops crc = \<lparr>fl_read = (\<lambda>f p. on_pool (get_page crc f p)), fl_write = file_write_raw crc, fl_meta = fb_meta,
     fl_set_meta = (\<lambda>m s. s\<lparr>fb_meta := m\<rparr>), fl_journal = journal_free_list_state crc\<rparr>"

definition file_grow :: "data_file \<Rightarrow> (file_backend, storage_error, u32) step" where
  "file_grow f s =
     (let count = file_page_count (fb_meta s) f in
      sbind (smodify (\<lambda>s. s\<lparr>fb_meta := set_meta_page_count f (count + 1) (fb_meta s)\<rparr>)) (\<lambda>_.
      sbind (on_pool (pool_put_page f count new_page_buf)) (\<lambda>_. sret count)) s)"

definition file_allocate_page :: "(bytes \<Rightarrow> u32) \<Rightarrow> data_file \<Rightarrow> (file_backend, storage_error, u32) step" where
  "file_allocate_page crc f =
     sbind (take_free_page crc (file_ops crc) f) (\<lambda>r. case r of
       Some recycled \<Rightarrow> sbind (on_pool (pool_put_page f recycled new_page_buf)) (\<lambda>_. sret recycled)
     | None \<Rightarrow> file_grow f)"

definition file_free_page :: "(bytes \<Rightarrow> u32) \<Rightarrow> data_file \<Rightarrow> u32 \<Rightarrow> (file_backend, storage_error, unit) step" where
  "file_free_page crc f p = release_page crc (file_ops crc) f p"

definition flush_meta :: "(bytes \<Rightarrow> u32) \<Rightarrow> (file_backend, storage_error, unit) step" where
  "flush_meta crc =
     sbind (smodify (\<lambda>s. s\<lparr>fb_meta := clear_dirty (fb_meta s)\<rparr>)) (\<lambda>_.
     sbind fb_io (\<lambda>_. smodify (\<lambda>s. s\<lparr>fb_meta_file := serialize crc (fb_meta s)\<rparr>)))"

definition wal_checkpoint_and_truncate :: "(bytes \<Rightarrow> u32) \<Rightarrow> (file_backend, storage_error, unit) step" where
  "wal_checkpoint_and_truncate crc s =
     (case fb_wal s of
        None \<Rightarrow> (Inr (), s)
      | Some w \<Rightarrow>
          sbind fb_io (\<lambda>_.
          sbind (smodify (\<lambda>s. s\<lparr>fb_wal := Some (snd (wal_writer_append crc (Checkpoint 0) w))\<rparr>)) (\<lambda>_.
          sbind fb_io (\<lambda>_. sbind fb_io (\<lambda>_.
          smodify (\<lambda>s. s\<lparr>fb_wal := map_option wal_writer_truncate (fb_wal s), fb_pending := False\<rparr>))))) s)"

definition file_flush :: "(bytes \<Rightarrow> u32) \<Rightarrow> (file_backend, storage_error, unit) step" where
  "file_flush crc =
     sbind (siter (\<lambda>f. on_pool (flush_file f)) ALL_DATA_FILES) (\<lambda>_.
     sbind (flush_meta crc) (\<lambda>_. wal_checkpoint_and_truncate crc))"

section \<open>The contract of an allocator\<close>

lemma page_count_set [simp]:
  "file_page_count (set_meta_page_count f n m) f' = (if f' = f then n else file_page_count m f')"
  "free_directory_head (set_meta_page_count f n m) f' = free_directory_head m f'"
  "free_spare_page (set_meta_page_count f n m) f' = free_spare_page m f'"
  "free_page_count (set_meta_page_count f n m) f' = free_page_count m f'"
  "meta_ok (set_meta_page_count f n m) = meta_ok m"
  by (cases f; cases f'; simp add: free_directory_head_def free_spare_page_def free_page_count_def meta_ok_def)+

lemma less_succ: "n + 1 \<noteq> 0 \<Longrightarrow> p < n + 1 \<longleftrightarrow> p < n \<or> p = n" for n p :: u32
  using unatSuc [of n] by (auto simp: word_less_nat_alt add.commute less_Suc_eq word_unat_eq_iff)

definition allocate_with ::
  "(bytes \<Rightarrow> u32) \<Rightarrow> 's fl_ops \<Rightarrow> (data_file \<Rightarrow> u32 \<Rightarrow> ('s, storage_error, unit) step) \<Rightarrow>
     (data_file \<Rightarrow> ('s, storage_error, u32) step) \<Rightarrow> data_file \<Rightarrow> ('s, storage_error, u32) step" where
  "allocate_with crc ops blank grow f =
     sbind (take_free_page crc ops f) (\<lambda>r. case r of
       Some p \<Rightarrow> sbind (blank f p) (\<lambda>_. sret p)
     | None \<Rightarrow> grow f)"

definition live_pages :: "graph_meta \<Rightarrow> data_file \<Rightarrow> u32 set \<Rightarrow> u32 set" where
  "live_pages m f F = {p. p < file_page_count m f} - F"

text \<open>The free pages of a file, all of them below its page count.\<close>

definition free_list_of :: "graph_meta \<Rightarrow> (page_key \<rightharpoonup> bytes) \<Rightarrow> data_file \<Rightarrow> u32 set \<Rightarrow> bool" where
  "free_list_of m V f F \<longleftrightarrow> free_set m V f F \<and> (\<forall>p\<in>F. p < file_page_count m f)"

locale page_allocator = free_list_store ops crc ok view
  for ops :: "'s fl_ops" and crc ok view +
  fixes blank :: "data_file \<Rightarrow> u32 \<Rightarrow> ('s, storage_error, unit) step" and grow :: "data_file \<Rightarrow> ('s, storage_error, u32) step"
  assumes blank_law: "blank f p s = (Inr u, s') \<Longrightarrow> ok s \<Longrightarrow> ok s'" "blank f p s = (Inr u, s') \<Longrightarrow> fl_meta ops s' = fl_meta ops s"
      "blank f p s = (Inr u, s') \<Longrightarrow> ok s \<Longrightarrow> view s' (f, p) = Some new_page_buf"
      "blank f p s = (Inr u, s') \<Longrightarrow> ok s \<Longrightarrow> k \<noteq> (f, p) \<Longrightarrow> view s k = Some e \<Longrightarrow> view s' k = Some e"
    and grow_law: "grow f s = (Inr p, s') \<Longrightarrow> ok s \<Longrightarrow> ok s'" "grow f s = (Inr p, s') \<Longrightarrow> ok s \<Longrightarrow> p = file_page_count (fl_meta ops s) f"
      "grow f s = (Inr p, s') \<Longrightarrow> ok s \<Longrightarrow> fl_meta ops s' = set_meta_page_count f (p + 1) (fl_meta ops s)"
      "grow f s = (Inr p, s') \<Longrightarrow> ok s \<Longrightarrow> view s' (f, p) = Some new_page_buf"
      "grow f s = (Inr p, s') \<Longrightarrow> ok s \<Longrightarrow> k \<noteq> (f, p) \<Longrightarrow> view s k = Some e \<Longrightarrow> view s' k = Some e"
begin

text \<open>The outcome of an allocation for its file, and for every other file.\<close>

lemma allocate_spec:
  assumes "allocate_with crc ops blank grow f s = (Inr p, s')" "ok s" "free_list_of (fl_meta ops s) (view s) f F"
    and "file_page_count (fl_meta ops s) f + 1 \<noteq> 0"
  shows "\<exists>F'. ok s' \<and> free_list_of (fl_meta ops s') (view s') f F' \<and> p \<notin> live_pages (fl_meta ops s) f F \<and>
      live_pages (fl_meta ops s') f F' = insert p (live_pages (fl_meta ops s) f F) \<and>
      view s' (f, p) = Some new_page_buf \<and>
      (\<forall>k d. k \<notin> {f} \<times> insert p F \<longrightarrow> view s k = Some d \<longrightarrow> view s' k = Some d) \<and>
      (F \<noteq> {} \<longrightarrow> file_page_count (fl_meta ops s') f = file_page_count (fl_meta ops s) f)"
proof -
  obtain r s1 where t: "take_free_page crc ops f s = (Inr r, s1)"
      "(case r of Some p \<Rightarrow> sbind (blank f p) (\<lambda>_. sret p) | None \<Rightarrow> grow f) s1 = (Inr p, s')"
    using assms(1) by (auto simp: allocate_with_def sbind_eq_Inr)
  have F: "free_pages f s F" "\<And>q. q \<in> F \<Longrightarrow> q < file_page_count (fl_meta ops s) f"
    using assms(3) by (auto simp: free_list_of_def free_pages_def)
  note take = take_spec [OF t(1) assms(2) F(1)]
  show ?thesis
  proof (cases r)
    case None
    with take t(2) have g: "grow f s = (Inr p, s')" and empty: "F = {}" by auto
    note l = grow_law(1-4) [OF g assms(2)] and keep = grow_law(5) [OF g assms(2)]
    have "free_set (fl_meta ops s) (view s) f {}" using assms(3) empty by (simp add: free_list_of_def)
    then have "free_set (fl_meta ops s') (view s') f {}" by (rule free_set_cong) (simp_all add: l(3))
    then have "ok s' \<and> free_list_of (fl_meta ops s') (view s') f {}" using l(1) by (simp add: free_list_of_def)
    moreover have "live_pages (fl_meta ops s') f {} = insert p (live_pages (fl_meta ops s) f F)"
      using l(2,3) empty less_succ assms(4) by (auto simp: live_pages_def)
    moreover have "p \<notin> live_pages (fl_meta ops s) f F" using l(2) by (simp add: live_pages_def)
    ultimately show ?thesis using l(4) keep empty by (intro exI [of _ "{}"]) auto
  next
    case (Some q)
    with t(2) obtain u where b: "blank f p s1 = (Inr u, s')" and q: "q = p" by (auto simp: sbind_eq_Inr)
    have m: "p \<in> F" "ok s1" "free_pages f s1 (F - {p})" "same_but f (fl_meta ops s) (fl_meta ops s1)"
        "\<And>f' p' d. p' \<notin> F \<or> f' \<noteq> f \<Longrightarrow> view s (f', p') = Some d \<Longrightarrow> view s1 (f', p') = Some d"
      using take Some q by (auto simp: moved_def)
    note l = blank_law(1) [OF b m(2)] blank_law(2) [OF b] blank_law(3) [OF b m(2)] and keep = blank_law(4) [OF b m(2)]
    have "free_set (fl_meta ops s1) (view s1) f (F - {p})" using m(3) by (simp add: free_pages_def)
    then have "free_set (fl_meta ops s') (view s') f (F - {p})"
      by (rule free_set_cong) (simp_all add: l(2) keep)
    moreover have c: "file_page_count (fl_meta ops s') f = file_page_count (fl_meta ops s) f"
      using m(4) l(2) by (simp add: same_but_def)
    ultimately have "free_list_of (fl_meta ops s') (view s') f (F - {p})" using F(2) by (auto simp: free_list_of_def)
    moreover have "live_pages (fl_meta ops s') f (F - {p}) = insert p (live_pages (fl_meta ops s) f F)"
      using c m(1) F(2) by (auto simp: live_pages_def)
    moreover have "p \<notin> live_pages (fl_meta ops s) f F" using m(1) by (simp add: live_pages_def)
    moreover have "view s' k = Some d" if k: "k \<notin> {f} \<times> insert p F" "view s k = Some d" for k d
      using k keep [of k d] m(5) [of "snd k" "fst k" d] by (cases k) auto
    ultimately show ?thesis using l(1,3) c by (intro exI [of _ "F - {p}"]) blast
  qed
qed

lemma free_spec:
  assumes "release_page crc ops f p s = (Inr u, s')" "ok s" "free_list_of (fl_meta ops s) (view s) f F"
    and "p \<in> live_pages (fl_meta ops s) f F" "p \<noteq> FREE_DIRECTORY_EMPTY"
  shows "ok s' \<and> free_list_of (fl_meta ops s') (view s') f (insert p F) \<and>
    live_pages (fl_meta ops s') f (insert p F) = live_pages (fl_meta ops s) f F - {p} \<and>
    (\<forall>k d. k \<notin> {f} \<times> insert p F \<longrightarrow> view s k = Some d \<longrightarrow> view s' k = Some d)"
proof -
  have F: "free_pages f s F" "\<And>q. q \<in> F \<Longrightarrow> q < file_page_count (fl_meta ops s) f" "p \<notin> F" "p < file_page_count (fl_meta ops s) f"
    using assms(3,4) by (auto simp: free_list_of_def free_pages_def live_pages_def)
  note m = release_spec [OF assms(1,2) F(1,3) assms(5), unfolded moved_def]
  then have c: "file_page_count (fl_meta ops s') f = file_page_count (fl_meta ops s) f" by (simp add: same_but_def)
  have "view s' k = Some d" if "k \<notin> {f} \<times> insert p F" "view s k = Some d" for k d
    using that m by (cases k) auto
  moreover have "free_list_of (fl_meta ops s') (view s') f (insert p F)"
    using m c F by (auto simp: free_list_of_def free_pages_def)
  moreover have "live_pages (fl_meta ops s') f (insert p F) = live_pages (fl_meta ops s) f F - {p}"
    using c by (auto simp: live_pages_def)
  ultimately show ?thesis using m by blast
qed

end

section \<open>The backends are allocators\<close>

lemma mem_ops_simps [simp]:
  "fl_read mem_ops = mem_read_page" "fl_write mem_ops = mem_put" "fl_meta mem_ops = mb_meta"
  "fl_set_meta mem_ops = (\<lambda>m s. s\<lparr>mb_meta := m\<rparr>)" "fl_journal mem_ops = (\<lambda>f. sret ())"
  by (simp_all add: mem_ops_def)

definition mem_ok :: "mem_backend \<Rightarrow> bool" where
  "mem_ok s \<longleftrightarrow> meta_ok (mb_meta s) \<and> (\<forall>f. mem_page_count s f = file_page_count (mb_meta s) f)"

lemma mem_put_eq: "mem_put f p d s = (Inr (), s\<lparr>mb_pages := (mb_pages s)((f, p) \<mapsto> d)\<rparr>)"
  by (simp add: mem_put_def)

lemma mem_read_state: "mem_read_page f p s = (r, s') \<Longrightarrow> s' = s"
  by (simp add: mem_read_page_def)

lemma mem_read_Inr: "mem_read_page f p s = (Inr d, s') \<longleftrightarrow> s' = s \<and> mb_pages s (f, p) = Some d"
  by (auto simp: mem_read_page_def ok_or_def split: option.splits)

interpretation mb: page_allocator mem_ops crc mem_ok mb_pages "\<lambda>f p. mem_put f p new_page_buf" mem_grow for crc
proof unfold_locales
qed (auto simp: mem_ok_def mem_put_eq mem_read_Inr mem_grow_def Let_def mem_page_count_def dest: mem_read_state split: if_splits)

lemma mem_allocate_eq: "mem_allocate_page crc = allocate_with crc mem_ops (\<lambda>f p. mem_put f p new_page_buf) mem_grow"
  by (simp add: fun_eq_iff mem_allocate_page_def allocate_with_def)

definition file_ok :: "(bytes \<Rightarrow> u32) \<Rightarrow> file_backend \<Rightarrow> bool" where
  "file_ok crc s \<longleftrightarrow> meta_ok (fb_meta s) \<and> pool_good crc (fb_pool s)"

definition file_view :: "(bytes \<Rightarrow> u32) \<Rightarrow> file_backend \<Rightarrow> page_key \<rightharpoonup> bytes" where
  "file_view crc s = pool_holds crc (fb_pool s)"

lemma file_ops_simps [simp]:
  "fl_read (file_ops crc) = (\<lambda>f p. on_pool (get_page crc f p))" "fl_write (file_ops crc) = file_write_raw crc"
  "fl_meta (file_ops crc) = fb_meta" "fl_set_meta (file_ops crc) = (\<lambda>m s. s\<lparr>fb_meta := m\<rparr>)"
  "fl_journal (file_ops crc) = journal_free_list_state crc"
  by (simp_all add: file_ops_def)

lemma note_wal_growth_keeps [simp]:
  "fb_meta (note_wal_growth s) = fb_meta s" "fb_pool (note_wal_growth s) = fb_pool s"
  "fb_wal (note_wal_growth s) = fb_wal s" "fb_meta_file (note_wal_growth s) = fb_meta_file s"
  by (auto simp: note_wal_growth_def split: option.splits)

lemma wal_append_keeps:
  assumes "file_wal_append crc r s = (x, s')"
  shows "fb_meta s' = fb_meta s" "fb_pool s' = fb_pool s" "fb_meta_file s' = fb_meta_file s"
  using assms by (auto simp: file_wal_append_def fb_io_def sbind_def split: option.splits if_splits)

lemma log_page_keeps:
  assumes "log_page crc f p d s = (x, s')"
  shows "fb_meta s' = fb_meta s" "fb_pool s' = fb_pool s"
  using assms by (auto simp: log_page_def split: data_file.splits dest: wal_append_keeps)

lemma on_pool_eq: "on_pool m s = (r, s') \<longleftrightarrow> (\<exists>pool. m (fb_pool s) = (r, pool) \<and> s' = s\<lparr>fb_pool := pool\<rparr>)"
  by (auto simp: on_pool_def split: prod.splits)

lemma write_raw_parts:
  assumes "file_write_raw crc f p d s = (r, s')"
  obtains "r \<noteq> Inr ()" "fb_meta s' = fb_meta s" "fb_pool s' = fb_pool s"
  | pool where "pool_put_page f p d (fb_pool s) = (r, pool)" "fb_pool s' = pool" "fb_meta s' = fb_meta s"
proof -
  obtain x s1 where l: "log_page crc f p d s = (x, s1)" by fastforce
  note k = log_page_keeps [OF l]
  show thesis
  proof (cases x)
    case (Inl e)
    then show thesis using assms l k by (intro that(1)) (auto simp: file_write_raw_def sbind_def)
  next
    case (Inr u)
    then have "on_pool (pool_put_page f p d) s1 = (r, s')" using assms l by (simp add: file_write_raw_def sbind_def)
    then show thesis using that(2) k by (auto simp: on_pool_eq)
  qed
qed

lemma file_read_law:
  assumes "on_pool (get_page crc f p) s = (r, s')" "file_ok crc s"
  shows "file_ok crc s'" "fb_meta s' = fb_meta s" "r = Inr d \<Longrightarrow> file_view crc s \<subseteq>\<^sub>m file_view crc s'"
    "r = Inr d \<Longrightarrow> file_view crc s' (f, p) = Some d"
proof -
  obtain pool where g: "get_page crc f p (fb_pool s) = (r, pool)" "s' = s\<lparr>fb_pool := pool\<rparr>" using assms(1) by (auto simp: on_pool_eq)
  have good: "pool_good crc (fb_pool s)" using assms(2) by (simp add: file_ok_def)
  note k = pool_get [OF good g(1)]
  show "file_ok crc s'" "fb_meta s' = fb_meta s" "r = Inr d \<Longrightarrow> file_view crc s \<subseteq>\<^sub>m file_view crc s'"
    "r = Inr d \<Longrightarrow> file_view crc s' (f, p) = Some d"
    using k(1,2,3) g(2) assms(2) by (simp_all add: file_ok_def file_view_def)
qed

lemma file_put_law:
  assumes "pool_put_page f p d (fb_pool s) = (r, pool)" "fb_pool s' = pool" "fb_meta s' = fb_meta s" "file_ok crc s" "page_valid crc f d"
  shows "file_ok crc s'" "r = Inr () \<Longrightarrow> file_view crc s' (f, p) = Some d"
    "r = Inr () \<Longrightarrow> k \<noteq> (f, p) \<Longrightarrow> file_view crc s k = Some e \<Longrightarrow> file_view crc s' k = Some e"
proof -
  have good: "pool_good crc (fb_pool s)" using assms(4) by (simp add: file_ok_def)
  note p = pool_put [OF good assms(1,5)]
  show "file_ok crc s'" "r = Inr () \<Longrightarrow> file_view crc s' (f, p) = Some d"
    "r = Inr () \<Longrightarrow> k \<noteq> (f, p) \<Longrightarrow> file_view crc s k = Some e \<Longrightarrow> file_view crc s' k = Some e"
    using p(1,2,3) assms(2-4) by (simp_all add: file_ok_def file_view_def)
qed

lemma file_write_law:
  assumes "file_write_raw crc f p d s = (r, s')" "file_ok crc s" "page_valid crc f d"
  shows "file_ok crc s'" "r = Inr u \<Longrightarrow> file_view crc s' (f, p) = Some d"
    "r = Inr u \<Longrightarrow> k \<noteq> (f, p) \<Longrightarrow> file_view crc s k = Some e \<Longrightarrow> file_view crc s' k = Some e"
proof (atomize (full), use assms(1) in \<open>rule write_raw_parts\<close>)
  show "file_ok crc s' \<and> (r = Inr u \<longrightarrow> file_view crc s' (f, p) = Some d) \<and>
      (r = Inr u \<longrightarrow> k \<noteq> (f, p) \<longrightarrow> file_view crc s k = Some e \<longrightarrow> file_view crc s' k = Some e)"
    if "r \<noteq> Inr ()" "fb_meta s' = fb_meta s" "fb_pool s' = fb_pool s"
    using that assms(2) by (simp add: file_ok_def)
  show "file_ok crc s' \<and> (r = Inr u \<longrightarrow> file_view crc s' (f, p) = Some d) \<and>
      (r = Inr u \<longrightarrow> k \<noteq> (f, p) \<longrightarrow> file_view crc s k = Some e \<longrightarrow> file_view crc s' k = Some e)"
    if "pool_put_page f p d (fb_pool s) = (r, pool)" "fb_pool s' = pool" "fb_meta s' = fb_meta s" for pool
    using file_put_law [OF that assms(2,3)] by auto
qed

lemma file_write_meta: "file_write_raw crc f p d s = (r, s') \<Longrightarrow> fb_meta s' = fb_meta s"
  by (erule write_raw_parts) auto

lemma journal_law_file:
  assumes "journal_free_list_state crc f s = (r, s')"
  shows "fb_meta s' = fb_meta s" "file_view crc s' = file_view crc s" "file_ok crc s' = file_ok crc s"
  using wal_append_keeps [OF assms [unfolded journal_free_list_state_def]] by (simp_all add: file_view_def file_ok_def)

lemma file_grow_parts:
  assumes "file_grow f s = (Inr p, s')"
  obtains pool where "p = file_page_count (fb_meta s) f" "pool_put_page f p new_page_buf (fb_pool s) = (Inr (), pool)"
    "fb_pool s' = pool" "fb_meta s' = set_meta_page_count f (p + 1) (fb_meta s)"
  using assms by (auto simp: file_grow_def Let_def sbind_eq_Inr on_pool_eq)

lemma file_grow_law:
  assumes "file_grow f s = (Inr p, s')" "file_ok crc s"
  shows "file_ok crc s'" "p = file_page_count (fb_meta s) f" "fb_meta s' = set_meta_page_count f (p + 1) (fb_meta s)"
    "file_view crc s' (f, p) = Some new_page_buf" "k \<noteq> (f, p) \<Longrightarrow> file_view crc s k = Some e \<Longrightarrow> file_view crc s' k = Some e"
proof -
  obtain pool where g: "p = file_page_count (fb_meta s) f" "pool_put_page f p new_page_buf (fb_pool s) = (Inr (), pool)"
    "fb_pool s' = pool" "fb_meta s' = set_meta_page_count f (p + 1) (fb_meta s)" using assms(1) by (rule file_grow_parts)
  have good: "pool_good crc (fb_pool s)" using assms(2) by (simp add: file_ok_def)
  note p = pool_put [OF good g(2) zero_page_valid]
  show "file_ok crc s'" "p = file_page_count (fb_meta s) f" "fb_meta s' = set_meta_page_count f (p + 1) (fb_meta s)"
    "file_view crc s' (f, p) = Some new_page_buf" "k \<noteq> (f, p) \<Longrightarrow> file_view crc s k = Some e \<Longrightarrow> file_view crc s' k = Some e"
    using p(1,2,3) g assms(2) by (simp_all add: file_ok_def file_view_def)
qed

lemma file_blank_law:
  assumes "on_pool (pool_put_page f p new_page_buf) s = (Inr u, s')" "file_ok crc s"
  shows "file_ok crc s'" "fb_meta s' = fb_meta s" "file_view crc s' (f, p) = Some new_page_buf"
    "k \<noteq> (f, p) \<Longrightarrow> file_view crc s k = Some e \<Longrightarrow> file_view crc s' k = Some e"
proof -
  obtain pool where "pool_put_page f p new_page_buf (fb_pool s) = (Inr (), pool)" and s': "s' = s\<lparr>fb_pool := pool\<rparr>"
    using assms(1) by (auto simp: on_pool_eq)
  note b = file_put_law [OF this(1) _ _ assms(2) zero_page_valid, of s']
  show "file_ok crc s'" "fb_meta s' = fb_meta s" "file_view crc s' (f, p) = Some new_page_buf"
    "k \<noteq> (f, p) \<Longrightarrow> file_view crc s k = Some e \<Longrightarrow> file_view crc s' k = Some e" using b s' by simp_all
qed

lemma on_pool_meta: "on_pool m s = (r, s') \<Longrightarrow> fb_meta s' = fb_meta s"
  by (auto simp: on_pool_eq)

lemma file_set_meta:
  "file_ok crc s \<Longrightarrow> meta_ok (fb_meta s)" "file_ok crc s \<Longrightarrow> meta_ok m \<Longrightarrow> file_ok crc (s\<lparr>fb_meta := m\<rparr>)"
  "file_view crc (s\<lparr>fb_meta := m\<rparr>) = file_view crc s"
  by (simp_all add: file_ok_def file_view_def)

interpretation fb: page_allocator "file_ops crc" crc "file_ok crc" "file_view crc"
  "\<lambda>f p. on_pool (pool_put_page f p new_page_buf)" file_grow for crc
  by unfold_locales
    (simp_all add: file_set_meta journal_law_file on_pool_meta file_write_meta,
     (blast intro: file_read_law file_write_law file_blank_law file_grow_law)+)

lemma file_allocate_eq:
  "file_allocate_page crc = allocate_with crc (file_ops crc) (\<lambda>f p. on_pool (pool_put_page f p new_page_buf)) file_grow"
  by (simp add: fun_eq_iff file_allocate_page_def allocate_with_def)

section \<open>The two backends agree\<close>

text \<open>Whatever the first computation returns, the second returns, and the states stay related.\<close>

definition refines_at :: "('s \<Rightarrow> 't \<Rightarrow> bool) \<Rightarrow> ('s, 'e, 'a) step \<Rightarrow> ('t, 'e, 'a) step \<Rightarrow> 's \<Rightarrow> 't \<Rightarrow> bool" where
  "refines_at R m n s t \<longleftrightarrow> (\<forall>x s'. m s = (Inr x, s') \<longrightarrow> (\<exists>t'. n t = (Inr x, t') \<and> R s' t'))"

definition refines :: "('s \<Rightarrow> 't \<Rightarrow> bool) \<Rightarrow> ('s, 'e, 'a) step \<Rightarrow> ('t, 'e, 'a) step \<Rightarrow> bool" where
  "refines R m n \<longleftrightarrow> (\<forall>s t. R s t \<longrightarrow> refines_at R m n s t)"

lemma refinesD: "refines R m n \<Longrightarrow> R s t \<Longrightarrow> refines_at R m n s t"
  by (simp add: refines_def)

lemma refinesI: "(\<And>s t. R s t \<Longrightarrow> refines_at R m n s t) \<Longrightarrow> refines R m n"
  by (simp add: refines_def)

lemma refines_sbind:
  assumes "refines R m n" "\<And>x. refines R (g x) (h x)"
  shows "refines R (sbind m g) (sbind n h)"
proof (intro refinesI)
  fix s t assume R: "R s t"
  show "refines_at R (sbind m g) (sbind n h) s t"
    unfolding refines_at_def
  proof (intro allI impI)
    fix y s2 assume "sbind m g s = (Inr y, s2)"
    then obtain x s1 where 1: "m s = (Inr x, s1)" "g x s1 = (Inr y, s2)" by (auto simp: sbind_eq_Inr)
    then obtain t1 where 2: "n t = (Inr x, t1)" "R s1 t1" using refinesD [OF assms(1) R] by (auto simp: refines_at_def)
    then obtain t2 where "h x t1 = (Inr y, t2)" "R s2 t2" using refinesD [OF assms(2) [of x] 2(2)] 1(2) by (auto simp: refines_at_def)
    then show "\<exists>t'. sbind n h t = (Inr y, t') \<and> R s2 t'" using 2 by (auto simp: sbind_eq_Inr)
  qed
qed

lemma refines_at_eq: "refines_at R m' n' s t \<Longrightarrow> m s = m' s \<Longrightarrow> n t = n' t \<Longrightarrow> refines_at R m n s t"
  by (simp add: refines_at_def)

lemma refines_sret: "refines R (sret x) (sret x)"
  by (simp add: refines_def refines_at_def)

lemma refines_sread: "refines R (sread (\<lambda>_. c)) (sread (\<lambda>_. c))"
  by (simp add: refines_def refines_at_def)

text \<open>Two stores whose metadata agree and whose primitive operations refine: so does page reuse.\<close>

locale store_refinement =
  fixes opsA :: "'s fl_ops" and opsB :: "'t fl_ops" and crc :: "bytes \<Rightarrow> u32" and R :: "'s \<Rightarrow> 't \<Rightarrow> bool"
  assumes meta_eq: "R s t \<Longrightarrow> fl_meta opsA s = fl_meta opsB t"
    and read_ref: "refines R (fl_read opsA f p) (fl_read opsB f p)"
    and write_ref: "page_valid crc f d \<Longrightarrow> refines R (fl_write opsA f p d) (fl_write opsB f p d)"
    and journal_ref: "refines R (fl_journal opsA f) (fl_journal opsB f)"
    and set_meta_ref: "R s t \<Longrightarrow> meta_ok (fl_meta opsA s)"
      "R s t \<Longrightarrow> meta_ok m \<Longrightarrow> file_page_count m = file_page_count (fl_meta opsA s) \<Longrightarrow> R (fl_set_meta opsA m s) (fl_set_meta opsB m t)"
begin

lemma modify_ref:
  assumes "\<And>m. meta_ok m \<Longrightarrow> meta_ok (h m) \<and> same_but f m (h m)"
  shows "refines R (modify_meta opsA h) (modify_meta opsB h)"
proof (intro refinesI)
  fix s t assume r: "R s t"
  have "R (fl_set_meta opsA (h (fl_meta opsA s)) s) (fl_set_meta opsB (h (fl_meta opsA s)) t)"
    using assms [OF set_meta_ref(1) [OF r]] by (intro set_meta_ref(2) [OF r]) (auto simp: same_but_def)
  then show "refines_at R (modify_meta opsA h) (modify_meta opsB h) s t"
    using meta_eq [OF r] by (simp add: refines_at_def modify_meta_def)
qed

lemma counts_ref:
  "refines R (decrement_free_count opsA f) (decrement_free_count opsB f)"
  "refines R (increment_free_count opsA f) (increment_free_count opsB f)"
  unfolding decrement_free_count_def increment_free_count_def by (intro modify_ref [of _ f]; simp)+

lemma write_directory_ref: "refines R (write_directory crc opsA f p d) (write_directory crc opsB f p d)"
proof (cases "directory_encode crc (file_magic f) d")
  case (Inl e)
  then show ?thesis by (simp add: refines_def refines_at_def write_directory_def sbind_def)
next
  case (Inr page)
  note page = directory_decode_encode [OF Inr length_file_magic]
  have "refines R (fl_write opsA f p page) (fl_write opsB f p page)" using page(2,3) by (intro write_ref) (simp add: page_valid_def)
  then show ?thesis using Inr by (simp add: refines_def refines_at_def write_directory_def sbind_def)
qed

lemma read_directory_ref: "refines R (read_directory opsA f p) (read_directory opsB f p)"
  unfolding read_directory_def by (intro refines_sbind read_ref refines_sread)

lemmas update_ref = refines_sbind refines_sret counts_ref write_directory_ref read_directory_ref journal_ref

lemma set_ref:
  "refines R (modify_meta opsA (set_free_spare_page f p)) (modify_meta opsB (set_free_spare_page f p))"
  "refines R (modify_meta opsA (set_free_directory_head f p)) (modify_meta opsB (set_free_directory_head f p))"
  by (rule modify_ref [of _ f]; simp)+

lemma take_free_page_ref: "refines R (take_free_page crc opsA f) (take_free_page crc opsB f)"
proof (intro refinesI)
  fix s t assume r: "R s t"
  have entry: "refines R (sbind (read_directory opsA f h) (\<lambda>d.
        if fd_entries d \<noteq> [] then
          sbind (write_directory crc opsA f h (d\<lparr>fd_entries := butlast (fd_entries d)\<rparr>)) (\<lambda>_.
          sbind (decrement_free_count opsA f) (\<lambda>_.
          sbind (fl_journal opsA f) (\<lambda>_. sret (Some (last (fd_entries d))))))
        else
          sbind (modify_meta opsA (set_free_directory_head f (fd_next d))) (\<lambda>_.
          sbind (fl_journal opsA f) (\<lambda>_. sret (Some h)))))
      (sbind (read_directory opsB f h) (\<lambda>d.
        if fd_entries d \<noteq> [] then
          sbind (write_directory crc opsB f h (d\<lparr>fd_entries := butlast (fd_entries d)\<rparr>)) (\<lambda>_.
          sbind (decrement_free_count opsB f) (\<lambda>_.
          sbind (fl_journal opsB f) (\<lambda>_. sret (Some (last (fd_entries d))))))
        else
          sbind (modify_meta opsB (set_free_directory_head f (fd_next d))) (\<lambda>_.
          sbind (fl_journal opsB f) (\<lambda>_. sret (Some h)))))" for h
    by (auto intro!: update_ref set_ref)
  have spare: "refines R (sbind (modify_meta opsA (set_free_spare_page f FREE_SPARE_EMPTY)) (\<lambda>_.
        sbind (decrement_free_count opsA f) (\<lambda>_. sbind (fl_journal opsA f) (\<lambda>_. sret (Some p)))))
      (sbind (modify_meta opsB (set_free_spare_page f FREE_SPARE_EMPTY)) (\<lambda>_.
        sbind (decrement_free_count opsB f) (\<lambda>_. sbind (fl_journal opsB f) (\<lambda>_. sret (Some p)))))" for p
    by (intro update_ref set_ref)
  let ?m = "fl_meta opsB t"
  consider "free_spare_page ?m f \<noteq> FREE_SPARE_EMPTY"
    | "free_spare_page ?m f = FREE_SPARE_EMPTY" "free_directory_head ?m f = FREE_DIRECTORY_EMPTY"
    | "free_spare_page ?m f = FREE_SPARE_EMPTY" "free_directory_head ?m f \<noteq> FREE_DIRECTORY_EMPTY" by blast
  then show "refines_at R (take_free_page crc opsA f) (take_free_page crc opsB f) s t"
  proof cases
    case 1
    then show ?thesis
      by (intro refines_at_eq [OF refinesD [OF spare r]]) (simp_all add: take_free_page_def Let_def meta_eq [OF r])
  next
    case 2
    then show ?thesis
      by (intro refines_at_eq [OF refinesD [OF refines_sret [of R None] r]]) (simp_all add: take_free_page_def Let_def meta_eq [OF r])
  next
    case 3
    then show ?thesis
      by (intro refines_at_eq [OF refinesD [OF entry r]]) (simp_all add: take_free_page_def Let_def meta_eq [OF r])
  qed
qed

lemma release_page_ref: "refines R (release_page crc opsA f p) (release_page crc opsB f p)"
proof (intro refinesI)
  fix s t assume r: "R s t"
  have spare: "refines R (sbind (modify_meta opsA (set_free_spare_page f p)) (\<lambda>_.
        sbind (increment_free_count opsA f) (\<lambda>_. fl_journal opsA f)))
      (sbind (modify_meta opsB (set_free_spare_page f p)) (\<lambda>_.
        sbind (increment_free_count opsB f) (\<lambda>_. fl_journal opsB f)))"
    by (intro update_ref set_ref)
  have head: "refines R (sbind (write_directory crc opsA f p d) (\<lambda>_.
        sbind (modify_meta opsA (set_free_directory_head f p)) (\<lambda>_. fl_journal opsA f)))
      (sbind (write_directory crc opsB f p d) (\<lambda>_.
        sbind (modify_meta opsB (set_free_directory_head f p)) (\<lambda>_. fl_journal opsB f)))" for d
    by (intro update_ref set_ref)
  have dir: "refines R (sbind (read_directory opsA f h) (\<lambda>d.
        if has_room d then
          sbind (write_directory crc opsA f h (d\<lparr>fd_entries := fd_entries d @ [p]\<rparr>)) (\<lambda>_.
          sbind (increment_free_count opsA f) (\<lambda>_. fl_journal opsA f))
        else
          sbind (write_directory crc opsA f p \<lparr>fd_next = h, fd_entries = []\<rparr>) (\<lambda>_.
          sbind (modify_meta opsA (set_free_directory_head f p)) (\<lambda>_. fl_journal opsA f))))
      (sbind (read_directory opsB f h) (\<lambda>d.
        if has_room d then
          sbind (write_directory crc opsB f h (d\<lparr>fd_entries := fd_entries d @ [p]\<rparr>)) (\<lambda>_.
          sbind (increment_free_count opsB f) (\<lambda>_. fl_journal opsB f))
        else
          sbind (write_directory crc opsB f p \<lparr>fd_next = h, fd_entries = []\<rparr>) (\<lambda>_.
          sbind (modify_meta opsB (set_free_directory_head f p)) (\<lambda>_. fl_journal opsB f))))" for h
    by (auto intro!: update_ref set_ref)
  let ?m = "fl_meta opsB t"
  consider "free_spare_page ?m f = FREE_SPARE_EMPTY"
    | "free_spare_page ?m f \<noteq> FREE_SPARE_EMPTY" "free_directory_head ?m f = FREE_DIRECTORY_EMPTY"
    | "free_spare_page ?m f \<noteq> FREE_SPARE_EMPTY" "free_directory_head ?m f \<noteq> FREE_DIRECTORY_EMPTY" by blast
  then show "refines_at R (release_page crc opsA f p) (release_page crc opsB f p) s t"
  proof cases
    case 1
    then show ?thesis
      by (intro refines_at_eq [OF refinesD [OF spare r]]) (simp_all add: release_page_def Let_def meta_eq [OF r])
  next
    case 2
    then show ?thesis
      by (intro refines_at_eq [OF refinesD [OF head r]]) (simp_all add: release_page_def Let_def meta_eq [OF r])
  next
    case 3
    then show ?thesis
      by (intro refines_at_eq [OF refinesD [OF dir r]]) (simp_all add: release_page_def Let_def meta_eq [OF r])
  qed
qed

end

definition related :: "(bytes \<Rightarrow> u32) \<Rightarrow> mem_backend \<Rightarrow> file_backend \<Rightarrow> bool" where
  "related crc s t \<longleftrightarrow> mem_ok s \<and> file_ok crc t \<and> no_faults (bp_inner (fb_pool t)) \<and> fb_faults t = [] \<and>
     mb_meta s = fb_meta t \<and> mb_pages s \<subseteq>\<^sub>m file_view crc t"

lemma relatedD:
  assumes "related crc s t"
  shows "mem_ok s" "file_ok crc t" "no_faults (bp_inner (fb_pool t))" "fb_faults t = []" "mb_meta s = fb_meta t"
    "mb_pages s \<subseteq>\<^sub>m file_view crc t" "pool_good crc (fb_pool t)"
  using assms by (simp_all add: related_def file_ok_def)

lemma wal_append_total:
  assumes "fb_faults t = []"
  shows "\<exists>t'. file_wal_append crc r t = (Inr (), t') \<and> fb_meta t' = fb_meta t \<and> fb_pool t' = fb_pool t \<and> fb_faults t' = []"
  using assms by (cases "fb_wal t") (auto simp: file_wal_append_def fb_io_def sbind_def note_wal_growth_def split: option.splits)

lemma log_page_total:
  assumes "fb_faults t = []"
  shows "\<exists>t'. log_page crc f p d t = (Inr (), t') \<and> fb_meta t' = fb_meta t \<and> fb_pool t' = fb_pool t \<and> fb_faults t' = []"
  using wal_append_total [OF assms] assms by (auto simp: log_page_def split: data_file.split)

lemma related_same: "related crc s t \<Longrightarrow> fb_meta t' = fb_meta t \<Longrightarrow> fb_pool t' = fb_pool t \<Longrightarrow> fb_faults t' = [] \<Longrightarrow> related crc s t'"
  by (simp add: related_def file_ok_def file_view_def)

lemma put_ref:
  assumes "page_valid crc f d"
  shows "refines (related crc) (mem_put f p d) (on_pool (pool_put_page f p d))"
proof (intro refinesI)
  fix s t assume r: "related crc s t"
  obtain x pool where g: "pool_put_page f p d (fb_pool t) = (x, pool)" by fastforce
  note k = pool_put [OF relatedD(7) [OF r] g assms]
  let ?s = "s\<lparr>mb_pages := (mb_pages s)((f, p) \<mapsto> d)\<rparr>" and ?t = "t\<lparr>fb_pool := pool\<rparr>"
  have x: "x = Inr ()" "no_faults (bp_inner pool)" using k(5) relatedD(3) [OF r] by auto
  have "mb_pages ?s \<subseteq>\<^sub>m pool_holds crc pool"
    unfolding map_le_def
  proof
    fix q assume q: "q \<in> dom (mb_pages ?s)"
    show "mb_pages ?s q = pool_holds crc pool q"
    proof (cases "q = (f, p)")
      case False
      then obtain e where e: "mb_pages s q = Some e" using q by auto
      from map_leD [OF relatedD(6) [OF r] e] have "pool_holds crc pool q = Some e"
        using k(3) [OF x(1) False] by (simp add: file_view_def)
      then show ?thesis using e False by simp
    qed (use k(2) [OF x(1)] in simp)
  qed
  then have "related crc ?s ?t"
    using k(1) x(2) relatedD [OF r] by (simp add: related_def mem_ok_def mem_page_count_def file_ok_def file_view_def)
  then show "refines_at (related crc) (mem_put f p d) (on_pool (pool_put_page f p d)) s t"
    using g x(1) by (simp add: refines_at_def mem_put_eq on_pool_def)
qed

lemma read_ref: "refines (related crc) (mem_read_page f p) (on_pool (get_page crc f p))"
proof (intro refinesI)
  fix s t assume r: "related crc s t"
  show "refines_at (related crc) (mem_read_page f p) (on_pool (get_page crc f p)) s t"
    unfolding refines_at_def mem_read_Inr
  proof (intro allI impI)
    fix d s' assume m: "s' = s \<and> mb_pages s (f, p) = Some d"
    obtain x pool where g: "get_page crc f p (fb_pool t) = (x, pool)" by fastforce
    note k = pool_get [OF relatedD(7) [OF r] g]
    have h: "pool_holds crc (fb_pool t) (f, p) = Some d" using map_leD [OF relatedD(6) [OF r]] m by (simp add: file_view_def)
    then have x: "x = Inr d" using k(6) relatedD(3) [OF r] by simp
    have "mb_pages s \<subseteq>\<^sub>m pool_holds crc pool"
      using k(3) [OF x] relatedD(6) [OF r] map_le_trans by (simp add: file_view_def) blast
    then have "related crc s (t\<lparr>fb_pool := pool\<rparr>)"
      using k(1,5) relatedD [OF r] by (simp add: related_def file_ok_def file_view_def)
    then show "\<exists>t'. on_pool (get_page crc f p) t = (Inr d, t') \<and> related crc s' t'"
      using g x m by (simp add: on_pool_def)
  qed
qed

lemma total_ref:
  assumes "\<And>t. fb_faults t = [] \<Longrightarrow> \<exists>t'. n t = (Inr (), t') \<and> fb_meta t' = fb_meta t \<and> fb_pool t' = fb_pool t \<and> fb_faults t' = []"
  shows "refines (related crc) (sret ()) n"
proof (intro refinesI)
  fix s t assume r: "related crc s t"
  obtain t' where t': "n t = (Inr (), t')" "fb_meta t' = fb_meta t" "fb_pool t' = fb_pool t" "fb_faults t' = []"
    using assms [OF relatedD(4) [OF r]] by blast
  then show "refines_at (related crc) (sret ()) n s t" using related_same [OF r t'(2-4)] by (simp add: refines_at_def)
qed

lemma log_ref: "refines (related crc) (sret ()) (log_page crc f p d)"
  by (rule total_ref) (rule log_page_total)

lemma write_raw_ref:
  assumes "page_valid crc f d"
  shows "refines (related crc) (mem_put f p d) (file_write_raw crc f p d)"
proof -
  have "refines (related crc) (sbind (sret ()) (\<lambda>_. mem_put f p d)) (file_write_raw crc f p d)"
    unfolding file_write_raw_def by (intro refines_sbind log_ref put_ref assms)
  then show ?thesis by (simp add: refines_def refines_at_def sbind_def)
qed

lemma journal_ref_file: "refines (related crc) (sret ()) (journal_free_list_state crc f)"
  by (rule total_ref) (simp add: journal_free_list_state_def wal_append_total)

interpretation mf: store_refinement mem_ops "file_ops crc" crc "related crc" for crc
proof unfold_locales
  show "refines (related crc) (fl_write mem_ops f p d) (fl_write (file_ops crc) f p d)" if "page_valid crc f d" for f p d
    using write_raw_ref [OF that] by simp
  show "related crc (fl_set_meta mem_ops m s) (fl_set_meta (file_ops crc) m t)"
    if "related crc s t" "meta_ok m" "file_page_count m = file_page_count (fl_meta mem_ops s)" for s t m
    using that by (simp add: related_def mem_ok_def mem_page_count_def file_ok_def file_view_def)
  show "refines (related crc) (fl_read mem_ops f p) (fl_read (file_ops crc) f p)" for f p using read_ref by simp
  show "refines (related crc) (fl_journal mem_ops f) (fl_journal (file_ops crc) f)" for f using journal_ref_file by simp
qed (auto simp: related_def mem_ok_def)

lemma grow_ref: "refines (related crc) (mem_grow f) (file_grow f)"
proof (intro refinesI)
  fix s t assume r: "related crc s t"
  let ?p = "mem_page_count s f"
  have p: "?p = file_page_count (fb_meta t) f" using relatedD(1,5) [OF r] by (simp add: mem_ok_def)
  let ?s = "s\<lparr>mb_page_counts := (mb_page_counts s)(f \<mapsto> ?p + 1), mb_meta := set_meta_page_count f (?p + 1) (mb_meta s)\<rparr>"
  let ?t = "t\<lparr>fb_meta := set_meta_page_count f (?p + 1) (fb_meta t)\<rparr>"
  have "related crc ?s ?t"
    using relatedD [OF r] by (auto simp: related_def mem_ok_def mem_page_count_def file_ok_def file_view_def)
  from refinesD [OF put_ref [OF zero_page_valid] this, of f ?p]
  obtain t' where "on_pool (pool_put_page f ?p new_page_buf) ?t = (Inr (), t')"
      "related crc (?s\<lparr>mb_pages := (mb_pages ?s)((f, ?p) \<mapsto> new_page_buf)\<rparr>) t'"
    by (auto simp: refines_at_def mem_put_eq)
  then show "refines_at (related crc) (mem_grow f) (file_grow f) s t"
    using p by (simp add: refines_at_def mem_grow_def file_grow_def Let_def sbind_def)
qed

lemma allocate_ref: "refines (related crc) (mem_allocate_page crc f) (file_allocate_page crc f)"
  unfolding mem_allocate_page_def file_allocate_page_def
  by (intro refines_sbind mf.take_free_page_ref) (auto split: option.split intro!: refines_sbind put_ref refines_sret grow_ref)

lemma free_ref: "refines (related crc) (mem_free_page crc f p) (file_free_page crc f p)"
  unfolding mem_free_page_def file_free_page_def by (rule mf.release_page_ref)


section \<open>Properties\<close>

datatype store_op = Alloc data_file | Free data_file u32 | WritePg data_file u32 bytes

datatype store_answer = NewPage u32 | Done

fun mem_step :: "(bytes \<Rightarrow> u32) \<Rightarrow> store_op \<Rightarrow> (mem_backend, storage_error, store_answer) step" where
  "mem_step crc (Alloc f) = sbind (mem_allocate_page crc f) (\<lambda>p. sret (NewPage p))"
| "mem_step crc (Free f p) = sbind (mem_free_page crc f p) (\<lambda>_. sret Done)"
| "mem_step crc (WritePg f p d) = sbind (mem_write_page f p d) (\<lambda>_. sret Done)"

fun file_step :: "(bytes \<Rightarrow> u32) \<Rightarrow> store_op \<Rightarrow> (file_backend, storage_error, store_answer) step" where
  "file_step crc (Alloc f) = sbind (file_allocate_page crc f) (\<lambda>p. sret (NewPage p))"
| "file_step crc (Free f p) = sbind (file_free_page crc f p) (\<lambda>_. sret Done)"
| "file_step crc (WritePg f p d) = sbind (file_write_page crc f p d) (\<lambda>_. sret Done)"

fun run_ops :: "('o \<Rightarrow> ('s, 'e, 'a) step) \<Rightarrow> 'o list \<Rightarrow> ('s, 'e, 'a list) step" where
  "run_ops st [] = sret []"
| "run_ops st (o1 # os) = sbind (st o1) (\<lambda>a. sbind (run_ops st os) (\<lambda>as. sret (a # as)))"

text \<open>Pages written are valid pages of their file.\<close>

fun writes_valid :: "(bytes \<Rightarrow> u32) \<Rightarrow> store_op \<Rightarrow> bool" where
  "writes_valid crc (WritePg f p d) = page_valid crc f d"
| "writes_valid crc _ = True"

lemma write_page_ref:
  assumes "page_valid crc f d"
  shows "refines (related crc) (mem_write_page f p d) (file_write_page crc f p d)"
proof (intro refinesI)
  fix s t assume r: "related crc s t"
  have c: "mem_page_count s f = file_page_count (fb_meta t) f" using relatedD(1,5) [OF r] by (simp add: mem_ok_def)
  show "refines_at (related crc) (mem_write_page f p d) (file_write_page crc f p d) s t"
    using refinesD [OF write_raw_ref [OF assms] r, of p] c
    by (auto simp: refines_at_def mem_write_page_def file_write_page_def file_write_raw_def)
qed

lemma step_ref: "writes_valid crc op \<Longrightarrow> refines (related crc) (mem_step crc op) (file_step crc op)"
  by (cases op) (auto intro!: refines_sbind allocate_ref free_ref write_page_ref refines_sret)

lemma run_ref: "list_all (writes_valid crc) ops \<Longrightarrow> refines (related crc) (run_ops (mem_step crc) ops) (run_ops (file_step crc) ops)"
  by (induction ops) (auto intro!: refines_sbind step_ref refines_sret)

text \<open>C15 (the backends agree). Starting from related stores, a sequence of allocations, releases and page writes that
  succeeds in memory succeeds on files without I/O faults with the same answers, in particular the same page ids;
  afterwards the metadata are equal and every page in memory that lies below the page count reads the same from the files.\<close>

theorem backends_agree:
  assumes "related crc s t" "list_all (writes_valid crc) ops" "run_ops (mem_step crc) ops s = (Inr answers, s')"
  shows "\<exists>t'. run_ops (file_step crc) ops t = (Inr answers, t') \<and> fb_meta t' = mb_meta s' \<and>
    (\<forall>f p d. mb_pages s' (f, p) = Some d \<longrightarrow> p < file_page_count (mb_meta s') f \<longrightarrow> fst (file_read_page crc f p t') = Inr d)"
proof -
  obtain t' where t': "run_ops (file_step crc) ops t = (Inr answers, t')" "related crc s' t'"
    using refinesD [OF run_ref [OF assms(2)] assms(1)] assms(3) by (auto simp: refines_at_def)
  have "fst (file_read_page crc f p t') = Inr d"
    if "mb_pages s' (f, p) = Some d" "p < file_page_count (mb_meta s') f" for f p d
    using refinesD [OF read_ref t'(2), of f p] that relatedD(5) [OF t'(2)]
    by (auto simp: refines_at_def mem_read_Inr file_read_page_def)
  with t' relatedD(5) [OF t'(2)] show ?thesis by auto
qed

definition empty_files :: file_backend where
  "empty_files = \<lparr>fb_meta = meta_new, fb_pool = fresh_pool 0, fb_wal = Some (wal_writer_open (\<lambda>_. 0) []), fb_threshold = Some 0,
     fb_pending = False, fb_meta_file = [], fb_faults = []\<rparr>"

lemma new_stores_related: "related crc mem_new empty_files" "mem_ok mem_new" "file_ok crc empty_files"
proof -
  have c: "file_page_count meta_new f = 0" for f by (cases f) (simp_all add: meta_new_def)
  show "mem_ok mem_new" by (simp add: mem_ok_def mem_new_def mem_page_count_def c)
  show "file_ok crc empty_files" using fresh_pool_good by (simp add: file_ok_def empty_files_def)
  show "related crc mem_new empty_files"
    using fresh_pool_good(1) [of crc 0] fresh_pool_good(2) [of 0] by (simp add: related_def mem_ok_def mem_new_def mem_page_count_def c file_ok_def empty_files_def)
qed

lemma new_free_list: "free_list_of meta_new V f {}"
proof -
  have "free_list_ok meta_new V f []" "listed meta_new f [] = []"
    by (cases f; simp add: free_list_ok_def listed_def spare_list_def meta_new_def free_directory_head_def free_spare_page_def
        free_page_count_def FREE_SPARE_EMPTY_def FREE_DIRECTORY_EMPTY_def)+
  then show ?thesis by (auto simp: free_list_of_def free_set_def)
qed

lemma mem_page_demo:
  "run_ops (mem_step crc) [Alloc Overflow, Alloc Overflow, Free Overflow 0, Alloc Overflow] mem_new =
     (Inr [NewPage 0, NewPage 1, Done, NewPage 0], snd (run_ops (mem_step crc) [Alloc Overflow, Alloc Overflow, Free Overflow 0, Alloc Overflow] mem_new))"
  by (simp add: sbind_def mem_allocate_page_def mem_free_page_def take_free_page_def release_page_def Let_def mem_new_def meta_new_def
      free_spare_page_def free_directory_head_def FREE_SPARE_EMPTY_def FREE_DIRECTORY_EMPTY_def mem_grow_def mem_page_count_def
      modify_meta_def increment_free_count_def decrement_free_count_def set_free_spare_page_def set_free_page_count_def free_page_count_def
      mem_put_def)

theorem backends_agree_witness:
  "\<exists>t'. run_ops (file_step (\<lambda>_. 0)) [Alloc Overflow, Alloc Overflow, Free Overflow 0, Alloc Overflow] empty_files =
     (Inr [NewPage 0, NewPage 1, Done, NewPage 0], t')"
proof -
  have "list_all (writes_valid (\<lambda>_. 0)) [Alloc Overflow, Alloc Overflow, Free Overflow 0, Alloc Overflow]" by simp
  from backends_agree [OF new_stores_related(1) this mem_page_demo] show ?thesis by blast
qed




text \<open>Releasing a page in use takes exactly that page out of use: it joins the free list, whose count
  field stays exact, and every other page in use keeps its contents.\<close>

theorem file_free_page_recycles:
  assumes "file_free_page crc f p s = (Inr u, s')" "file_ok crc s" "free_list_of (fb_meta s) (file_view crc s) f F"
    and "p \<in> live_pages (fb_meta s) f F" "p \<noteq> FREE_DIRECTORY_EMPTY"
  shows "file_ok crc s' \<and> free_list_of (fb_meta s') (file_view crc s') f (insert p F) \<and>
    live_pages (fb_meta s') f (insert p F) = live_pages (fb_meta s) f F - {p} \<and>
    (\<forall>q\<in>live_pages (fb_meta s) f F - {p}. \<forall>d. file_view crc s (f, q) = Some d \<longrightarrow> file_view crc s' (f, q) = Some d)"
proof -
  have r: "release_page crc (file_ops crc) f p s = (Inr u, s')" using assms(1) by (simp add: file_free_page_def)
  have "file_view crc s' (f, q) = Some d" if "q \<in> live_pages (fb_meta s) f F - {p}" "file_view crc s (f, q) = Some d" for q d
    using fb.free_spec [OF r assms(2), of F] assms(3-5) that by (fastforce simp: live_pages_def)
  then show ?thesis using fb.free_spec [OF r assms(2)] assms(3-5) by auto
qed

theorem file_free_page_recycles_witness:
  "\<exists>s s'. file_free_page (\<lambda>_. 0) Overflow 0 s = (Inr (), s') \<and> file_ok (\<lambda>_. 0) s' \<and> live_pages (fb_meta s') Overflow {0} = {}"
proof -
  define m where "m = set_meta_page_count Overflow 1 meta_new"
  have m: "meta_ok m" "file_page_count m Overflow = 1" "free_directory_head m Overflow = free_directory_head meta_new Overflow"
      "free_spare_page m Overflow = free_spare_page meta_new Overflow" "free_page_count m Overflow = free_page_count meta_new Overflow"
    by (simp_all only: m_def page_count_set meta_ok_new simp_thms if_True)
  let ?t = "empty_files\<lparr>fb_meta := m\<rparr>"
  have ok: "file_ok (\<lambda>_. 0) ?t" using new_stores_related(3) m(1) by (simp add: file_ok_def)
  have "free_set meta_new (file_view (\<lambda>_. 0) ?t) Overflow {}" using new_free_list by (simp add: free_list_of_def)
  then have "free_set m (file_view (\<lambda>_. 0) ?t) Overflow {}" using m(3-5) by (rule free_set_cong) simp
  then have fl: "free_list_of (fb_meta ?t) (file_view (\<lambda>_. 0) ?t) Overflow {}" by (simp add: free_list_of_def)
  have live: "live_pages (fb_meta ?t) Overflow {} = {0}" using m(2) by (auto simp: live_pages_def less_succ [of 0, simplified])
  let ?s = "mem_new\<lparr>mb_page_counts := [Overflow \<mapsto> 1], mb_meta := m\<rparr>"
  have "file_page_count m f = (if f = Overflow then 1 else 0)" for f by (cases f) (simp_all add: m_def meta_new_def)
  then have "mem_ok ?s" using m(1) by (auto simp: mem_ok_def mem_page_count_def mem_new_def)
  then have "related (\<lambda>_. 0) ?s ?t"
    using new_stores_related(1) [of "\<lambda>_. 0"] m(1) by (simp add: related_def file_ok_def file_view_def mem_new_def empty_files_def)
  moreover have "mem_free_page (\<lambda>_. 0) Overflow 0 ?s = (Inr (), snd (mem_free_page (\<lambda>_. 0) Overflow 0 ?s))"
    using m(4) by (simp add: sbind_def mem_free_page_def release_page_def Let_def modify_meta_def increment_free_count_def
      free_spare_page_def FREE_SPARE_EMPTY_def meta_new_def)
  ultimately obtain s' where s': "file_free_page (\<lambda>_. 0) Overflow 0 ?t = (Inr (), s')"
    using refinesD [OF free_ref, of "\<lambda>_. 0" ?s ?t Overflow 0] unfolding refines_at_def by blast
  from file_free_page_recycles [OF s' ok fl] live show ?thesis using s' by (auto simp: FREE_DIRECTORY_EMPTY_def)
qed


text \<open>Flushing the files one after the other leaves no dirty frame.\<close>

lemma flush_files:
  assumes "siter (\<lambda>f. on_pool (flush_file f)) fs s = (Inr u, s')" "file_ok crc s"
  shows "file_ok crc s' \<and> file_view crc s \<subseteq>\<^sub>m file_view crc s' \<and> fb_meta s' = fb_meta s \<and> fb_wal s' = fb_wal s \<and>
    (\<forall>f. f \<in> set fs \<or> dirty_in f (bp_inner (fb_pool s)) = {} \<longrightarrow> dirty_in f (bp_inner (fb_pool s')) = {})"
  using assms
proof (induction fs arbitrary: s)
  case Nil
  then show ?case by simp
next
  case (Cons f fs)
  then obtain s1 where 1: "on_pool (flush_file f) s = (Inr (), s1)" "siter (\<lambda>f. on_pool (flush_file f)) fs s1 = (Inr u, s')"
    by (auto simp: sbind_eq_Inr)
  obtain pool where g: "flush_file f (fb_pool s) = (Inr (), pool)" "s1 = s\<lparr>fb_pool := pool\<rparr>" using 1(1) by (auto simp: on_pool_eq)
  have good: "pool_good crc (fb_pool s)" using Cons.prems(2) by (simp add: file_ok_def)
  note k = pool_flush [OF good g(1)]
  have ok1: "file_ok crc s1" using k(1) g(2) Cons.prems(2) by (simp add: file_ok_def)
  have view1: "file_view crc s \<subseteq>\<^sub>m file_view crc s1" using k(2) g(2) by (simp add: file_view_def)
  have dirty: "dirty_in f' (bp_inner (fb_pool s1)) = {}" if "f' = f \<or> dirty_in f' (bp_inner (fb_pool s)) = {}" for f'
    using that k(5,6) g(2) by (cases "f' = f") auto
  note IH = Cons.IH [OF 1(2) ok1]
  have "dirty_in f' (bp_inner (fb_pool s')) = {}" if "f' \<in> set (f # fs) \<or> dirty_in f' (bp_inner (fb_pool s)) = {}" for f'
    using that dirty [of f'] IH by auto
  then show ?case using IH g(2) map_le_trans [OF view1] by auto
qed

text \<open>C17 (checkpoint). After a flush that reports success the directory alone holds the store: every page that could be
  read before is on disk in its file, the metadata file decodes to the metadata with the dirty flag cleared, and the log is
  empty with no checkpoint pending.\<close>

theorem checkpoint_complete:
  assumes "file_flush crc s = (Inr u, s')" "file_ok crc s"
  shows "(\<forall>f p d. file_view crc s (f, p) = Some d \<longrightarrow> file_page crc (bp_inner (fb_pool s')) (f, p) = Some d) \<and>
    deserialize crc (fb_meta_file s') = Inr (clear_dirty (fb_meta s)) \<and> fb_meta s' = clear_dirty (fb_meta s) \<and>
    (case fb_wal s' of None \<Rightarrow> fb_wal s = None | Some w \<Rightarrow> ww_file w = [] \<and> \<not> fb_pending s')"
proof -
  obtain v1 s1 v2 s2 where f: "siter (\<lambda>f. on_pool (flush_file f)) ALL_DATA_FILES s = (Inr v1, s1)"
      "flush_meta crc s1 = (Inr v2, s2)" "wal_checkpoint_and_truncate crc s2 = (Inr u, s')"
    using assms(1) by (auto simp: file_flush_def sbind_eq_Inr)
  note fl = flush_files [OF f(1) assms(2)]
  have all: "f \<in> set ALL_DATA_FILES" for f by (cases f) (simp_all add: ALL_DATA_FILES_def)
  have s2: "fb_pool s2 = fb_pool s1" "fb_meta s2 = clear_dirty (fb_meta s1)" "fb_meta_file s2 = serialize crc (fb_meta s2)" "fb_wal s2 = fb_wal s1"
    using f(2) by (auto simp: flush_meta_def sbind_eq_Inr fb_io_def split: if_splits)
  have s': "fb_pool s' = fb_pool s2" "fb_meta s' = fb_meta s2" "fb_meta_file s' = fb_meta_file s2"
    using f(3) by (auto simp: wal_checkpoint_and_truncate_def sbind_eq_Inr fb_io_def split: if_splits option.splits)
  have wal: "case fb_wal s' of None \<Rightarrow> fb_wal s2 = None | Some w \<Rightarrow> ww_file w = [] \<and> \<not> fb_pending s'"
    using f(3) by (auto simp: wal_checkpoint_and_truncate_def sbind_eq_Inr fb_io_def wal_writer_truncate_def split: if_splits option.splits)
  have "meta_ok (clear_dirty (fb_meta s))" using assms(2) by (simp add: file_ok_def clear_dirty_def meta_ok_def)
  then have meta: "deserialize crc (fb_meta_file s') = Inr (clear_dirty (fb_meta s))"
    using deserialize_serialize(1) s' s2 fl by simp
  have "file_page crc (bp_inner (fb_pool s')) (f, p) = Some d" if "file_view crc s (f, p) = Some d" for f p d
  proof -
    have "pool_page crc (bp_inner (fb_pool s1)) (f, p) = Some d" "pool_ok crc (bp_max_pages (fb_pool s1)) (bp_inner (fb_pool s1))"
      using map_leD [OF conjunct1 [OF conjunct2 [OF fl]] that] fl by (simp_all add: file_view_def pool_holds_def file_ok_def pool_good_def)
    then show ?thesis using clean_on_disk fl all s'(1) s2(1) by simp
  qed
  moreover have "fb_wal s2 = fb_wal s" "fb_meta s' = clear_dirty (fb_meta s)" using s'(2) s2 fl by simp_all
  ultimately show ?thesis using meta wal by (cases "fb_wal s'") simp_all
qed


theorem checkpoint_complete_witness:
  "\<exists>s'. file_flush (\<lambda>_. 0) empty_files = (Inr (), s') \<and> deserialize (\<lambda>_. 0) (fb_meta_file s') = Inr meta_new \<and>
     map_option ww_file (fb_wal s') = Some []"
proof -
  have "flush_file f (fresh_pool 0) = (Inr (), fresh_pool 0)" for f
    by (simp add: flush_file_def on_inner_def flush_file_inner_def dirty_pages_def fresh_pool_def pool_new_def register_file_def ALL_DATA_FILES_def)
  then have "on_pool (flush_file f) empty_files = (Inr (), empty_files)" for f
    by (simp add: on_pool_def empty_files_def)
  then have "siter (\<lambda>f. on_pool (flush_file f)) fs empty_files = (Inr (), empty_files)" for fs
    by (induction fs) (simp_all add: sbind_def)
  then obtain s' where s': "file_flush (\<lambda>_. 0) empty_files = (Inr (), s')" "fb_wal s' \<noteq> None"
    by (simp add: file_flush_def sbind_def flush_meta_def fb_io_def wal_checkpoint_and_truncate_def empty_files_def)
  moreover have "clear_dirty (fb_meta empty_files) = meta_new" by (simp add: empty_files_def clear_dirty_def meta_new_def)
  ultimately show ?thesis using checkpoint_complete [OF s'(1) new_stores_related(3)] by (auto split: option.splits)
qed

end
