(* ===== verification/Packstream.thy ===== *)
theory Packstream
  imports Ermya_Prelude
begin

unbundle bit_operations_syntax

text \<open>
  The PackStream codec of the Bolt protocol (\<^verbatim>\<open>crates/ermya-graph-protocol/src/packstream\<close>):
  \<^verbatim>\<open>value.rs\<close>, \<^verbatim>\<open>markers.rs\<close>, \<^verbatim>\<open>encoder.rs\<close> and \<^verbatim>\<open>decoder.rs\<close>. An integer is
  its 64-bit word, a float its IEEE bit pattern, a string its UTF-8 bytes. The encoder is that of a
  release build (the checks of debug builds are not part of it); a buffer offset is a natural number.
\<close>

section \<open>Values, markers and errors\<close>

datatype packstream_value =
    PNull
  | PBool bool
  | PInt u64
  | PFloat u64
  | PString bytes
  | PBytes bytes
  | PList "packstream_value list"
  | PDict "(bytes \<times> packstream_value) list"
  | PStruct byte "packstream_value list"

datatype protocol_error =
    PackStreamUnderflow nat nat
  | PackStreamUnknownMarker byte
  | PackStreamInvalidUtf8
  | PackStreamDictKeyNotString
  | PackStreamDepthLimitExceeded nat
  | PackStreamInvalidFloat

definition M_NULL :: byte where "M_NULL = 0xC0"
definition BOOL_FALSE :: byte where "BOOL_FALSE = 0xC2"
definition BOOL_TRUE :: byte where "BOOL_TRUE = 0xC3"
definition FLOAT64 :: byte where "FLOAT64 = 0xC1"
definition INT8 :: byte where "INT8 = 0xC8"
definition INT16 :: byte where "INT16 = 0xC9"
definition INT32 :: byte where "INT32 = 0xCA"
definition INT64 :: byte where "INT64 = 0xCB"
definition TINY_STRING_BASE :: byte where "TINY_STRING_BASE = 0x80"
definition STRING8 :: byte where "STRING8 = 0xD0"
definition STRING16 :: byte where "STRING16 = 0xD1"
definition STRING32 :: byte where "STRING32 = 0xD2"
definition BYTES8 :: byte where "BYTES8 = 0xCC"
definition BYTES16 :: byte where "BYTES16 = 0xCD"
definition BYTES32 :: byte where "BYTES32 = 0xCE"
definition TINY_LIST_BASE :: byte where "TINY_LIST_BASE = 0x90"
definition LIST8 :: byte where "LIST8 = 0xD4"
definition LIST16 :: byte where "LIST16 = 0xD5"
definition LIST32 :: byte where "LIST32 = 0xD6"
definition TINY_DICT_BASE :: byte where "TINY_DICT_BASE = 0xA0"
definition DICT8 :: byte where "DICT8 = 0xD8"
definition DICT16 :: byte where "DICT16 = 0xD9"
definition DICT32 :: byte where "DICT32 = 0xDA"
definition TINY_STRUCT_BASE :: byte where "TINY_STRUCT_BASE = 0xB0"

lemmas markers = M_NULL_def BOOL_FALSE_def BOOL_TRUE_def FLOAT64_def INT8_def INT16_def INT32_def INT64_def
  TINY_STRING_BASE_def STRING8_def STRING16_def STRING32_def BYTES8_def BYTES16_def BYTES32_def TINY_LIST_BASE_def
  LIST8_def LIST16_def LIST32_def TINY_DICT_BASE_def DICT8_def DICT16_def DICT32_def TINY_STRUCT_BASE_def

section \<open>The encoder\<close>

text \<open>What a call appends to the buffer.\<close>

definition encode_sized_header :: "nat \<Rightarrow> byte \<Rightarrow> byte \<Rightarrow> byte \<Rightarrow> byte \<Rightarrow> bytes" where
  "encode_sized_header len tiny_base marker8 marker16 marker32 =
     (if len \<le> 0x0F then [tiny_base OR word_of_nat len]
      else if len \<le> 0xFF then [marker8, word_of_nat len]
      else if len \<le> 0xFFFF then marker16 # be_bytes 2 (unat (word_of_nat len :: u16))
      else marker32 # be_bytes 4 (unat (word_of_nat len :: u32)))"

definition encode_int :: "u64 \<Rightarrow> bytes" where
  "encode_int i =
     (if -16 \<le> sint i \<and> sint i \<le> 127 then [ucast i]
      else if -128 \<le> sint i \<and> sint i \<le> -17 then [INT8, ucast i]
      else if -32768 \<le> sint i \<and> sint i \<le> 32767 then INT16 # be_bytes 2 (unat (ucast i :: u16))
      else if -2147483648 \<le> sint i \<and> sint i \<le> 2147483647 then INT32 # be_bytes 4 (unat (ucast i :: u32))
      else INT64 # be_bytes 8 (unat i))"

definition encode_string :: "bytes \<Rightarrow> bytes" where
  "encode_string s = encode_sized_header (length s) TINY_STRING_BASE STRING8 STRING16 STRING32 @ s"

definition encode_bytes :: "bytes \<Rightarrow> bytes" where
  "encode_bytes data =
     (let len = length data in
      (if len \<le> 0xFF then [BYTES8, word_of_nat len]
       else if len \<le> 0xFFFF then BYTES16 # be_bytes 2 (unat (word_of_nat len :: u16))
       else BYTES32 # be_bytes 4 (unat (word_of_nat len :: u32))) @ data)"

text \<open>\<^verbatim>\<open>f.is_nan() || f.is_infinite()\<close>: all exponent bits are set.\<close>

definition float_not_finite :: "u64 \<Rightarrow> bool" where
  "float_not_finite f \<longleftrightarrow> (drop_bit 52 f AND 0x7FF) = 0x7FF"

definition append_after :: "bytes \<Rightarrow> protocol_error + bytes \<Rightarrow> protocol_error + bytes" where
  "append_after bs r = rbind r (\<lambda>cs. Inr (bs @ cs))"

fun pencode :: "packstream_value \<Rightarrow> protocol_error + bytes"
  and encode_items :: "packstream_value list \<Rightarrow> protocol_error + bytes"
  and encode_pairs :: "(bytes \<times> packstream_value) list \<Rightarrow> protocol_error + bytes" where
  "pencode PNull = Inr [M_NULL]"
| "pencode (PBool b) = Inr [if b then BOOL_TRUE else BOOL_FALSE]"
| "pencode (PInt i) = Inr (encode_int i)"
| "pencode (PFloat f) = (if float_not_finite f then Inl PackStreamInvalidFloat else Inr (FLOAT64 # be_bytes 8 (unat f)))"
| "pencode (PString s) = Inr (encode_string s)"
| "pencode (PBytes b) = Inr (encode_bytes b)"
| "pencode (PList items) =
     append_after (encode_sized_header (length items) TINY_LIST_BASE LIST8 LIST16 LIST32) (encode_items items)"
| "pencode (PDict pairs) =
     append_after (encode_sized_header (length pairs) TINY_DICT_BASE DICT8 DICT16 DICT32) (encode_pairs pairs)"
| "pencode (PStruct tag fields) =
     append_after [TINY_STRUCT_BASE OR word_of_nat (min (length fields) 15), tag] (encode_items fields)"
| "encode_items [] = Inr []"
| "encode_items (v # vs) = rbind (pencode v) (\<lambda>bs. append_after bs (encode_items vs))"
| "encode_pairs [] = Inr []"
| "encode_pairs ((k, v) # ps) = rbind (pencode v) (\<lambda>bs. append_after (encode_string k @ bs) (encode_pairs ps))"

section \<open>The decoder\<close>

definition MAX_DECODE_DEPTH :: nat where "MAX_DECODE_DEPTH = 64"

definition require_bytes_from :: "bytes \<Rightarrow> nat \<Rightarrow> nat \<Rightarrow> protocol_error + unit" where
  "require_bytes_from buf off needed =
     (if length buf - off < needed then Inl (PackStreamUnderflow needed (length buf - off)) else Inr ())"

text \<open>A big-endian unsigned integer of \<open>k\<close> bytes at an offset, as in \<^verbatim>\<open>u16::from_be_bytes\<close>.\<close>

definition read_be :: "nat \<Rightarrow> bytes \<Rightarrow> nat \<Rightarrow> protocol_error + nat" where
  "read_be k buf off = rbind (require_bytes_from buf off k) (\<lambda>_. Inr (be_nat (subslice off k buf)))"

definition decode_integer_at :: "bytes \<Rightarrow> byte \<Rightarrow> nat \<Rightarrow> protocol_error + packstream_value \<times> nat" where
  "decode_integer_at buf marker start =
     (if marker = INT8 then rbind (read_be 1 buf start) (\<lambda>n. Inr (PInt (scast (word_of_nat n :: byte)), start + 1))
      else if marker = INT16 then rbind (read_be 2 buf start) (\<lambda>n. Inr (PInt (scast (word_of_nat n :: u16)), start + 2))
      else if marker = INT32 then rbind (read_be 4 buf start) (\<lambda>n. Inr (PInt (scast (word_of_nat n :: u32)), start + 4))
      else rbind (read_be 8 buf start) (\<lambda>n. Inr (PInt (word_of_nat n), start + 8)))"

definition decode_string_body :: "bytes \<Rightarrow> nat \<Rightarrow> nat \<Rightarrow> protocol_error + packstream_value \<times> nat" where
  "decode_string_body buf off len =
     rbind (require_bytes_from buf off len) (\<lambda>_.
       if utf8_valid (subslice off len buf) then Inr (PString (subslice off len buf), off + len)
       else Inl PackStreamInvalidUtf8)"

definition decode_bytes_body :: "bytes \<Rightarrow> nat \<Rightarrow> nat \<Rightarrow> protocol_error + packstream_value \<times> nat" where
  "decode_bytes_body buf off len =
     rbind (require_bytes_from buf off len) (\<lambda>_. Inr (PBytes (subslice off len buf), off + len))"

text \<open>\<open>decode_items\<close> and \<open>decode_pairs\<close> are the loops of \<^verbatim>\<open>decode_list_body\<close>,
  \<^verbatim>\<open>decode_struct_body\<close> and \<^verbatim>\<open>decode_dict_body\<close>.\<close>

function decode_at :: "bytes \<Rightarrow> nat \<Rightarrow> nat \<Rightarrow> protocol_error + packstream_value \<times> nat"
  and decode_list_body :: "bytes \<Rightarrow> nat \<Rightarrow> nat \<Rightarrow> nat \<Rightarrow> protocol_error + packstream_value \<times> nat"
  and decode_dict_body :: "bytes \<Rightarrow> nat \<Rightarrow> nat \<Rightarrow> nat \<Rightarrow> protocol_error + packstream_value \<times> nat"
  and decode_struct_body :: "bytes \<Rightarrow> nat \<Rightarrow> byte \<Rightarrow> nat \<Rightarrow> nat \<Rightarrow> protocol_error + packstream_value \<times> nat"
  and decode_items :: "bytes \<Rightarrow> nat \<Rightarrow> nat \<Rightarrow> nat \<Rightarrow> protocol_error + packstream_value list \<times> nat"
  and decode_pairs :: "bytes \<Rightarrow> nat \<Rightarrow> nat \<Rightarrow> nat \<Rightarrow> protocol_error + (bytes \<times> packstream_value) list \<times> nat" where
  "decode_at buf off depth =
     rbind (require_bytes_from buf off 1) (\<lambda>_.
       let marker = buf ! off; start = off + 1; m = unat marker; low = unat (marker AND 0x0F) in
       if m \<le> 0x7F then Inr (PInt (ucast marker), start)
       else if m \<le> 0x8F then decode_string_body buf start low
       else if m \<le> 0x9F then decode_list_body buf start low depth
       else if m \<le> 0xAF then decode_dict_body buf start low depth
       else if m \<le> 0xBF then
         rbind (require_bytes_from buf start 1) (\<lambda>_. decode_struct_body buf (start + 1) (buf ! start) low depth)
       else if marker = M_NULL then Inr (PNull, start)
       else if marker = FLOAT64 then rbind (read_be 8 buf start) (\<lambda>n. Inr (PFloat (word_of_nat n), start + 8))
       else if marker = BOOL_FALSE then Inr (PBool False, start)
       else if marker = BOOL_TRUE then Inr (PBool True, start)
       else if marker = INT8 \<or> marker = INT16 \<or> marker = INT32 \<or> marker = INT64 then decode_integer_at buf marker start
       else if marker = BYTES8 then rbind (read_be 1 buf start) (\<lambda>len. decode_bytes_body buf (start + 1) len)
       else if marker = BYTES16 then rbind (read_be 2 buf start) (\<lambda>len. decode_bytes_body buf (start + 2) len)
       else if marker = BYTES32 then rbind (read_be 4 buf start) (\<lambda>len. decode_bytes_body buf (start + 4) len)
       else if marker = STRING8 then rbind (read_be 1 buf start) (\<lambda>len. decode_string_body buf (start + 1) len)
       else if marker = STRING16 then rbind (read_be 2 buf start) (\<lambda>len. decode_string_body buf (start + 2) len)
       else if marker = STRING32 then rbind (read_be 4 buf start) (\<lambda>len. decode_string_body buf (start + 4) len)
       else if marker = LIST8 then rbind (read_be 1 buf start) (\<lambda>n. decode_list_body buf (start + 1) n depth)
       else if marker = LIST16 then rbind (read_be 2 buf start) (\<lambda>n. decode_list_body buf (start + 2) n depth)
       else if marker = LIST32 then rbind (read_be 4 buf start) (\<lambda>n. decode_list_body buf (start + 4) n depth)
       else if marker = DICT8 then rbind (read_be 1 buf start) (\<lambda>n. decode_dict_body buf (start + 1) n depth)
       else if marker = DICT16 then rbind (read_be 2 buf start) (\<lambda>n. decode_dict_body buf (start + 2) n depth)
       else if marker = DICT32 then rbind (read_be 4 buf start) (\<lambda>n. decode_dict_body buf (start + 4) n depth)
       else if 0xF0 \<le> m then Inr (PInt (scast marker), start)
       else Inl (PackStreamUnknownMarker marker))"
| "decode_list_body buf off count depth =
     (if depth \<ge> MAX_DECODE_DEPTH then Inl (PackStreamDepthLimitExceeded MAX_DECODE_DEPTH)
      else rbind (decode_items buf off count (depth + 1)) (\<lambda>(items, off). Inr (PList items, off)))"
| "decode_dict_body buf off count depth =
     (if depth \<ge> MAX_DECODE_DEPTH then Inl (PackStreamDepthLimitExceeded MAX_DECODE_DEPTH)
      else rbind (decode_pairs buf off count (depth + 1)) (\<lambda>(pairs, off). Inr (PDict pairs, off)))"
| "decode_struct_body buf off tag field_count depth =
     (if depth \<ge> MAX_DECODE_DEPTH then Inl (PackStreamDepthLimitExceeded MAX_DECODE_DEPTH)
      else rbind (decode_items buf off field_count (depth + 1)) (\<lambda>(fields, off). Inr (PStruct tag fields, off)))"
| "decode_items buf off count depth =
     (if count = 0 then Inr ([], off)
      else rbind (decode_at buf off depth) (\<lambda>(item, next).
           rbind (decode_items buf next (count - 1) depth) (\<lambda>(items, off). Inr (item # items, off))))"
| "decode_pairs buf off count depth =
     (if count = 0 then Inr ([], off)
      else rbind (decode_at buf off depth) (\<lambda>(key_val, next).
           case key_val of
             PString key \<Rightarrow>
               rbind (decode_at buf next depth) (\<lambda>(value, next2).
               rbind (decode_pairs buf next2 (count - 1) depth) (\<lambda>(pairs, off). Inr ((key, value) # pairs, off)))
           | _ \<Rightarrow> Inl PackStreamDictKeyNotString))"
  by pat_completeness auto
termination
  by (relation "measures [
      \<lambda>x. case x of Inl (Inl (_, _, d)) \<Rightarrow> 3 * (65 - d) + 1 | Inl (Inr (Inl (_, _, _, d))) \<Rightarrow> 3 * (65 - d)
        | Inl (Inr (Inr (_, _, _, d))) \<Rightarrow> 3 * (65 - d) | Inr (Inl (_, _, _, _, d)) \<Rightarrow> 3 * (65 - d)
        | Inr (Inr (Inl (_, _, _, d))) \<Rightarrow> 3 * (65 - d) + 2 | Inr (Inr (Inr (_, _, _, d))) \<Rightarrow> 3 * (65 - d) + 2,
      \<lambda>x. case x of Inr (Inr (Inl (_, _, n, _))) \<Rightarrow> n | Inr (Inr (Inr (_, _, n, _))) \<Rightarrow> n | _ \<Rightarrow> 0]")
    (simp_all add: MAX_DECODE_DEPTH_def)

definition require_bytes :: "bytes \<Rightarrow> nat \<Rightarrow> protocol_error + unit" where
  "require_bytes buf needed =
     (if length buf < needed then Inl (PackStreamUnderflow needed (length buf)) else Inr ())"

definition pdecode :: "bytes \<Rightarrow> protocol_error + packstream_value \<times> nat" where
  "pdecode buf = rbind (require_bytes buf 1) (\<lambda>_. decode_at buf 0 0)"

declare decode_at.simps [simp del] decode_list_body.simps [simp del] decode_dict_body.simps [simp del]
  decode_struct_body.simps [simp del] decode_items.simps [simp del] decode_pairs.simps [simp del]

section \<open>Well-formed values\<close>

text \<open>What a Rust value of the type satisfies, strings being UTF-8, and what the format can count.\<close>

fun psv_ok :: "packstream_value \<Rightarrow> bool" where
  "psv_ok (PString s) \<longleftrightarrow> utf8_valid s \<and> length s < 2 ^ 32"
| "psv_ok (PBytes b) \<longleftrightarrow> length b < 2 ^ 32"
| "psv_ok (PList vs) \<longleftrightarrow> length vs < 2 ^ 32 \<and> (\<forall>v\<in>set vs. psv_ok v)"
| "psv_ok (PDict ps) \<longleftrightarrow> length ps < 2 ^ 32 \<and> (\<forall>(k, v)\<in>set ps. utf8_valid k \<and> length k < 2 ^ 32 \<and> psv_ok v)"
| "psv_ok (PStruct t vs) \<longleftrightarrow> length vs \<le> 15 \<and> (\<forall>v\<in>set vs. psv_ok v)"
| "psv_ok _ = True"

text \<open>How deep the containers nest.\<close>

fun pdepth :: "packstream_value \<Rightarrow> nat" where
  "pdepth (PList vs) = Suc (Max (insert 0 (pdepth ` set vs)))"
| "pdepth (PDict ps) = Suc (Max (insert 0 ((\<lambda>(k, v). pdepth v) ` set ps)))"
| "pdepth (PStruct t vs) = Suc (Max (insert 0 (pdepth ` set vs)))"
| "pdepth _ = 0"

text \<open>How many values there are, keys included.\<close>

fun psize :: "packstream_value \<Rightarrow> nat" where
  "psize (PList vs) = Suc (sum_list (map psize vs))"
| "psize (PDict ps) = Suc (sum_list (map (\<lambda>(k, v). Suc (psize v)) ps))"
| "psize (PStruct t vs) = Suc (sum_list (map psize vs))"
| "psize _ = 1"


section \<open>Reading what was written\<close>

definition bytes_at :: "bytes \<Rightarrow> nat \<Rightarrow> bytes \<Rightarrow> bool" where
  "bytes_at buf off bs \<longleftrightarrow> off + length bs \<le> length buf \<and> subslice off (length bs) buf = bs"

lemma bytes_at_append:
  "bytes_at buf off (xs @ ys) \<longleftrightarrow> bytes_at buf off xs \<and> bytes_at buf (off + length xs) ys"
proof -
  have "subslice off (length xs + length ys) buf = subslice off (length xs) buf @ subslice (off + length xs) (length ys) buf"
    by (simp add: subslice_def take_add add.commute)
  then show ?thesis by (auto simp: bytes_at_def subslice_def)
qed

lemma bytes_at_Cons: "bytes_at buf off (x # xs) \<longleftrightarrow> off < length buf \<and> buf ! off = x \<and> bytes_at buf (off + 1) xs"
proof -
  have "bytes_at buf off [x] \<longleftrightarrow> off < length buf \<and> buf ! off = x"
    by (auto simp: bytes_at_def subslice_def take_Suc_conv_app_nth hd_drop_conv_nth take_Suc)
  then show ?thesis using bytes_at_append [of buf off "[x]" xs] by simp
qed

lemma bytes_at_0: "bytes_at (bs @ rest) 0 bs"
  by (simp add: bytes_at_def subslice_def)

lemma require_ok [simp]: "require_bytes_from buf off n = Inr u \<longleftrightarrow> n \<le> length buf - off"
  by (auto simp: require_bytes_from_def)

lemma require_at: "bytes_at buf off bs \<Longrightarrow> require_bytes_from buf off (length bs) = Inr ()"
  by (auto simp: bytes_at_def)

lemma read_be_at:
  assumes "bytes_at buf off (be_bytes k n)" "n < 256 ^ k"
  shows "read_be k buf off = Inr n"
proof -
  have "require_bytes_from buf off k = Inr ()" using require_at [OF assms(1)] by simp
  then show ?thesis using assms by (simp add: read_be_def bytes_at_def be_nat_be_bytes)
qed

lemma read_byte_at: "bytes_at buf off [b] \<Longrightarrow> read_be 1 buf off = Inr (unat b)"
  using read_be_at [of buf off 1 "unat b"] unsigned_less [of b] by (simp add: be_bytes_def)

lemma string_body_at:
  "bytes_at buf off s \<Longrightarrow> utf8_valid s \<Longrightarrow> decode_string_body buf off (length s) = Inr (PString s, off + length s)"
  using require_at by (simp add: decode_string_body_def bytes_at_def)

lemma bytes_body_at:
  "bytes_at buf off b \<Longrightarrow> decode_bytes_body buf off (length b) = Inr (PBytes b, off + length b)"
  using require_at by (simp add: decode_bytes_body_def bytes_at_def)

lemma read_len_at:
  "bytes_at buf off [word_of_nat n] \<Longrightarrow> n \<le> 0xFF \<Longrightarrow> read_be 1 buf off = Inr n"
  "bytes_at buf off (be_bytes 2 (unat (word_of_nat n :: u16))) \<Longrightarrow> n \<le> 0xFFFF \<Longrightarrow> read_be 2 buf off = Inr n"
  "bytes_at buf off (be_bytes 4 (unat (word_of_nat n :: u32))) \<Longrightarrow> n < 2 ^ 32 \<Longrightarrow> read_be 4 buf off = Inr n"
  using read_byte_at [of buf off "word_of_nat n"] read_be_at [of buf off 2 n] read_be_at [of buf off 4 n]
  by (simp_all add: unat_of_nat)

text \<open>What the decoder does at a known marker.\<close>

lemma at_marker:
  assumes "bytes_at buf off (x # xs)"
  shows "require_bytes_from buf off 1 = Inr ()" "buf ! off = x" "bytes_at buf (off + 1) xs"
  using assms by (auto simp: bytes_at_Cons)

lemma tiny_marker:
  assumes "n \<le> 15"
  shows "unat ((0x80 :: byte) OR word_of_nat n) = 0x80 + n" "unat (((0x80 :: byte) OR word_of_nat n) AND 0x0F) = n"
    "unat ((0x90 :: byte) OR word_of_nat n) = 0x90 + n" "unat (((0x90 :: byte) OR word_of_nat n) AND 0x0F) = n"
    "unat ((0xA0 :: byte) OR word_of_nat n) = 0xA0 + n" "unat (((0xA0 :: byte) OR word_of_nat n) AND 0x0F) = n"
    "unat ((0xB0 :: byte) OR word_of_nat n) = 0xB0 + n" "unat (((0xB0 :: byte) OR word_of_nat n) AND 0x0F) = n"
proof -
  have "list_all (\<lambda>b. list_all (\<lambda>n. unat (b OR word_of_nat n) = unat b + n \<and> unat ((b OR word_of_nat n) AND 0x0F) = n) [0..<16])
      [0x80, 0x90, 0xA0, 0xB0 :: byte]" by (simp add: upt_rec)
  moreover have "n \<in> set [0..<16]" using assms by simp
  ultimately have "unat (b OR word_of_nat n) = unat b + n \<and> unat ((b OR word_of_nat n) AND 0x0F) = n"
    if "b \<in> set [0x80, 0x90, 0xA0, 0xB0 :: byte]" for b using that unfolding list_all_iff by blast
  from this [of "0x80"] this [of "0x90"] this [of "0xA0"] this [of "0xB0"]
  show "unat ((0x80 :: byte) OR word_of_nat n) = 0x80 + n" "unat (((0x80 :: byte) OR word_of_nat n) AND 0x0F) = n"
    "unat ((0x90 :: byte) OR word_of_nat n) = 0x90 + n" "unat (((0x90 :: byte) OR word_of_nat n) AND 0x0F) = n"
    "unat ((0xA0 :: byte) OR word_of_nat n) = 0xA0 + n" "unat (((0xA0 :: byte) OR word_of_nat n) AND 0x0F) = n"
    "unat ((0xB0 :: byte) OR word_of_nat n) = 0xB0 + n" "unat (((0xB0 :: byte) OR word_of_nat n) AND 0x0F) = n"
    by simp_all
qed

lemma decode_at_tiny:
  assumes "n \<le> 15"
  shows "bytes_at buf off ((TINY_STRING_BASE OR word_of_nat n) # xs) \<Longrightarrow> decode_at buf off depth = decode_string_body buf (off + 1) n"
    "bytes_at buf off ((TINY_LIST_BASE OR word_of_nat n) # xs) \<Longrightarrow> decode_at buf off depth = decode_list_body buf (off + 1) n depth"
    "bytes_at buf off ((TINY_DICT_BASE OR word_of_nat n) # xs) \<Longrightarrow> decode_at buf off depth = decode_dict_body buf (off + 1) n depth"
    "bytes_at buf off ((TINY_STRUCT_BASE OR word_of_nat n) # tag # xs) \<Longrightarrow>
       decode_at buf off depth = decode_struct_body buf (off + 1 + 1) tag n depth"
  using assms tiny_marker [OF assms]
  by (simp_all only: decode_at.simps [of buf off] at_marker(1,2) at_marker(1,2) [OF at_marker(3)] rbind_simps Let_def
      TINY_STRING_BASE_def TINY_LIST_BASE_def TINY_DICT_BASE_def TINY_STRUCT_BASE_def)
    simp_all

lemma decode_at_marker:
  "bytes_at buf off (M_NULL # xs) \<Longrightarrow> decode_at buf off depth = Inr (PNull, off + 1)"
  "bytes_at buf off (BOOL_FALSE # xs) \<Longrightarrow> decode_at buf off depth = Inr (PBool False, off + 1)"
  "bytes_at buf off (BOOL_TRUE # xs) \<Longrightarrow> decode_at buf off depth = Inr (PBool True, off + 1)"
  "bytes_at buf off (FLOAT64 # xs) \<Longrightarrow> decode_at buf off depth = rbind (read_be 8 buf (off + 1)) (\<lambda>n. Inr (PFloat (word_of_nat n), off + 1 + 8))"
  "bytes_at buf off (INT8 # xs) \<Longrightarrow> decode_at buf off depth = decode_integer_at buf INT8 (off + 1)"
  "bytes_at buf off (INT16 # xs) \<Longrightarrow> decode_at buf off depth = decode_integer_at buf INT16 (off + 1)"
  "bytes_at buf off (INT32 # xs) \<Longrightarrow> decode_at buf off depth = decode_integer_at buf INT32 (off + 1)"
  "bytes_at buf off (INT64 # xs) \<Longrightarrow> decode_at buf off depth = decode_integer_at buf INT64 (off + 1)"
  "bytes_at buf off (BYTES8 # xs) \<Longrightarrow> decode_at buf off depth = rbind (read_be 1 buf (off + 1)) (\<lambda>n. decode_bytes_body buf (off + 1 + 1) n)"
  "bytes_at buf off (BYTES16 # xs) \<Longrightarrow> decode_at buf off depth = rbind (read_be 2 buf (off + 1)) (\<lambda>n. decode_bytes_body buf (off + 1 + 2) n)"
  "bytes_at buf off (BYTES32 # xs) \<Longrightarrow> decode_at buf off depth = rbind (read_be 4 buf (off + 1)) (\<lambda>n. decode_bytes_body buf (off + 1 + 4) n)"
  "bytes_at buf off (STRING8 # xs) \<Longrightarrow> decode_at buf off depth = rbind (read_be 1 buf (off + 1)) (\<lambda>n. decode_string_body buf (off + 1 + 1) n)"
  "bytes_at buf off (STRING16 # xs) \<Longrightarrow> decode_at buf off depth = rbind (read_be 2 buf (off + 1)) (\<lambda>n. decode_string_body buf (off + 1 + 2) n)"
  "bytes_at buf off (STRING32 # xs) \<Longrightarrow> decode_at buf off depth = rbind (read_be 4 buf (off + 1)) (\<lambda>n. decode_string_body buf (off + 1 + 4) n)"
  "bytes_at buf off (LIST8 # xs) \<Longrightarrow> decode_at buf off depth = rbind (read_be 1 buf (off + 1)) (\<lambda>n. decode_list_body buf (off + 1 + 1) n depth)"
  "bytes_at buf off (LIST16 # xs) \<Longrightarrow> decode_at buf off depth = rbind (read_be 2 buf (off + 1)) (\<lambda>n. decode_list_body buf (off + 1 + 2) n depth)"
  "bytes_at buf off (LIST32 # xs) \<Longrightarrow> decode_at buf off depth = rbind (read_be 4 buf (off + 1)) (\<lambda>n. decode_list_body buf (off + 1 + 4) n depth)"
  "bytes_at buf off (DICT8 # xs) \<Longrightarrow> decode_at buf off depth = rbind (read_be 1 buf (off + 1)) (\<lambda>n. decode_dict_body buf (off + 1 + 1) n depth)"
  "bytes_at buf off (DICT16 # xs) \<Longrightarrow> decode_at buf off depth = rbind (read_be 2 buf (off + 1)) (\<lambda>n. decode_dict_body buf (off + 1 + 2) n depth)"
  "bytes_at buf off (DICT32 # xs) \<Longrightarrow> decode_at buf off depth = rbind (read_be 4 buf (off + 1)) (\<lambda>n. decode_dict_body buf (off + 1 + 4) n depth)"
  by (simp_all only: decode_at.simps [of buf off] at_marker rbind_simps Let_def) (simp_all add: markers)

text \<open>A size header sends the decoder to the body of its kind.\<close>

lemma decode_sized_header:
  assumes "n < 2 ^ 32"
  shows "bytes_at buf off (encode_sized_header n TINY_STRING_BASE STRING8 STRING16 STRING32) \<Longrightarrow>
      decode_at buf off depth =
        decode_string_body buf (off + length (encode_sized_header n TINY_STRING_BASE STRING8 STRING16 STRING32)) n"
    and "bytes_at buf off (encode_sized_header n TINY_LIST_BASE LIST8 LIST16 LIST32) \<Longrightarrow>
      decode_at buf off depth =
        decode_list_body buf (off + length (encode_sized_header n TINY_LIST_BASE LIST8 LIST16 LIST32)) n depth"
    and "bytes_at buf off (encode_sized_header n TINY_DICT_BASE DICT8 DICT16 DICT32) \<Longrightarrow>
      decode_at buf off depth =
        decode_dict_body buf (off + length (encode_sized_header n TINY_DICT_BASE DICT8 DICT16 DICT32)) n depth"
proof -
  have r: "read_be (Suc 0) buf (Suc off) = Inr n" if "bytes_at buf off [m, word_of_nat n]" "n \<le> 255" for m
    using read_len_at(1) [OF at_marker(3)] that by simp
  have r2: "read_be 2 buf (Suc off) = Inr n" if "bytes_at buf off (m # be_bytes 2 (unat (word_of_nat n :: u16)))" "n \<le> 65535" for m
    using read_len_at(2) [OF at_marker(3)] that by simp
  have r4: "read_be 4 buf (Suc off) = Inr n" if "bytes_at buf off (m # be_bytes 4 (unat (word_of_nat n :: u32)))" for m
    using read_len_at(3) [OF at_marker(3)] that assms by simp
  note d = decode_at_tiny [of n] decode_at_marker r r2 r4 assms numeral_3_eq_3 add.commute [of off 5]
  consider "n \<le> 15" | "15 < n" "n \<le> 255" | "255 < n" "n \<le> 65535" | "65535 < n" by linarith
  then have "(bytes_at buf off (encode_sized_header n TINY_STRING_BASE STRING8 STRING16 STRING32) \<longrightarrow>
      decode_at buf off depth =
        decode_string_body buf (off + length (encode_sized_header n TINY_STRING_BASE STRING8 STRING16 STRING32)) n) \<and>
    (bytes_at buf off (encode_sized_header n TINY_LIST_BASE LIST8 LIST16 LIST32) \<longrightarrow>
      decode_at buf off depth =
        decode_list_body buf (off + length (encode_sized_header n TINY_LIST_BASE LIST8 LIST16 LIST32)) n depth) \<and>
    (bytes_at buf off (encode_sized_header n TINY_DICT_BASE DICT8 DICT16 DICT32) \<longrightarrow>
      decode_at buf off depth =
        decode_dict_body buf (off + length (encode_sized_header n TINY_DICT_BASE DICT8 DICT16 DICT32)) n depth)"
    by cases (simp_all add: encode_sized_header_def d)
  then show "bytes_at buf off (encode_sized_header n TINY_STRING_BASE STRING8 STRING16 STRING32) \<Longrightarrow>
      decode_at buf off depth =
        decode_string_body buf (off + length (encode_sized_header n TINY_STRING_BASE STRING8 STRING16 STRING32)) n"
    and "bytes_at buf off (encode_sized_header n TINY_LIST_BASE LIST8 LIST16 LIST32) \<Longrightarrow>
      decode_at buf off depth =
        decode_list_body buf (off + length (encode_sized_header n TINY_LIST_BASE LIST8 LIST16 LIST32)) n depth"
    and "bytes_at buf off (encode_sized_header n TINY_DICT_BASE DICT8 DICT16 DICT32) \<Longrightarrow>
      decode_at buf off depth =
        decode_dict_body buf (off + length (encode_sized_header n TINY_DICT_BASE DICT8 DICT16 DICT32)) n depth"
    by blast+
qed

lemma sign_extend:
  fixes i :: u64
  assumes "LENGTH('a::len) \<le> 64" "- (2 ^ (LENGTH('a) - 1)) \<le> sint i" "sint i < 2 ^ (LENGTH('a) - 1)"
  shows "scast (ucast i :: 'a word) = i"
proof -
  have "LENGTH('a) - 1 \<le> 63" using assms(1) by simp
  then have "sint (ucast i :: 'a word) = signed_take_bit (LENGTH('a) - 1) (sint i)"
    by (simp add: sint_uint [of i] signed_take_bit_signed_take_bit min_def) (simp add: signed_ucast_eq)
  also have "\<dots> = sint i" using assms(2,3) by (simp add: signed_take_bit_int_eq_self)
  finally show ?thesis by (simp add: scast_eq)
qed

lemma decode_at_tiny_int:
  "bytes_at buf off (m # xs) \<Longrightarrow> unat m \<le> 127 \<Longrightarrow> decode_at buf off depth = Inr (PInt (ucast m), off + 1)"
  "bytes_at buf off (m # xs) \<Longrightarrow> 240 \<le> unat m \<Longrightarrow> decode_at buf off depth = Inr (PInt (scast m), off + 1)"
  by (simp_all only: decode_at.simps [of buf off] at_marker(1,2) rbind_simps Let_def) (auto simp: markers)

lemma tiny_int_marker:
  fixes i :: u64
  shows "-16 \<le> sint i \<Longrightarrow> sint i < 0 \<Longrightarrow> 240 \<le> unat (ucast i :: byte)"
    and "0 \<le> sint i \<Longrightarrow> sint i \<le> 127 \<Longrightarrow> unat (ucast i :: byte) \<le> 127 \<and> ucast (ucast i :: byte) = i"
proof -
  have u: "uint (ucast i :: byte) = sint i mod 256"
    by (simp add: unsigned_ucast_eq sint_uint take_bit_signed_take_bit flip: take_bit_eq_mod [of 8, simplified])
  have n: "int (unat (ucast i :: byte)) = uint (ucast i :: byte)" by (rule of_nat_unat)
  show "240 \<le> unat (ucast i :: byte)" if "-16 \<le> sint i" "sint i < 0"
  proof -
    have "sint i mod 256 = (sint i + 256) mod 256" by simp
    also have "\<dots> = sint i + 256" using that by (intro mod_pos_pos_trivial) linarith+
    finally have "uint (ucast i :: byte) = sint i + 256" by (rule trans [OF u])
    then have "240 \<le> uint (ucast i :: byte)" using that(1) by linarith
    then show ?thesis using n by linarith
  qed
  show "unat (ucast i :: byte) \<le> 127 \<and> ucast (ucast i :: byte) = i" if "0 \<le> sint i" "sint i \<le> 127"
  proof -
    have m: "uint (ucast i :: byte) = sint i" using that u by simp
    then have "ucast (ucast i :: byte) = (word_of_int (sint i) :: u64)" by (simp only: ucast_eq [of "ucast i :: byte"])
    moreover have "unat (ucast i :: byte) \<le> 127" using n m that(2) by linarith
    ultimately show ?thesis by simp
  qed
qed

lemma int_at:
  assumes "bytes_at buf off (encode_int i)"
  shows "decode_at buf off depth = Inr (PInt i, off + length (encode_int i))"
proof -
  consider "-16 \<le> sint i" "sint i < 0" | "0 \<le> sint i" "sint i \<le> 127" | "-128 \<le> sint i" "sint i < -16"
    | "\<not> (-128 \<le> sint i \<and> sint i \<le> 127)" "-32768 \<le> sint i" "sint i \<le> 32767"
    | "\<not> (-32768 \<le> sint i \<and> sint i \<le> 32767)" "-2147483648 \<le> sint i" "sint i \<le> 2147483647"
    | "\<not> (-2147483648 \<le> sint i \<and> sint i \<le> 2147483647)" by linarith
  then show ?thesis
  proof cases
    case 1
    then have "encode_int i = [ucast i]" by (simp add: encode_int_def)
    then show ?thesis using assms decode_at_tiny_int(2) [of buf off "ucast i"] tiny_int_marker(1) 1 by (simp add: sign_extend)
  next
    case 2
    then have "encode_int i = [ucast i]" by (simp add: encode_int_def)
    then show ?thesis using assms decode_at_tiny_int(1) [of buf off "ucast i"] tiny_int_marker(2) 2 by simp
  next
    case 3
    then have e: "encode_int i = [INT8, ucast i]" by (simp add: encode_int_def)
    show ?thesis using assms 3 read_byte_at [OF at_marker(3), of buf off INT8 "ucast i"]
      by (simp add: e decode_at_marker decode_integer_at_def sign_extend del: One_nat_def)
  next
    case 4
    then have e: "encode_int i = INT16 # be_bytes 2 (unat (ucast i :: u16))" by (auto simp: encode_int_def)
    show ?thesis using assms 4 read_be_at [OF at_marker(3), of buf off INT16 2 "unat (ucast i :: u16)"] unat_bound [of "ucast i :: u16"]
      by (simp add: e decode_at_marker decode_integer_at_def sign_extend markers del: One_nat_def)
  next
    case 5
    then have e: "encode_int i = INT32 # be_bytes 4 (unat (ucast i :: u32))" by (auto simp: encode_int_def)
    show ?thesis using assms 5 read_be_at [OF at_marker(3), of buf off INT32 4 "unat (ucast i :: u32)"] unat_bound [of "ucast i :: u32"]
      by (simp add: e decode_at_marker decode_integer_at_def sign_extend markers del: One_nat_def)
  next
    case 6
    then have e: "encode_int i = INT64 # be_bytes 8 (unat i)" by (auto simp: encode_int_def)
    show ?thesis using assms 6 read_be_at [OF at_marker(3), of buf off INT64 8 "unat i"] unat_bound [of i]
      by (simp add: e decode_at_marker decode_integer_at_def markers del: One_nat_def)
  qed
qed

lemma encode_string_at:
  assumes "bytes_at buf off (encode_string k)" "utf8_valid k" "length k < 2 ^ 32"
  shows "decode_at buf off depth = Inr (PString k, off + length (encode_string k))"
  using assms string_body_at by (simp add: encode_string_def bytes_at_append decode_sized_header(1))

lemma encode_bytes_at:
  assumes "bytes_at buf off (encode_bytes b)" "length b < 2 ^ 32"
  shows "decode_at buf off depth = Inr (PBytes b, off + length (encode_bytes b))"
proof -
  let ?n = "length b"
  consider "?n \<le> 255" | "255 < ?n" "?n \<le> 65535" | "65535 < ?n" by linarith
  then show ?thesis
  proof cases
    case 1
    then have e: "encode_bytes b = [BYTES8, word_of_nat ?n] @ b" by (simp add: encode_bytes_def Let_def)
    have at: "bytes_at buf off [BYTES8, word_of_nat ?n]" "bytes_at buf (off + 2) b"
      using assms(1) unfolding e bytes_at_append by simp_all
    then show ?thesis using bytes_body_at [OF at(2)] read_len_at(1) [OF at_marker(3) [OF at(1)] 1] e
      by (simp add: decode_at_marker(9))
  next
    case 2
    then have e: "encode_bytes b = (BYTES16 # be_bytes 2 (unat (word_of_nat ?n :: u16))) @ b" by (simp add: encode_bytes_def Let_def)
    have at: "bytes_at buf off (BYTES16 # be_bytes 2 (unat (word_of_nat ?n :: u16)))" "bytes_at buf (off + 3) b"
      using assms(1) unfolding e bytes_at_append by simp_all
    then show ?thesis using bytes_body_at [OF at(2)] read_len_at(2) [OF at_marker(3) [OF at(1)] 2(2)] e
      by (simp add: decode_at_marker(10) numeral_3_eq_3)
  next
    case 3
    then have e: "encode_bytes b = (BYTES32 # be_bytes 4 (unat (word_of_nat ?n :: u32))) @ b" by (simp add: encode_bytes_def Let_def)
    have at: "bytes_at buf off (BYTES32 # be_bytes 4 (unat (word_of_nat ?n :: u32)))" "bytes_at buf (off + 5) b"
      using assms(1) unfolding e bytes_at_append by simp_all
    then show ?thesis using bytes_body_at [OF at(2)] read_len_at(3) [OF at_marker(3) [OF at(1)] assms(2)] e
      by (simp add: decode_at_marker(11) add.commute [of off 5])
  qed
qed

lemma float_at: "bytes_at buf off (FLOAT64 # be_bytes 8 (unat f)) \<Longrightarrow> decode_at buf off depth = Inr (PFloat f, off + 9)"
  using read_be_at [OF at_marker(3), of buf off FLOAT64 8 "unat f"] unat_bound [of f] by (simp add: decode_at_marker(4))

definition fits :: "nat \<Rightarrow> packstream_value \<Rightarrow> bool" where
  "fits depth v \<longleftrightarrow> pdepth v + depth \<le> MAX_DECODE_DEPTH"

lemma Max_insert_le: "finite S \<Longrightarrow> Suc (Max (insert 0 S) + c) \<le> m \<longleftrightarrow> c < m \<and> (\<forall>x\<in>S. Suc (x + c) \<le> (m :: nat))"
  using Max_le_iff [of "insert 0 S" "m - Suc c"] by (cases "c < m") (auto simp: le_diff_conv2)

lemma fits_simps [simp]:
  "fits depth (PList vs) \<longleftrightarrow> depth < MAX_DECODE_DEPTH \<and> (\<forall>v\<in>set vs. fits (depth + 1) v)"
  "fits depth (PDict ps) \<longleftrightarrow> depth < MAX_DECODE_DEPTH \<and> (\<forall>(k, v)\<in>set ps. fits (depth + 1) v)"
  "fits depth (PStruct t vs) \<longleftrightarrow> depth < MAX_DECODE_DEPTH \<and> (\<forall>v\<in>set vs. fits (depth + 1) v)"
  by (auto simp: fits_def Max_insert_le)

lemma fits_flat [simp]:
  "depth \<le> MAX_DECODE_DEPTH \<Longrightarrow> pdepth v = 0 \<Longrightarrow> fits depth v"
  by (simp add: fits_def)

lemma decode_pencode:
  "pencode v = Inr bs \<Longrightarrow> psv_ok v \<Longrightarrow> depth \<le> MAX_DECODE_DEPTH \<Longrightarrow> bytes_at buf off bs \<Longrightarrow>
     decode_at buf off depth =
       (if fits depth v then Inr (v, off + length bs) else Inl (PackStreamDepthLimitExceeded MAX_DECODE_DEPTH))"
  "encode_items vs = Inr bs \<Longrightarrow> \<forall>v\<in>set vs. psv_ok v \<Longrightarrow> depth \<le> MAX_DECODE_DEPTH \<Longrightarrow> bytes_at buf off bs \<Longrightarrow>
     decode_items buf off (length vs) depth =
       (if \<forall>v\<in>set vs. fits depth v then Inr (vs, off + length bs) else Inl (PackStreamDepthLimitExceeded MAX_DECODE_DEPTH))"
  "encode_pairs ps = Inr bs \<Longrightarrow> \<forall>(k, v)\<in>set ps. utf8_valid k \<and> length k < 2 ^ 32 \<and> psv_ok v \<Longrightarrow> depth \<le> MAX_DECODE_DEPTH \<Longrightarrow>
     bytes_at buf off bs \<Longrightarrow> decode_pairs buf off (length ps) depth =
       (if \<forall>(k, v)\<in>set ps. fits depth v then Inr (ps, off + length bs) else Inl (PackStreamDepthLimitExceeded MAX_DECODE_DEPTH))"
proof (induction v and vs and ps arbitrary: bs off depth and bs off depth and bs off depth rule: pencode_encode_items_encode_pairs.induct)
  case (7 items)
  let ?h = "encode_sized_header (length items) TINY_LIST_BASE LIST8 LIST16 LIST32"
  obtain cs where cs: "encode_items items = Inr cs" "bs = ?h @ cs" using 7(2) by (auto simp: append_after_def)
  have "decode_at buf off depth = decode_list_body buf (off + length ?h) (length items) depth"
    using 7(3,5) cs(2) by (intro decode_sized_header(2)) (simp_all add: bytes_at_append)
  then show ?case
    using 7(1) [OF cs(1), of "depth + 1" "off + length ?h"] 7(3,5) cs(2)
    by (auto simp: decode_list_body.simps bytes_at_append)
next
  case (8 pairs)
  let ?h = "encode_sized_header (length pairs) TINY_DICT_BASE DICT8 DICT16 DICT32"
  obtain cs where cs: "encode_pairs pairs = Inr cs" "bs = ?h @ cs" using 8(2) by (auto simp: append_after_def)
  have "decode_at buf off depth = decode_dict_body buf (off + length ?h) (length pairs) depth"
    using 8(3,5) cs(2) by (intro decode_sized_header(3)) (simp_all add: bytes_at_append)
  then show ?case
    using 8(1) [OF cs(1), of "depth + 1" "off + length ?h"] 8(3,5) cs(2)
    by (simp add: decode_dict_body.simps bytes_at_append)
next
  case (9 tag fields)
  let ?h = "[TINY_STRUCT_BASE OR word_of_nat (length fields), tag]"
  obtain cs where cs: "encode_items fields = Inr cs" "bs = ?h @ cs" using 9(2,3) by (auto simp: append_after_def)
  have "decode_at buf off depth = decode_struct_body buf (off + 1 + 1) tag (length fields) depth"
    using 9(3,5) cs(2) by (intro decode_at_tiny(4)) (simp_all add: bytes_at_append)
  then show ?case
    using 9(1) [OF cs(1), of "depth + 1" "off + length ?h"] 9(3,5) cs(2)
    by (simp add: decode_struct_body.simps bytes_at_append del: append.simps)
next
  case (11 v vs)
  then obtain b1 b2 where b: "pencode v = Inr b1" "encode_items vs = Inr b2" "bs = b1 @ b2" by (auto simp: append_after_def)
  have "decode_at buf off depth =
       (if fits depth v then Inr (v, off + length b1) else Inl (PackStreamDepthLimitExceeded MAX_DECODE_DEPTH))"
    using 11(1) [OF b(1), of depth off] 11(4-6) b(3) by (simp add: bytes_at_append)
  moreover have "decode_items buf (off + length b1) (length vs) depth =
       (if \<forall>v\<in>set vs. fits depth v then Inr (vs, off + length b1 + length b2) else Inl (PackStreamDepthLimitExceeded MAX_DECODE_DEPTH))"
    using 11(2) [OF b(1,2), of depth "off + length b1"] 11(4-6) b(3) by (simp add: bytes_at_append)
  ultimately show ?case using b(3) by (simp add: decode_items.simps [of buf off])
next
  case (13 k v ps)
  then obtain b1 b2 where b: "pencode v = Inr b1" "encode_pairs ps = Inr b2" "bs = encode_string k @ b1 @ b2" by (auto simp: append_after_def)
  let ?o = "off + length (encode_string k)"
  have "decode_at buf off depth = Inr (PString k, ?o)"
    using 13(4,6) b(3) by (intro encode_string_at) (simp_all add: bytes_at_append)
  moreover have "decode_at buf ?o depth =
       (if fits depth v then Inr (v, ?o + length b1) else Inl (PackStreamDepthLimitExceeded MAX_DECODE_DEPTH))"
    using 13(1) [OF b(1), of depth ?o] 13(4-6) b(3) by (simp add: bytes_at_append)
  moreover have "decode_pairs buf (?o + length b1) (length ps) depth =
       (if \<forall>(k, v)\<in>set ps. fits depth v then Inr (ps, ?o + length b1 + length b2) else Inl (PackStreamDepthLimitExceeded MAX_DECODE_DEPTH))"
    using 13(2) [OF b(1,2), of depth "?o + length b1"] 13(4-6) b(3) by (simp add: bytes_at_append)
  ultimately show ?case using b(3) by (simp add: decode_pairs.simps [of buf off] add.assoc)
qed (auto simp: decode_at_marker(1-3) float_at int_at encode_string_at encode_bytes_at decode_items.simps [of _ _ 0] decode_pairs.simps [of _ _ 0]
    split: if_splits)


fun floats_finite :: "packstream_value \<Rightarrow> bool" where
  "floats_finite (PFloat f) \<longleftrightarrow> \<not> float_not_finite f"
| "floats_finite (PList vs) \<longleftrightarrow> (\<forall>v\<in>set vs. floats_finite v)"
| "floats_finite (PDict ps) \<longleftrightarrow> (\<forall>(k, v)\<in>set ps. floats_finite v)"
| "floats_finite (PStruct t vs) \<longleftrightarrow> (\<forall>v\<in>set vs. floats_finite v)"
| "floats_finite _ = True"

lemma pencode_total:
  "if floats_finite v then \<exists>bs. pencode v = Inr bs else pencode v = Inl PackStreamInvalidFloat"
  "if \<forall>v\<in>set vs. floats_finite v then \<exists>bs. encode_items vs = Inr bs else encode_items vs = Inl PackStreamInvalidFloat"
  "if \<forall>(k, v)\<in>set ps. floats_finite v then \<exists>bs. encode_pairs ps = Inr bs else encode_pairs ps = Inl PackStreamInvalidFloat"
  by (induction v and vs and ps rule: pencode_encode_items_encode_pairs.induct)
    (auto simp: append_after_def rbind_def split: if_splits sum.splits)

section \<open>The decoder stays inside its buffer\<close>

lemma read_be_Inr: "read_be k buf off = Inr n \<longleftrightarrow> k \<le> length buf - off \<and> n = be_nat (subslice off k buf)"
  by (auto simp: read_be_def)

lemma bodies_sound:
  "decode_string_body buf off n = Inr (v, next) \<Longrightarrow> off \<le> length buf \<Longrightarrow>
     next = off + n \<and> next \<le> length buf \<and> v = PString (subslice off n buf) \<and> utf8_valid (subslice off n buf)"
  "decode_bytes_body buf off n = Inr (v, next) \<Longrightarrow> off \<le> length buf \<Longrightarrow> next = off + n \<and> next \<le> length buf \<and> v = PBytes (subslice off n buf)"
  "decode_integer_at buf marker off = Inr (v, next) \<Longrightarrow> off \<le> length buf \<Longrightarrow> off < next \<and> next \<le> length buf \<and> (\<exists>i. v = PInt i)"
  by (auto simp: decode_string_body_def decode_bytes_body_def decode_integer_at_def read_be_Inr split: if_splits)

lemma be_nat_short: "k \<le> 4 \<Longrightarrow> be_nat (subslice off k buf) < 2 ^ 32"
proof -
  assume k: "k \<le> 4"
  have "be_nat (subslice off k buf) < 256 ^ length (subslice off k buf)" by (rule be_nat_less)
  also have "\<dots> \<le> (256 :: nat) ^ 4" using k by (intro power_increasing) auto
  finally show ?thesis by simp
qed

lemma low_le: "unat (m AND 0x0F) \<le> 15" for m :: byte
  using word_and_le1 [of m "0x0F"] by (simp add: word_le_nat_alt)

text \<open>Where a successful decode ended: at a flat value or in one of the container bodies.\<close>

definition decoded :: "bytes \<Rightarrow> nat \<Rightarrow> nat \<Rightarrow> protocol_error + packstream_value \<times> nat \<Rightarrow> bool" where
  "decoded buf off depth r \<longleftrightarrow> (\<forall>v nxt. r = Inr (v, nxt) \<longrightarrow>
     off < nxt \<and> nxt \<le> length buf \<and> psv_ok v \<and> pdepth v = 0 \<and> psize v = 1 \<or>
     (\<exists>o' n. off < o' \<and> o' \<le> length buf \<and>
       (n < 2 ^ 32 \<and> (decode_list_body buf o' n depth = r \<or> decode_dict_body buf o' n depth = r) \<or>
        n \<le> 15 \<and> (\<exists>tag. decode_struct_body buf o' tag n depth = r))))"

lemma decoded_split:
  "decoded buf off depth a \<Longrightarrow> decoded buf off depth b \<Longrightarrow> decoded buf off depth (if c then a else b)"
  "(\<And>x. m = Inr x \<Longrightarrow> decoded buf off depth (f x)) \<Longrightarrow> decoded buf off depth (rbind m f)"
  "decoded buf off depth (Inl e)"
  by (auto simp: decoded_def)

lemma decoded_leaf:
  "off < nxt \<Longrightarrow> nxt \<le> length buf \<Longrightarrow> psv_ok v \<Longrightarrow> pdepth v = 0 \<Longrightarrow> psize v = 1 \<Longrightarrow> decoded buf off depth (Inr (v, nxt))"
  "off < o' \<Longrightarrow> o' \<le> length buf \<Longrightarrow> n < 2 ^ 32 \<Longrightarrow> decoded buf off depth (decode_list_body buf o' n depth)"
  "off < o' \<Longrightarrow> o' \<le> length buf \<Longrightarrow> n < 2 ^ 32 \<Longrightarrow> decoded buf off depth (decode_dict_body buf o' n depth)"
  "off < o' \<Longrightarrow> o' \<le> length buf \<Longrightarrow> n \<le> 15 \<Longrightarrow> decoded buf off depth (decode_struct_body buf o' tag n depth)"
  "off < o' \<Longrightarrow> o' \<le> length buf \<Longrightarrow> n < 2 ^ 32 \<Longrightarrow> decoded buf off depth (decode_string_body buf o' n)"
  "off < o' \<Longrightarrow> o' \<le> length buf \<Longrightarrow> n < 2 ^ 32 \<Longrightarrow> decoded buf off depth (decode_bytes_body buf o' n)"
  "off < o' \<Longrightarrow> o' \<le> length buf \<Longrightarrow> decoded buf off depth (decode_integer_at buf m o')"
proof -
  show "off < nxt \<Longrightarrow> nxt \<le> length buf \<Longrightarrow> psv_ok v \<Longrightarrow> pdepth v = 0 \<Longrightarrow> psize v = 1 \<Longrightarrow> decoded buf off depth (Inr (v, nxt))"
    by (simp add: decoded_def)
  show "off < o' \<Longrightarrow> o' \<le> length buf \<Longrightarrow> n < 2 ^ 32 \<Longrightarrow> decoded buf off depth (decode_list_body buf o' n depth)"
    "off < o' \<Longrightarrow> o' \<le> length buf \<Longrightarrow> n < 2 ^ 32 \<Longrightarrow> decoded buf off depth (decode_dict_body buf o' n depth)"
    "off < o' \<Longrightarrow> o' \<le> length buf \<Longrightarrow> n \<le> 15 \<Longrightarrow> decoded buf off depth (decode_struct_body buf o' tag n depth)"
    unfolding decoded_def by blast+
  show "off < o' \<Longrightarrow> o' \<le> length buf \<Longrightarrow> n < 2 ^ 32 \<Longrightarrow> decoded buf off depth (decode_string_body buf o' n)"
    unfolding decoded_def by (auto dest!: bodies_sound(1))
  show "off < o' \<Longrightarrow> o' \<le> length buf \<Longrightarrow> n < 2 ^ 32 \<Longrightarrow> decoded buf off depth (decode_bytes_body buf o' n)"
    unfolding decoded_def by (auto dest!: bodies_sound(2))
  show "off < o' \<Longrightarrow> o' \<le> length buf \<Longrightarrow> decoded buf off depth (decode_integer_at buf m o')"
    unfolding decoded_def by (auto dest!: bodies_sound(3))
qed

lemma decode_at_decoded: "decoded buf off depth (decode_at buf off depth)"
proof -
  have len: "off + 1 \<le> length buf" if "require_bytes_from buf off 1 = Inr u" for u
    using that by auto
  have low: "unat ((buf ! off) AND 0x0F) < 4294967296" using low_le [of "buf ! off"] by simp
  show ?thesis unfolding decode_at.simps [of buf off] Let_def
    by (intro decoded_split decoded_leaf; (drule len)?; auto simp: low low_le read_be_Inr be_nat_short [simplified])
qed

definition sound_at :: "bytes \<Rightarrow> nat \<Rightarrow> bool" where
  "sound_at buf depth \<longleftrightarrow> (\<forall>off v nxt. decode_at buf off depth = Inr (v, nxt) \<longrightarrow>
     off < nxt \<and> nxt \<le> length buf \<and> psv_ok v \<and> fits depth v \<and> off + psize v \<le> nxt)"

lemma sound_atD:
  assumes "sound_at buf depth" "decode_at buf off depth = Inr (v, nxt)"
  shows "off < nxt" "nxt \<le> length buf" "psv_ok v" "fits depth v" "off + psize v \<le> nxt"
  using assms unfolding sound_at_def by blast+

lemma items_sound:
  assumes "sound_at buf depth" "decode_items buf off n depth = Inr (vs, nxt)" "off \<le> length buf"
  shows "nxt \<le> length buf \<and> length vs = n \<and> (\<forall>v\<in>set vs. psv_ok v \<and> fits depth v) \<and> off + sum_list (map psize vs) \<le> nxt"
  using assms(2,3)
proof (induction n arbitrary: off vs)
  case 0
  then show ?case by (simp add: decode_items.simps)
next
  case (Suc n)
  then obtain v o2 ws where r: "decode_at buf off depth = Inr (v, o2)" "decode_items buf o2 n depth = Inr (ws, nxt)" "vs = v # ws"
    by (auto simp: decode_items.simps [of buf off])
  note d = sound_atD [OF assms(1) r(1)]
  from Suc.IH [OF r(2) d(2)] d r(3) show ?case by auto
qed

lemma pairs_sound:
  assumes "sound_at buf depth" "decode_pairs buf off n depth = Inr (ps, nxt)" "off \<le> length buf"
  shows "nxt \<le> length buf \<and> length ps = n \<and> (\<forall>(k, v)\<in>set ps. utf8_valid k \<and> length k < 2 ^ 32 \<and> psv_ok v \<and> fits depth v) \<and>
    off + sum_list (map (\<lambda>(k, v). Suc (psize v)) ps) \<le> nxt"
  using assms(2,3)
proof (induction n arbitrary: off ps)
  case 0
  then show ?case by (simp add: decode_pairs.simps)
next
  case (Suc n)
  then obtain k o2 v o3 ws where r: "decode_at buf off depth = Inr (PString k, o2)" "decode_at buf o2 depth = Inr (v, o3)"
      "decode_pairs buf o3 n depth = Inr (ws, nxt)" "ps = (k, v) # ws"
  proof -
    obtain kv o2 where kv: "decode_at buf off depth = Inr (kv, o2)" using Suc.prems(1) by (auto simp: decode_pairs.simps [of buf off])
    with Suc.prems(1) show thesis by (cases kv) (auto simp: decode_pairs.simps [of buf off] intro: that)
  qed
  note d = sound_atD [OF assms(1) r(1)] sound_atD [OF assms(1) r(2)]
  from Suc.IH [OF r(3) d(7)] d r(4) show ?case by auto
qed

lemma decode_sound: "depth \<le> MAX_DECODE_DEPTH \<Longrightarrow> sound_at buf depth"
proof (induction "MAX_DECODE_DEPTH - depth" arbitrary: depth rule: less_induct)
  case less
  have "off < nxt \<and> nxt \<le> length buf \<and> psv_ok v \<and> fits depth v \<and> off + psize v \<le> nxt"
    if at: "decode_at buf off depth = Inr (v, nxt)" for off v nxt
  proof -
    have inner: "sound_at buf (depth + 1)" if "depth < MAX_DECODE_DEPTH" using less(1) [of "depth + 1"] that by simp
    consider "off < nxt \<and> nxt \<le> length buf \<and> psv_ok v \<and> pdepth v = 0 \<and> psize v = 1"
      | o' n where "off < o'" "o' \<le> length buf" "n < 2 ^ 32" "decode_list_body buf o' n depth = Inr (v, nxt)"
      | o' n where "off < o'" "o' \<le> length buf" "n < 2 ^ 32" "decode_dict_body buf o' n depth = Inr (v, nxt)"
      | o' n tag where "off < o'" "o' \<le> length buf" "n \<le> 15" "decode_struct_body buf o' tag n depth = Inr (v, nxt)"
      using decode_at_decoded [of buf off depth] at unfolding decoded_def by metis
    then show ?thesis
    proof cases
      case 1
      then show ?thesis using less(2) by simp
    next
      case 2
      then show ?thesis using items_sound [OF inner, of o' n]
        by (auto simp: decode_list_body.simps split: if_splits)
    next
      case 3
      then show ?thesis using pairs_sound [OF inner, of o' n]
        by (fastforce simp: decode_dict_body.simps split: if_splits)
    next
      case 4
      then show ?thesis using items_sound [OF inner, of o' n]
        by (auto simp: decode_struct_body.simps split: if_splits)
    qed
  qed
  then show ?case unfolding sound_at_def by blast
qed

section \<open>Properties\<close>

lemma pdecode_pencode:
  assumes "pencode v = Inr bs" "psv_ok v"
  shows "pdecode (bs @ rest) =
    (if pdepth v \<le> MAX_DECODE_DEPTH then Inr (v, length bs) else Inl (PackStreamDepthLimitExceeded MAX_DECODE_DEPTH))"
proof -
  have d: "decode_at (bs @ rest) 0 0 =
    (if pdepth v \<le> MAX_DECODE_DEPTH then Inr (v, length bs) else Inl (PackStreamDepthLimitExceeded MAX_DECODE_DEPTH))"
    using decode_pencode(1) [OF assms, of 0 "bs @ rest" 0] bytes_at_0 by (simp add: fits_def)
  moreover have "bs @ rest \<noteq> []" using d by (auto simp: decode_at.simps [of "[]"] require_bytes_from_def split: if_splits)
  ultimately show ?thesis by (cases "bs @ rest") (simp_all add: pdecode_def require_bytes_def)
qed

text \<open>C31 (values survive the wire). Decoding what the encoder wrote, whatever follows it, gives the value back and
  consumes exactly the encoding; only a value nested deeper than the decoder allows is refused, with the depth error.
  The value is one the format can express: UTF-8 strings, sizes below 2^32 and structures of at most fifteen fields.\<close>

theorem packstream_roundtrip:
  assumes "pencode v = Inr bs" "psv_ok v"
  shows "pdecode (bs @ rest) =
    (if pdepth v \<le> MAX_DECODE_DEPTH then Inr (v, length bs) else Inl (PackStreamDepthLimitExceeded MAX_DECODE_DEPTH))"
  using assms by (rule pdecode_pencode)

theorem packstream_roundtrip_witness:
  "pdecode ([0x92, 0xF0, 0xA1, 0x81, 0x61, 0xC9, 0x01, 0x00] @ [0xFF]) =
     Inr (PList [PInt (-16), PDict [([0x61], PInt 256)]], 8)"
proof -
  let ?v = "PList [PInt (-16), PDict [([0x61], PInt 256)]]"
  have b: "be_bytes 2 256 = [1, 0]" unfolding be_bytes_def numeral_2_eq_2 by simp
  have "pencode ?v = Inr [0x92, 0xF0, 0xA1, 0x81, 0x61, 0xC9, 0x01, 0x00]"
    by (simp add: append_after_def encode_sized_header_def encode_int_def encode_string_def markers b)
  moreover have "psv_ok ?v" by (simp add: utf8_valid.simps)
  ultimately show ?thesis using packstream_roundtrip [of ?v _ "[0xFF]"] by (simp add: MAX_DECODE_DEPTH_def)
qed

text \<open>C32 (decoded values are well formed). Decoding never fails to return. A value it returns was read from inside the
  buffer, from at least one byte; its strings are UTF-8, its sizes and field counts are those the format can express, it is nested
  at most sixty-four deep, and it holds no more values than bytes were consumed, however large the counts in the input.\<close>

theorem packstream_decode_sound:
  assumes "pdecode buf = Inr (v, n)"
  shows "0 < n \<and> n \<le> length buf \<and> psv_ok v \<and> pdepth v \<le> MAX_DECODE_DEPTH \<and> psize v \<le> n"
  using sound_atD [OF decode_sound, of 0 buf 0 v n] assms by (auto simp: pdecode_def fits_def)

theorem packstream_decode_sound_witness:
  "pdecode [0x91, 0x2A, 0x00] = Inr (PList [PInt 42], 2) \<and> psize (PList [PInt 42]) \<le> 2"
proof -
  have "pdecode [0x91, 0x2A, 0x00] = Inr (PList [PInt 42], 2)"
    by (simp add: pdecode_def require_bytes_def decode_at.simps decode_list_body.simps decode_items.simps require_bytes_from_def
        MAX_DECODE_DEPTH_def Let_def)
  with packstream_decode_sound [OF this] show ?thesis by simp
qed

text \<open>Encoding fails exactly when a float somewhere in the value is not finite, and always with the same error.\<close>

lemma packstream_encode_rejects:
  "pencode v = Inl e \<longleftrightarrow> \<not> floats_finite v \<and> e = PackStreamInvalidFloat"
  using pencode_total(1) [of v] by (auto split: if_splits)

text \<open>A structure of sixteen fields does not survive: a release build writes at most fifteen into the header of
  a structure but appends every field: the decoder then stops one field early and leaves the last field's byte in the stream, where
  it would be read as the next value.\<close>

lemma struct_header_truncates:
  "\<exists>bs. pencode (PStruct 0x4E (replicate 16 PNull)) = Inr bs \<and>
     pdecode bs = Inr (PStruct 0x4E (replicate 15 PNull), length bs - 1) \<and> bs ! (length bs - 1) = M_NULL"
proof -
  have e: "pencode (PStruct 0x4E (replicate 16 PNull)) = Inr (0xBF # 0x4E # replicate 16 M_NULL)"
    by (simp add: append_after_def numeral_eq_Suc TINY_STRUCT_BASE_def)
  have "pencode (PStruct 0x4E (replicate 15 PNull)) = Inr (0xBF # 0x4E # replicate 15 M_NULL)"
    by (simp add: append_after_def numeral_eq_Suc TINY_STRUCT_BASE_def)
  then have "decode_at ((0xBF # 0x4E # replicate 15 M_NULL) @ [M_NULL]) 0 0 = Inr (PStruct 0x4E (replicate 15 PNull), 17)"
    using decode_pencode(1) [OF _ _ _ bytes_at_0, of "PStruct 0x4E (replicate 15 PNull)" _ 0 "[M_NULL]"]
    by (simp add: MAX_DECODE_DEPTH_def del: replicate.simps)
  then show ?thesis using e by (simp add: pdecode_def require_bytes_def numeral_eq_Suc)
qed

end
