(* ===== verification/Bolt.thy ===== *)
theory Bolt
  imports Packstream
begin

text \<open>
  The Bolt wire protocol over PackStream (\<^verbatim>\<open>crates/ermya-graph-protocol/src\<close>): the chunked framing of
  \<^verbatim>\<open>bolt_frame.rs\<close>, the version negotiation of \<^verbatim>\<open>bolt_handshake.rs\<close> and the requests and responses of
  \<^verbatim>\<open>bolt_message.rs\<close>. A writer is the bytes that left it and how many more the transport accepts, a reader the bytes
  still to come and how the stream ends behind them.
\<close>

section \<open>Transport\<close>

datatype io_error = UnexpectedEof | InvalidData nat | Broken

record sink =
  snk_bytes :: bytes
  snk_room :: "nat option"
  snk_flushed :: nat

text \<open>\<open>snk_room\<close> is \<open>None\<close> for a transport that accepts everything; a \<^verbatim>\<open>write_all\<close> beyond it writes what fits and fails.\<close>

definition sink_write_all :: "bytes \<Rightarrow> (sink, io_error, unit) step" where
  "sink_write_all bs s =
     (case snk_room s of
        None \<Rightarrow> (Inr (), s\<lparr>snk_bytes := snk_bytes s @ bs\<rparr>)
      | Some n \<Rightarrow>
          if length bs \<le> n then (Inr (), s\<lparr>snk_bytes := snk_bytes s @ bs, snk_room := Some (n - length bs)\<rparr>)
          else (Inl Broken, s\<lparr>snk_bytes := snk_bytes s @ take n bs, snk_room := Some 0\<rparr>))"

definition sink_flush :: "(sink, io_error, unit) step" where
  "sink_flush s =
     (if snk_room s = Some 0 then (Inl Broken, s) else (Inr (), s\<lparr>snk_flushed := length (snk_bytes s)\<rparr>))"

record source =
  src_bytes :: bytes
  src_broken :: bool

definition source_read_exact :: "nat \<Rightarrow> (source, io_error, bytes) step" where
  "source_read_exact n s =
     (if n \<le> length (src_bytes s) then (Inr (take n (src_bytes s)), s\<lparr>src_bytes := drop n (src_bytes s)\<rparr>)
      else (Inl (if src_broken s then Broken else UnexpectedEof), s\<lparr>src_bytes := []\<rparr>))"

section \<open>Chunked framing\<close>

definition MAX_CHUNK_SIZE :: nat where "MAX_CHUNK_SIZE = 65535"
definition MAX_BOLT_MESSAGE_SIZE :: nat where "MAX_BOLT_MESSAGE_SIZE = 64 * 1024 * 1024"

definition chunk_header :: "bytes \<Rightarrow> bytes" where
  "chunk_header chunk = be_bytes 2 (unat (word_of_nat (length chunk) :: u16))"

function write_chunks :: "bytes \<Rightarrow> nat \<Rightarrow> (sink, io_error, unit) step" where
  "write_chunks data offset =
     (if offset \<ge> length data then sret ()
      else
        let end_off = min (offset + MAX_CHUNK_SIZE) (length data);
            chunk = subslice offset (end_off - offset) data
        in sbind (sink_write_all (chunk_header chunk)) (\<lambda>_.
           sbind (sink_write_all chunk) (\<lambda>_. write_chunks data end_off)))"
  by auto
termination
  by (relation "measure (\<lambda>(data, offset). length data - offset)") (auto simp: MAX_CHUNK_SIZE_def)

definition write_message_no_flush :: "bytes \<Rightarrow> (sink, io_error, unit) step" where
  "write_message_no_flush data = sbind (write_chunks data 0) (\<lambda>_. sink_write_all [0x00, 0x00])"

definition write_message :: "bytes \<Rightarrow> (sink, io_error, unit) step" where
  "write_message data = sbind (write_chunks data 0) (\<lambda>_. sbind (sink_write_all [0x00, 0x00]) (\<lambda>_. sink_flush))"

record chunked_reader =
  cr_inner :: source
  cr_max_message_size :: nat

definition reader_new :: "source \<Rightarrow> chunked_reader" where
  "reader_new inner = \<lparr>cr_inner = inner, cr_max_message_size = MAX_BOLT_MESSAGE_SIZE\<rparr>"

definition with_max_message_size :: "nat \<Rightarrow> chunked_reader \<Rightarrow> chunked_reader" where
  "with_max_message_size m r = r\<lparr>cr_max_message_size := m\<rparr>"

function read_chunks :: "nat \<Rightarrow> bytes \<Rightarrow> bool \<Rightarrow> (source, io_error, bytes option) step" where
  "read_chunks max_size buf first_chunk s =
     (case source_read_exact 2 s of
        (Inl UnexpectedEof, s1) \<Rightarrow> if first_chunk then (Inr None, s1) else (Inl UnexpectedEof, s1)
      | (Inl e, s1) \<Rightarrow> (Inl e, s1)
      | (Inr header, s1) \<Rightarrow>
          let chunk_size = be_nat header in
          if chunk_size = 0 then (Inr (Some buf), s1)
          else if length buf + chunk_size > max_size then (Inl (InvalidData max_size), s1)
          else (case source_read_exact chunk_size s1 of
                  (Inl e, s2) \<Rightarrow> (Inl e, s2)
                | (Inr chunk, s2) \<Rightarrow> read_chunks max_size (buf @ chunk) False s2))"
  by auto
termination
  by (relation "measure (\<lambda>(m, buf, f, s). length (src_bytes s))") (auto simp: source_read_exact_def split: if_splits)

definition read_message :: "(chunked_reader, io_error, bytes option) step" where
  "read_message r =
     (case read_chunks (cr_max_message_size r) [] True (cr_inner r) of (x, s) \<Rightarrow> (x, r\<lparr>cr_inner := s\<rparr>))"

declare write_chunks.simps [simp del] read_chunks.simps [simp del]

section \<open>Version negotiation\<close>

record bolt_version =
  bv_major :: byte
  bv_minor :: byte

definition BOLT_MAGIC :: bytes where "BOLT_MAGIC = [0x60, 0x60, 0xB0, 0x17]"
definition NO_VERSION_RESPONSE :: bytes where "NO_VERSION_RESPONSE = [0x00, 0x00, 0x00, 0x00]"
definition SUPPORTED_VERSION :: bolt_version where "SUPPORTED_VERSION = \<lparr>bv_major = 4, bv_minor = 4\<rparr>"

definition parse_version_proposal :: "u32 \<Rightarrow> byte \<times> byte \<times> byte \<times> byte" where
  "parse_version_proposal raw =
     (let b = be_bytes 4 (unat raw) in (b ! 3, b ! 2, b ! 1, b ! 0))"

definition proposal_accepted :: "bytes \<Rightarrow> bool" where
  "proposal_accepted chunk =
     (let raw = word_of_nat (be_nat chunk) :: u32;
          (major, minor, range, padding) = parse_version_proposal raw
      in if major = 0 \<and> minor = 0 then False
         else major = bv_major SUPPORTED_VERSION \<and>
              (let min_minor = (if minor < range then 0 else minor - range) in
               min_minor \<le> bv_minor SUPPORTED_VERSION \<and> bv_minor SUPPORTED_VERSION \<le> minor))"

fun chunks_exact4 :: "bytes \<Rightarrow> bytes list" where
  "chunks_exact4 (a # b # c # d # rest) = [a, b, c, d] # chunks_exact4 rest"
| "chunks_exact4 _ = []"

fun first_accepted :: "bytes list \<Rightarrow> bolt_version option" where
  "first_accepted [] = None"
| "first_accepted (chunk # rest) = (if proposal_accepted chunk then Some SUPPORTED_VERSION else first_accepted rest)"

definition negotiate_version :: "bytes \<Rightarrow> bolt_version option" where
  "negotiate_version handshake =
     (if take 4 handshake \<noteq> BOLT_MAGIC then None else first_accepted (chunks_exact4 (drop 4 handshake)))"

definition encode_version_response :: "bolt_version option \<Rightarrow> bytes" where
  "encode_version_response version =
     (case version of Some v \<Rightarrow> [0x00, 0x00, bv_minor v, bv_major v] | None \<Rightarrow> NO_VERSION_RESPONSE)"

section \<open>Messages\<close>

type_synonym bolt_dict = "(bytes \<times> packstream_value) list"

datatype bolt_request =
    Hello bolt_dict
  | Logon bolt_dict
  | Run bytes bolt_dict bolt_dict
  | Pull bolt_dict
  | Discard bolt_dict
  | Begin bolt_dict
  | ReqCommit
  | ReqRollback
  | Reset
  | Goodbye

datatype bolt_response =
    Success bolt_dict
  | Failure bolt_dict
  | Record "packstream_value list"
  | Ignored

datatype bolt_error =
    PackStream protocol_error
  | BoltNotAStruct
  | BoltUnexpectedTag byte byte
  | BoltMissingField string string

definition TAG_HELLO :: byte where "TAG_HELLO = 0x01"
definition TAG_GOODBYE :: byte where "TAG_GOODBYE = 0x02"
definition TAG_RESET :: byte where "TAG_RESET = 0x0F"
definition TAG_RUN :: byte where "TAG_RUN = 0x10"
definition TAG_BEGIN :: byte where "TAG_BEGIN = 0x11"
definition TAG_COMMIT :: byte where "TAG_COMMIT = 0x12"
definition TAG_ROLLBACK :: byte where "TAG_ROLLBACK = 0x13"
definition TAG_DISCARD :: byte where "TAG_DISCARD = 0x2F"
definition TAG_PULL :: byte where "TAG_PULL = 0x3F"
definition TAG_LOGON :: byte where "TAG_LOGON = 0x6A"
definition TAG_SUCCESS :: byte where "TAG_SUCCESS = 0x70"
definition TAG_RECORD :: byte where "TAG_RECORD = 0x71"
definition TAG_IGNORED :: byte where "TAG_IGNORED = 0x7E"
definition TAG_FAILURE :: byte where "TAG_FAILURE = 0x7F"

lemmas tags = TAG_HELLO_def TAG_GOODBYE_def TAG_RESET_def TAG_RUN_def TAG_BEGIN_def TAG_COMMIT_def TAG_ROLLBACK_def
  TAG_DISCARD_def TAG_PULL_def TAG_LOGON_def TAG_SUCCESS_def TAG_RECORD_def TAG_IGNORED_def TAG_FAILURE_def

definition packed :: "packstream_value \<Rightarrow> bolt_error + bytes" where
  "packed v = (case pencode v of Inl e \<Rightarrow> Inl (PackStream e) | Inr bs \<Rightarrow> Inr bs)"

definition unpacked :: "bytes \<Rightarrow> bolt_error + packstream_value" where
  "unpacked data = (case pdecode data of Inl e \<Rightarrow> Inl (PackStream e) | Inr (v, _) \<Rightarrow> Inr v)"

definition request_struct :: "bolt_request \<Rightarrow> packstream_value" where
  "request_struct req =
     (case req of
        Hello extra \<Rightarrow> PStruct TAG_HELLO [PDict extra]
      | Logon auth \<Rightarrow> PStruct TAG_LOGON [PDict auth]
      | Run query params extra \<Rightarrow> PStruct TAG_RUN [PString query, PDict params, PDict extra]
      | Pull extra \<Rightarrow> PStruct TAG_PULL [PDict extra]
      | Discard extra \<Rightarrow> PStruct TAG_DISCARD [PDict extra]
      | Begin extra \<Rightarrow> PStruct TAG_BEGIN [PDict extra]
      | ReqCommit \<Rightarrow> PStruct TAG_COMMIT []
      | ReqRollback \<Rightarrow> PStruct TAG_ROLLBACK []
      | Reset \<Rightarrow> PStruct TAG_RESET []
      | Goodbye \<Rightarrow> PStruct TAG_GOODBYE [])"

definition encode_request :: "bolt_request \<Rightarrow> bolt_error + bytes" where
  "encode_request req = packed (request_struct req)"

definition extract_dict :: "packstream_value list \<Rightarrow> nat \<Rightarrow> string \<Rightarrow> string \<Rightarrow> bolt_error + bolt_dict" where
  "extract_dict vals i message field =
     (if i < length vals then (case vals ! i of PDict d \<Rightarrow> Inr d | _ \<Rightarrow> Inl (BoltMissingField message field))
      else Inl (BoltMissingField message field))"

definition extract_string :: "packstream_value list \<Rightarrow> nat \<Rightarrow> string \<Rightarrow> string \<Rightarrow> bolt_error + bytes" where
  "extract_string vals i message field =
     (if i < length vals then (case vals ! i of PString s \<Rightarrow> Inr s | _ \<Rightarrow> Inl (BoltMissingField message field))
      else Inl (BoltMissingField message field))"

definition extract_list :: "packstream_value list \<Rightarrow> nat \<Rightarrow> string \<Rightarrow> string \<Rightarrow> bolt_error + packstream_value list" where
  "extract_list vals i message field =
     (if i < length vals then (case vals ! i of PList l \<Rightarrow> Inr l | _ \<Rightarrow> Inl (BoltMissingField message field))
      else Inl (BoltMissingField message field))"

definition decode_request :: "bytes \<Rightarrow> bolt_error + bolt_request" where
  "decode_request data =
     rbind (unpacked data) (\<lambda>value. case value of
       PStruct tag vals \<Rightarrow>
         if tag = TAG_HELLO then rbind (extract_dict vals 0 ''Hello'' ''extra'') (\<lambda>extra. Inr (Hello extra))
         else if tag = TAG_LOGON then rbind (extract_dict vals 0 ''Logon'' ''auth'') (\<lambda>auth. Inr (Logon auth))
         else if tag = TAG_RUN then
           rbind (extract_string vals 0 ''Run'' ''query'') (\<lambda>query.
           rbind (extract_dict vals 1 ''Run'' ''params'') (\<lambda>params.
           rbind (extract_dict vals 2 ''Run'' ''extra'') (\<lambda>extra. Inr (Run query params extra))))
         else if tag = TAG_PULL then rbind (extract_dict vals 0 ''Pull'' ''extra'') (\<lambda>extra. Inr (Pull extra))
         else if tag = TAG_DISCARD then rbind (extract_dict vals 0 ''Discard'' ''extra'') (\<lambda>extra. Inr (Discard extra))
         else if tag = TAG_BEGIN then rbind (extract_dict vals 0 ''Begin'' ''extra'') (\<lambda>extra. Inr (Begin extra))
         else if tag = TAG_COMMIT then Inr ReqCommit
         else if tag = TAG_ROLLBACK then Inr ReqRollback
         else if tag = TAG_RESET then Inr Reset
         else if tag = TAG_GOODBYE then Inr Goodbye
         else Inl (BoltUnexpectedTag 0 tag)
     | _ \<Rightarrow> Inl BoltNotAStruct)"

definition response_struct :: "bolt_response \<Rightarrow> packstream_value" where
  "response_struct resp =
     (case resp of
        Success metadata \<Rightarrow> PStruct TAG_SUCCESS [PDict metadata]
      | Failure metadata \<Rightarrow> PStruct TAG_FAILURE [PDict metadata]
      | Record vals \<Rightarrow> PStruct TAG_RECORD [PList vals]
      | Ignored \<Rightarrow> PStruct TAG_IGNORED [])"

definition encode_response :: "bolt_response \<Rightarrow> bolt_error + bytes" where
  "encode_response resp = packed (response_struct resp)"

definition decode_response :: "bytes \<Rightarrow> bolt_error + bolt_response" where
  "decode_response data =
     rbind (unpacked data) (\<lambda>value. case value of
       PStruct tag vals \<Rightarrow>
         if tag = TAG_SUCCESS then rbind (extract_dict vals 0 ''Success'' ''metadata'') (\<lambda>m. Inr (Success m))
         else if tag = TAG_FAILURE then rbind (extract_dict vals 0 ''Failure'' ''metadata'') (\<lambda>m. Inr (Failure m))
         else if tag = TAG_RECORD then rbind (extract_list vals 0 ''Record'' ''fields'') (\<lambda>l. Inr (Record l))
         else if tag = TAG_IGNORED then Inr Ignored
         else Inl (BoltUnexpectedTag 0 tag)
     | _ \<Rightarrow> Inl BoltNotAStruct)"

lemma be_nat_4: "be_bytes 4 (unat (word_of_nat (be_nat [a, b, c, d]) :: u32)) = [a, b, c, d]"
proof -
  have "be_nat [a, b, c, d] < 2 ^ 32" using be_nat_less [of "[a, b, c, d]"] by simp
  then show ?thesis using be_bytes_be_nat [of "[a, b, c, d]" 4] by (simp add: unat_of_nat)
qed

text \<open>A proposal is accepted when its major version is 4 and the range that ends at its minor version contains 4.\<close>

lemma proposal_accepted_iff:
  "proposal_accepted [padding, rng, minor, major] \<longleftrightarrow> major = 4 \<and> unat minor - unat rng \<le> 4 \<and> 4 \<le> unat minor"
proof -
  have p: "parse_version_proposal (word_of_nat (be_nat [padding, rng, minor, major])) = (major, minor, rng, padding)"
    by (simp add: parse_version_proposal_def Let_def be_nat_4)
  have "(if minor < rng then 0 else minor - rng) \<le> 4 \<longleftrightarrow> unat minor - unat rng \<le> 4"
    by (simp add: word_le_nat_alt word_less_nat_alt unat_sub not_less)
  then show ?thesis
    by (simp only: proposal_accepted_def Let_def p prod.case SUPPORTED_VERSION_def bolt_version.select_convs) (auto simp: word_le_nat_alt)
qed

lemma negotiate_version_iff:
  "negotiate_version hs = Some v \<longleftrightarrow> v = SUPPORTED_VERSION \<and> take 4 hs = BOLT_MAGIC \<and> (\<exists>c\<in>set (chunks_exact4 (drop 4 hs)). proposal_accepted c)"
proof -
  have "first_accepted cs = Some v \<longleftrightarrow> v = SUPPORTED_VERSION \<and> (\<exists>c\<in>set cs. proposal_accepted c)" for cs
    by (induction cs) auto
  then show ?thesis by (auto simp: negotiate_version_def)
qed

section \<open>What a framed message is\<close>

inductive framed :: "bytes \<Rightarrow> bytes \<Rightarrow> bool" where
  terminator: "framed [] [0x00, 0x00]"
| chunk: "0 < length c \<Longrightarrow> length c \<le> MAX_CHUNK_SIZE \<Longrightarrow> framed data bs \<Longrightarrow>
    framed (c @ data) (be_bytes 2 (length c) @ c @ bs)"

lemma framed_length: "framed data bs \<Longrightarrow> length data + 2 \<le> length bs"
  by (induction rule: framed.induct) auto

lemma be_nat_header: "length c \<le> MAX_CHUNK_SIZE \<Longrightarrow> be_nat (be_bytes 2 (length c)) = length c"
  by (simp add: be_nat_be_bytes MAX_CHUNK_SIZE_def)

lemma chunk_header_eq: "length c \<le> MAX_CHUNK_SIZE \<Longrightarrow> chunk_header c = be_bytes 2 (length c)"
  by (simp add: chunk_header_def unat_of_nat MAX_CHUNK_SIZE_def)

subsection \<open>The writer frames\<close>

lemma write_chunks_framed:
  assumes "snk_room s = None"
  shows "\<exists>bs. write_chunks data off s = (Inr (), s\<lparr>snk_bytes := snk_bytes s @ bs\<rparr>) \<and> framed (drop off data) (bs @ [0x00, 0x00])"
  using assms
proof (induction data off arbitrary: s rule: write_chunks.induct)
  case (1 data off)
  show ?case
  proof (cases "off \<ge> length data")
    case True
    then show ?thesis using terminator by (intro exI [of _ "[]"]) (simp add: write_chunks.simps)
  next
    case False
    define e where "e = min (off + MAX_CHUNK_SIZE) (length data)"
    define c where "c = subslice off (e - off) data"
    have e: "off \<le> e" "e \<le> length data" "off < e" "e \<le> off + MAX_CHUNK_SIZE" using False by (auto simp: e_def MAX_CHUNK_SIZE_def)
    then have c: "0 < length c" "length c \<le> MAX_CHUNK_SIZE" by (auto simp: c_def)
    have d: "drop off data = c @ drop e data"
      using append_take_drop_id [of "e - off" "drop off data"] e(1) by (simp add: c_def subslice_def)
    let ?s = "s\<lparr>snk_bytes := snk_bytes s @ be_bytes 2 (length c) @ c\<rparr>"
    obtain bs where bs: "write_chunks data e ?s = (Inr (), ?s\<lparr>snk_bytes := snk_bytes ?s @ bs\<rparr>)" "framed (drop e data) (bs @ [0x00, 0x00])"
      using 1(1) [OF False refl refl, of ?s] 1(2) unfolding e_def [symmetric] by auto
    have "write_chunks data off s = write_chunks data e ?s"
      using False 1(2) c(2) by (simp add: write_chunks.simps [of data off] Let_def sbind_def sink_write_all_def chunk_header_eq
          flip: e_def c_def)
    then show ?thesis using bs(1) framed.chunk [OF c(1,2) bs(2)] d
      by (intro exI [of _ "be_bytes 2 (length c) @ c @ bs"]) simp
  qed
qed

lemma write_message_framed:
  assumes "snk_room s = None"
  obtains bs where "framed data bs" "write_message_no_flush data s = (Inr (), s\<lparr>snk_bytes := snk_bytes s @ bs\<rparr>)"
    "write_message data s = (Inr (), s\<lparr>snk_bytes := snk_bytes s @ bs, snk_flushed := length (snk_bytes s @ bs)\<rparr>)"
proof -
  obtain bs where bs: "write_chunks data 0 s = (Inr (), s\<lparr>snk_bytes := snk_bytes s @ bs\<rparr>)" "framed data (bs @ [0x00, 0x00])"
    using write_chunks_framed [OF assms, of data 0] by auto
  then show thesis using assms
    by (intro that [OF bs(2)]) (simp_all add: write_message_def write_message_no_flush_def sbind_def sink_write_all_def sink_flush_def)
qed

subsection \<open>The reader accepts exactly the framed messages\<close>

lemma read_framed:
  assumes "framed data bs" "src_bytes s = bs @ rest" "length buf \<le> max_size"
  shows "if length buf + length data \<le> max_size then read_chunks max_size buf first s = (Inr (Some (buf @ data)), s\<lparr>src_bytes := rest\<rparr>)
    else fst (read_chunks max_size buf first s) = Inl (InvalidData max_size)"
  using assms
proof (induction arbitrary: s buf first rule: framed.induct)
  case terminator
  then show ?case by (simp add: read_chunks.simps [of _ _ _ s] source_read_exact_def be_nat_def)
next
  case (chunk c data bs)
  let ?s1 = "s\<lparr>src_bytes := c @ bs @ rest\<rparr>" and ?s2 = "s\<lparr>src_bytes := bs @ rest\<rparr>"
  have h: "source_read_exact 2 s = (Inr (be_bytes 2 (length c)), ?s1)" "source_read_exact (length c) ?s1 = (Inr c, ?s2)"
    using chunk.prems by (simp_all add: source_read_exact_def)
  have "read_chunks max_size buf first s =
      (if length buf + length c > max_size then (Inl (InvalidData max_size), ?s1) else read_chunks max_size (buf @ c) False ?s2)"
    using chunk.hyps(1) by (simp add: read_chunks.simps [of _ _ _ s] h be_nat_header [OF chunk.hyps(2)])
  then show ?case using chunk.IH [of ?s2 "buf @ c" False] by (simp add: add.assoc)
qed

lemma read_chunks_framed:
  assumes "read_chunks max_size buf first s = (Inr (Some m), s')"
  shows "\<exists>data bs. framed data bs \<and> m = buf @ data \<and> src_bytes s = bs @ src_bytes s' \<and> src_broken s' = src_broken s \<and>
    (length buf \<le> max_size \<longrightarrow> length m \<le> max_size)"
  using assms
proof (induction max_size buf first s rule: read_chunks.induct)
  case (1 max_size buf first s)
  obtain header s1 where h: "source_read_exact 2 s = (Inr header, s1)"
    using 1(2) by (auto simp: read_chunks.simps [of _ _ _ s] split: prod.splits sum.splits io_error.splits if_splits)
  then have hb: "length header = 2" "src_bytes s = header @ src_bytes s1" "src_broken s1 = src_broken s"
    by (auto simp: source_read_exact_def split: if_splits)
  then have hd: "header = be_bytes 2 (be_nat header)" by (simp add: be_bytes_be_nat)
  show ?case
  proof (cases "be_nat header = 0")
    case True
    then have "header = [0, 0]" using hd by (simp add: be_bytes_def numeral_2_eq_2)
    moreover have "m = buf" "s' = s1" using True 1(2) h by (simp_all add: read_chunks.simps [of _ _ _ s])
    ultimately show ?thesis using hb terminator by (intro exI [of _ "[]"] exI [of _ "[0, 0]"]) simp
  next
    case False
    then have small: "\<not> length buf + be_nat header > max_size"
      using 1(2) h by (auto simp: read_chunks.simps [of _ _ _ s])
    then obtain c s2 where c: "source_read_exact (be_nat header) s1 = (Inr c, s2)" "read_chunks max_size (buf @ c) False s2 = (Inr (Some m), s')"
      using 1(2) h False by (auto simp: read_chunks.simps [of _ _ _ s] split: prod.splits sum.splits)
    then have cb: "length c = be_nat header" "src_bytes s1 = c @ src_bytes s2" "src_broken s2 = src_broken s1"
      by (auto simp: source_read_exact_def split: if_splits)
    obtain data bs where IH: "framed data bs" "m = (buf @ c) @ data" "src_bytes s2 = bs @ src_bytes s'" "src_broken s' = src_broken s2"
        "length (buf @ c) \<le> max_size \<longrightarrow> length m \<le> max_size"
      using 1(1) [OF h [symmetric] refl refl False small c(1) [symmetric] refl c(2)] by auto
    have "length c \<le> MAX_CHUNK_SIZE" using be_nat_less [of header] hb(1) cb(1) by (simp add: MAX_CHUNK_SIZE_def)
    moreover have "0 < length c" using cb(1) False by simp
    ultimately have "framed (c @ data) (be_bytes 2 (length c) @ c @ bs)" using framed.chunk [OF _ _ IH(1)] by blast
    then show ?thesis using IH hb cb hd small by (intro exI [of _ "c @ data"] exI [of _ "be_bytes 2 (length c) @ c @ bs"]) simp
  qed
qed

lemma read_truncated:
  assumes "framed data (p @ q)" "q \<noteq> []" "src_bytes s = p" "\<not> src_broken s" "length buf + length data \<le> max_size"
  shows "fst (read_chunks max_size buf first s) = (if length p < 2 \<and> first then Inr None else Inl UnexpectedEof)"
  using assms
proof (induction data "p @ q" arbitrary: p s buf first rule: framed.induct)
  case terminator
  then have "length p < 2" by (metis append_eq_conv_conj length_Cons length_append less_add_same_cancel1 length_greater_0_conv list.size(3) numeral_2_eq_2)
  then show ?case using terminator by (simp add: read_chunks.simps [of _ _ _ s] source_read_exact_def)
next
  case (chunk c data bs)
  show ?case
  proof (cases "length p < 2")
    case True
    then show ?thesis using chunk.prems by (simp add: read_chunks.simps [of _ _ _ s] source_read_exact_def)
  next
    case False
    define p' where "p' = drop 2 p"
    have p': "p = be_bytes 2 (length c) @ p'" "c @ bs = p' @ q"
      using arg_cong [OF chunk.hyps(5), of "take 2"] arg_cong [OF chunk.hyps(5), of "drop 2"] False append_take_drop_id [of 2 p]
      by (simp_all add: p'_def)
    have h: "source_read_exact 2 s = (Inr (be_bytes 2 (length c)), s\<lparr>src_bytes := p'\<rparr>)"
      using chunk.prems(2) p'(1) by (simp add: source_read_exact_def)
    note step = read_chunks.simps [of max_size buf first s] h be_nat_header [OF chunk.hyps(2)]
    show ?thesis
    proof (cases "length c \<le> length p'")
      case True
      then obtain p2 where p2: "p' = c @ p2" "bs = p2 @ q" using p'(2) by (auto simp: append_eq_append_conv2)
      have "fst (read_chunks max_size (buf @ c) False (s\<lparr>src_bytes := p2\<rparr>)) = Inl UnexpectedEof"
        using chunk.hyps(4) [OF p2(2) chunk.prems(1), of "s\<lparr>src_bytes := p2\<rparr>" "buf @ c" False] chunk.prems by simp
      moreover have "source_read_exact (length c) (s\<lparr>src_bytes := p'\<rparr>) = (Inr c, s\<lparr>src_bytes := p2\<rparr>)"
        using p2(1) by (simp add: source_read_exact_def)
      ultimately show ?thesis using False chunk.prems chunk.hyps(1) by (simp add: step)
    next
      case short: False
      then have "source_read_exact (length c) (s\<lparr>src_bytes := p'\<rparr>) = (Inl UnexpectedEof, s\<lparr>src_bytes := []\<rparr>)"
        using chunk.prems(3) by (simp add: source_read_exact_def)
      then show ?thesis using False chunk.prems chunk.hyps(1) by (simp add: step)
    qed
  qed
qed

section \<open>Messages survive encoding\<close>

lemma unpacked_packed:
  assumes "packed v = Inr bs" "psv_ok v" "pdepth v \<le> MAX_DECODE_DEPTH"
  shows "unpacked (bs @ rest) = Inr v"
  using assms pdecode_pencode [of v bs rest] by (auto simp: packed_def unpacked_def split: sum.splits)

definition message_ok :: "packstream_value \<Rightarrow> bool" where
  "message_ok v \<longleftrightarrow> psv_ok v \<and> pdepth v \<le> MAX_DECODE_DEPTH"

lemma decode_encode_request:
  "encode_request r = Inr bs \<Longrightarrow> message_ok (request_struct r) \<Longrightarrow> decode_request (bs @ rest) = Inr r"
  using unpacked_packed [of "request_struct r" bs rest]
  by (cases r) (simp_all add: encode_request_def decode_request_def message_ok_def request_struct_def extract_dict_def extract_string_def tags)

lemma decode_encode_response:
  "encode_response r = Inr bs \<Longrightarrow> message_ok (response_struct r) \<Longrightarrow> decode_response (bs @ rest) = Inr r"
  using unpacked_packed [of "response_struct r" bs rest]
  by (cases r) (simp_all add: encode_response_def decode_response_def message_ok_def response_struct_def extract_dict_def extract_list_def tags)

lemma request_tags: "\<exists>tag vs. request_struct r = PStruct tag vs \<and> tag \<noteq> TAG_SUCCESS \<and> tag \<noteq> TAG_FAILURE \<and> tag \<noteq> TAG_RECORD \<and> tag \<noteq> TAG_IGNORED"
  by (cases r) (simp_all add: request_struct_def tags)

section \<open>Properties\<close>

text \<open>A peer that reads messages until the stream ends.\<close>

function receive_all :: "chunked_reader \<Rightarrow> io_error + bytes list" where
  "receive_all r =
     (case read_message r of
        (Inl e, _) \<Rightarrow> Inl e
      | (Inr None, _) \<Rightarrow> Inr []
      | (Inr (Some m), r') \<Rightarrow> rbind (receive_all r') (\<lambda>ms. Inr (m # ms)))"
  by auto
termination
proof (relation "measure (\<lambda>r. length (src_bytes (cr_inner r)))")
  fix r x r' y m
  assume "(x, r') = read_message r" "x = Inr y" "y = Some m"
  then obtain s where s: "read_chunks (cr_max_message_size r) [] True (cr_inner r) = (Inr (Some m), s)" "r' = r\<lparr>cr_inner := s\<rparr>"
    by (auto simp: read_message_def split: prod.splits)
  from read_chunks_framed [OF s(1)] obtain bs where "framed m bs" "src_bytes (cr_inner r) = bs @ src_bytes s" by auto
  then show "(r', r) \<in> measure (\<lambda>r. length (src_bytes (cr_inner r)))" using framed_length [of m bs] s(2) by auto
qed simp

declare receive_all.simps [simp del]

text \<open>C30 (the reader accepts exactly framed messages). Reading returns a message just when the stream starts with a chunked
  encoding of it, in whatever chunks the peer chose, and the message is within the size limit; it then consumes exactly that encoding.\<close>

theorem bolt_reader_correct:
  "read_message r = (Inr (Some m), r') \<longleftrightarrow>
     (\<exists>bs rest. framed m bs \<and> src_bytes (cr_inner r) = bs @ rest \<and> length m \<le> cr_max_message_size r \<and>
       r' = r\<lparr>cr_inner := (cr_inner r)\<lparr>src_bytes := rest\<rparr>\<rparr>)"
proof
  assume "read_message r = (Inr (Some m), r')"
  then obtain s where s: "read_chunks (cr_max_message_size r) [] True (cr_inner r) = (Inr (Some m), s)" "r' = r\<lparr>cr_inner := s\<rparr>"
    by (auto simp: read_message_def split: prod.splits)
  from read_chunks_framed [OF s(1)] obtain bs where bs: "framed m bs" "src_bytes (cr_inner r) = bs @ src_bytes s"
      "src_broken s = src_broken (cr_inner r)" "length m \<le> cr_max_message_size r" by auto
  then have "s = (cr_inner r)\<lparr>src_bytes := src_bytes s\<rparr>" by simp
  with bs s(2) show "\<exists>bs rest. framed m bs \<and> src_bytes (cr_inner r) = bs @ rest \<and> length m \<le> cr_max_message_size r \<and>
       r' = r\<lparr>cr_inner := (cr_inner r)\<lparr>src_bytes := rest\<rparr>\<rparr>" by metis
qed (use read_framed [of m _ "cr_inner r" _ "[]" "cr_max_message_size r" True] in \<open>auto simp: read_message_def\<close>)

text \<open>A stream that breaks off. When the stream ends inside a message the reader reports the unexpected end, with one
  exception: if only the first byte of the chunk header arrived, it answers as if the peer had closed cleanly between messages.\<close>

theorem bolt_truncated_stream:
  assumes "framed m (p @ q)" "q \<noteq> []" "src_bytes (cr_inner r) = p" "\<not> src_broken (cr_inner r)" "length m \<le> cr_max_message_size r"
  shows "fst (read_message r) = (if length p < 2 then Inr None else Inl UnexpectedEof)"
  using read_truncated [OF assms(1-4), of "[]" "cr_max_message_size r" True] assms(5)
  by (cases "read_chunks (cr_max_message_size r) [] True (cr_inner r)") (simp add: read_message_def)

theorem bolt_truncated_stream_witness:
  "fst (read_message (reader_new \<lparr>src_bytes = [0x00], src_broken = False\<rparr>)) = Inr None \<and>
   fst (read_message (reader_new \<lparr>src_bytes = [0x00, 0x01], src_broken = False\<rparr>)) = Inl UnexpectedEof"
proof -
  have "framed ([7] @ []) (be_bytes 2 (length [7 :: byte]) @ [7] @ [0x00, 0x00])"
    by (rule framed.chunk [OF _ _ framed.terminator]) (simp_all add: MAX_CHUNK_SIZE_def)
  moreover have "be_bytes 2 1 = [0x00, 0x01]" unfolding be_bytes_def numeral_2_eq_2 by simp
  ultimately have f: "framed [7] ([0x00] @ [0x01, 7, 0x00, 0x00])" "framed [7] ([0x00, 0x01] @ [7, 0x00, 0x00])" by simp_all
  show ?thesis
    using bolt_truncated_stream [OF f(1), of "reader_new \<lparr>src_bytes = [0x00], src_broken = False\<rparr>"]
      bolt_truncated_stream [OF f(2), of "reader_new \<lparr>src_bytes = [0x00, 0x01], src_broken = False\<rparr>"]
    by (simp add: reader_new_def MAX_BOLT_MESSAGE_SIZE_def)
qed

inductive framed_seq :: "bytes list \<Rightarrow> bytes \<Rightarrow> bool" where
  "framed_seq [] []"
| "framed m bs \<Longrightarrow> framed_seq ms cs \<Longrightarrow> framed_seq (m # ms) (bs @ cs)"

lemma write_session:
  assumes "snk_room s = None"
  shows "\<exists>bs n. framed_seq payloads bs \<and> siter write_message payloads s = (Inr (), s\<lparr>snk_bytes := snk_bytes s @ bs, snk_flushed := n\<rparr>) \<and>
    (payloads = [] \<longrightarrow> n = snk_flushed s) \<and> (payloads \<noteq> [] \<longrightarrow> n = length (snk_bytes s @ bs))"
  using assms
proof (induction payloads arbitrary: s)
  case Nil
  then show ?case by (intro exI [of _ "[]"] exI [of _ "snk_flushed s"]) (simp add: framed_seq.intros)
next
  case (Cons p ps)
  obtain b1 where b1: "framed p b1"
      "write_message p s = (Inr (), s\<lparr>snk_bytes := snk_bytes s @ b1, snk_flushed := length (snk_bytes s @ b1)\<rparr>)"
    using write_message_framed [OF Cons.prems] by metis
  let ?s = "s\<lparr>snk_bytes := snk_bytes s @ b1, snk_flushed := length (snk_bytes s @ b1)\<rparr>"
  obtain bs n where IH: "framed_seq ps bs" "siter write_message ps ?s = (Inr (), ?s\<lparr>snk_bytes := snk_bytes ?s @ bs, snk_flushed := n\<rparr>)"
      "ps = [] \<longrightarrow> n = snk_flushed ?s" "ps \<noteq> [] \<longrightarrow> n = length (snk_bytes ?s @ bs)"
    using Cons.IH [of ?s] Cons.prems by auto
  have "ps = [] \<longrightarrow> bs = []" using IH(1) by (auto elim: framed_seq.cases)
  then have "n = length (snk_bytes s @ b1 @ bs)" using IH(3,4) by (cases "ps = []") simp_all
  then show ?case using b1 IH(1,2)
    by (intro exI [of _ "b1 @ bs"] exI [of _ n]) (simp add: framed_seq.intros sbind_def)
qed

lemma read_session:
  assumes "framed_seq payloads bs" "\<forall>p\<in>set payloads. length p \<le> m"
  shows "receive_all \<lparr>cr_inner = \<lparr>src_bytes = bs, src_broken = False\<rparr>, cr_max_message_size = m\<rparr> = Inr payloads"
  using assms
proof (induction rule: framed_seq.induct)
  case 1
  then show ?case
    by (simp add: receive_all.simps [of "\<lparr>cr_inner = _, cr_max_message_size = _\<rparr>"] read_message_def read_chunks.simps [of _ _ _ "\<lparr>src_bytes = _, src_broken = _\<rparr>"] source_read_exact_def)
next
  case (2 p b1 ps bs)
  have "read_chunks m [] True \<lparr>src_bytes = b1 @ bs, src_broken = False\<rparr> = (Inr (Some p), \<lparr>src_bytes = bs, src_broken = False\<rparr>)"
    using read_framed [OF 2(1), of "\<lparr>src_bytes = b1 @ bs, src_broken = False\<rparr>" bs "[]" m True] 2(4) by simp
  then show ?case using 2(3,4) by (simp add: receive_all.simps [of "\<lparr>cr_inner = \<lparr>src_bytes = b1 @ bs, src_broken = _\<rparr>, cr_max_message_size = _\<rparr>"] read_message_def)
qed

text \<open>C29 (a session on the wire). Requests that a client encodes and writes as messages one after the other over a transport
  that loses nothing arrive: the server's reader returns the same payloads in the same order and then the end of the stream,
  each decodes to the request it came from, and nothing is left unflushed.\<close>

theorem bolt_session_delivered:
  assumes "map encode_request reqs = map Inr payloads" "list_all (\<lambda>q. message_ok (request_struct q)) reqs"
    and "list_all (\<lambda>p. length p \<le> MAX_BOLT_MESSAGE_SIZE) payloads"
  shows "\<exists>s. siter write_message payloads \<lparr>snk_bytes = [], snk_room = None, snk_flushed = 0\<rparr> = (Inr (), s) \<and>
    receive_all (reader_new \<lparr>src_bytes = snk_bytes s, src_broken = False\<rparr>) = Inr payloads \<and>
    map decode_request payloads = map Inr reqs \<and> snk_flushed s = length (snk_bytes s)"
proof -
  let ?s = "\<lparr>snk_bytes = [], snk_room = None, snk_flushed = 0\<rparr> :: sink"
  obtain bs n where bs: "framed_seq payloads bs" "siter write_message payloads ?s = (Inr (), ?s\<lparr>snk_bytes := bs, snk_flushed := n\<rparr>)"
      "payloads = [] \<longrightarrow> n = 0" "payloads \<noteq> [] \<longrightarrow> n = length bs"
    using write_session [of ?s payloads] by auto
  have "payloads = [] \<longrightarrow> bs = []" using bs(1) by (auto elim: framed_seq.cases)
  then have n: "n = length bs" using bs(3,4) by (cases "payloads = []") simp_all
  have "receive_all (reader_new \<lparr>src_bytes = bs, src_broken = False\<rparr>) = Inr payloads"
    using read_session [OF bs(1)] assms(3) by (simp add: reader_new_def list_all_iff)
  moreover have "map decode_request payloads = map Inr reqs"
    using assms(1,2)
  proof (induction reqs arbitrary: payloads)
    case (Cons q qs)
    then obtain p ps where "payloads = p # ps" "encode_request q = Inr p" "map encode_request qs = map Inr ps" by auto
    then show ?case using Cons decode_encode_request [of q p "[]"] by simp
  qed simp
  ultimately show ?thesis using bs(2) n by simp
qed

theorem bolt_session_delivered_witness:
  "\<exists>s. siter write_message [[0xB0, 0x0F], [0xB0, 0x02]] \<lparr>snk_bytes = [], snk_room = None, snk_flushed = 0\<rparr> = (Inr (), s) \<and>
    receive_all (reader_new \<lparr>src_bytes = snk_bytes s, src_broken = False\<rparr>) = Inr [[0xB0, 0x0F], [0xB0, 0x02]] \<and>
    map decode_request [[0xB0, 0x0F], [0xB0, 0x02]] = [Inr Reset, Inr Goodbye]"
proof -
  have "map encode_request [Reset, Goodbye] = map Inr [[0xB0, 0x0F], [0xB0, 0x02]]"
    by (simp add: encode_request_def request_struct_def packed_def append_after_def tags TINY_STRUCT_BASE_def)
  from bolt_session_delivered [OF this] show ?thesis
    by (auto simp: message_ok_def request_struct_def MAX_DECODE_DEPTH_def MAX_BOLT_MESSAGE_SIZE_def)
qed

end
