(* ===== verification/Query_Search.thy ===== *)
theory Query_Search
  imports Graph_Auto
begin

text \<open>
  The query builders of \<^verbatim>\<open>crates/ermya-graph/src/query\<close> that walk the graph: \<^verbatim>\<open>direction.rs\<close>, \<^verbatim>\<open>path.rs\<close>,
  \<^verbatim>\<open>neighbor.rs\<close>, \<^verbatim>\<open>traversal.rs\<close>, \<^verbatim>\<open>shortest_path.rs\<close> and \<^verbatim>\<open>subgraph.rs\<close>, over the \<^verbatim>\<open>GraphAccess\<close> trait of
  \<^verbatim>\<open>access.rs\<close>. The trait is a record of the functions the builders call; a query reads through a shared borrow, so the
  answers do not change while it runs. A loop that need not end is a \<^theory_text>\<open>partial_function\<close> into \<open>option\<close>, where \<open>None\<close>
  is divergence; a \<^verbatim>\<open>HashSet\<close> that is only tested is a set.
\<close>

section \<open>Access, directions and paths\<close>

record graph_access =
  ga_node_exists :: "node_id \<Rightarrow> bool"
  ga_node :: "node_id \<Rightarrow> graph_error + node"
  ga_outgoing_edges :: "node_id \<Rightarrow> graph_error + edge list"
  ga_incoming_edges :: "node_id \<Rightarrow> graph_error + edge list"
  ga_outgoing_edges_by_label :: "node_id \<Rightarrow> rstring \<Rightarrow> graph_error + edge list"
  ga_incoming_edges_by_label :: "node_id \<Rightarrow> rstring \<Rightarrow> graph_error + edge list"

text \<open>\<^verbatim>\<open>impl GraphAccess for Graph\<close>: the auto-commit reads of the store.\<close>

definition edges_by_label_of :: "adj_direction \<Rightarrow> nat \<Rightarrow> rstring \<Rightarrow> edge list gstep" where
  "edges_by_label_of dir i l g =
     (if i \<notin> g_node_exists g then (Inl (NodeNotFound i), g)
      else edges_for_direction_by_label i dir l (if mvcc_enabled g then auto_commit_start_ts g else 0) None g)"

definition outgoing_edges_by_label :: "nat \<Rightarrow> rstring \<Rightarrow> edge list gstep" where
  "outgoing_edges_by_label = edges_by_label_of Outgoing"

definition incoming_edges_by_label :: "nat \<Rightarrow> rstring \<Rightarrow> edge list gstep" where
  "incoming_edges_by_label = edges_by_label_of Incoming"

definition access_of_graph :: "graph \<Rightarrow> graph_access" where
  "access_of_graph g =
     \<lparr>ga_node_exists = (\<lambda>n. n \<in> g_node_exists g), ga_node = node_read g,
      ga_outgoing_edges = (\<lambda>n. fst (outgoing_edges n g)), ga_incoming_edges = (\<lambda>n. fst (incoming_edges n g)),
      ga_outgoing_edges_by_label = (\<lambda>n l. fst (outgoing_edges_by_label n l g)),
      ga_incoming_edges_by_label = (\<lambda>n l. fst (incoming_edges_by_label n l g))\<rparr>"

datatype direction = DirOutgoing | DirIncoming | DirBoth

record path =
  pt_nodes :: "node_id list"
  pt_edges :: "edge_id list"

definition path_new :: path where
  "path_new = \<lparr>pt_nodes = [], pt_edges = []\<rparr>"

definition path_single :: "node_id \<Rightarrow> path" where
  "path_single n = \<lparr>pt_nodes = [n], pt_edges = []\<rparr>"

definition path_push :: "node_id \<Rightarrow> edge_id \<Rightarrow> path \<Rightarrow> path" where
  "path_push n e p =
     (let p1 = (if pt_nodes p \<noteq> [] then p\<lparr>pt_edges := pt_edges p @ [e]\<rparr> else p)
      in p1\<lparr>pt_nodes := pt_nodes p1 @ [n]\<rparr>)"

definition path_start :: "path \<Rightarrow> node_id option" where
  "path_start p = (case pt_nodes p of [] \<Rightarrow> None | n # _ \<Rightarrow> Some n)"

definition path_end :: "path \<Rightarrow> node_id option" where
  "path_end p = (if pt_nodes p = [] then None else Some (last (pt_nodes p)))"

definition path_len :: "path \<Rightarrow> nat" where
  "path_len p = length (pt_edges p)"

section \<open>Neighbours\<close>

record neighbor_query =
  nq_graph :: graph_access
  nq_node :: node_id
  nq_direction :: direction
  nq_label_filter :: "rstring option"

definition neighbor_new :: "graph_access \<Rightarrow> node_id \<Rightarrow> neighbor_query" where
  "neighbor_new g n = \<lparr>nq_graph = g, nq_node = n, nq_direction = DirBoth, nq_label_filter = None\<rparr>"

definition neighbor_collect :: "neighbor_query \<Rightarrow> graph_error + edge list" where
  "neighbor_collect q =
     (let g = nq_graph q; n = nq_node q in
      if \<not> ga_node_exists g n then Inl (NodeNotFound n)
      else (case nq_label_filter q of
              Some l \<Rightarrow>
                (case nq_direction q of
                   DirOutgoing \<Rightarrow> ga_outgoing_edges_by_label g n l
                 | DirIncoming \<Rightarrow> ga_incoming_edges_by_label g n l
                 | DirBoth \<Rightarrow> rbind (ga_outgoing_edges_by_label g n l) (\<lambda>es.
                     rbind (ga_incoming_edges_by_label g n l) (\<lambda>es'. Inr (es @ es'))))
            | None \<Rightarrow>
                (case nq_direction q of
                   DirOutgoing \<Rightarrow> ga_outgoing_edges g n
                 | DirIncoming \<Rightarrow> ga_incoming_edges g n
                 | DirBoth \<Rightarrow> rbind (ga_outgoing_edges g n) (\<lambda>es.
                     rbind (ga_incoming_edges g n) (\<lambda>es'. Inr (es @ es'))))))"

definition other_end :: "node_id \<Rightarrow> edge \<Rightarrow> node_id" where
  "other_end n e = (if ed_source e = n then ed_target e else ed_source e)"

definition neighbor_node_ids :: "neighbor_query \<Rightarrow> graph_error + node_id list" where
  "neighbor_node_ids q = rbind (neighbor_collect q) (\<lambda>es. Inr (map (other_end (nq_node q)) es))"

text \<open>\<^verbatim>\<open>filtered_neighbors\<close> of both builders: every neighbour in the direction, kept when the label matches.\<close>

definition filtered_neighbors ::
  "graph_access \<Rightarrow> direction \<Rightarrow> rstring option \<Rightarrow> node_id \<Rightarrow> graph_error + (node_id \<times> edge_id) list" where
  "filtered_neighbors g dir label_filter n =
     rbind (neighbor_collect ((neighbor_new g n)\<lparr>nq_direction := dir\<rparr>)) (\<lambda>es.
       Inr (map (\<lambda>e. (other_end n e, ed_id e))
         (filter (\<lambda>e. case label_filter of None \<Rightarrow> True | Some l \<Rightarrow> ed_label e = l) es)))"

section \<open>Traversals\<close>

datatype strategy = Bfs | Dfs

record traversal_builder =
  tb_graph :: graph_access
  tb_start :: node_id
  tb_direction :: direction
  tb_label_filter :: "rstring option"
  tb_max_depth :: "nat option"
  tb_strategy :: strategy

definition traversal_new :: "graph_access \<Rightarrow> node_id \<Rightarrow> traversal_builder" where
  "traversal_new g n = \<lparr>tb_graph = g, tb_start = n, tb_direction = DirBoth, tb_label_filter = None, tb_max_depth = None,
     tb_strategy = Bfs\<rparr>"

definition tb_neighbors :: "traversal_builder \<Rightarrow> node_id \<Rightarrow> graph_error + (node_id \<times> edge_id) list" where
  "tb_neighbors b = filtered_neighbors (tb_graph b) (tb_direction b) (tb_label_filter b)"

text \<open>\<^verbatim>\<open>self.max_depth.is_some_and(|max| depth >= max)\<close>.\<close>

definition at_limit :: "nat option \<Rightarrow> nat \<Rightarrow> bool" where
  "at_limit max_depth depth = (case max_depth of None \<Rightarrow> False | Some m \<Rightarrow> depth \<ge> m)"

fun bfs_visit ::
  "nat \<Rightarrow> (node_id \<times> edge_id) list \<Rightarrow> node_id set \<times> node_id list \<times> (node_id \<times> nat) list \<Rightarrow>
     node_id set \<times> node_id list \<times> (node_id \<times> nat) list" where
  "bfs_visit depth [] st = st"
| "bfs_visit depth ((n, _) # ns) (visited, order, queue) =
     (if n \<in> visited then bfs_visit depth ns (visited, order, queue)
      else bfs_visit depth ns (insert n visited, order @ [n], queue @ [(n, depth + 1)]))"

partial_function (option) bfs_loop ::
  "(node_id \<Rightarrow> graph_error + (node_id \<times> edge_id) list) \<Rightarrow> nat option \<Rightarrow> node_id set \<Rightarrow> node_id list \<Rightarrow>
     (node_id \<times> nat) list \<Rightarrow> (graph_error + node_id list) option" where
  "bfs_loop nbrs max_depth visited order queue =
     (case queue of
        [] \<Rightarrow> Some (Inr order)
      | (current, depth) # rest \<Rightarrow>
          if at_limit max_depth depth then bfs_loop nbrs max_depth visited order rest
          else (case nbrs current of
                  Inl e \<Rightarrow> Some (Inl e)
                | Inr ns \<Rightarrow> (case bfs_visit depth ns (visited, order, rest) of
                    (v, o', q) \<Rightarrow> bfs_loop nbrs max_depth v o' q)))"

definition bfs_collect :: "traversal_builder \<Rightarrow> (graph_error + node_id list) option" where
  "bfs_collect b = bfs_loop (tb_neighbors b) (tb_max_depth b) {tb_start b} [tb_start b] [(tb_start b, 0)]"

fun bfs_visit_paths ::
  "nat \<Rightarrow> path \<Rightarrow> (node_id \<times> edge_id) list \<Rightarrow> node_id set \<times> path list \<times> (node_id \<times> nat \<times> path) list \<Rightarrow>
     node_id set \<times> path list \<times> (node_id \<times> nat \<times> path) list" where
  "bfs_visit_paths depth p [] st = st"
| "bfs_visit_paths depth p ((n, e) # ns) (visited, paths, queue) =
     (if n \<in> visited then bfs_visit_paths depth p ns (visited, paths, queue)
      else bfs_visit_paths depth p ns
        (insert n visited, paths @ [path_push n e p], queue @ [(n, depth + 1, path_push n e p)]))"

partial_function (option) bfs_paths_loop ::
  "(node_id \<Rightarrow> graph_error + (node_id \<times> edge_id) list) \<Rightarrow> nat option \<Rightarrow> node_id set \<Rightarrow> path list \<Rightarrow>
     (node_id \<times> nat \<times> path) list \<Rightarrow> (graph_error + path list) option" where
  "bfs_paths_loop nbrs max_depth visited paths queue =
     (case queue of
        [] \<Rightarrow> Some (Inr paths)
      | (current, depth, p) # rest \<Rightarrow>
          if at_limit max_depth depth then bfs_paths_loop nbrs max_depth visited paths rest
          else (case nbrs current of
                  Inl e \<Rightarrow> Some (Inl e)
                | Inr ns \<Rightarrow> (case bfs_visit_paths depth p ns (visited, paths, rest) of
                    (v, ps, q) \<Rightarrow> bfs_paths_loop nbrs max_depth v ps q)))"

definition bfs_collect_paths :: "traversal_builder \<Rightarrow> (graph_error + path list) option" where
  "bfs_collect_paths b =
     bfs_paths_loop (tb_neighbors b) (tb_max_depth b) {tb_start b} [path_single (tb_start b)]
       [(tb_start b, 0, path_single (tb_start b))]"

text \<open>The stack is a list with its top first; pushing the reversed neighbours leaves the first one on top.\<close>

partial_function (option) dfs_loop ::
  "(node_id \<Rightarrow> graph_error + (node_id \<times> edge_id) list) \<Rightarrow> nat option \<Rightarrow> node_id set \<Rightarrow> node_id list \<Rightarrow>
     (node_id \<times> nat) list \<Rightarrow> (graph_error + node_id list) option" where
  "dfs_loop nbrs max_depth visited order stack =
     (case stack of
        [] \<Rightarrow> Some (Inr order)
      | (current, depth) # rest \<Rightarrow>
          if current \<in> visited then dfs_loop nbrs max_depth visited order rest
          else
            let visited = insert current visited; order = order @ [current] in
            if at_limit max_depth depth then dfs_loop nbrs max_depth visited order rest
            else (case nbrs current of
                    Inl e \<Rightarrow> Some (Inl e)
                  | Inr ns \<Rightarrow> dfs_loop nbrs max_depth visited order
                      (map (\<lambda>(n, _). (n, depth + 1)) (filter (\<lambda>(n, _). n \<notin> visited) ns) @ rest)))"

definition dfs_collect :: "traversal_builder \<Rightarrow> (graph_error + node_id list) option" where
  "dfs_collect b = dfs_loop (tb_neighbors b) (tb_max_depth b) {} [] [(tb_start b, 0)]"

partial_function (option) dfs_paths_loop ::
  "(node_id \<Rightarrow> graph_error + (node_id \<times> edge_id) list) \<Rightarrow> nat option \<Rightarrow> node_id set \<Rightarrow> path list \<Rightarrow>
     (node_id \<times> nat \<times> path) list \<Rightarrow> (graph_error + path list) option" where
  "dfs_paths_loop nbrs max_depth visited paths stack =
     (case stack of
        [] \<Rightarrow> Some (Inr paths)
      | (current, depth, p) # rest \<Rightarrow>
          if current \<in> visited then dfs_paths_loop nbrs max_depth visited paths rest
          else
            let visited = insert current visited; paths = paths @ [p] in
            if at_limit max_depth depth then dfs_paths_loop nbrs max_depth visited paths rest
            else (case nbrs current of
                    Inl e \<Rightarrow> Some (Inl e)
                  | Inr ns \<Rightarrow> dfs_paths_loop nbrs max_depth visited paths
                      (map (\<lambda>(n, e). (n, depth + 1, path_push n e p)) (filter (\<lambda>(n, _). n \<notin> visited) ns) @ rest)))"

definition dfs_collect_paths :: "traversal_builder \<Rightarrow> (graph_error + path list) option" where
  "dfs_collect_paths b =
     dfs_paths_loop (tb_neighbors b) (tb_max_depth b) {} [] [(tb_start b, 0, path_single (tb_start b))]"

definition traversal_collect :: "traversal_builder \<Rightarrow> (graph_error + node_id list) option" where
  "traversal_collect b =
     (if \<not> ga_node_exists (tb_graph b) (tb_start b) then Some (Inl (NodeNotFound (tb_start b)))
      else (case tb_strategy b of Bfs \<Rightarrow> bfs_collect b | Dfs \<Rightarrow> dfs_collect b))"

definition traversal_collect_paths :: "traversal_builder \<Rightarrow> (graph_error + path list) option" where
  "traversal_collect_paths b =
     (if \<not> ga_node_exists (tb_graph b) (tb_start b) then Some (Inl (NodeNotFound (tb_start b)))
      else (case tb_strategy b of Bfs \<Rightarrow> bfs_collect_paths b | Dfs \<Rightarrow> dfs_collect_paths b))"

section \<open>Shortest path\<close>

record shortest_path_query =
  sp_graph :: graph_access
  sp_from :: node_id
  sp_to :: node_id
  sp_direction :: direction
  sp_label_filter :: "rstring option"

definition shortest_path_new :: "graph_access \<Rightarrow> node_id \<Rightarrow> node_id \<Rightarrow> shortest_path_query" where
  "shortest_path_new g a b = \<lparr>sp_graph = g, sp_from = a, sp_to = b, sp_direction = DirBoth, sp_label_filter = None\<rparr>"

text \<open>The inner \<^verbatim>\<open>for\<close>: \<open>Inl\<close> is the early return with the parent map.\<close>

fun sp_visit ::
  "node_id \<Rightarrow> node_id \<Rightarrow> (node_id \<times> edge_id) list \<Rightarrow> node_id set \<times> (node_id \<rightharpoonup> node_id \<times> edge_id) \<times> node_id list \<Rightarrow>
     (node_id \<rightharpoonup> node_id \<times> edge_id) + node_id set \<times> (node_id \<rightharpoonup> node_id \<times> edge_id) \<times> node_id list" where
  "sp_visit dest current [] st = Inr st"
| "sp_visit dest current ((n, e) # ns) (visited, parent, queue) =
     (if n \<in> visited then sp_visit dest current ns (visited, parent, queue)
      else
        let parent = parent(n \<mapsto> (current, e)) in
        if n = dest then Inl parent
        else sp_visit dest current ns (insert n visited, parent, queue @ [n]))"

text \<open>\<^verbatim>\<open>reconstruct_path\<close>: the loop collects the segments from the end; a missing parent is the \<^verbatim>\<open>expect\<close>.\<close>

partial_function (option) sp_segments ::
  "node_id \<Rightarrow> (node_id \<rightharpoonup> node_id \<times> edge_id) \<Rightarrow> node_id \<Rightarrow> (node_id \<times> edge_id) list \<Rightarrow>
     (graph_error + (node_id \<times> edge_id) list) option" where
  "sp_segments from parent current segments =
     (if current = from then Some (Inr segments)
      else (case parent current of
              None \<Rightarrow> Some (Inl Panic)
            | Some (prev, e) \<Rightarrow> sp_segments from parent prev (segments @ [(current, e)])))"

definition reconstruct_path ::
  "node_id \<Rightarrow> node_id \<Rightarrow> (node_id \<rightharpoonup> node_id \<times> edge_id) \<Rightarrow> (graph_error + path) option" where
  "reconstruct_path from dest parent =
     map_option (\<lambda>r. rbind r (\<lambda>segments. Inr (fold (\<lambda>(n, e). path_push n e) (rev segments) (path_single from))))
       (sp_segments from parent dest [])"

partial_function (option) sp_loop ::
  "(node_id \<Rightarrow> graph_error + (node_id \<times> edge_id) list) \<Rightarrow> node_id \<Rightarrow> node_id \<Rightarrow> node_id set \<Rightarrow>
     (node_id \<rightharpoonup> node_id \<times> edge_id) \<Rightarrow> node_id list \<Rightarrow> (graph_error + path option) option" where
  "sp_loop nbrs from dest visited parent queue =
     (case queue of
        [] \<Rightarrow> Some (Inr None)
      | current # rest \<Rightarrow>
          (case nbrs current of
             Inl e \<Rightarrow> Some (Inl e)
           | Inr ns \<Rightarrow>
               (case sp_visit dest current ns (visited, parent, rest) of
                  Inl parent' \<Rightarrow> map_option (\<lambda>r. rbind r (\<lambda>p. Inr (Some p))) (reconstruct_path from dest parent')
                | Inr (v, pr, q) \<Rightarrow> sp_loop nbrs from dest v pr q)))"

definition shortest_path_find :: "shortest_path_query \<Rightarrow> (graph_error + path option) option" where
  "shortest_path_find q =
     (let g = sp_graph q; from = sp_from q; dest = sp_to q in
      if \<not> ga_node_exists g from then Some (Inl (NodeNotFound from))
      else if \<not> ga_node_exists g dest then Some (Inl (NodeNotFound dest))
      else if from = dest then Some (Inr (Some (path_single from)))
      else sp_loop (filtered_neighbors g (sp_direction q) (sp_label_filter q)) from dest {from} Map.empty [from])"

section \<open>Subgraphs\<close>

record subgraph =
  sg_nodes :: "node list"
  sg_edges :: "edge list"

record subgraph_query =
  sq_graph :: graph_access
  sq_start :: node_id
  sq_direction :: direction
  sq_label_filter :: "rstring option"
  sq_max_depth :: "nat option"

definition subgraph_new :: "graph_access \<Rightarrow> node_id \<Rightarrow> subgraph_query" where
  "subgraph_new g n = \<lparr>sq_graph = g, sq_start = n, sq_direction = DirBoth, sq_label_filter = None, sq_max_depth = None\<rparr>"

definition matches_label :: "subgraph_query \<Rightarrow> edge \<Rightarrow> bool" where
  "matches_label q e = (case sq_label_filter q of None \<Rightarrow> True | Some l \<Rightarrow> ed_label e = l)"

fun keep_edges :: "(edge \<Rightarrow> bool) \<Rightarrow> edge list \<Rightarrow> edge_id set \<times> edge list \<Rightarrow> edge_id set \<times> edge list" where
  "keep_edges keep [] st = st"
| "keep_edges keep (e # es) (seen, out) =
     (if keep e \<and> ed_id e \<notin> seen then keep_edges keep es (insert (ed_id e) seen, out @ [e]) else keep_edges keep es (seen, out))"

fun subgraph_edges ::
  "subgraph_query \<Rightarrow> node_id set \<Rightarrow> node_id list \<Rightarrow> edge_id set \<times> edge list \<Rightarrow> graph_error + edge_id set \<times> edge list" where
  "subgraph_edges q node_set [] st = Inr st"
| "subgraph_edges q node_set (n # ns) st =
     rbind (ga_outgoing_edges (sq_graph q) n) (\<lambda>outgoing.
     let st1 = keep_edges (\<lambda>e. ed_target e \<in> node_set \<and> matches_label q e) outgoing st in
     rbind (ga_incoming_edges (sq_graph q) n) (\<lambda>incoming.
     subgraph_edges q node_set ns (keep_edges (\<lambda>e. ed_source e \<in> node_set \<and> matches_label q e) incoming st1)))"

definition subgraph_extract :: "subgraph_query \<Rightarrow> (graph_error + subgraph) option" where
  "subgraph_extract q =
     (let g = sq_graph q in
      if \<not> ga_node_exists g (sq_start q) then Some (Inl (NodeNotFound (sq_start q)))
      else map_option (\<lambda>r. rbind r (\<lambda>ids.
             rbind (rfold (\<lambda>n ns. rbind (ga_node g n) (\<lambda>x. Inr (ns @ [x]))) ids []) (\<lambda>nodes.
             rbind (subgraph_edges q (set ids) ids ({}, [])) (\<lambda>(_, edges).
             Inr \<lparr>sg_nodes = nodes, sg_edges = edges\<rparr>))))
           (traversal_collect ((traversal_new g (sq_start q))\<lparr>tb_direction := sq_direction q,
              tb_label_filter := sq_label_filter q, tb_max_depth := sq_max_depth q\<rparr>)))"

lemma keep_edges_distinct:
  "keep_edges keep es (seen, out) = (seen', out') \<Longrightarrow> distinct (map ed_id out) \<Longrightarrow> seen = ed_id ` set out \<Longrightarrow>
     distinct (map ed_id out') \<and> seen' = ed_id ` set out' \<and> set out' \<subseteq> set out \<union> {e \<in> set es. keep e}"
proof (induction keep es "(seen, out)" arbitrary: seen out rule: keep_edges.induct)
  case (2 keep e es seen out)
  show ?case
  proof (cases "keep e \<and> ed_id e \<notin> seen")
    case True
    then show ?thesis using 2(1) [OF True] 2(3-5) by auto
  next
    case False
    then show ?thesis using 2(2) [OF False] 2(3-5) by auto
  qed
qed auto

text \<open>No edge is listed twice, and every edge matches the label filter.\<close>

lemma subgraph_edges_distinct:
  "subgraph_edges q S ns (seen, out) = Inr (seen', out') \<Longrightarrow> distinct (map ed_id out) \<Longrightarrow> seen = ed_id ` set out \<Longrightarrow>
     \<forall>e\<in>set out. matches_label q e \<Longrightarrow> distinct (map ed_id out') \<and> (\<forall>e\<in>set out'. matches_label q e)"
proof (induction ns arbitrary: seen out)
  case (Cons n ns)
  obtain o1 i1 where oi: "subgraph_edges q S ns (keep_edges (\<lambda>e. ed_source e \<in> S \<and> matches_label q e) i1
      (keep_edges (\<lambda>e. ed_target e \<in> S \<and> matches_label q e) o1 (seen, out))) = Inr (seen', out')"
    using Cons.prems(1) by (auto simp: Let_def)
  obtain s1 e1 where s1: "keep_edges (\<lambda>e. ed_target e \<in> S \<and> matches_label q e) o1 (seen, out) = (s1, e1)" by fastforce
  obtain s2 e2 where s2: "keep_edges (\<lambda>e. ed_source e \<in> S \<and> matches_label q e) i1 (s1, e1) = (s2, e2)" by fastforce
  have st: "keep_edges (\<lambda>e. ed_target e \<in> S \<and> matches_label q e) o1 (seen, out) = (s1, e1)"
      "keep_edges (\<lambda>e. ed_source e \<in> S \<and> matches_label q e) i1 (s1, e1) = (s2, e2)" "subgraph_edges q S ns (s2, e2) = Inr (seen', out')"
    using s1 s2 oi by simp_all
  note k1 = keep_edges_distinct [OF st(1) Cons.prems(2,3)]
  note k2 = keep_edges_distinct [OF st(2) k1 [THEN conjunct1] k1 [THEN conjunct2, THEN conjunct1]]
  then have "\<forall>e\<in>set e2. matches_label q e" using k1 Cons.prems(4) by auto
  then show ?case using Cons.IH [OF st(3)] k2 by simp
qed simp

end
