(* ===== verification/Query_Reach.thy ===== *)
theory Query_Reach
  imports Query_Search
begin

text \<open>
  What the searches of \<^theory_text>\<open>Query_Search\<close> find. The lemmas speak of a successor function and of levels; the
  properties at the end are about the builders.
\<close>

section \<open>Walks\<close>

inductive hops :: "('n \<Rightarrow> 'n set) \<Rightarrow> 'n \<Rightarrow> nat \<Rightarrow> 'n \<Rightarrow> bool" for succ s where
  here: "hops succ s 0 s"
| hop: "hops succ s k u \<Longrightarrow> v \<in> succ u \<Longrightarrow> hops succ s (Suc k) v"

inductive_cases hops_SucE: "hops succ s (Suc k) v"

definition links :: "(node_id \<Rightarrow> graph_error + (node_id \<times> edge_id) list) \<Rightarrow> node_id \<Rightarrow> (node_id \<times> edge_id) set" where
  "links nbrs u = (case nbrs u of Inl _ \<Rightarrow> {} | Inr ns \<Rightarrow> set ns)"

definition succs :: "(node_id \<Rightarrow> graph_error + (node_id \<times> edge_id) list) \<Rightarrow> node_id \<Rightarrow> node_id set" where
  "succs nbrs u = fst ` links nbrs u"

text \<open>The search space: a finite set of nodes, closed under neighbours, on which the reads succeed.\<close>

definition search_space :: "(node_id \<Rightarrow> graph_error + (node_id \<times> edge_id) list) \<Rightarrow> node_id set \<Rightarrow> bool" where
  "search_space nbrs N \<longleftrightarrow> finite N \<and> (\<forall>u\<in>N. \<exists>ns. nbrs u = Inr ns \<and> fst ` set ns \<subseteq> N)"

lemma search_spaceD: "search_space nbrs N \<Longrightarrow> u \<in> N \<Longrightarrow> \<exists>ns. nbrs u = Inr ns \<and> fst ` set ns \<subseteq> N"
  by (simp add: search_space_def)

definition path_ok :: "(node_id \<Rightarrow> graph_error + (node_id \<times> edge_id) list) \<Rightarrow> node_id \<Rightarrow> node_id \<Rightarrow> path \<Rightarrow> bool" where
  "path_ok nbrs s t p \<longleftrightarrow> length (pt_nodes p) = Suc (length (pt_edges p)) \<and> hd (pt_nodes p) = s \<and> last (pt_nodes p) = t \<and>
     (\<forall>i<length (pt_edges p). (pt_nodes p ! Suc i, pt_edges p ! i) \<in> links nbrs (pt_nodes p ! i))"

lemma path_ok_single: "path_ok nbrs s s (path_single s)" "path_len (path_single s) = 0"
  by (simp_all add: path_ok_def path_single_def path_len_def)

lemma path_ok_push:
  assumes "path_ok nbrs s t p" "(n, e) \<in> links nbrs t"
  shows "path_ok nbrs s n (path_push n e p)" "path_len (path_push n e p) = Suc (path_len p)"
proof -
  have ne: "pt_nodes p \<noteq> []" and l: "length (pt_nodes p) = Suc (length (pt_edges p))" "last (pt_nodes p) = t"
    using assms(1) by (auto simp: path_ok_def)
  have "pt_nodes p ! length (pt_edges p) = t" using l ne by (simp add: last_conv_nth)
  then show "path_ok nbrs s n (path_push n e p)"
    using assms l(1) ne by (auto simp: path_ok_def path_push_def nth_append less_Suc_eq)
  show "path_len (path_push n e p) = Suc (path_len p)" using ne by (simp add: path_len_def path_push_def)
qed

section \<open>The breadth-first invariant\<close>

text \<open>Visited nodes \<open>V\<close> with their levels and the queue \<open>Q\<close>. A node that left the queue has all its successors in \<open>V\<close>,
  at most one level further, unless it lay at the depth limit.\<close>

definition bfs_inv :: "('n \<Rightarrow> 'n set) \<Rightarrow> nat option \<Rightarrow> 'n \<Rightarrow> 'n set \<Rightarrow> ('n \<Rightarrow> nat) \<Rightarrow> 'n list \<Rightarrow> bool" where
  "bfs_inv succ lim s V lev Q \<longleftrightarrow> s \<in> V \<and> lev s = 0 \<and> set Q \<subseteq> V \<and>
     (\<forall>v\<in>V. hops succ s (lev v) v \<and> (lev v \<noteq> 0 \<longrightarrow> \<not> at_limit lim (lev v - 1))) \<and>
     (\<forall>u\<in>V - set Q. \<not> at_limit lim (lev u) \<longrightarrow> (\<forall>w\<in>succ u. w \<in> V \<and> lev w \<le> Suc (lev u))) \<and>
     sorted (map lev Q) \<and> (Q \<noteq> [] \<longrightarrow> (\<forall>v\<in>V. lev v \<le> Suc (lev (hd Q))))"

lemma bfs_inv_start: "bfs_inv succ lim s {s} (\<lambda>_. 0) [s]"
  by (simp add: bfs_inv_def here)

lemma bfs_invD:
  assumes "bfs_inv succ lim s V lev Q"
  shows "s \<in> V" "lev s = 0" "set Q \<subseteq> V" "v \<in> V \<Longrightarrow> hops succ s (lev v) v" "v \<in> V \<Longrightarrow> lev v \<noteq> 0 \<Longrightarrow> \<not> at_limit lim (lev v - 1)"
    "u \<in> V \<Longrightarrow> u \<notin> set Q \<Longrightarrow> \<not> at_limit lim (lev u) \<Longrightarrow> w \<in> succ u \<Longrightarrow> w \<in> V \<and> lev w \<le> Suc (lev u)"
    "sorted (map lev Q)" "Q \<noteq> [] \<Longrightarrow> v \<in> V \<Longrightarrow> lev v \<le> Suc (lev (hd Q))"
  using assms unfolding bfs_inv_def by blast+

lemma bfs_invI:
  assumes "s \<in> V" "lev s = 0" "set Q \<subseteq> V" "\<And>v. v \<in> V \<Longrightarrow> hops succ s (lev v) v"
    "\<And>v. v \<in> V \<Longrightarrow> lev v \<noteq> 0 \<Longrightarrow> \<not> at_limit lim (lev v - 1)"
    "\<And>u w. u \<in> V \<Longrightarrow> u \<notin> set Q \<Longrightarrow> \<not> at_limit lim (lev u) \<Longrightarrow> w \<in> succ u \<Longrightarrow> w \<in> V \<and> lev w \<le> Suc (lev u)"
    "sorted (map lev Q)" "\<And>v. Q \<noteq> [] \<Longrightarrow> v \<in> V \<Longrightarrow> lev v \<le> Suc (lev (hd Q))"
  shows "bfs_inv succ lim s V lev Q"
  using assms unfolding bfs_inv_def by blast

lemma bfs_inv_skip:
  assumes "bfs_inv succ lim s V lev (u # Q)" "at_limit lim (lev u)"
  shows "bfs_inv succ lim s V lev Q"
proof -
  note D = bfs_invD [OF assms(1)]
  show ?thesis
  proof (rule bfs_invI)
    show "lev v \<le> Suc (lev (hd Q))" if "Q \<noteq> []" "v \<in> V" for v
      using D(7) D(8) [of v] that by (cases Q) auto
    show "w \<in> V \<and> lev w \<le> Suc (lev x)" if "x \<in> V" "x \<notin> set Q" "\<not> at_limit lim (lev x)" "w \<in> succ x" for x w
      using D(6) [of x w] that assms(2) by (cases "x = u") auto
  qed (use D in \<open>simp_all\<close>)
qed

definition levels :: "'n set \<Rightarrow> ('n \<Rightarrow> nat) \<Rightarrow> nat \<Rightarrow> 'n \<Rightarrow> nat" where
  "levels V lev d v = (if v \<in> V then lev v else Suc d)"

lemma bfs_inv_expand:
  assumes "bfs_inv succ lim s V lev (u # Q)" "\<not> at_limit lim (lev u)" "set new = succ u - V"
  shows "bfs_inv succ lim s (V \<union> succ u) (levels V lev (lev u)) (Q @ new)"
proof -
  note D = bfs_invD [OF assms(1)]
  let ?L = "levels V lev (lev u)"
  have old: "?L v = lev v" if "v \<in> V" for v using that by (simp add: levels_def)
  have u: "u \<in> V" using D(3) by simp
  have Q: "map ?L Q = map lev Q" "map ?L new = replicate (length new) (Suc (lev u))"
    using D(3) assms(3) by (auto simp: levels_def intro!: map_cong replicate_eqI)
  have bound: "?L v \<le> Suc (lev u)" if "v \<in> V \<union> succ u" for v using D(8) [of v] by (auto simp: levels_def)
  have ge: "lev u \<le> lev q" if "q \<in> set Q" for q using D(7) that by auto
  show ?thesis
  proof (rule bfs_invI)
    show "s \<in> V \<union> succ u" "?L s = 0" "set (Q @ new) \<subseteq> V \<union> succ u" using D(1-3) assms(3) by (auto simp: old)
    show "hops succ s (?L v) v" if "v \<in> V \<union> succ u" for v
      using that D(4) [of v] hop [OF D(4) [OF u], of v] by (auto simp: levels_def)
    show "\<not> at_limit lim (?L v - 1)" if "v \<in> V \<union> succ u" "?L v \<noteq> 0" for v
      using that D(5) [of v] assms(2) by (auto simp: levels_def split: if_splits)
    show "sorted (map ?L (Q @ new))"
      using D(7) D(3) D(8) unfolding map_append Q by (auto simp: sorted_append)
    show "?L v \<le> Suc (?L (hd (Q @ new)))" if "Q @ new \<noteq> []" "v \<in> V \<union> succ u" for v
    proof -
      have "hd (Q @ new) \<in> set Q \<or> hd (Q @ new) \<in> set new" using that(1) by (cases Q) auto
      then have "lev u \<le> ?L (hd (Q @ new))" using ge D(3) assms(3) by (auto simp: levels_def)
      then show ?thesis using bound [OF that(2)] by simp
    qed
    show "w \<in> V \<union> succ u \<and> ?L w \<le> Suc (?L x)"
      if "x \<in> V \<union> succ u" "x \<notin> set (Q @ new)" "\<not> at_limit lim (?L x)" "w \<in> succ x" for x w
    proof -
      have x: "x \<in> V" "x \<notin> set Q" using that(1,2) assms(3) by auto
      show ?thesis
      proof (cases "x = u")
        case True
        then show ?thesis using that(4) bound old [OF u] by auto
      next
        case False
        then show ?thesis using D(6) [of x w] x that(3,4) by (auto simp: old)
      qed
    qed
  qed
qed

lemma bfs_inv_near:
  assumes "bfs_inv succ lim s V lev Q" "hops succ s k v"
    and "\<And>j. j < k \<Longrightarrow> \<not> at_limit lim j \<and> (Q \<noteq> [] \<longrightarrow> j < lev (hd Q))"
  shows "v \<in> V \<and> lev v \<le> k"
  using assms(2,3)
proof (induction)
  case here
  then show ?case using bfs_invD [OF assms(1)] by simp
next
  case (hop k u v)
  note D = bfs_invD [OF assms(1)]
  have IH: "u \<in> V" "lev u \<le> k" using hop.IH hop.prems by auto
  have "u \<notin> set Q"
  proof
    assume "u \<in> set Q"
    then have "lev (hd Q) \<le> lev u" "Q \<noteq> []" using D(7) by (cases Q; auto)+
    then show False using hop.prems [of k] IH(2) by auto
  qed
  moreover have "\<not> at_limit lim (lev u)" using hop.prems [of k] IH(2) by (auto simp: at_limit_def split: option.splits)
  ultimately show ?case using D(6) [OF IH(1) _ _ hop.hyps(2)] IH(2) by fastforce
qed

section \<open>Breadth-first collection\<close>

text \<open>The nodes the inner loop discovers, in order.\<close>

fun fresh :: "'n set \<Rightarrow> 'n list \<Rightarrow> 'n list" where
  "fresh V [] = []"
| "fresh V (n # ns) = (if n \<in> V then fresh V ns else n # fresh (insert n V) ns)"

lemma set_fresh: "set (fresh V ns) = set ns - V"
  by (induction V ns rule: fresh.induct) auto

lemma distinct_fresh: "distinct (fresh V ns)"
  by (induction V ns rule: fresh.induct) (auto simp: set_fresh)

lemma bfs_visit_eq:
  "bfs_visit d ns (V, ord, q) =
     (V \<union> fst ` set ns, ord @ fresh V (map fst ns), q @ map (\<lambda>n. (n, Suc d)) (fresh V (map fst ns)))"
  by (induction d ns "(V, ord, q)" arbitrary: V ord q rule: bfs_visit.induct) (auto simp: insert_absorb)

lemma bfs_visit_paths_eq:
  assumes "path_ok nbrs s u p" "set ns \<subseteq> links nbrs u"
  shows "\<exists>new. bfs_visit_paths d p ns (V, ps, q) =
      (V \<union> fst ` set ns, ps @ map snd new, q @ map (\<lambda>(n, r). (n, Suc d, r)) new) \<and>
    map fst new = fresh V (map fst ns) \<and> (\<forall>(n, r)\<in>set new. path_ok nbrs s n r \<and> path_len r = Suc (path_len p))"
  using assms(2)
proof (induction ns arbitrary: V ps q)
  case (Cons x ns)
  obtain n e where x: "x = (n, e)" by (cases x)
  show ?case
  proof (cases "n \<in> V")
    case True
    then show ?thesis using Cons.IH [of V ps q] Cons.prems x by (auto simp: insert_absorb)
  next
    case False
    let ?r = "path_push n e p"
    from Cons.IH [of "insert n V" "ps @ [?r]" "q @ [(n, Suc d, ?r)]"] Cons.prems obtain new where
      new: "bfs_visit_paths d p ns (insert n V, ps @ [?r], q @ [(n, Suc d, ?r)]) =
        (insert n V \<union> fst ` set ns, (ps @ [?r]) @ map snd new, (q @ [(n, Suc d, ?r)]) @ map (\<lambda>(n, r). (n, Suc d, r)) new)"
        "map fst new = fresh (insert n V) (map fst ns)" "\<forall>(n, r)\<in>set new. path_ok nbrs s n r \<and> path_len r = Suc (path_len p)"
      by auto
    have "path_ok nbrs s n ?r" "path_len ?r = Suc (path_len p)" using path_ok_push [OF assms(1)] Cons.prems x by auto
    then show ?thesis using new False x by (intro exI [of _ "(n, ?r) # new"]) simp
  qed
qed (intro exI [of _ "[]"], simp)

text \<open>The order is by level, and the two loops run in step.\<close>

definition leads :: "(node_id \<Rightarrow> graph_error + (node_id \<times> edge_id) list) \<Rightarrow> node_id \<Rightarrow> (node_id \<Rightarrow> nat) \<Rightarrow> node_id \<Rightarrow> path \<Rightarrow> bool" where
  "leads nbrs s lev v p \<longleftrightarrow> path_ok nbrs s v p \<and> path_len p = lev v"

definition queued :: "(node_id \<Rightarrow> graph_error + (node_id \<times> edge_id) list) \<Rightarrow> node_id \<Rightarrow> (node_id \<Rightarrow> nat) \<Rightarrow> node_id \<Rightarrow> node_id \<times> nat \<times> path \<Rightarrow> bool" where
  "queued nbrs s lev v x \<longleftrightarrow> (\<exists>p. x = (v, lev v, p) \<and> leads nbrs s lev v p)"

definition bfs_state :: "(node_id \<Rightarrow> graph_error + (node_id \<times> edge_id) list) \<Rightarrow> nat option \<Rightarrow> node_id \<Rightarrow> (node_id \<Rightarrow> nat) \<Rightarrow>
    node_id list \<Rightarrow> node_id list \<Rightarrow> path list \<Rightarrow> (node_id \<times> nat \<times> path) list \<Rightarrow> bool" where
  "bfs_state nbrs lim s lev ord Q ps pq \<longleftrightarrow> bfs_inv (succs nbrs) lim s (set ord) lev Q \<and> distinct ord \<and> sorted (map lev ord) \<and>
     list_all2 (leads nbrs s lev) ord ps \<and> list_all2 (queued nbrs s lev) Q pq"

lemma list_all2_levels:
  assumes "\<And>v. v \<in> set xs \<Longrightarrow> L v = lev v"
  shows "list_all2 (leads nbrs s lev) xs ys \<Longrightarrow> list_all2 (leads nbrs s L) xs ys"
    "list_all2 (queued nbrs s lev) xs zs \<Longrightarrow> list_all2 (queued nbrs s L) xs zs"
  using assms by (auto simp: list_all2_conv_all_nth leads_def queued_def)

lemma bfs_state_step:
  assumes "bfs_state nbrs lim s lev ord (u # Q) ps pq" "\<not> at_limit lim (lev u)" "nbrs u = Inr ns"
  shows "\<exists>new L ps' p pq' pq2. bfs_state nbrs lim s L (ord @ new) (Q @ new) ps' pq2 \<and> pq = (u, lev u, p) # pq' \<and>
    bfs_visit (lev u) ns (set ord, ord, map (\<lambda>v. (v, lev v)) Q) = (set (ord @ new), ord @ new, map (\<lambda>v. (v, L v)) (Q @ new)) \<and>
    bfs_visit_paths (lev u) p ns (set ord, ps, pq') = (set (ord @ new), ps', pq2) \<and>
    set new = fst ` set ns - set ord \<and> distinct new"
proof -
  have st: "bfs_inv (succs nbrs) lim s (set ord) lev (u # Q)" "distinct ord" "sorted (map lev ord)"
      "list_all2 (leads nbrs s lev) ord ps" "list_all2 (queued nbrs s lev) (u # Q) pq"
    using assms(1) by (auto simp: bfs_state_def)
  note D = bfs_invD [OF st(1)]
  obtain p pq' where pq: "pq = (u, lev u, p) # pq'" "path_ok nbrs s u p" "path_len p = lev u" "list_all2 (queued nbrs s lev) Q pq'"
    using st(5) by (auto simp: list_all2_Cons1 queued_def leads_def)
  have sc: "links nbrs u = set ns" "succs nbrs u = fst ` set ns" using assms(3) by (simp_all add: links_def succs_def)
  define new where "new = fresh (set ord) (map fst ns)"
  have new: "set new = succs nbrs u - set ord" "distinct new" using sc by (simp_all add: new_def set_fresh distinct_fresh)
  define L where "L = levels (set ord) lev (lev u)"
  have L: "L v = lev v" if "v \<in> set ord" for v using that by (simp add: L_def levels_def)
  have Ln: "L v = Suc (lev u)" if "v \<in> set new" for v using that new(1) by (simp add: L_def levels_def)
  have sets: "set ord \<union> fst ` set ns = set (ord @ new)" using new(1) sc(2) by auto
  obtain np where np: "bfs_visit_paths (lev u) p ns (set ord, ps, pq') =
      (set ord \<union> fst ` set ns, ps @ map snd np, pq' @ map (\<lambda>(n, r). (n, Suc (lev u), r)) np)"
      "map fst np = new" "\<forall>(n, r)\<in>set np. path_ok nbrs s n r \<and> path_len r = Suc (path_len p)"
    using bfs_visit_paths_eq [OF pq(2), of ns "lev u" "set ord" ps pq'] sc(1) new_def by auto
  have out: "list_all2 (leads nbrs s L) new (map snd np)"
      "list_all2 (queued nbrs s L) new (map (\<lambda>(n, r). (n, Suc (lev u), r)) np)"
    using np(2,3) Ln pq(3) unfolding np(2) [symmetric] by (fastforce simp: list_all2_map1 list_all2_map2 list_all2_same leads_def queued_def)+
  have "L v = lev v" if "v \<in> set Q" for v using that D(3) L by auto
  from list_all2_levels(2) [OF this pq(4)] have lq: "list_all2 (queued nbrs s L) Q pq'" .
  have "sorted (map L (ord @ new))"
  proof -
    have m: "map L ord = map lev ord" "map L new = replicate (length new) (Suc (lev u))" using L Ln by (auto intro: replicate_eqI)
    have "lev v \<le> Suc (lev u)" if "v \<in> set ord" for v using D(8) [of v] that by simp
    then show ?thesis using st(3) unfolding map_append m by (auto simp: sorted_append)
  qed
  moreover have "bfs_inv (succs nbrs) lim s (set (ord @ new)) L (Q @ new)"
    using bfs_inv_expand [OF st(1) assms(2) new(1)] unfolding L_def sets [symmetric] sc(2) .
  moreover have "distinct (ord @ new)" using st(2) new by auto
  moreover have "list_all2 (leads nbrs s L) (ord @ new) (ps @ map snd np)"
      "list_all2 (queued nbrs s L) (Q @ new) (pq' @ map (\<lambda>(n, r). (n, Suc (lev u), r)) np)"
    using list_all2_levels(1) [OF L st(4)] lq out by (simp_all add: list_all2_appendI)
  ultimately have state: "bfs_state nbrs lim s L (ord @ new) (Q @ new) (ps @ map snd np) (pq' @ map (\<lambda>(n, r). (n, Suc (lev u), r)) np)"
    by (simp add: bfs_state_def)
  have "map (\<lambda>v. (v, L v)) (Q @ new) = map (\<lambda>v. (v, lev v)) Q @ map (\<lambda>n. (n, Suc (lev u))) new" using D(3) L Ln by auto
  then have visit: "bfs_visit (lev u) ns (set ord, ord, map (\<lambda>v. (v, lev v)) Q) = (set (ord @ new), ord @ new, map (\<lambda>v. (v, L v)) (Q @ new))"
    by (simp only: bfs_visit_eq sets new_def [symmetric])
  have sn: "set new = fst ` set ns - set ord" using new(1) sc(2) by simp
  show ?thesis by (intro exI conjI) (rule state pq(1) visit np(1) [unfolded sets] sn new(2))+
qed

lemma card_minus_new:
  assumes "finite N" "set new \<subseteq> N - A" "distinct new"
  shows "card (N - A) = card (N - (A \<union> set new)) + length new"
proof -
  have "card (N - (A \<union> set new)) = card (N - A) - length new"
    using assms card_Diff_subset [of "set new" "N - A"] by (simp add: Diff_eq Int_assoc distinct_card)
  moreover have "length new \<le> card (N - A)" using assms card_mono [of "N - A" "set new"] by (simp add: distinct_card)
  ultimately show ?thesis by simp
qed

lemma bfs_loops:
  assumes "search_space nbrs N" "set ord \<subseteq> N" "bfs_state nbrs lim s lev ord Q ps pq"
  shows "\<exists>ord' ps' L. bfs_loop nbrs lim (set ord) ord (map (\<lambda>v. (v, lev v)) Q) = Some (Inr (ord @ ord')) \<and>
    bfs_paths_loop nbrs lim (set ord) ps pq = Some (Inr ps') \<and> bfs_state nbrs lim s L (ord @ ord') [] ps' []"
  using assms(2-)
proof (induction "card (N - set ord) + length Q" arbitrary: ord lev Q ps pq rule: less_induct)
  case less
  show ?case
  proof (cases Q)
    case Nil
    then have "pq = []" using less.prems(2) by (simp add: bfs_state_def)
    then show ?thesis using Nil less.prems
      by (intro exI [of _ "[]"] exI [of _ ps] exI [of _ lev]) (simp add: bfs_loop.simps [of _ _ _ _ "[]"] bfs_paths_loop.simps [of _ _ _ _ "[]"])
  next
    case (Cons u Q')
    then obtain p pq' where pq: "pq = (u, lev u, p) # pq'" using less.prems(2) by (auto simp: bfs_state_def list_all2_Cons1 queued_def)
    have "bfs_inv (succs nbrs) lim s (set ord) lev Q" using less.prems(2) by (simp add: bfs_state_def)
    from bfs_invD(3) [OF this] have "u \<in> N" using less.prems(1) Cons by auto
    from search_spaceD [OF assms(1) this] obtain ns where ns: "nbrs u = Inr ns" "fst ` set ns \<subseteq> N" by auto
    show ?thesis
    proof (cases "at_limit lim (lev u)")
      case True
      have "bfs_inv (succs nbrs) lim s (set ord) lev (u # Q')" using less.prems(2) Cons by (simp add: bfs_state_def)
      from bfs_inv_skip [OF this True] have "bfs_state nbrs lim s lev ord Q' ps pq'" using less.prems(2) Cons pq by (simp add: bfs_state_def)
      from less.hyps [OF _ less.prems(1) this] show ?thesis
        using True Cons pq by (simp add: bfs_loop.simps [of _ _ _ _ "(u, _) # _"] bfs_paths_loop.simps [of _ _ _ _ "(u, _, _) # _"])
    next
      case False
      obtain new L ps' pq2 where st: "bfs_state nbrs lim s L (ord @ new) (Q' @ new) ps' pq2"
          "bfs_visit (lev u) ns (set ord, ord, map (\<lambda>v. (v, lev v)) Q') = (set (ord @ new), ord @ new, map (\<lambda>v. (v, L v)) (Q' @ new))"
          "bfs_visit_paths (lev u) p ns (set ord, ps, pq') = (set (ord @ new), ps', pq2)" "set new = fst ` set ns - set ord" "distinct new"
        using bfs_state_step [of nbrs lim s lev ord u Q' ps pq ns] less.prems(2) False ns(1) Cons pq by auto
      have N': "set new \<subseteq> N - set ord" using st(4) ns(2) by auto
      have "card (N - set (ord @ new)) + length (Q' @ new) < card (N - set ord) + length Q"
        using card_minus_new [OF _ N' st(5)] assms(1) Cons by (simp add: search_space_def)
      moreover have "set (ord @ new) \<subseteq> N" using N' less.prems(1) by auto
      ultimately obtain ord' ps2 L' where "bfs_loop nbrs lim (set (ord @ new)) (ord @ new) (map (\<lambda>v. (v, L v)) (Q' @ new)) = Some (Inr ((ord @ new) @ ord'))"
          "bfs_paths_loop nbrs lim (set (ord @ new)) ps' pq2 = Some (Inr ps2)" "bfs_state nbrs lim s L' ((ord @ new) @ ord') [] ps2 []"
        using less.hyps [OF _ _ st(1)] by blast
      moreover have "bfs_loop nbrs lim (set ord) ord (map (\<lambda>v. (v, lev v)) Q) = bfs_loop nbrs lim (set (ord @ new)) (ord @ new) (map (\<lambda>v. (v, L v)) (Q' @ new))"
        by (simp only: Cons list.map bfs_loop.simps [of _ _ _ _ "(u, _) # _"] list.case prod.case False if_False ns(1) sum.case st(2))
      moreover have "bfs_paths_loop nbrs lim (set ord) ps pq = bfs_paths_loop nbrs lim (set (ord @ new)) ps' pq2"
        by (simp only: pq bfs_paths_loop.simps [of _ _ _ _ "(u, _, _) # _"] list.case prod.case False if_False ns(1) sum.case st(3))
      ultimately show ?thesis by (intro exI [of _ "new @ ord'"] exI [of _ ps2] exI [of _ L']) simp
    qed
  qed
qed

section \<open>Depth-first collection\<close>

text \<open>Without a depth limit the stack order does not matter for what is found: every node on the stack is reachable, and every
  successor of a visited node is visited or on the stack.\<close>

lemma dfs_loop_reaches:
  assumes "search_space nbrs N" "V \<subseteq> N" "fst ` set stack \<subseteq> N" "distinct ord" "set ord = V"
    and "\<forall>v\<in>V \<union> fst ` set stack. \<exists>k. hops (succs nbrs) s k v" "\<forall>u\<in>V. succs nbrs u \<subseteq> V \<union> fst ` set stack" "s \<in> V \<union> fst ` set stack"
  shows "\<exists>ord'. dfs_loop nbrs None V ord stack = Some (Inr ord') \<and> distinct ord' \<and> set ord' = {v. \<exists>k. hops (succs nbrs) s k v}"
  using assms(2-)
proof (induction "(card (N - V), length stack)" arbitrary: V ord stack rule: wf_induct_rule [OF wf_lex_prod [OF wf_less_than wf_less_than]])
  case 1
  note P = 1(2-) and IH = 1(1)
  show ?case
  proof (cases stack)
    case Nil
    have "v \<in> V" if "hops (succs nbrs) s k v" for k v using that P(6,7) Nil by (induction) auto
    then show ?thesis using P(3-5) Nil by (auto simp: dfs_loop.simps [of _ _ _ _ "[]"])
  next
    case (Cons x rest)
    obtain u d where x: "x = (u, d)" by (cases x)
    show ?thesis
    proof (cases "u \<in> V")
      case True
      then have seen: "V \<union> fst ` set stack = V \<union> fst ` set rest" using Cons x by auto
      have step: "dfs_loop nbrs None V ord stack = dfs_loop nbrs None V ord rest"
        using True Cons x by (simp add: dfs_loop.simps [of _ _ _ _ "(u, d) # _"])
      show ?thesis unfolding step
        by (rule IH) (use P(1-4) P(5-7) [unfolded seen] Cons in \<open>simp_all\<close>)
    next
      case False
      have u: "u \<in> N" using P(2) Cons x by auto
      from search_spaceD [OF assms(1) u] obtain ns where ns: "nbrs u = Inr ns" "fst ` set ns \<subseteq> N" by auto
      then have sc: "succs nbrs u = fst ` set ns" by (simp add: succs_def links_def)
      let ?V = "insert u V" and ?new = "map (\<lambda>(n, _). (n, d + 1)) (filter (\<lambda>(n, _). n \<notin> insert u V) ns)"
      have step: "dfs_loop nbrs None V ord stack = dfs_loop nbrs None ?V (ord @ [u]) (?new @ rest)"
        using False Cons x ns(1) by (simp add: dfs_loop.simps [of _ _ _ _ "(u, d) # _"] at_limit_def Let_def)
      have new: "fst ` set ?new = fst ` set ns - ?V" by (auto simp: image_iff) force
      have sets: "?V \<union> fst ` set (?new @ rest) = V \<union> fst ` set stack \<union> succs nbrs u"
        unfolding set_append image_Un new sc using Cons x by auto
      have c: "card (N - ?V) < card (N - V)" using u False assms(1) by (intro psubset_card_mono) (auto simp: search_space_def)
      show ?thesis unfolding step
      proof (rule IH)
        show "((card (N - ?V), length (?new @ rest)), card (N - V), length stack) \<in> less_than <*lex*> less_than" using c by simp
        show "?V \<subseteq> N" "distinct (ord @ [u])" "set (ord @ [u]) = ?V" using u False P(1,3,4) by auto
        show "fst ` set (?new @ rest) \<subseteq> N" unfolding set_append image_Un new using ns(2) P(2) Cons by auto
        show "\<forall>v\<in>?V \<union> fst ` set (?new @ rest). \<exists>k. hops (succs nbrs) s k v"
          unfolding sets using P(5) Cons x hop [of "succs nbrs" s _ u] by auto
        show "\<forall>w\<in>?V. succs nbrs w \<subseteq> ?V \<union> fst ` set (?new @ rest)" unfolding sets using P(6) by auto
        show "s \<in> ?V \<union> fst ` set (?new @ rest)" unfolding sets using P(7) by auto
      qed
    qed
  qed
qed

section \<open>Shortest paths\<close>

text \<open>The parent map is a tree of links over the visited nodes, one level per step.\<close>

definition parent_tree :: "(node_id \<Rightarrow> graph_error + (node_id \<times> edge_id) list) \<Rightarrow> node_id \<Rightarrow> (node_id \<rightharpoonup> node_id \<times> edge_id) \<Rightarrow>
    node_id set \<Rightarrow> (node_id \<Rightarrow> nat) \<Rightarrow> bool" where
  "parent_tree nbrs s parent V lev \<longleftrightarrow> s \<in> V \<and> lev s = 0 \<and>
     (\<forall>v\<in>V - {s}. \<exists>u e. parent v = Some (u, e) \<and> u \<in> V \<and> (v, e) \<in> links nbrs u \<and> lev v = Suc (lev u))"

lemma parent_treeE:
  assumes "parent_tree nbrs s parent V lev" "v \<in> V" "v \<noteq> s"
  obtains u e where "parent v = Some (u, e)" "u \<in> V" "(v, e) \<in> links nbrs u" "lev v = Suc (lev u)"
  using assms unfolding parent_tree_def by blast

lemma parent_tree_insert:
  assumes "parent_tree nbrs s parent V lev" "u \<in> V" "n \<notin> V" "(n, e) \<in> links nbrs u" "lev n = Suc (lev u)"
  shows "parent_tree nbrs s (parent(n \<mapsto> (u, e))) (insert n V) lev"
  using assms unfolding parent_tree_def by fastforce

lemma reconstruct_path_tree:
  assumes "parent_tree nbrs s parent V lev" "v \<in> V"
  shows "\<exists>p. reconstruct_path s v parent = Some (Inr p) \<and> path_ok nbrs s v p \<and> path_len p = lev v"
proof -
  have "\<exists>cs. sp_segments s parent v segs = Some (Inr (segs @ rev cs)) \<and>
      path_ok nbrs s v (fold (\<lambda>(n, e). path_push n e) cs (path_single s)) \<and>
      path_len (fold (\<lambda>(n, e). path_push n e) cs (path_single s)) = lev v" for segs
    using assms(2)
  proof (induction "lev v" arbitrary: v segs rule: less_induct)
    case less
    show ?case
    proof (cases "v = s")
      case True
      then show ?thesis using assms(1)
        by (intro exI [of _ "[]"]) (simp add: sp_segments.simps [of s] path_ok_single parent_tree_def)
    next
      case False
      obtain u e where u: "parent v = Some (u, e)" "u \<in> V" "(v, e) \<in> links nbrs u" "lev v = Suc (lev u)"
        using parent_treeE [OF assms(1) less.prems False] .
      from less.hyps [of u "segs @ [(v, e)]"] u(2,4) obtain cs where
        cs: "sp_segments s parent u (segs @ [(v, e)]) = Some (Inr ((segs @ [(v, e)]) @ rev cs))"
          "path_ok nbrs s u (fold (\<lambda>(n, e). path_push n e) cs (path_single s))"
          "path_len (fold (\<lambda>(n, e). path_push n e) cs (path_single s)) = lev u" by auto
      from path_ok_push [OF cs(2) u(3)] cs(1,3) u(1,4) False show ?thesis
        by (intro exI [of _ "cs @ [(v, e)]"]) (simp add: sp_segments.simps [of s parent v])
    qed
  qed
  from this [of "[]"] obtain cs where "sp_segments s parent v [] = Some (Inr (rev cs))"
      "path_ok nbrs s v (fold (\<lambda>(n, e). path_push n e) cs (path_single s))"
      "path_len (fold (\<lambda>(n, e). path_push n e) cs (path_single s)) = lev v" by auto
  then show ?thesis by (simp add: reconstruct_path_def)
qed

lemma sp_visit_tree:
  assumes "parent_tree nbrs s parent V L" "u \<in> V" "set ns \<subseteq> links nbrs u" "\<And>v. v \<notin> V \<Longrightarrow> L v = Suc (L u)" "t \<notin> V"
  shows "case sp_visit t u ns (V, parent, Q) of
      Inl parent' \<Rightarrow> \<exists>V'. parent_tree nbrs s parent' V' L \<and> t \<in> V'
    | Inr (V', parent', Q') \<Rightarrow> V' = V \<union> fst ` set ns \<and> Q' = Q @ fresh V (map fst ns) \<and> t \<notin> V' \<and> parent_tree nbrs s parent' V' L"
  using assms
proof (induction ns arbitrary: V parent Q)
  case (Cons x ns)
  obtain n e where x: "x = (n, e)" by (cases x)
  show ?case
  proof (cases "n \<in> V")
    case True
    then have "insert n V = V" by auto
    then show ?thesis using Cons.IH [of parent V Q] Cons.prems x True by (auto split: sum.splits)
  next
    case False
    have tree: "parent_tree nbrs s (parent(n \<mapsto> (u, e))) (insert n V) L"
      using parent_tree_insert [OF Cons.prems(1,2) False] Cons.prems(3,4) x False by auto
    show ?thesis
    proof (cases "n = t")
      case True
      then show ?thesis using tree False x by auto
    next
      case neq: False
      have "case sp_visit t u ns (insert n V, parent(n \<mapsto> (u, e)), Q @ [n]) of
          Inl parent' \<Rightarrow> \<exists>V'. parent_tree nbrs s parent' V' L \<and> t \<in> V'
        | Inr (V', parent', Q') \<Rightarrow> V' = insert n V \<union> fst ` set ns \<and> Q' = (Q @ [n]) @ fresh (insert n V) (map fst ns) \<and> t \<notin> V' \<and>
            parent_tree nbrs s parent' V' L"
        using Cons.prems neq by (intro Cons.IH [OF tree]) auto
      then show ?thesis using False neq x by (auto split: sum.splits)
    qed
  qed
qed auto

lemma sp_loop_shortest:
  assumes "search_space nbrs N" "V \<subseteq> N" "bfs_inv (succs nbrs) None s V lev Q" "parent_tree nbrs s parent V lev" "t \<notin> V"
  shows "\<exists>r. sp_loop nbrs s t V parent Q = Some (Inr r) \<and>
    (case r of None \<Rightarrow> \<forall>k. \<not> hops (succs nbrs) s k t
     | Some p \<Rightarrow> path_ok nbrs s t p \<and> (\<forall>k. hops (succs nbrs) s k t \<longrightarrow> path_len p \<le> k))"
  using assms(2-)
proof (induction "card (N - V) + length Q" arbitrary: V lev Q parent rule: less_induct)
  case less
  note inv = less.prems(2) and D = bfs_invD [OF less.prems(2)]
  show ?case
  proof (cases Q)
    case Nil
    have "t \<in> V" if "hops (succs nbrs) s k t" for k
      using bfs_inv_near [OF inv that] Nil by (auto simp: at_limit_def)
    then show ?thesis using less.prems(4) Nil by (auto simp: sp_loop.simps [of _ _ _ _ _ "[]"])
  next
    case (Cons u Q')
    have u: "u \<in> V" using D(3) Cons by simp
    then have "u \<in> N" using less.prems(1) by auto
    from search_spaceD [OF assms(1) this] obtain ns where ns: "nbrs u = Inr ns" "fst ` set ns \<subseteq> N" by auto
    have sc: "links nbrs u = set ns" "succs nbrs u = fst ` set ns" using ns(1) by (simp_all add: links_def succs_def)
    define L where "L = levels V lev (lev u)"
    have L: "L v = lev v" if "v \<in> V" for v using that by (simp add: L_def levels_def)
    have tree: "parent_tree nbrs s parent V L"
      using less.prems(3) L unfolding parent_tree_def by (metis DiffD1)
    have fresh_lev: "L v = Suc (L u)" if "v \<notin> V" for v using that u by (simp add: L_def levels_def)
    note visit = sp_visit_tree [OF tree u eq_refl [OF sc(1) [symmetric]] fresh_lev less.prems(4), of Q']
    have far: "Suc (lev u) \<le> k" if "hops (succs nbrs) s k t" for k
    proof (rule ccontr)
      assume "\<not> Suc (lev u) \<le> k"
      then have "t \<in> V \<and> lev t \<le> k" by (intro bfs_inv_near [OF inv that]) (auto simp: at_limit_def Cons)
      then show False using less.prems(4) by simp
    qed
    show ?thesis
    proof (cases "sp_visit t u ns (V, parent, Q')")
      case (Inl parent')
      then obtain V' where V': "parent_tree nbrs s parent' V' L" "t \<in> V'" using visit by auto
      obtain p where p: "reconstruct_path s t parent' = Some (Inr p)" "path_ok nbrs s t p" "path_len p = L t"
        using reconstruct_path_tree [OF V'] by auto
      have "L t = Suc (lev u)" using less.prems(4) by (simp add: L_def levels_def)
      then show ?thesis using Inl p far ns(1) Cons by (simp add: sp_loop.simps [of _ _ _ _ _ "u # _"])
    next
      case (Inr x)
      obtain V' parent' Q2 where x: "x = (V', parent', Q2)" by (cases x)
      have new: "V' = V \<union> fst ` set ns" "Q2 = Q' @ fresh V (map fst ns)" "t \<notin> V'" "parent_tree nbrs s parent' V' L"
        using visit Inr x by auto
      have inv': "bfs_inv (succs nbrs) None s V' L Q2"
        using bfs_inv_expand [of "succs nbrs" None s V lev u Q' "fresh V (map fst ns)"] inv Cons
        unfolding new L_def sc(2) [symmetric] by (simp add: at_limit_def set_fresh sc(2))
      have sub: "set (fresh V (map fst ns)) \<subseteq> N - V" using ns(2) by (auto simp: set_fresh)
      have "V' = V \<union> set (fresh V (map fst ns))" using new(1) by (auto simp: set_fresh)
      then have "card (N - V') + length Q2 < card (N - V) + length Q"
        using card_minus_new [OF _ sub distinct_fresh] assms(1) Cons new(2) by (simp add: search_space_def)
      moreover have "V' \<subseteq> N" using new(1) ns(2) less.prems(1) by auto
      moreover have "sp_loop nbrs s t V parent Q = sp_loop nbrs s t V' parent' Q2"
        using Inr x ns(1) Cons by (simp add: sp_loop.simps [of _ _ _ _ _ "u # _"])
      ultimately show ?thesis using less.hyps [OF _ _ inv' new(4,3)] by simp
    qed
  qed
qed

section \<open>Properties\<close>

definition within :: "nat option \<Rightarrow> nat \<Rightarrow> bool" where
  "within lim k = (case lim of None \<Rightarrow> True | Some m \<Rightarrow> k \<le> m)"

lemma bfs_final:
  assumes "bfs_state nbrs lim s lev ord [] ps []"
  shows "set ord = {v. \<exists>k. within lim k \<and> hops (succs nbrs) s k v}"
    "\<And>v k. v \<in> set ord \<Longrightarrow> within lim k \<Longrightarrow> hops (succs nbrs) s k v \<Longrightarrow> lev v \<le> k"
proof -
  have inv: "bfs_inv (succs nbrs) lim s (set ord) lev []" using assms by (simp add: bfs_state_def)
  have near: "v \<in> set ord \<and> lev v \<le> k" if "within lim k" "hops (succs nbrs) s k v" for v k
    using bfs_inv_near [OF inv that(2)] that(1) by (auto simp: within_def at_limit_def split: option.splits)
  have "within lim (lev v)" if "v \<in> set ord" for v
    using bfs_invD(5) [OF inv that] by (cases "lev v") (auto simp: within_def at_limit_def split: option.splits)
  then show "set ord = {v. \<exists>k. within lim k \<and> hops (succs nbrs) s k v}" using near bfs_invD(4) [OF inv] by blast
  show "lev v \<le> k" if "v \<in> set ord" "within lim k" "hops (succs nbrs) s k v" for v k using near that by blast
qed

lemma bfs_state_start: "bfs_state nbrs lim s (\<lambda>_. 0) [s] [s] [path_single s] [(s, 0, path_single s)]"
  by (simp add: bfs_state_def bfs_inv_start leads_def queued_def path_ok_single)

text \<open>C28 (breadth-first traversal). On a finite part of the graph on which the reads succeed, a breadth-first traversal ends. It
  returns each node within the depth limit exactly once and no other node; every node comes with a path of links from the start that is as
  short as any, and the nodes come in the order of their distance.\<close>

theorem bfs_traversal_correct:
  assumes "search_space (tb_neighbors b) N" "tb_start b \<in> N" "ga_node_exists (tb_graph b) (tb_start b)" "tb_strategy b = Bfs"
  shows "\<exists>ord ps. traversal_collect b = Some (Inr ord) \<and> traversal_collect_paths b = Some (Inr ps) \<and> distinct ord \<and>
    set ord = {v. \<exists>k. within (tb_max_depth b) k \<and> hops (succs (tb_neighbors b)) (tb_start b) k v} \<and>
    list_all2 (\<lambda>v p. path_ok (tb_neighbors b) (tb_start b) v p \<and>
      (\<forall>k. within (tb_max_depth b) k \<longrightarrow> hops (succs (tb_neighbors b)) (tb_start b) k v \<longrightarrow> path_len p \<le> k)) ord ps \<and>
    sorted (map path_len ps)"
proof -
  let ?s = "tb_start b" and ?nb = "tb_neighbors b" and ?lim = "tb_max_depth b"
  obtain ord' ps L where r: "bfs_loop ?nb ?lim {?s} [?s] [(?s, 0)] = Some (Inr ([?s] @ ord'))"
      "bfs_paths_loop ?nb ?lim {?s} [path_single ?s] [(?s, 0, path_single ?s)] = Some (Inr ps)"
      "bfs_state ?nb ?lim ?s L ([?s] @ ord') [] ps []"
    using bfs_loops [OF assms(1) _ bfs_state_start, of ?s ?lim] assms(2) by auto
  have st: "distinct ([?s] @ ord')" "sorted (map L ([?s] @ ord'))" "list_all2 (leads ?nb ?s L) ([?s] @ ord') ps"
    using r(3) by (auto simp: bfs_state_def)
  have "map path_len ps = map L ord" if "list_all2 (leads ?nb ?s L) ord ps" for ord
    using that by (intro nth_equalityI) (auto simp: list_all2_conv_all_nth leads_def)
  from this [OF st(3)] have "map path_len ps = map L ([?s] @ ord')" .
  moreover have "list_all2 (\<lambda>v p. path_ok ?nb ?s v p \<and> (\<forall>k. within ?lim k \<longrightarrow> hops (succs ?nb) ?s k v \<longrightarrow> path_len p \<le> k)) ([?s] @ ord') ps"
    using st(3) bfs_final(2) [OF r(3)] unfolding leads_def list_all2_conv_all_nth by (metis nth_mem)
  ultimately show ?thesis
    using r(1,2) st(1,2) bfs_final(1) [OF r(3)] assms(3,4)
    by (intro exI [of _ "[?s] @ ord'"] exI [of _ ps])
      (simp add: traversal_collect_def traversal_collect_paths_def bfs_collect_def bfs_collect_paths_def)
qed

text \<open>A small graph: edges from 2 to 3 and 4, from 3 to 4 and from 4 to 5.\<close>

definition demo_edges :: "edge list" where
  "demo_edges = [edge_new 10 [] 2 3 [], edge_new 11 [] 2 4 [], edge_new 12 [] 3 4 [], edge_new 13 [] 4 5 []]"

definition demo_access :: graph_access where
  "demo_access =
     \<lparr>ga_node_exists = (\<lambda>n. n \<in> {2, 3, 4, 5}), ga_node = (\<lambda>n. Inr (node_new n [] [])),
      ga_outgoing_edges = (\<lambda>n. Inr (filter (\<lambda>e. ed_source e = n) demo_edges)),
      ga_incoming_edges = (\<lambda>n. Inr (filter (\<lambda>e. ed_target e = n) demo_edges)),
      ga_outgoing_edges_by_label = (\<lambda>n l. Inr (filter (\<lambda>e. ed_source e = n \<and> ed_label e = l) demo_edges)),
      ga_incoming_edges_by_label = (\<lambda>n l. Inr (filter (\<lambda>e. ed_target e = n \<and> ed_label e = l) demo_edges))\<rparr>"

lemma demo_neighbors:
  "filtered_neighbors demo_access DirOutgoing None 2 = Inr [(3, 10), (4, 11)]"
  "filtered_neighbors demo_access DirOutgoing None 3 = Inr [(4, 12)]"
  "filtered_neighbors demo_access DirOutgoing None 4 = Inr [(5, 13)]"
  "filtered_neighbors demo_access DirOutgoing None 5 = Inr []"
  by (simp_all add: filtered_neighbors_def neighbor_collect_def neighbor_new_def demo_access_def demo_edges_def edge_new_def other_end_def Let_def)

lemma demo_space: "search_space (filtered_neighbors demo_access DirOutgoing None) {2, 3, 4, 5}"
  by (auto simp: search_space_def demo_neighbors)

lemma demo_hops: "hops (succs (filtered_neighbors demo_access DirOutgoing None)) 2 2 5"
proof -
  let ?h = "hops (succs (filtered_neighbors demo_access DirOutgoing None)) 2"
  have "?h (Suc 0) 4" by (rule hop [OF here]) (simp add: succs_def links_def demo_neighbors )
  then have "?h (Suc (Suc 0)) 5" by (rule hop) (simp add: succs_def links_def demo_neighbors)
  then show ?thesis by (simp add: numeral_2_eq_2)
qed

theorem bfs_traversal_correct_witness:
  "\<exists>ord. traversal_collect ((traversal_new demo_access 2)\<lparr>tb_direction := DirOutgoing, tb_max_depth := Some 2\<rparr>) = Some (Inr ord) \<and>
     5 \<in> set ord \<and> distinct ord"
proof -
  let ?b = "(traversal_new demo_access 2)\<lparr>tb_direction := DirOutgoing, tb_max_depth := Some 2\<rparr>"
  have n: "tb_neighbors ?b = filtered_neighbors demo_access DirOutgoing None" by (simp add: tb_neighbors_def traversal_new_def)
  have "search_space (tb_neighbors ?b) {2, 3, 4, 5}" "tb_start ?b \<in> {2, 3, 4, 5}"
      "ga_node_exists (tb_graph ?b) (tb_start ?b)" "tb_strategy ?b = Bfs"
    unfolding n using demo_space by (auto simp: traversal_new_def) (auto simp: demo_access_def)
  from bfs_traversal_correct [OF this] demo_hops show ?thesis
    unfolding n by (auto simp: traversal_new_def within_def)
qed

text \<open>C27 (shortest path). On a finite part of the graph on which the reads succeed, the search between two existing nodes ends without a
  panic: with a path of links from the one to the other that no walk undercuts, or with none when there is no walk at all.\<close>

theorem shortest_path_correct:
  assumes "search_space (filtered_neighbors (sp_graph q) (sp_direction q) (sp_label_filter q)) N" "sp_from q \<in> N"
    and "ga_node_exists (sp_graph q) (sp_from q)" "ga_node_exists (sp_graph q) (sp_to q)"
  shows "\<exists>r. shortest_path_find q = Some (Inr r) \<and>
    (let nbrs = filtered_neighbors (sp_graph q) (sp_direction q) (sp_label_filter q) in
     case r of None \<Rightarrow> \<forall>k. \<not> hops (succs nbrs) (sp_from q) k (sp_to q)
     | Some p \<Rightarrow> path_ok nbrs (sp_from q) (sp_to q) p \<and> (\<forall>k. hops (succs nbrs) (sp_from q) k (sp_to q) \<longrightarrow> path_len p \<le> k))"
proof (cases "sp_from q = sp_to q")
  case True
  then show ?thesis using assms(3) by (simp add: shortest_path_find_def path_ok_single Let_def)
next
  case False
  let ?nb = "filtered_neighbors (sp_graph q) (sp_direction q) (sp_label_filter q)"
  have "parent_tree ?nb (sp_from q) Map.empty {sp_from q} (\<lambda>_. 0)" by (simp add: parent_tree_def)
  from sp_loop_shortest [OF assms(1) _ bfs_inv_start this, of "sp_to q"] assms(2-4) False show ?thesis
    by (simp add: shortest_path_find_def Let_def)
qed

theorem shortest_path_correct_witness:
  "\<exists>p. shortest_path_find ((shortest_path_new demo_access 2 5)\<lparr>sp_direction := DirOutgoing\<rparr>) = Some (Inr (Some p)) \<and> path_len p \<le> 2"
proof -
  let ?q = "(shortest_path_new demo_access 2 5)\<lparr>sp_direction := DirOutgoing\<rparr>"
  have f: "sp_graph ?q = demo_access" "sp_direction ?q = DirOutgoing" "sp_label_filter ?q = None" "sp_from ?q = 2" "sp_to ?q = 5"
    by (simp_all add: shortest_path_new_def)
  have "search_space (filtered_neighbors (sp_graph ?q) (sp_direction ?q) (sp_label_filter ?q)) {2, 3, 4, 5}" "sp_from ?q \<in> {2, 3, 4, 5}"
      "ga_node_exists (sp_graph ?q) (sp_from ?q)" "ga_node_exists (sp_graph ?q) (sp_to ?q)"
    unfolding f using demo_space by auto (auto simp: demo_access_def)
  from shortest_path_correct [OF this, unfolded f Let_def] demo_hops show ?thesis by (auto split: option.splits)
qed

text \<open>Depth-first traversal. Without a depth limit a depth-first traversal of a finite part of the graph ends and returns
  every reachable node exactly once.\<close>

theorem dfs_traversal_correct:
  assumes "search_space (tb_neighbors b) N" "tb_start b \<in> N" "ga_node_exists (tb_graph b) (tb_start b)" "tb_strategy b = Dfs" "tb_max_depth b = None"
  shows "\<exists>ord. traversal_collect b = Some (Inr ord) \<and> distinct ord \<and> set ord = {v. \<exists>k. hops (succs (tb_neighbors b)) (tb_start b) k v}"
  using dfs_loop_reaches [OF assms(1), of "{}" "[(tb_start b, 0)]" "[]" "tb_start b"] assms(2-5) here [of "succs (tb_neighbors b)" "tb_start b"]
  by (auto simp: traversal_collect_def dfs_collect_def)

theorem dfs_traversal_correct_witness:
  "\<exists>ord. traversal_collect ((traversal_new demo_access 2)\<lparr>tb_direction := DirOutgoing, tb_strategy := Dfs\<rparr>) = Some (Inr ord) \<and> 5 \<in> set ord"
proof -
  let ?b = "(traversal_new demo_access 2)\<lparr>tb_direction := DirOutgoing, tb_strategy := Dfs\<rparr>"
  have n: "tb_neighbors ?b = filtered_neighbors demo_access DirOutgoing None" by (simp add: tb_neighbors_def traversal_new_def)
  have "search_space (tb_neighbors ?b) {2, 3, 4, 5}" "tb_start ?b \<in> {2, 3, 4, 5}"
      "ga_node_exists (tb_graph ?b) (tb_start ?b)" "tb_strategy ?b = Dfs" "tb_max_depth ?b = None"
    unfolding n using demo_space by (auto simp: traversal_new_def) (auto simp: demo_access_def)
  from dfs_traversal_correct [OF this] demo_hops show ?thesis unfolding n by (auto simp: traversal_new_def)
qed


end
