(* ===== verification/Page_Store.thy ===== *)
theory Page_Store
  imports Storage_Backend
begin

text \<open>
  The \<^verbatim>\<open>StorageBackend\<close> trait as the page codecs see it (\<^verbatim>\<open>storage/backend.rs\<close>): read, write, allocate and free a
  page, and the page count of a file. What a client may rely on is the locale \<open>page_backend\<close>: it speaks of the
  \<^emph>\<open>live pages\<close> of a store, the map from the pages in use to their contents, and hides the free lists, the cache and
  the metadata. Both backends are instances.
\<close>

section \<open>The trait\<close>

record 's backend =
  be_read :: "data_file \<Rightarrow> u32 \<Rightarrow> ('s, storage_error, bytes) step"
  be_write :: "data_file \<Rightarrow> u32 \<Rightarrow> bytes \<Rightarrow> ('s, storage_error, unit) step"
  be_allocate :: "data_file \<Rightarrow> ('s, storage_error, u32) step"
  be_free :: "data_file \<Rightarrow> u32 \<Rightarrow> ('s, storage_error, unit) step"
  be_count :: "'s \<Rightarrow> data_file \<Rightarrow> u32"

definition memory_backend :: "(bytes \<Rightarrow> u32) \<Rightarrow> mem_backend backend" where
  "memory_backend crc = \<lparr>be_read = mem_read_page, be_write = mem_write_page, be_allocate = mem_allocate_page crc,
     be_free = mem_free_page crc, be_count = mem_page_count\<rparr>"

definition file_page_count_of :: "file_backend \<Rightarrow> data_file \<Rightarrow> u32" where
  "file_page_count_of s f = file_page_count (fb_meta s) f"

definition disk_backend :: "(bytes \<Rightarrow> u32) \<Rightarrow> file_backend backend" where
  "disk_backend crc = \<lparr>be_read = file_read_page crc, be_write = file_write_page crc, be_allocate = file_allocate_page crc,
     be_free = file_free_page crc, be_count = file_page_count_of\<rparr>"

section \<open>The contract of a backend\<close>

lemma finalized_page:
  assumes "length buf = PAGE_SIZE"
  shows "page_valid crc f (finalize_page crc (file_magic f) v pt sc buf)" "drop 16 (finalize_page crc (file_magic f) v pt sc buf) = drop 16 buf"
    "ph_page_type (header_read (finalize_page crc (file_magic f) v pt sc buf)) = page_type_code pt"
    "ph_version (header_read (finalize_page crc (file_magic f) v pt sc buf)) = v"
    "length (finalize_page crc (file_magic f) v pt sc buf) = PAGE_SIZE"
  using finalize_frame [OF length_file_magic assms, of crc f v pt sc 0] finalize_validates [OF length_file_magic assms, of crc f v pt sc 0]
  unfolding finalize_page_def by (simp_all add: page_valid_def del: file_magic.simps)

lemma below_marker: "p < n \<Longrightarrow> p \<noteq> 0xFFFFFFFF" for p n :: u32
  using unat_bound [of n] by (auto simp: word_less_nat_alt)

locale page_backend =
  fixes be :: "'s backend" and crc :: "bytes \<Rightarrow> u32" and rep :: "'s \<Rightarrow> (page_key \<rightharpoonup> bytes) \<Rightarrow> bool"
  assumes live_counted: "rep s U \<Longrightarrow> U (f, p) = Some d \<Longrightarrow> p < be_count be s f"
    and live_sized: "rep s U \<Longrightarrow> U (f, p) = Some d \<Longrightarrow> length d = PAGE_SIZE"
    and read_law: "be_read be f p s = (Inr d, s') \<Longrightarrow> rep s U \<Longrightarrow> U (f, p) = Some e \<Longrightarrow> d = e \<and> rep s' U"
      "be_read be f p s = (Inr d, s') \<Longrightarrow> be_count be s' = be_count be s"
    and write_law: "be_write be f p d s = (Inr u, s') \<Longrightarrow> rep s U \<Longrightarrow> (f, p) \<in> dom U \<Longrightarrow> page_valid crc f d \<Longrightarrow>
        rep s' (U((f, p) \<mapsto> d))"
      "be_write be f p d s = (Inr u, s') \<Longrightarrow> be_count be s' = be_count be s"
    and allocate_law: "be_allocate be f s = (Inr p, s') \<Longrightarrow> rep s U \<Longrightarrow> be_count be s f + 1 \<noteq> 0 \<Longrightarrow>
        (f, p) \<notin> dom U \<and> rep s' (U((f, p) \<mapsto> new_page_buf)) \<and> (\<forall>f'. f' \<noteq> f \<longrightarrow> be_count be s' f' = be_count be s f') \<and>
        (be_count be s' f = be_count be s f \<or> be_count be s' f = be_count be s f + 1)"
      "be_allocate be f s = (Inr p, s') \<Longrightarrow> rep s U \<Longrightarrow> be_count be s f + 1 \<noteq> 0 \<Longrightarrow>
        (\<And>q. q < be_count be s f \<Longrightarrow> (f, q) \<in> dom U) \<Longrightarrow> p = be_count be s f \<and> be_count be s' f = p + 1"
    and free_law: "be_free be f p s = (Inr u, s') \<Longrightarrow> rep s U \<Longrightarrow> (f, p) \<in> dom U \<Longrightarrow>
        rep s' (U((f, p) := None)) \<and> be_count be s' = be_count be s"
begin

text \<open>A live page is never the end-of-chain marker.\<close>

lemma live_not_marker: "rep s U \<Longrightarrow> (f, p) \<in> dom U \<Longrightarrow> p \<noteq> 0xFFFFFFFF"
  using live_counted below_marker by blast

end

section \<open>The live pages of an allocator\<close>

definition live_rep ::
  "('s \<Rightarrow> bool) \<Rightarrow> ('s \<Rightarrow> graph_meta) \<Rightarrow> ('s \<Rightarrow> page_key \<rightharpoonup> bytes) \<Rightarrow> 's \<Rightarrow> (page_key \<rightharpoonup> bytes) \<Rightarrow> bool" where
  "live_rep ok meta view s U \<longleftrightarrow> ok s \<and> U \<subseteq>\<^sub>m view s \<and> (\<forall>k d. U k = Some d \<longrightarrow> length d = PAGE_SIZE) \<and>
     (\<forall>f. \<exists>F. free_list_of (meta s) (view s) f F \<and> {p. (f, p) \<in> dom U} = live_pages (meta s) f F)"

lemma live_repD:
  assumes "live_rep ok meta view s U"
  shows "ok s" "U k = Some d \<Longrightarrow> view s k = Some d" "U k = Some d \<Longrightarrow> length d = PAGE_SIZE"
    "U (f, p) = Some d \<Longrightarrow> p < file_page_count (meta s) f"
proof -
  show "ok s" "U k = Some d \<Longrightarrow> length d = PAGE_SIZE" using assms unfolding live_rep_def by blast+
  show "U k = Some d \<Longrightarrow> view s k = Some d" using assms map_leD unfolding live_rep_def by fast
  obtain F where "{p. (f, p) \<in> dom U} = live_pages (meta s) f F" using assms unfolding live_rep_def by blast
  then show "U (f, p) = Some d \<Longrightarrow> p < file_page_count (meta s) f" by (auto simp: live_pages_def)
qed

lemma live_rep_file:
  assumes "live_rep ok meta view s U"
  obtains F where "free_list_of (meta s) (view s) f F" "{p. (f, p) \<in> dom U} = live_pages (meta s) f F"
  using assms unfolding live_rep_def by blast

lemma live_not_free:
  assumes "{p. (f, p) \<in> dom U} = live_pages m f F" "U k = Some d"
  shows "k \<notin> {f} \<times> F"
proof
  assume "k \<in> {f} \<times> F"
  then obtain q where q: "k = (f, q)" "q \<in> F" by blast
  then have "q \<in> {p. (f, p) \<in> dom U}" using assms(2) by blast
  then show False using q(2) unfolding assms(1) live_pages_def by blast
qed

lemma live_rep_cong:
  assumes "live_rep ok meta view s U" "ok s'" "dom U' = dom U" "\<And>k d. U' k = Some d \<Longrightarrow> view s' k = Some d \<and> length d = PAGE_SIZE"
    and "meta s' = meta s" "\<And>k d. k \<notin> dom U \<Longrightarrow> view s k = Some d \<Longrightarrow> view s' k = Some d"
  shows "live_rep ok meta view s' U'"
  unfolding live_rep_def
proof (intro conjI allI)
  show "ok s'" "U' \<subseteq>\<^sub>m view s'" "U' k = Some d \<longrightarrow> length d = PAGE_SIZE" for k d
    using assms(2,4) by (auto simp: map_le_def dom_def)
  fix f
  obtain F where F: "free_list_of (meta s) (view s) f F" "{p. (f, p) \<in> dom U} = live_pages (meta s) f F"
    using assms(1) unfolding live_rep_def by blast
  have "free_set (meta s) (view s) f F" using F(1) by (simp add: free_list_of_def)
  then have "free_set (meta s) (view s') f F"
    by (rule free_set_cong) (use live_not_free [OF F(2)] assms(6) in \<open>simp_all, blast\<close>)
  then have "free_list_of (meta s') (view s') f F" using F(1) by (simp add: free_list_of_def assms(5))
  then show "\<exists>F. free_list_of (meta s') (view s') f F \<and> {p. (f, p) \<in> dom U'} = live_pages (meta s') f F"
    using F(2) unfolding assms(3,5) by blast
qed

lemma live_after_read:
  assumes "live_rep ok meta view s U" "ok s'" "meta s' = meta s" "view s \<subseteq>\<^sub>m view s'"
  shows "live_rep ok meta view s' U"
proof (rule live_rep_cong [OF assms(1,2) refl _ assms(3)])
  show "U k = Some d \<Longrightarrow> view s' k = Some d \<and> length d = PAGE_SIZE" for k d
    using live_repD(2,3) [OF assms(1)] map_leD [OF assms(4)] by blast
qed (rule map_leD [OF assms(4)])

lemma live_after_write:
  assumes "live_rep ok meta view s U" "ok s'" "meta s' = meta s" "view s' (f, p) = Some d"
    and "\<And>k e. k \<noteq> (f, p) \<Longrightarrow> view s k = Some e \<Longrightarrow> view s' k = Some e" "(f, p) \<in> dom U" "length d = PAGE_SIZE"
  shows "live_rep ok meta view s' (U((f, p) \<mapsto> d))"
proof (rule live_rep_cong [OF assms(1,2) _ _ assms(3)])
  show "dom (U((f, p) \<mapsto> d)) = dom U" using assms(6) by auto
  show "(U((f, p) \<mapsto> d)) k = Some e \<Longrightarrow> view s' k = Some e \<and> length e = PAGE_SIZE" for k e
    using live_repD(2,3) [OF assms(1)] assms(4,5,7) by (auto split: if_splits)
  show "k \<notin> dom U \<Longrightarrow> view s k = Some e \<Longrightarrow> view s' k = Some e" for k e
    using assms(5) [of k e] assms(6) by metis
qed

text \<open>Files other than the one an operation works on.\<close>

lemma other_file_kept:
  assumes "\<exists>F. free_list_of m V f F \<and> {p. (f, p) \<in> dom U} = live_pages m f F"
    and "file_page_count m' f = file_page_count m f" "free_directory_head m' f = free_directory_head m f"
    "free_spare_page m' f = free_spare_page m f" "free_page_count m' f = free_page_count m f"
    and "\<And>p d. V (f, p) = Some d \<Longrightarrow> V' (f, p) = Some d" "\<And>p. (f, p) \<in> dom U' \<longleftrightarrow> (f, p) \<in> dom U"
  shows "\<exists>F. free_list_of m' V' f F \<and> {p. (f, p) \<in> dom U'} = live_pages m' f F"
proof -
  obtain F where F: "free_list_of m V f F" "{p. (f, p) \<in> dom U} = live_pages m f F" using assms(1) by blast
  have "free_set m V f F" using F(1) by (simp add: free_list_of_def)
  then have "free_set m' V' f F" by (rule free_set_cong) (use assms(3-6) in simp_all)
  then have "free_list_of m' V' f F" using F(1) assms(2) by (simp add: free_list_of_def)
  moreover have "{p. (f, p) \<in> dom U'} = live_pages m' f F" using F(2) assms(2,7) by (simp add: live_pages_def)
  ultimately show ?thesis by blast
qed

context page_allocator
begin

lemma allocate_meta:
  assumes "allocate_with crc ops blank grow f s = (Inr p, s')" "ok s" "free_list_of (fl_meta ops s) (view s) f F"
  shows "f' \<noteq> f \<Longrightarrow> file_page_count (fl_meta ops s') f' = file_page_count (fl_meta ops s) f' \<and>
      free_directory_head (fl_meta ops s') f' = free_directory_head (fl_meta ops s) f' \<and>
      free_spare_page (fl_meta ops s') f' = free_spare_page (fl_meta ops s) f' \<and>
      free_page_count (fl_meta ops s') f' = free_page_count (fl_meta ops s) f'"
    and "F = {} \<Longrightarrow> p = file_page_count (fl_meta ops s) f \<and> file_page_count (fl_meta ops s') f = p + 1"
proof -
  obtain r s1 where t: "take_free_page crc ops f s = (Inr r, s1)"
      "(case r of Some p \<Rightarrow> sbind (blank f p) (\<lambda>_. sret p) | None \<Rightarrow> grow f) s1 = (Inr p, s')"
    using assms(1) by (auto simp: allocate_with_def sbind_eq_Inr)
  have F: "free_pages f s F" using assms(3) by (auto simp: free_list_of_def free_pages_def)
  note take = take_spec [OF t(1) assms(2) F]
  have "(f' \<noteq> f \<longrightarrow> file_page_count (fl_meta ops s') f' = file_page_count (fl_meta ops s) f' \<and>
      free_directory_head (fl_meta ops s') f' = free_directory_head (fl_meta ops s) f' \<and>
      free_spare_page (fl_meta ops s') f' = free_spare_page (fl_meta ops s) f' \<and>
      free_page_count (fl_meta ops s') f' = free_page_count (fl_meta ops s) f') \<and>
    (F = {} \<longrightarrow> p = file_page_count (fl_meta ops s) f \<and> file_page_count (fl_meta ops s') f = p + 1)"
  proof (cases r)
    case None
    with take t(2) have g: "grow f s = (Inr p, s')" by auto
    from grow_law(2,3) [OF g assms(2)] show ?thesis by simp
  next
    case (Some q)
    with t(2) obtain u where b: "blank f p s1 = (Inr u, s')" and q: "q = p" by (auto simp: sbind_eq_Inr)
    have "p \<in> F" "same_but f (fl_meta ops s) (fl_meta ops s1)" using take Some q by (auto simp: moved_def)
    then show ?thesis using blank_law(2) [OF b] by (auto simp: same_but_def)
  qed
  then show "f' \<noteq> f \<Longrightarrow> file_page_count (fl_meta ops s') f' = file_page_count (fl_meta ops s) f' \<and>
      free_directory_head (fl_meta ops s') f' = free_directory_head (fl_meta ops s) f' \<and>
      free_spare_page (fl_meta ops s') f' = free_spare_page (fl_meta ops s) f' \<and>
      free_page_count (fl_meta ops s') f' = free_page_count (fl_meta ops s) f'"
    and "F = {} \<Longrightarrow> p = file_page_count (fl_meta ops s) f \<and> file_page_count (fl_meta ops s') f = p + 1" by blast+
qed

lemma allocate_live:
  assumes "allocate_with crc ops blank grow f s = (Inr p, s')" "live_rep ok (fl_meta ops) view s U"
    and "file_page_count (fl_meta ops s) f + 1 \<noteq> 0"
  shows "(f, p) \<notin> dom U \<and> live_rep ok (fl_meta ops) view s' (U((f, p) \<mapsto> new_page_buf)) \<and>
      (\<forall>f'. f' \<noteq> f \<longrightarrow> file_page_count (fl_meta ops s') f' = file_page_count (fl_meta ops s) f') \<and>
      (file_page_count (fl_meta ops s') f = file_page_count (fl_meta ops s) f \<or>
       file_page_count (fl_meta ops s') f = file_page_count (fl_meta ops s) f + 1)"
    and "(\<And>q. q < file_page_count (fl_meta ops s) f \<Longrightarrow> (f, q) \<in> dom U) \<Longrightarrow>
      p = file_page_count (fl_meta ops s) f \<and> file_page_count (fl_meta ops s') f = p + 1"
proof -
  have ok: "ok s" using live_repD(1) [OF assms(2)] .
  obtain F where F: "free_list_of (fl_meta ops s) (view s) f F" "{p. (f, p) \<in> dom U} = live_pages (fl_meta ops s) f F"
    using assms(2) unfolding live_rep_def by blast
  obtain F' where a: "ok s'" "free_list_of (fl_meta ops s') (view s') f F'" "p \<notin> live_pages (fl_meta ops s) f F"
      "live_pages (fl_meta ops s') f F' = insert p (live_pages (fl_meta ops s) f F)" "view s' (f, p) = Some new_page_buf"
      "\<And>k d. k \<notin> {f} \<times> insert p F \<Longrightarrow> view s k = Some d \<Longrightarrow> view s' k = Some d"
      "F \<noteq> {} \<Longrightarrow> file_page_count (fl_meta ops s') f = file_page_count (fl_meta ops s) f"
    using allocate_spec [OF assms(1) ok F(1) assms(3)] by blast
  note m = allocate_meta [OF assms(1) ok F(1)]
  have new: "(f, p) \<notin> dom U" using a(3) F(2) by auto
  have keep: "view s' k = Some d" if "U k = Some d" for k d
    using a(6) [OF _ live_repD(2) [OF assms(2) that]] that live_not_free [OF F(2) that] new by blast
  have "live_rep ok (fl_meta ops) view s' (U((f, p) \<mapsto> new_page_buf))"
    unfolding live_rep_def
  proof (intro conjI allI)
    show "ok s'" by (rule a(1))
    show "U((f, p) \<mapsto> new_page_buf) \<subseteq>\<^sub>m view s'" using keep a(5) by (auto simp: map_le_def dom_def)
    show "(U((f, p) \<mapsto> new_page_buf)) k = Some d \<longrightarrow> length d = PAGE_SIZE" for k d
      using live_repD(3) [OF assms(2)] by auto
    show "\<exists>F. free_list_of (fl_meta ops s') (view s') f' F \<and>
        {q. (f', q) \<in> dom (U((f, p) \<mapsto> new_page_buf))} = live_pages (fl_meta ops s') f' F" for f'
    proof (cases "f' = f")
      case True
      then show ?thesis using a(2,4) F(2) by (intro exI [of _ F']) auto
    next
      case False
      obtain F0 where "free_list_of (fl_meta ops s) (view s) f' F0" "{p. (f', p) \<in> dom U} = live_pages (fl_meta ops s) f' F0"
        using assms(2) by (rule live_rep_file)
      then have "\<exists>F. free_list_of (fl_meta ops s) (view s) f' F \<and> {p. (f', p) \<in> dom U} = live_pages (fl_meta ops s) f' F" by blast
      then show ?thesis by (rule other_file_kept) (use m(1) [OF False] a(6) False in auto)
    qed
  qed
  moreover have "file_page_count (fl_meta ops s') f = file_page_count (fl_meta ops s) f \<or>
      file_page_count (fl_meta ops s') f = file_page_count (fl_meta ops s) f + 1"
    using m(2) a(7) by blast
  ultimately show "(f, p) \<notin> dom U \<and> live_rep ok (fl_meta ops) view s' (U((f, p) \<mapsto> new_page_buf)) \<and>
      (\<forall>f'. f' \<noteq> f \<longrightarrow> file_page_count (fl_meta ops s') f' = file_page_count (fl_meta ops s) f') \<and>
      (file_page_count (fl_meta ops s') f = file_page_count (fl_meta ops s) f \<or>
       file_page_count (fl_meta ops s') f = file_page_count (fl_meta ops s) f + 1)"
    using new m(1) by blast
  show "p = file_page_count (fl_meta ops s) f \<and> file_page_count (fl_meta ops s') f = p + 1"
    if "\<And>q. q < file_page_count (fl_meta ops s) f \<Longrightarrow> (f, q) \<in> dom U"
  proof -
    have "q \<notin> F" for q using that [of q] F by (auto simp: live_pages_def free_list_of_def set_eq_iff)
    then show ?thesis by (intro m(2)) auto
  qed
qed

lemma free_live:
  assumes "release_page crc ops f p s = (Inr u, s')" "live_rep ok (fl_meta ops) view s U" "(f, p) \<in> dom U"
  shows "live_rep ok (fl_meta ops) view s' (U((f, p) := None)) \<and>
    (\<forall>f'. file_page_count (fl_meta ops s') f' = file_page_count (fl_meta ops s) f')"
proof -
  have ok: "ok s" using live_repD(1) [OF assms(2)] .
  obtain F where F: "free_list_of (fl_meta ops s) (view s) f F" "{p. (f, p) \<in> dom U} = live_pages (fl_meta ops s) f F"
    using assms(2) unfolding live_rep_def by blast
  have p: "p \<in> live_pages (fl_meta ops s) f F" "p \<notin> F" using F(2) assms(3) by (auto simp: live_pages_def)
  have ne: "p \<noteq> FREE_DIRECTORY_EMPTY"
    using p(1) below_marker by (auto simp: live_pages_def FREE_DIRECTORY_EMPTY_def)
  have fp: "free_pages f s F" using F(1) by (simp add: free_list_of_def free_pages_def)
  note a = free_spec [OF assms(1) ok F(1) p(1) ne]
  have same: "same_but f (fl_meta ops s) (fl_meta ops s')" using release_spec [OF assms(1) ok fp p(2) ne] by (simp add: moved_def)
  have "live_rep ok (fl_meta ops) view s' (U((f, p) := None))"
    unfolding live_rep_def
  proof (intro conjI allI)
    show "ok s'" using a by blast
    have "view s' k = Some d" if "U k = Some d" "k \<noteq> (f, p)" for k d
      using a live_repD(2) [OF assms(2) that(1)] that live_not_free [OF F(2) that(1)] by blast
    then show "U((f, p) := None) \<subseteq>\<^sub>m view s'" by (auto simp: map_le_def dom_def)
    show "(U((f, p) := None)) k = Some d \<longrightarrow> length d = PAGE_SIZE" for k d
      using live_repD(3) [OF assms(2)] by auto
    show "\<exists>F. free_list_of (fl_meta ops s') (view s') f' F \<and>
        {q. (f', q) \<in> dom (U((f, p) := None))} = live_pages (fl_meta ops s') f' F" for f'
    proof (cases "f' = f")
      case True
      then show ?thesis using a F(2) by (intro exI [of _ "insert p F"]) auto
    next
      case False
      obtain F0 where "free_list_of (fl_meta ops s) (view s) f' F0" "{p. (f', p) \<in> dom U} = live_pages (fl_meta ops s) f' F0"
        using assms(2) by (rule live_rep_file)
      then have "\<exists>F. free_list_of (fl_meta ops s) (view s) f' F \<and> {p. (f', p) \<in> dom U} = live_pages (fl_meta ops s) f' F" by blast
      then show ?thesis by (rule other_file_kept) (use same a False in \<open>auto simp: same_but_def\<close>)
    qed
  qed
  then show ?thesis using same by (simp add: same_but_def)
qed

end

section \<open>The two backends\<close>

lemma backend_simps [simp]:
  "be_read (memory_backend crc) = mem_read_page" "be_write (memory_backend crc) = mem_write_page"
  "be_allocate (memory_backend crc) = mem_allocate_page crc" "be_free (memory_backend crc) = mem_free_page crc"
  "be_count (memory_backend crc) = mem_page_count"
  "be_read (disk_backend crc) = file_read_page crc" "be_write (disk_backend crc) = file_write_page crc"
  "be_allocate (disk_backend crc) = file_allocate_page crc" "be_free (disk_backend crc) = file_free_page crc"
  "be_count (disk_backend crc) = file_page_count_of"
  by (simp_all add: memory_backend_def disk_backend_def)

abbreviation mem_live :: "mem_backend \<Rightarrow> (page_key \<rightharpoonup> bytes) \<Rightarrow> bool" where
  "mem_live \<equiv> live_rep mem_ok mb_meta mb_pages"

abbreviation disk_live :: "(bytes \<Rightarrow> u32) \<Rightarrow> file_backend \<Rightarrow> (page_key \<rightharpoonup> bytes) \<Rightarrow> bool" where
  "disk_live crc \<equiv> live_rep (file_ok crc) fb_meta (file_view crc)"

lemma mem_live_count: "mem_live s U \<Longrightarrow> mem_page_count s f = file_page_count (mb_meta s) f"
  using live_repD(1) by (fastforce simp: mem_ok_def)

lemma mem_read_live:
  assumes "mem_read_page f p s = (Inr d, s')" "mem_live s U" "U (f, p) = Some e"
  shows "d = e \<and> mem_live s' U"
  using assms live_repD(2) [OF assms(2,3)] by (simp add: mem_read_Inr)

lemma mem_write_live:
  assumes "mem_write_page f p d s = (Inr u, s')" "mem_live s U" "(f, p) \<in> dom U" "page_valid crc f d"
  shows "mem_live s' (U((f, p) \<mapsto> d))"
proof -
  have s': "s' = s\<lparr>mb_pages := (mb_pages s)((f, p) \<mapsto> d)\<rparr>"
    using assms(1) by (simp add: mem_write_page_def mem_put_eq split: if_splits)
  then show ?thesis
    using live_repD(1) [OF assms(2)] assms(3,4)
    by (intro live_after_write [OF assms(2)]) (auto simp: mem_ok_def mem_page_count_def page_valid_def)
qed

lemma mem_steps_count:
  "mem_read_page f p s = (r, s') \<Longrightarrow> mem_page_count s' = mem_page_count s"
  "mem_write_page f p d s = (w, s') \<Longrightarrow> mem_page_count s' = mem_page_count s"
  by (auto simp: mem_write_page_def mem_put_eq mem_page_count_def fun_eq_iff dest: mem_read_state split: if_splits)

interpretation mem: page_backend "memory_backend crc" crc mem_live for crc
proof unfold_locales
  fix s :: mem_backend and U f p
  show "mem_live s U \<Longrightarrow> U (f, p) = Some d \<Longrightarrow> p < be_count (memory_backend crc) s f" for d
    by (simp add: live_repD(4) mem_live_count)
  show "mem_live s U \<Longrightarrow> U (f, p) = Some d \<Longrightarrow> length d = PAGE_SIZE" for d by (rule live_repD(3))
  show "be_read (memory_backend crc) f p s = (Inr d, s') \<Longrightarrow> mem_live s U \<Longrightarrow> U (f, p) = Some e \<Longrightarrow> d = e \<and> mem_live s' U" for d e s'
    unfolding backend_simps by (rule mem_read_live)
  show "be_write (memory_backend crc) f p d s = (Inr u, s') \<Longrightarrow> mem_live s U \<Longrightarrow> (f, p) \<in> dom U \<Longrightarrow> page_valid crc f d \<Longrightarrow>
      mem_live s' (U((f, p) \<mapsto> d))" for d u s'
    unfolding backend_simps by (rule mem_write_live)
  show "be_read (memory_backend crc) f p s = (Inr d, s') \<Longrightarrow> be_count (memory_backend crc) s' = be_count (memory_backend crc) s"
    "be_write (memory_backend crc) f p d s = (Inr u, s') \<Longrightarrow> be_count (memory_backend crc) s' = be_count (memory_backend crc) s" for d u s'
    unfolding backend_simps by (rule mem_steps_count; assumption)+
next
  fix f p and s s' :: mem_backend and U
  assume a: "be_allocate (memory_backend crc) f s = (Inr p, s')" "mem_live s U" "be_count (memory_backend crc) s f + 1 \<noteq> 0"
  have a1: "allocate_with crc mem_ops (\<lambda>f p. mem_put f p new_page_buf) mem_grow f s = (Inr p, s')"
    "file_page_count (mb_meta s) f + 1 \<noteq> 0"
    using a by (simp_all add: mem_allocate_eq mem_live_count)
  note l = mb.allocate_live [OF a1(1), unfolded mem_ops_simps, OF a(2) a1(2)]
  have c: "mem_page_count s f' = file_page_count (mb_meta s) f'" "mem_page_count s' f' = file_page_count (mb_meta s') f'" for f'
    using mem_live_count [OF a(2)] mem_live_count l(1) by blast+
  show "(f, p) \<notin> dom U \<and> mem_live s' (U((f, p) \<mapsto> new_page_buf)) \<and>
      (\<forall>f'. f' \<noteq> f \<longrightarrow> be_count (memory_backend crc) s' f' = be_count (memory_backend crc) s f') \<and>
      (be_count (memory_backend crc) s' f = be_count (memory_backend crc) s f \<or>
       be_count (memory_backend crc) s' f = be_count (memory_backend crc) s f + 1)"
    using l(1) by (simp add: c)
  show "p = be_count (memory_backend crc) s f \<and> be_count (memory_backend crc) s' f = p + 1"
    if "\<And>q. q < be_count (memory_backend crc) s f \<Longrightarrow> (f, q) \<in> dom U"
    using l(2) that by (simp add: c)
next
  fix f p u and s s' :: mem_backend and U
  assume a: "be_free (memory_backend crc) f p s = (Inr u, s')" "mem_live s U" "(f, p) \<in> dom U"
  have "mem_live s' (U((f, p) := None)) \<and> (\<forall>f'. file_page_count (mb_meta s') f' = file_page_count (mb_meta s) f')"
    using mb.free_live [of crc f p s u s' U, unfolded mem_ops_simps] a by (simp add: mem_free_page_def)
  then show "mem_live s' (U((f, p) := None)) \<and> be_count (memory_backend crc) s' = be_count (memory_backend crc) s"
    using mem_live_count [OF a(2)] mem_live_count [of s' "U((f, p) := None)"] by (simp add: fun_eq_iff)
qed

text \<open>The same for the file backend, whose steps the cache serves.\<close>

lemma file_read_parts:
  assumes "file_read_page crc f p s = (Inr d, s')"
  shows "on_pool (get_page crc f p) s = (Inr d, s')"
  using assms by (simp add: file_read_page_def split: if_splits)

lemma file_write_parts:
  assumes "file_write_page crc f p d s = (Inr u, s')"
  shows "file_write_raw crc f p d s = (Inr u, s')"
  using assms by (simp add: file_write_page_def file_write_raw_def split: if_splits)

interpretation disk: page_backend "disk_backend crc" crc "disk_live crc" for crc
proof unfold_locales
  fix s s' :: file_backend and U f p
  show "disk_live crc s U \<Longrightarrow> U (f, p) = Some d \<Longrightarrow> p < be_count (disk_backend crc) s f" for d
    by (simp add: live_repD(4) file_page_count_of_def)
  show "disk_live crc s U \<Longrightarrow> U (f, p) = Some d \<Longrightarrow> length d = PAGE_SIZE" for d by (rule live_repD(3))
  show "d = e \<and> disk_live crc s' U" if "be_read (disk_backend crc) f p s = (Inr d, s')" "disk_live crc s U" "U (f, p) = Some e" for d e
  proof -
    have r: "on_pool (get_page crc f p) s = (Inr d, s')" using that(1) by (simp add: file_read_parts)
    note k = file_read_law [OF r live_repD(1) [OF that(2)]]
    have k: "file_ok crc s'" "fb_meta s' = fb_meta s" "file_view crc s \<subseteq>\<^sub>m file_view crc s'" "file_view crc s' (f, p) = Some d"
      using k by simp_all
    have "file_view crc s' (f, p) = Some e" using live_repD(2) [OF that(2,3)] map_leD [OF k(3)] by blast
    then show ?thesis using k live_after_read [OF that(2) k(1,2,3)] by simp
  qed
  show "be_read (disk_backend crc) f p s = (Inr d, s') \<Longrightarrow> be_count (disk_backend crc) s' = be_count (disk_backend crc) s" for d
    using on_pool_meta [OF file_read_parts, of crc f p s d s'] by (simp add: file_page_count_of_def fun_eq_iff)
  show "disk_live crc s' (U((f, p) \<mapsto> d))"
    if "be_write (disk_backend crc) f p d s = (Inr u, s')" "disk_live crc s U" "(f, p) \<in> dom U" "page_valid crc f d" for d u
  proof -
    have w: "file_write_raw crc f p d s = (Inr u, s')" using that(1) by (simp add: file_write_parts)
    note k = file_write_law [OF w live_repD(1) [OF that(2)] that(4)]
    show ?thesis
      using that(4) by (intro live_after_write [OF that(2) k(1) file_write_meta [OF w] k(2) k(3) that(3)])
        (simp_all add: page_valid_def)
  qed
  show "be_write (disk_backend crc) f p d s = (Inr u, s') \<Longrightarrow> be_count (disk_backend crc) s' = be_count (disk_backend crc) s" for d u
    using file_write_meta [OF file_write_parts, of crc f p d s u s'] by (simp add: file_page_count_of_def fun_eq_iff)
next
  fix f p and s s' :: file_backend and U
  assume a: "be_allocate (disk_backend crc) f s = (Inr p, s')" "disk_live crc s U" "be_count (disk_backend crc) s f + 1 \<noteq> 0"
  have a1: "allocate_with crc (file_ops crc) (\<lambda>f p. on_pool (pool_put_page f p new_page_buf)) file_grow f s = (Inr p, s')"
    "file_page_count (fb_meta s) f + 1 \<noteq> 0"
    using a by (simp_all add: file_allocate_eq file_page_count_of_def)
  note l = fb.allocate_live [OF a1(1), unfolded file_ops_simps, OF a(2) a1(2)]
  show "(f, p) \<notin> dom U \<and> disk_live crc s' (U((f, p) \<mapsto> new_page_buf)) \<and>
      (\<forall>f'. f' \<noteq> f \<longrightarrow> be_count (disk_backend crc) s' f' = be_count (disk_backend crc) s f') \<and>
      (be_count (disk_backend crc) s' f = be_count (disk_backend crc) s f \<or>
       be_count (disk_backend crc) s' f = be_count (disk_backend crc) s f + 1)"
    using l(1) by (simp add: file_page_count_of_def)
  show "p = be_count (disk_backend crc) s f \<and> be_count (disk_backend crc) s' f = p + 1"
    if "\<And>q. q < be_count (disk_backend crc) s f \<Longrightarrow> (f, q) \<in> dom U"
    using l(2) that by (simp add: file_page_count_of_def)
next
  fix f p u and s s' :: file_backend and U
  assume a: "be_free (disk_backend crc) f p s = (Inr u, s')" "disk_live crc s U" "(f, p) \<in> dom U"
  have "disk_live crc s' (U((f, p) := None)) \<and> (\<forall>f'. file_page_count (fb_meta s') f' = file_page_count (fb_meta s) f')"
    using fb.free_live [of crc f p s u s' U, unfolded file_ops_simps] a by (simp add: file_free_page_def)
  then show "disk_live crc s' (U((f, p) := None)) \<and> be_count (disk_backend crc) s' = be_count (disk_backend crc) s"
    by (simp add: file_page_count_of_def fun_eq_iff)
qed

text \<open>A new store has no live page.\<close>

lemma new_stores_live: "mem_live mem_new Map.empty" "disk_live crc empty_files Map.empty"
proof -
  have "file_page_count meta_new f = 0" for f by (cases f) (simp_all add: meta_new_def)
  then have "{p. (f, p) \<in> dom (Map.empty :: page_key \<rightharpoonup> bytes)} = live_pages meta_new f {}" for f by (simp add: live_pages_def)
  then have live: "\<exists>F. free_list_of meta_new V f F \<and> {p. (f, p) \<in> dom (Map.empty :: page_key \<rightharpoonup> bytes)} = live_pages meta_new f F" for V f
    using new_free_list by blast
  show "mem_live mem_new Map.empty"
    using new_stores_related(2) live unfolding live_rep_def by (simp add: mem_new_def)
  show "disk_live crc empty_files Map.empty"
    using new_stores_related(3) live unfolding live_rep_def by (simp add: empty_files_def)
qed

section \<open>Files that only grow\<close>

text \<open>A file without free pages, and a change that is confined to one file.\<close>

definition file_dense :: "'s backend \<Rightarrow> 's \<Rightarrow> (page_key \<rightharpoonup> bytes) \<Rightarrow> data_file \<Rightarrow> bool" where
  "file_dense be s U f \<longleftrightarrow> (\<forall>p. (f, p) \<in> dom U \<longleftrightarrow> p < be_count be s f)"

definition file_only :: "'s backend \<Rightarrow> data_file \<Rightarrow> 's \<Rightarrow> (page_key \<rightharpoonup> bytes) \<Rightarrow> 's \<Rightarrow> (page_key \<rightharpoonup> bytes) \<Rightarrow> bool" where
  "file_only be f s U s' U' \<longleftrightarrow> (\<forall>f' p. f' \<noteq> f \<longrightarrow> U' (f', p) = U (f', p)) \<and> (\<forall>f'. f' \<noteq> f \<longrightarrow> be_count be s' f' = be_count be s f')"

lemma file_only_trans: "file_only be f s U s1 U1 \<Longrightarrow> file_only be f s1 U1 s2 U2 \<Longrightarrow> file_only be f s U s2 U2"
  by (simp add: file_only_def)

lemma file_only_upd: "be_count be s' = be_count be s \<Longrightarrow> file_only be f s U s' (U((f, p) := v))"
  by (simp add: file_only_def)

context page_backend
begin

lemma grow_dense:
  assumes "be_allocate be f s = (Inr p, s1)" "rep s U" "file_dense be s U f" "be_count be s f \<le> idx" "idx + 1 \<noteq> 0"
  defines "U1 \<equiv> U((f, p) \<mapsto> new_page_buf)"
  shows "rep s1 U1" "p = be_count be s f" "unat (be_count be s1 f) = Suc (unat (be_count be s f))"
    "file_dense be s1 U1 f" "file_only be f s U s1 U1"
    "Suc (unat idx) - unat (be_count be s1 f) < Suc (unat idx) - unat (be_count be s f)"
proof -
  let ?c = "be_count be s f"
  have c: "?c + 1 \<noteq> 0"
  proof
    assume "?c + 1 = 0"
    then have "?c = - 1" by (simp add: eq_neg_iff_add_eq_0)
    then have "idx = - 1" using assms(4) word_order.extremum_unique by metis
    then show False using assms(5) by simp
  qed
  have all: "(f, q) \<in> dom U" if "q < ?c" for q using assms(3) that by (simp add: file_dense_def)
  have l: "rep s1 U1" "\<forall>f'. f' \<noteq> f \<longrightarrow> be_count be s1 f' = be_count be s f'" "p = ?c" "be_count be s1 f = ?c + 1"
    using allocate_law(1) [OF assms(1,2) c] allocate_law(2) [OF assms(1,2) c all] unfolding U1_def by blast+
  then show "rep s1 U1" "p = ?c" by blast+
  show n: "unat (be_count be s1 f) = Suc (unat ?c)" unfolding l(4) using c unatSuc [of ?c] by (simp add: add.commute)
  show "file_dense be s1 U1 f" using assms(3) l(3,4) less_succ [OF c] by (auto simp: file_dense_def U1_def)
  show "file_only be f s U s1 U1" using l(2) by (simp add: file_only_def U1_def)
  show "Suc (unat idx) - unat (be_count be s1 f) < Suc (unat idx) - unat ?c" using assms(4) n by (simp add: word_le_nat_alt)
qed

end

section \<open>A backend that does not fail\<close>

text \<open>
  On a store without I/O errors every operation on a live page returns, and an allocation does as long as the file can grow. A read
  leaves the store as it is even when it reports an error, so code that ignores such an error can go on.
\<close>

locale reliable_backend = page_backend be crc rep
  for be :: "'s backend" and crc rep +
  assumes read_total: "rep s U \<Longrightarrow> U (f, p) = Some d \<Longrightarrow> \<exists>s'. be_read be f p s = (Inr d, s')"
    and read_keeps: "rep s U \<Longrightarrow> be_read be f p s = (r, s') \<Longrightarrow> rep s' U \<and> be_count be s' = be_count be s"
    and write_total: "rep s U \<Longrightarrow> (f, p) \<in> dom U \<Longrightarrow> \<exists>s'. be_write be f p d s = (Inr (), s')"
    and allocate_total: "rep s U \<Longrightarrow> \<exists>p s'. be_allocate be f s = (Inr p, s')"
    and free_total: "rep s U \<Longrightarrow> (f, p) \<in> dom U \<Longrightarrow> \<exists>s'. be_free be f p s = (Inr (), s')"

lemma directory_encode_total: "length (fd_entries d) \<le> ENTRIES_PER_PAGE \<Longrightarrow> \<exists>page. directory_encode crc magic d = Inr page"
  by (simp add: directory_encode_def Let_def)

lemma mem_write_directory_total:
  assumes "length (fd_entries d) \<le> ENTRIES_PER_PAGE"
  shows "\<exists>page. write_directory crc mem_ops f p d = mem_put f p page"
  using directory_encode_total [OF assms, of crc "file_magic f"] by (auto simp: write_directory_def sbind_def fun_eq_iff mem_put_eq)

lemma mem_read_directory:
  assumes "directory_at (mb_pages s) f p = Some d"
  shows "read_directory mem_ops f p s = (Inr d, s)" "length (fd_entries d) \<le> ENTRIES_PER_PAGE"
proof -
  obtain buf where b: "mb_pages s (f, p) = Some buf" "directory_decode f p buf = Inr d"
    using assms by (auto simp: directory_at_def split: option.splits sum.splits)
  then show "read_directory mem_ops f p s = (Inr d, s)" by (simp add: read_directory_def mem_read_page_def sbind_def)
  show "length (fd_entries d) \<le> ENTRIES_PER_PAGE"
    using b(2) by (auto simp: directory_decode_def Let_def length_get_u32s split: if_splits)
qed

text \<open>The directory at the head of a well-formed free list.\<close>

lemma live_directory:
  assumes "mem_live s U" "free_directory_head (mb_meta s) f \<noteq> FREE_DIRECTORY_EMPTY"
  obtains d where "directory_at (mb_pages s) f (free_directory_head (mb_meta s) f) = Some d"
proof -
  obtain F where "free_list_of (mb_meta s) (mb_pages s) f F" using assms(1) by (rule live_rep_file)
  then obtain ds where "dir_chain (mb_pages s) f (free_directory_head (mb_meta s) f) ds"
    by (auto simp: free_list_of_def free_set_def free_list_ok_def)
  then show thesis using that assms(2) by (cases ds) (auto split: option.splits)
qed

lemmas mem_step_simps = sbind_def modify_meta_def decrement_free_count_def increment_free_count_def mem_put_eq

lemma mem_take_total:
  assumes "mem_live s U"
  shows "\<exists>r s'. take_free_page crc mem_ops f s = (Inr r, s')"
proof (cases "free_spare_page (mb_meta s) f = FREE_SPARE_EMPTY \<and> free_directory_head (mb_meta s) f \<noteq> FREE_DIRECTORY_EMPTY")
  case False
  then show ?thesis by (auto simp: take_free_page_def Let_def mem_step_simps)
next
  case True
  let ?h = "free_directory_head (mb_meta s) f"
  obtain d where d: "directory_at (mb_pages s) f ?h = Some d" using assms True by (auto elim: live_directory)
  note rd = mem_read_directory [OF d]
  have "length (butlast (fd_entries d)) \<le> ENTRIES_PER_PAGE" using rd(2) by simp
  then obtain page where "write_directory crc mem_ops f ?h (d\<lparr>fd_entries := butlast (fd_entries d)\<rparr>) = mem_put f ?h page"
    using mem_write_directory_total [of "d\<lparr>fd_entries := butlast (fd_entries d)\<rparr>" crc f ?h] by auto
  then show ?thesis using True rd(1) by (simp add: take_free_page_def Let_def mem_step_simps)
qed

lemma mem_release_total:
  assumes "mem_live s U"
  shows "\<exists>s'. release_page crc mem_ops f p s = (Inr (), s')"
proof (cases "free_spare_page (mb_meta s) f = FREE_SPARE_EMPTY \<or> free_directory_head (mb_meta s) f = FREE_DIRECTORY_EMPTY")
  case True
  obtain page where "write_directory crc mem_ops f p directory_empty = mem_put f p page"
    using mem_write_directory_total [of directory_empty crc f p] by (auto simp: directory_empty_def)
  with True show ?thesis by (auto simp: release_page_def Let_def mem_step_simps)
next
  case False
  let ?h = "free_directory_head (mb_meta s) f"
  obtain d where d: "directory_at (mb_pages s) f ?h = Some d" using assms False by (auto elim: live_directory)
  note rd = mem_read_directory [OF d]
  obtain page where pg: "write_directory crc mem_ops f p \<lparr>fd_next = ?h, fd_entries = []\<rparr> = mem_put f p page"
    using mem_write_directory_total [of "\<lparr>fd_next = ?h, fd_entries = []\<rparr>" crc f p] by auto
  have "\<exists>page. write_directory crc mem_ops f ?h (d\<lparr>fd_entries := fd_entries d @ [p]\<rparr>) = mem_put f ?h page" if "has_room d"
    using mem_write_directory_total [of "d\<lparr>fd_entries := fd_entries d @ [p]\<rparr>" crc f ?h] that by (simp add: has_room_def)
  then show ?thesis using False rd(1) pg by (auto simp: release_page_def Let_def mem_step_simps)
qed

interpretation mem: reliable_backend "memory_backend crc" crc mem_live for crc
proof unfold_locales
  fix s :: mem_backend and U f p
  show "\<exists>s'. be_read (memory_backend crc) f p s = (Inr d, s')" if "mem_live s U" "U (f, p) = Some d" for d
    using live_repD(2) [OF that] by (auto simp: mem_read_page_def)
  show "mem_live s' U \<and> be_count (memory_backend crc) s' = be_count (memory_backend crc) s"
    if "mem_live s U" "be_read (memory_backend crc) f p s = (r, s')" for r s'
    using that mem_read_state by fastforce
  show "\<exists>s'. be_write (memory_backend crc) f p d s = (Inr (), s')" if "mem_live s U" "(f, p) \<in> dom U" for d
    using mem.live_counted [of s U f p _ crc] that by (auto simp: mem_write_page_def mem_put_eq not_le)
  show "\<exists>p s'. be_allocate (memory_backend crc) f s = (Inr p, s')" if "mem_live s U"
    using mem_take_total [OF that, of crc f]
    by (auto simp: mem_allocate_page_def sbind_def mem_put_eq mem_grow_def Let_def split: option.splits)
  show "\<exists>s'. be_free (memory_backend crc) f p s = (Inr (), s')" if "mem_live s U" "(f, p) \<in> dom U"
    using mem_release_total [OF that(1)] by (simp add: mem_free_page_def)
qed

section \<open>Pages beyond the end of a file\<close>

text \<open>A read beyond the page count fails. In memory this needs that no page was ever written there.\<close>

locale ranged_backend = reliable_backend be crc rep
  for be :: "'s backend" and crc rep +
  assumes read_range: "rep s U \<Longrightarrow> be_count be s f \<le> p \<Longrightarrow> \<exists>e s'. be_read be f p s = (Inl e, s')"

definition mem_keys :: "mem_backend \<Rightarrow> page_key set" where
  "mem_keys s = dom (mb_pages s)"

definition mem_range :: "mem_backend \<Rightarrow> bool" where
  "mem_range s \<longleftrightarrow> (\<forall>f p. (f, p) \<in> mem_keys s \<longrightarrow> p < mem_page_count s f)"

definition mem_store :: "mem_backend \<Rightarrow> (page_key \<rightharpoonup> bytes) \<Rightarrow> bool" where
  "mem_store s U \<longleftrightarrow> mem_live s U \<and> mem_range s"

lemma mem_write_directory_Inr:
  "write_directory crc mem_ops f p d s = (Inr u, s') \<Longrightarrow> mb_page_counts s' = mb_page_counts s \<and> mem_keys s' = insert (f, p) (mem_keys s)"
  by (auto simp: write_directory_def sbind_eq_Inr mem_put_eq mem_ops_def mem_keys_def)

lemma mem_read_directory_Inr: "read_directory mem_ops f p s = (Inr d, s') \<Longrightarrow> s' = s \<and> (f, p) \<in> mem_keys s"
  by (auto simp: read_directory_def sbind_eq_Inr mem_ops_def mem_read_Inr mem_keys_def)

lemma mem_meta_Inr:
  "modify_meta mem_ops h s = (Inr u, s') \<Longrightarrow> mb_page_counts s' = mb_page_counts s \<and> mem_keys s' = mem_keys s"
  "decrement_free_count mem_ops f s = (Inr u, s') \<Longrightarrow> mb_page_counts s' = mb_page_counts s \<and> mem_keys s' = mem_keys s"
  "increment_free_count mem_ops f s = (Inr u, s') \<Longrightarrow> mb_page_counts s' = mb_page_counts s \<and> mem_keys s' = mem_keys s"
  by (auto simp: modify_meta_def decrement_free_count_def increment_free_count_def mem_ops_def mem_keys_def)

lemma mem_take_Inr:
  assumes "take_free_page crc mem_ops f s = (Inr r, s')"
  shows "mb_page_counts s' = mb_page_counts s \<and> mem_keys s' = mem_keys s"
  using assms
  by (auto simp: take_free_page_def Let_def sbind_eq_Inr mem_ops_simps split: if_splits
      dest!: mem_meta_Inr mem_write_directory_Inr mem_read_directory_Inr)

lemma mem_release_Inr:
  assumes "release_page crc mem_ops f p s = (Inr u, s')"
  shows "mb_page_counts s' = mb_page_counts s \<and> mem_keys s' \<subseteq> insert (f, p) (mem_keys s)"
  using assms
  by (auto simp: release_page_def Let_def sbind_eq_Inr mem_ops_simps split: if_splits
      dest!: mem_meta_Inr mem_write_directory_Inr mem_read_directory_Inr)

lemma mem_allocate_keys:
  assumes "mem_allocate_page crc f s = (Inr p, s')"
  shows "mem_keys s' \<subseteq> insert (f, p) (mem_keys s)"
proof -
  obtain r s1 where t: "take_free_page crc mem_ops f s = (Inr r, s1)"
      "(case r of Some q \<Rightarrow> sbind (mem_put f q new_page_buf) (\<lambda>_. sret q) | None \<Rightarrow> mem_grow f) s1 = (Inr p, s')"
    using assms by (auto simp: mem_allocate_page_def sbind_eq_Inr)
  then show ?thesis using mem_take_Inr [OF t(1)]
    by (cases r) (auto simp: sbind_eq_Inr mem_put_eq mem_grow_def Let_def mem_keys_def)
qed

lemma mem_range_write: "mem_write_page f p d s = (r, s') \<Longrightarrow> mem_range s \<Longrightarrow> mem_range s'"
  by (auto simp: mem_write_page_def mem_put_eq mem_range_def mem_keys_def mem_page_count_def not_le dom_def split: if_splits)

interpretation ram: ranged_backend "memory_backend crc" crc mem_store for crc
proof unfold_locales
  fix s s' :: mem_backend and U f p
  show "mem_store s U \<Longrightarrow> U (f, p) = Some d \<Longrightarrow> p < be_count (memory_backend crc) s f" for d
    using mem.live_counted unfolding mem_store_def by blast
  show "mem_store s U \<Longrightarrow> U (f, p) = Some d \<Longrightarrow> length d = PAGE_SIZE" for d using mem.live_sized unfolding mem_store_def backend_simps by blast
  show "be_read (memory_backend crc) f p s = (Inr d, s') \<Longrightarrow> mem_store s U \<Longrightarrow> U (f, p) = Some e \<Longrightarrow> d = e \<and> mem_store s' U" for d e
    using mem.read_law(1) mem_read_state by (fastforce simp: mem_store_def)
  show "be_read (memory_backend crc) f p s = (Inr d, s') \<Longrightarrow> be_count (memory_backend crc) s' = be_count (memory_backend crc) s" for d
    by (rule mem.read_law(2))
  show "be_write (memory_backend crc) f p d s = (Inr u, s') \<Longrightarrow> mem_store s U \<Longrightarrow> (f, p) \<in> dom U \<Longrightarrow> page_valid crc f d \<Longrightarrow>
      mem_store s' (U((f, p) \<mapsto> d))" for d u
    using mem.write_law(1) mem_range_write unfolding mem_store_def backend_simps by blast
  show "be_write (memory_backend crc) f p d s = (Inr u, s') \<Longrightarrow> be_count (memory_backend crc) s' = be_count (memory_backend crc) s" for d u
    by (rule mem.write_law(2))
  show "\<exists>s'. be_read (memory_backend crc) f p s = (Inr d, s')" if "mem_store s U" "U (f, p) = Some d" for d
    using mem.read_total that unfolding mem_store_def by blast
  show "mem_store s' U \<and> be_count (memory_backend crc) s' = be_count (memory_backend crc) s"
    if "mem_store s U" "be_read (memory_backend crc) f p s = (r, s')" for r
    using mem.read_keeps that mem_read_state by (fastforce simp: mem_store_def)
  show "\<exists>s'. be_write (memory_backend crc) f p d s = (Inr (), s')" if "mem_store s U" "(f, p) \<in> dom U" for d
    using mem.write_total that unfolding mem_store_def by blast
  show "\<exists>p s'. be_allocate (memory_backend crc) f s = (Inr p, s')" if "mem_store s U"
    using mem.allocate_total that unfolding mem_store_def by blast
  show "\<exists>s'. be_free (memory_backend crc) f p s = (Inr (), s')" if "mem_store s U" "(f, p) \<in> dom U"
    using mem.free_total that unfolding mem_store_def by blast
  show "\<exists>e s'. be_read (memory_backend crc) f p s = (Inl e, s')" if "mem_store s U" "be_count (memory_backend crc) s f \<le> p"
  proof -
    have "\<not> p < mem_page_count s f" using that(2) by simp
    then have "mb_pages s (f, p) = None" using that(1) unfolding mem_store_def mem_range_def mem_keys_def by blast
    then show ?thesis by (simp add: mem_read_page_def)
  qed
next
  fix f p and s s' :: mem_backend and U
  assume a: "be_allocate (memory_backend crc) f s = (Inr p, s')" "mem_store s U" "be_count (memory_backend crc) s f + 1 \<noteq> 0"
  have lv: "mem_live s U" "mem_range s" using a(2) by (simp_all add: mem_store_def)
  note l = mem.allocate_law(1) [OF a(1) lv(1) a(3)]
  have keys: "mem_keys s' \<subseteq> insert (f, p) (mem_keys s)" using a(1) mem_allocate_keys by simp
  have le: "mem_page_count s f' \<le> mem_page_count s' f'" for f'
    using l a(3) less_succ [of "mem_page_count s f"] by (cases "f' = f") (auto simp: le_less)
  have "q < mem_page_count s' f'" if "(f', q) \<in> mem_keys s'" for f' q
  proof (cases "(f', q) = (f, p)")
    case True
    then show ?thesis using l mem.live_counted [of s' "U((f, p) \<mapsto> new_page_buf)" f p] by simp
  next
    case False
    then have "q < mem_page_count s f'" using that keys lv(2) unfolding mem_range_def by blast
    then show ?thesis using le order.strict_trans2 by blast
  qed
  then have "mem_range s'" by (simp add: mem_range_def)
  then show "(f, p) \<notin> dom U \<and> mem_store s' (U((f, p) \<mapsto> new_page_buf)) \<and>
      (\<forall>f'. f' \<noteq> f \<longrightarrow> be_count (memory_backend crc) s' f' = be_count (memory_backend crc) s f') \<and>
      (be_count (memory_backend crc) s' f = be_count (memory_backend crc) s f \<or>
       be_count (memory_backend crc) s' f = be_count (memory_backend crc) s f + 1)" using l by (simp add: mem_store_def)
  show "p = be_count (memory_backend crc) s f \<and> be_count (memory_backend crc) s' f = p + 1"
    if "\<And>q. q < be_count (memory_backend crc) s f \<Longrightarrow> (f, q) \<in> dom U"
    by (rule mem.allocate_law(2) [OF a(1) lv(1) a(3) that])
next
  fix f p u and s s' :: mem_backend and U
  assume a: "be_free (memory_backend crc) f p s = (Inr u, s')" "mem_store s U" "(f, p) \<in> dom U"
  have lv: "mem_live s U" "mem_range s" using a(2) by (simp_all add: mem_store_def)
  have r: "mb_page_counts s' = mb_page_counts s" "mem_keys s' \<subseteq> insert (f, p) (mem_keys s)"
    using mem_release_Inr [of crc f p s u s'] a(1) by (simp_all add: mem_free_page_def)
  have "(f, p) \<in> mem_keys s" using live_repD(2) [OF lv(1)] a(3) by (auto simp: mem_keys_def)
  then have "mem_range s'" using r lv(2) unfolding mem_range_def mem_page_count_def by auto
  then show "mem_store s' (U((f, p) := None)) \<and> be_count (memory_backend crc) s' = be_count (memory_backend crc) s"
    using mem.free_law [OF a(1) lv(1) a(3)] by (simp add: mem_store_def)
qed

lemma new_store: "mem_store mem_new Map.empty"
  using new_stores_live(1) by (simp add: mem_store_def mem_range_def mem_keys_def mem_new_def)

end
