(* ===== verification/Overflow_Chain.thy ===== *)
theory Overflow_Chain
  imports Page_Store
begin

text \<open>
  Blobs that do not fit a slot: the chained overflow pages of \<^verbatim>\<open>storage/codec/overflow_codec.rs\<close>. The functions are
  written against the \<^verbatim>\<open>StorageBackend\<close> trait (\<open>backend\<close>); their lemmas are proved in its locales and hold for both backends.
\<close>

section \<open>The codec\<close>

definition NO_NEXT :: u32 where "NO_NEXT = 0xFFFFFFFF"
definition FIRST_PAGE_DATA_CAP :: nat where "FIRST_PAGE_DATA_CAP = PAGE_PAYLOAD_SIZE - 4 - 4"
definition CONT_PAGE_DATA_CAP :: nat where "CONT_PAGE_DATA_CAP = PAGE_PAYLOAD_SIZE - 4"

definition first_page_buf :: "(bytes \<Rightarrow> u32) \<Rightarrow> u32 \<Rightarrow> bytes \<Rightarrow> u32 \<Rightarrow> bytes" where
  "first_page_buf crc total_len blob next =
     (let p = PAGE_HEADER_SIZE;
          b1 = splice p (le32 total_len) new_page_buf;
          b2 = splice (p + 4) blob b1;
          b3 = splice (p + 4076) (le32 next) b2
      in finalize_page crc (file_magic Overflow) 1 OverflowPage 0 b3)"

definition write_first_page ::
  "(bytes \<Rightarrow> u32) \<Rightarrow> 's backend \<Rightarrow> u32 \<Rightarrow> u32 \<Rightarrow> bytes \<Rightarrow> u32 \<Rightarrow> ('s, storage_error, unit) step" where
  "write_first_page crc be pid total_len blob next = be_write be Overflow pid (first_page_buf crc total_len blob next)"

definition cont_page_buf :: "(bytes \<Rightarrow> u32) \<Rightarrow> bytes \<Rightarrow> u32 \<Rightarrow> bytes" where
  "cont_page_buf crc blob next =
     (let p = PAGE_HEADER_SIZE;
          b1 = splice p (le32 next) new_page_buf;
          b2 = splice (p + 4) blob b1
      in finalize_page crc (file_magic Overflow) 1 OverflowPage 0 b2)"

definition write_cont_page ::
  "(bytes \<Rightarrow> u32) \<Rightarrow> 's backend \<Rightarrow> u32 \<Rightarrow> bytes \<Rightarrow> u32 \<Rightarrow> ('s, storage_error, unit) step" where
  "write_cont_page crc be pid blob next = be_write be Overflow pid (cont_page_buf crc blob next)"

text \<open>The loop over the continuation pages; every turn stores at least one byte.\<close>

function write_cont_pages ::
  "(bytes \<Rightarrow> u32) \<Rightarrow> 's backend \<Rightarrow> u32 \<Rightarrow> bytes \<Rightarrow> ('s, storage_error, unit) step" where
  "write_cont_pages crc be cur remaining =
     (if remaining = [] then sret ()
      else
        let chunk = take CONT_PAGE_DATA_CAP remaining; rest = drop CONT_PAGE_DATA_CAP remaining in
        sbind (if rest = [] then sret NO_NEXT else be_allocate be Overflow) (\<lambda>next.
        sbind (write_cont_page crc be cur chunk next) (\<lambda>_. write_cont_pages crc be next rest)))"
  by pat_completeness auto
termination
  by (relation "measure (\<lambda>(_, _, _, remaining). length remaining)")
    (auto simp: CONT_PAGE_DATA_CAP_def PAGE_PAYLOAD_SIZE_def PAGE_SIZE_def PAGE_HEADER_SIZE_def)

declare write_cont_pages.simps [simp del]

definition write_overflow :: "(bytes \<Rightarrow> u32) \<Rightarrow> 's backend \<Rightarrow> bytes \<Rightarrow> ('s, storage_error, u32) step" where
  "write_overflow crc be blob =
     (if length blob \<ge> 2 ^ 32 then sfail (RecordTooLarge (length blob))
      else
        let total_len = word_of_nat (length blob) in
        sbind (be_allocate be Overflow) (\<lambda>first_page_id.
        let first_chunk = take FIRST_PAGE_DATA_CAP blob; remaining = drop FIRST_PAGE_DATA_CAP blob;
            needs_continuation = remaining \<noteq> [] in
        sbind (if needs_continuation then be_allocate be Overflow else sret NO_NEXT) (\<lambda>next_page_id.
        sbind (write_first_page crc be first_page_id total_len first_chunk next_page_id) (\<lambda>_.
        if \<not> needs_continuation then sret first_page_id
        else sbind (write_cont_pages crc be next_page_id remaining) (\<lambda>_. sret first_page_id)))))"

text \<open>
  The reading loop. \<open>remaining\<close> is \<^verbatim>\<open>total_len - result.len()\<close>; the loop runs while there is a next page and something is
  missing.
\<close>

function read_cont_pages :: "'s backend \<Rightarrow> nat \<Rightarrow> u32 \<Rightarrow> bytes \<Rightarrow> ('s, storage_error, bytes) step" where
  "read_cont_pages be remaining current_next result =
     (if current_next \<noteq> NO_NEXT \<and> remaining > 0 then
        sbind (be_read be Overflow current_next) (\<lambda>page.
          let payload = drop PAGE_HEADER_SIZE page;
              next = word_of_nat (le_nat (subslice 0 4 payload));
              chunk_len = min remaining CONT_PAGE_DATA_CAP in
          read_cont_pages be (remaining - chunk_len) next (result @ subslice 4 chunk_len payload))
      else sret result)"
  by pat_completeness auto
termination
  by (relation "measure (\<lambda>(_, remaining, _, _). remaining)")
    (auto simp: CONT_PAGE_DATA_CAP_def PAGE_PAYLOAD_SIZE_def PAGE_SIZE_def PAGE_HEADER_SIZE_def)

declare read_cont_pages.simps [simp del]

definition read_overflow :: "'s backend \<Rightarrow> u32 \<Rightarrow> ('s, storage_error, bytes) step" where
  "read_overflow be first_page =
     sbind (be_read be Overflow first_page) (\<lambda>page.
       let payload = drop PAGE_HEADER_SIZE page;
           total_len = le_nat (subslice 0 4 payload);
           next_page = word_of_nat (le_nat (subslice 4076 4 payload));
           first_data_len = min total_len FIRST_PAGE_DATA_CAP in
       read_cont_pages be (total_len - first_data_len) next_page (subslice 4 first_data_len payload))"

text \<open>
  The pages of a chain. The walk stops at a page that cannot be read, at the end of the chain, and when it has seen more pages than
  the file has (\<open>pages\<close>, read once: a read does not change it).
\<close>

function collect_chain :: "'s backend \<Rightarrow> nat \<Rightarrow> u32 \<Rightarrow> u32 list \<Rightarrow> ('s, storage_error, u32 list) step" where
  "collect_chain be pages current to_free s =
     (case be_read be Overflow current s of
        (Inl _, s') \<Rightarrow> (Inr to_free, s')
      | (Inr page, s') \<Rightarrow>
          let payload = drop PAGE_HEADER_SIZE page;
              next = (if to_free = [] then word_of_nat (le_nat (subslice 4076 4 payload))
                      else word_of_nat (le_nat (subslice 0 4 payload)));
              to_free' = to_free @ [current] in
          if next = NO_NEXT then (Inr to_free', s')
          else if length to_free' > pages then (Inr to_free', s')
          else collect_chain be pages next to_free' s')"
  by pat_completeness auto
termination
  by (relation "measure (\<lambda>(_, pages, _, to_free, _). Suc pages - length to_free)") auto

declare collect_chain.simps [simp del]

definition free_overflow_chain :: "'s backend \<Rightarrow> u32 \<Rightarrow> ('s, storage_error, unit) step" where
  "free_overflow_chain be first_page s =
     sbind (collect_chain be (unat (be_count be s Overflow)) first_page []) (siter (be_free be Overflow)) s"

section \<open>Pages of a chain\<close>

lemmas page_consts = PAGE_SIZE_def PAGE_HEADER_SIZE_def PAGE_PAYLOAD_SIZE_def FIRST_PAGE_DATA_CAP_def CONT_PAGE_DATA_CAP_def

lemma first_page_fields:
  assumes "length blob \<le> 4072"
  shows "page_valid crc Overflow (first_page_buf crc total_len blob nxt)"
    "subslice 0 4 (drop 16 (first_page_buf crc total_len blob nxt)) = le32 total_len"
    "subslice 4 (length blob) (drop 16 (first_page_buf crc total_len blob nxt)) = blob"
    "subslice 4076 4 (drop 16 (first_page_buf crc total_len blob nxt)) = le32 nxt"
    "ph_page_type (header_read (first_page_buf crc total_len blob nxt)) = page_type_code OverflowPage"
proof -
  define b where "b = splice 4092 (le32 nxt) (splice 20 blob (splice 16 (le32 total_len) new_page_buf))"
  have buf: "first_page_buf crc total_len blob nxt = finalize_page crc (file_magic Overflow) 1 OverflowPage 0 b"
    by (simp add: first_page_buf_def Let_def page_consts b_def)
  have len: "length b = PAGE_SIZE" using assms by (simp add: b_def PAGE_SIZE_def)
  note f = finalized_page [OF len, of crc Overflow 1 OverflowPage 0, folded buf]
  show "page_valid crc Overflow (first_page_buf crc total_len blob nxt)"
    "ph_page_type (header_read (first_page_buf crc total_len blob nxt)) = page_type_code OverflowPage" using f by blast+
  have sub: "subslice o' n (drop 16 b) = subslice (16 + o') n b" for o' n by (simp add: subslice_def add.commute)
  show "subslice 0 4 (drop 16 (first_page_buf crc total_len blob nxt)) = le32 total_len"
    "subslice 4 (length blob) (drop 16 (first_page_buf crc total_len blob nxt)) = blob"
    "subslice 4076 4 (drop 16 (first_page_buf crc total_len blob nxt)) = le32 nxt"
    using assms unfolding f(2) sub by (simp_all add: b_def subslice_splice_other PAGE_SIZE_def)
qed

lemma cont_page_fields:
  assumes "length blob \<le> 4076"
  shows "page_valid crc Overflow (cont_page_buf crc blob nxt)"
    "subslice 0 4 (drop 16 (cont_page_buf crc blob nxt)) = le32 nxt"
    "subslice 4 (length blob) (drop 16 (cont_page_buf crc blob nxt)) = blob"
proof -
  define b where "b = splice 20 blob (splice 16 (le32 nxt) new_page_buf)"
  have buf: "cont_page_buf crc blob nxt = finalize_page crc (file_magic Overflow) 1 OverflowPage 0 b"
    by (simp add: cont_page_buf_def Let_def page_consts b_def)
  have len: "length b = PAGE_SIZE" using assms by (simp add: b_def PAGE_SIZE_def)
  note f = finalized_page [OF len, of crc Overflow 1 OverflowPage 0, folded buf]
  show "page_valid crc Overflow (cont_page_buf crc blob nxt)" by (rule f(1))
  have sub: "subslice o' n (drop 16 b) = subslice (16 + o') n b" for o' n by (simp add: subslice_def add.commute)
  show "subslice 0 4 (drop 16 (cont_page_buf crc blob nxt)) = le32 nxt"
    "subslice 4 (length blob) (drop 16 (cont_page_buf crc blob nxt)) = blob"
    using assms unfolding f(2) sub by (simp_all add: b_def subslice_splice_other PAGE_SIZE_def)
qed

text \<open>The blob that a chain of live pages holds.\<close>

fun cont_chain :: "(page_key \<rightharpoonup> bytes) \<Rightarrow> u32 \<Rightarrow> bytes \<Rightarrow> u32 list \<Rightarrow> bool" where
  "cont_chain U p blob [] \<longleftrightarrow> p = NO_NEXT \<and> blob = []"
| "cont_chain U p blob (q # qs) \<longleftrightarrow> q = p \<and> p \<noteq> NO_NEXT \<and> blob \<noteq> [] \<and>
     (\<exists>page nxt. U (Overflow, p) = Some page \<and> subslice 0 4 (drop 16 page) = le32 nxt \<and>
        subslice 4 (min (length blob) 4076) (drop 16 page) = take 4076 blob \<and> cont_chain U nxt (drop 4076 blob) qs)"

definition overflow_chain :: "(page_key \<rightharpoonup> bytes) \<Rightarrow> u32 \<Rightarrow> bytes \<Rightarrow> u32 list \<Rightarrow> bool" where
  "overflow_chain U p blob ps \<longleftrightarrow> length blob < 2 ^ 32 \<and> distinct ps \<and> p \<noteq> NO_NEXT \<and>
     (\<exists>page nxt qs. ps = p # qs \<and> U (Overflow, p) = Some page \<and>
        ph_page_type (header_read page) = page_type_code OverflowPage \<and> subslice 0 4 (drop 16 page) = le32 (word_of_nat (length blob)) \<and>
        subslice 4 (min (length blob) 4072) (drop 16 page) = take 4072 blob \<and> subslice 4076 4 (drop 16 page) = le32 nxt \<and>
        cont_chain U nxt (drop 4072 blob) qs)"

lemma cont_chain_ConsI:
  assumes "p \<noteq> NO_NEXT" "blob \<noteq> []" "U (Overflow, p) = Some (cont_page_buf crc (take 4076 blob) n)" "cont_chain U n (drop 4076 blob) qs"
  shows "cont_chain U p blob (p # qs)"
proof -
  have "length (take 4076 blob) \<le> 4076" by simp
  note f = cont_page_fields(2,3) [OF this, of crc n]
  have "subslice 4 (min (length blob) 4076) (drop 16 (cont_page_buf crc (take 4076 blob) n)) = take 4076 blob"
    using f(2) by (simp only: length_take min.commute)
  then show ?thesis using assms f(1) unfolding cont_chain.simps by blast
qed

lemma overflow_chainI:
  assumes "length blob < 2 ^ 32" "p \<noteq> NO_NEXT" "U (Overflow, p) = Some (first_page_buf crc (word_of_nat (length blob)) (take 4072 blob) n)"
    and "cont_chain U n (drop 4072 blob) qs" "distinct (p # qs)"
  shows "overflow_chain U p blob (p # qs)"
proof -
  have "length (take 4072 blob) \<le> 4072" by simp
  note f = first_page_fields(2-5) [OF this, of crc "word_of_nat (length blob)" n]
  have "subslice 4 (min (length blob) 4072) (drop 16 (first_page_buf crc (word_of_nat (length blob)) (take 4072 blob) n)) = take 4072 blob"
    using f(2) by (simp only: length_take min.commute)
  then show ?thesis using assms f(1,3,4) unfolding overflow_chain_def by blast
qed

lemma cont_chain_cong: "cont_chain U p blob qs \<Longrightarrow> (\<And>q. q \<in> set qs \<Longrightarrow> U' (Overflow, q) = U (Overflow, q)) \<Longrightarrow> cont_chain U' p blob qs"
  by (induction qs arbitrary: p blob) auto

lemma overflow_chain_cong:
  "overflow_chain U p blob ps \<Longrightarrow> (\<And>q. q \<in> set ps \<Longrightarrow> U' (Overflow, q) = U (Overflow, q)) \<Longrightarrow> overflow_chain U' p blob ps"
  unfolding overflow_chain_def by (metis cont_chain_cong list.set_intros)

lemma chain_live: "cont_chain U p blob qs \<Longrightarrow> q \<in> set qs \<Longrightarrow> (Overflow, q) \<in> dom U"
  by (induction qs arbitrary: p blob) auto

lemma overflow_chain_live: "overflow_chain U p blob ps \<Longrightarrow> q \<in> set ps \<Longrightarrow> (Overflow, q) \<in> dom U"
  by (auto simp: overflow_chain_def dest: chain_live)

section \<open>What the functions do, on any backend\<close>

lemma sbind_sret [simp]: "sbind (sret x) f = f x"
  by (simp add: fun_eq_iff sbind_def)

lemma write_cont_Nil: "write_cont_pages crc be cur [] = sret ()"
  by (simp add: write_cont_pages.simps)

lemma write_cont_last: "blob \<noteq> [] \<Longrightarrow> drop 4076 blob = [] \<Longrightarrow>
    write_cont_pages crc be cur blob = sbind (write_cont_page crc be cur (take 4076 blob) NO_NEXT) (\<lambda>_. sret ())"
  by (simp add: write_cont_pages.simps [of crc be cur blob] write_cont_Nil page_consts Let_def fun_eq_iff sbind_def)

lemma write_cont_more: "drop 4076 blob \<noteq> [] \<Longrightarrow>
    write_cont_pages crc be cur blob = sbind (be_allocate be Overflow) (\<lambda>n.
      sbind (write_cont_page crc be cur (take 4076 blob) n) (\<lambda>_. write_cont_pages crc be n (drop 4076 blob)))"
  by (subst write_cont_pages.simps) (auto simp: page_consts Let_def)

lemma write_overflow_one: "length blob < 2 ^ 32 \<Longrightarrow> drop 4072 blob = [] \<Longrightarrow>
    write_overflow crc be blob = sbind (be_allocate be Overflow) (\<lambda>p.
      sbind (write_first_page crc be p (word_of_nat (length blob)) (take 4072 blob) NO_NEXT) (\<lambda>_. sret p))"
  by (simp add: write_overflow_def page_consts Let_def)

lemma write_overflow_more: "length blob < 2 ^ 32 \<Longrightarrow> drop 4072 blob \<noteq> [] \<Longrightarrow>
    write_overflow crc be blob = sbind (be_allocate be Overflow) (\<lambda>p. sbind (be_allocate be Overflow) (\<lambda>n.
      sbind (write_first_page crc be p (word_of_nat (length blob)) (take 4072 blob) n) (\<lambda>_.
      sbind (write_cont_pages crc be n (drop 4072 blob)) (\<lambda>_. sret p))))"
  by (simp add: write_overflow_def page_consts Let_def)

lemma room_succ: "unat c + n < 2 ^ 32 \<Longrightarrow> 0 < n \<Longrightarrow> c + 1 \<noteq> 0 \<and> unat (c + 1) = unat c + 1" for c :: u32
proof -
  assume "unat c + n < 2 ^ 32" "0 < n"
  then have "unat c + 1 < 2 ^ 32" by simp
  then have "unat (c + 1) = unat c + 1" by (simp add: unat_word_ariths(1))
  then show ?thesis by force
qed

context page_backend
begin

text \<open>One allocation when the file can grow by \<open>n\<close> pages.\<close>

lemma allocate_room:
  assumes "be_allocate be f s = (Inr p, s')" "rep s U" "unat (be_count be s f) + n < 2 ^ 32" "0 < n"
  shows "(f, p) \<notin> dom U" "p \<noteq> NO_NEXT" "rep s' (U((f, p) \<mapsto> new_page_buf))" "unat (be_count be s' f) \<le> unat (be_count be s f) + 1"
    "f' \<noteq> f \<Longrightarrow> be_count be s' f' = be_count be s f'"
proof -
  note r = room_succ [OF assms(3,4)]
  note a = allocate_law(1) [OF assms(1,2) conjunct1 [OF r]]
  show "(f, p) \<notin> dom U" "rep s' (U((f, p) \<mapsto> new_page_buf))" "f' \<noteq> f \<Longrightarrow> be_count be s' f' = be_count be s f'" using a by blast+
  show "unat (be_count be s' f) \<le> unat (be_count be s f) + 1" using a r by auto
  show "p \<noteq> NO_NEXT" using live_not_marker [of s' "U((f, p) \<mapsto> new_page_buf)" f p] a by (simp add: NO_NEXT_def)
qed

lemma write_cont_spec:
  assumes "write_cont_pages crc be cur blob s = (Inr u, s')" "rep s U" "(Overflow, cur) \<in> dom U" "blob \<noteq> []"
    and "unat (be_count be s Overflow) + length blob < 2 ^ 32"
  shows "\<exists>qs U'. rep s' U' \<and> cont_chain U' cur blob (cur # qs) \<and> distinct (cur # qs) \<and>
    dom U' = dom U \<union> {Overflow} \<times> set qs \<and> (\<forall>q\<in>set qs. (Overflow, q) \<notin> dom U) \<and>
    (\<forall>k. k \<notin> {Overflow} \<times> set (cur # qs) \<longrightarrow> U' k = U k) \<and> (\<forall>f. f \<noteq> Overflow \<longrightarrow> be_count be s' f = be_count be s f)"
  using assms
proof (induction blob arbitrary: cur s U rule: length_induct)
  case (1 blob)
  let ?chunk = "take 4076 blob" and ?rest = "drop 4076 blob"
  note page = cont_page_fields [of ?chunk crc, simplified]
  have cur: "cur \<noteq> NO_NEXT" using live_not_marker [OF 1(3,4)] by (simp add: NO_NEXT_def)
  show ?case
  proof (cases "?rest = []")
    case True
    have w: "be_write be Overflow cur (cont_page_buf crc ?chunk NO_NEXT) s = (Inr (), s')"
      using 1(2) by (auto simp: write_cont_last [OF 1(5) True] write_cont_page_def sbind_eq_Inr)
    let ?U = "U((Overflow, cur) \<mapsto> cont_page_buf crc ?chunk NO_NEXT)"
    have "rep s' ?U" by (rule write_law(1) [OF w 1(3,4) page(1)])
    moreover have "cont_chain ?U cur blob [cur]" by (rule cont_chain_ConsI [OF cur 1(5)]) (use True in simp_all)
    moreover have "dom ?U = dom U" "\<forall>k. k \<notin> {Overflow} \<times> set [cur] \<longrightarrow> ?U k = U k" using 1(4) by auto
    ultimately show ?thesis using write_law(2) [OF w] by (intro exI [of _ "[]"] exI [of _ ?U] conjI) (simp_all del: fun_upd_apply)
  next
    case False
    then obtain n s1 s2 where st: "be_allocate be Overflow s = (Inr n, s1)"
        "be_write be Overflow cur (cont_page_buf crc ?chunk n) s1 = (Inr (), s2)" "write_cont_pages crc be n ?rest s2 = (Inr u, s')"
      using 1(2) by (auto simp: write_cont_more [OF False] write_cont_page_def sbind_eq_Inr)
    have len: "0 < length blob" using 1(5) by simp
    note a = allocate_room [OF st(1) 1(3) 1(6) len]
    let ?U2 = "U((Overflow, n) \<mapsto> new_page_buf, (Overflow, cur) \<mapsto> cont_page_buf crc ?chunk n)"
    have r2: "rep s2 ?U2" by (rule write_law(1) [OF st(2) a(3) _ page(1)]) (use 1(4) in auto)
    have small: "length ?rest < length blob" using len by simp
    have dm: "(Overflow, n) \<in> dom ?U2" by simp
    have bound: "unat (be_count be s2 Overflow) + length ?rest < 2 ^ 32" using a(4) write_law(2) [OF st(2)] 1(6) small by simp
    obtain qs U' where ih: "rep s' U'" "cont_chain U' n ?rest (n # qs)" "distinct (n # qs)"
        "dom U' = dom ?U2 \<union> {Overflow} \<times> set qs" "\<forall>q\<in>set qs. (Overflow, q) \<notin> dom ?U2"
        "\<And>k. k \<notin> {Overflow} \<times> set (n # qs) \<Longrightarrow> U' k = ?U2 k" "\<And>f. f \<noteq> Overflow \<Longrightarrow> be_count be s' f = be_count be s2 f"
      using 1(1) [rule_format, OF small st(3) r2 dm False bound] by blast
    have nc: "n \<noteq> cur" using a(1) 1(4) by auto
    have "cur \<notin> set (n # qs)" using ih(5) nc by auto
    then have at: "U' (Overflow, cur) = Some (cont_page_buf crc ?chunk n)" using ih(6) [of "(Overflow, cur)"] by auto
    have "cont_chain U' cur blob (cur # n # qs)" by (rule cont_chain_ConsI [OF cur 1(5) at ih(2)])
    moreover have "dom U' = dom U \<union> {Overflow} \<times> set (n # qs)" unfolding ih(4) using 1(4) by auto
    moreover have "\<forall>q\<in>set (n # qs). (Overflow, q) \<notin> dom U" using ih(5) a(1) by auto
    moreover have "\<forall>k. k \<notin> {Overflow} \<times> set (cur # n # qs) \<longrightarrow> U' k = U k" using ih(6) by auto
    moreover have "\<forall>f. f \<noteq> Overflow \<longrightarrow> be_count be s' f = be_count be s f" using ih(7) a(5) write_law(2) [OF st(2)] by simp
    ultimately show ?thesis using ih(1,3) \<open>cur \<notin> set (n # qs)\<close> by (intro exI [of _ "n # qs"] exI [of _ U']) simp
  qed
qed

lemma write_overflow_spec:
  assumes "write_overflow crc be blob s = (Inr p, s')" "rep s U" "unat (be_count be s Overflow) + length blob + 2 < 2 ^ 32"
  shows "\<exists>ps U'. rep s' U' \<and> overflow_chain U' p blob ps \<and> dom U' = dom U \<union> {Overflow} \<times> set ps \<and>
    (\<forall>q\<in>set ps. (Overflow, q) \<notin> dom U) \<and> (\<forall>k. k \<notin> {Overflow} \<times> set ps \<longrightarrow> U' k = U k) \<and>
    (\<forall>f. f \<noteq> Overflow \<longrightarrow> be_count be s' f = be_count be s f)"
proof -
  let ?chunk = "take 4072 blob" and ?rest = "drop 4072 blob"
  let ?t = "word_of_nat (length blob) :: u32"
  note page = first_page_fields [of ?chunk crc ?t, simplified]
  have len: "length blob < 2 ^ 32" using assms(3) by simp
  obtain s1 where a1: "be_allocate be Overflow s = (Inr p, s1)"
  proof (cases "?rest = []")
    case True
    then show thesis using assms(1) that by (auto simp: write_overflow_one [OF len True] sbind_eq_Inr)
  next
    case False
    then show thesis using assms(1) that by (auto simp: write_overflow_more [OF len False] sbind_eq_Inr)
  qed
  have room: "unat (be_count be s Overflow) + (length blob + 2) < 2 ^ 32" using assms(3) by simp
  note a = allocate_room [OF a1 assms(2) room]
  let ?U1 = "U((Overflow, p) \<mapsto> new_page_buf)"
  show ?thesis
  proof (cases "?rest = []")
    case True
    have w: "be_write be Overflow p (first_page_buf crc ?t ?chunk NO_NEXT) s1 = (Inr (), s')"
      using assms(1) a1 by (auto simp: write_overflow_one [OF len True] write_first_page_def sbind_eq_Inr)
    let ?U = "?U1((Overflow, p) \<mapsto> first_page_buf crc ?t ?chunk NO_NEXT)"
    have "rep s' ?U" by (rule write_law(1) [OF w a(3) _ page(1)]) auto
    moreover have "overflow_chain ?U p blob [p]" by (rule overflow_chainI [OF len a(2)]) (use True in simp_all)
    moreover have "dom ?U = dom U \<union> {Overflow} \<times> set [p]" "\<forall>k. k \<notin> {Overflow} \<times> set [p] \<longrightarrow> ?U k = U k" by auto
    ultimately show ?thesis using a(1,5) write_law(2) [OF w] by (intro exI [of _ "[p]"] exI [of _ ?U] conjI) (simp_all del: fun_upd_apply fun_upd_upd)
  next
    case False
    obtain n s2 s3 where st: "be_allocate be Overflow s1 = (Inr n, s2)"
        "be_write be Overflow p (first_page_buf crc ?t ?chunk n) s2 = (Inr (), s3)" "write_cont_pages crc be n ?rest s3 = (Inr (), s')"
      using assms(1) a1 by (auto simp: write_overflow_more [OF len False] write_first_page_def sbind_eq_Inr)
    have room1: "unat (be_count be s1 Overflow) + (length blob + 1) < 2 ^ 32" using a(4) assms(3) by simp
    note b = allocate_room [OF st(1) a(3) room1]
    let ?U3 = "?U1((Overflow, n) \<mapsto> new_page_buf, (Overflow, p) \<mapsto> first_page_buf crc ?t ?chunk n)"
    have r3: "rep s3 ?U3" by (rule write_law(1) [OF st(2) b(3) _ page(1)]) auto
    have dm: "(Overflow, n) \<in> dom ?U3" by simp
    have bound: "unat (be_count be s3 Overflow) + length ?rest < 2 ^ 32" using b(4) a(4) write_law(2) [OF st(2)] assms(3) by simp
    obtain qs U' where c: "rep s' U'" "cont_chain U' n ?rest (n # qs)" "distinct (n # qs)"
        "dom U' = dom ?U3 \<union> {Overflow} \<times> set qs" "\<forall>q\<in>set qs. (Overflow, q) \<notin> dom ?U3"
        "\<And>k. k \<notin> {Overflow} \<times> set (n # qs) \<Longrightarrow> U' k = ?U3 k" "\<And>f. f \<noteq> Overflow \<Longrightarrow> be_count be s' f = be_count be s3 f"
      using write_cont_spec [OF st(3) r3 dm False bound] by blast
    have "p \<notin> set (n # qs)" using c(5) b(1) by auto
    then have at: "U' (Overflow, p) = Some (first_page_buf crc ?t ?chunk n)" using c(6) [of "(Overflow, p)"] by auto
    have "overflow_chain U' p blob (p # n # qs)"
      using overflow_chainI [OF len a(2) at c(2)] c(3) \<open>p \<notin> set (n # qs)\<close> by simp
    moreover have "dom U' = dom U \<union> {Overflow} \<times> set (p # n # qs)" unfolding c(4) by auto
    moreover have "\<forall>q\<in>set (p # n # qs). (Overflow, q) \<notin> dom U" using c(5) a(1) b(1) by auto
    moreover have "\<forall>k. k \<notin> {Overflow} \<times> set (p # n # qs) \<longrightarrow> U' k = U k" using c(6) by auto
    moreover have "\<forall>f. f \<noteq> Overflow \<longrightarrow> be_count be s' f = be_count be s f" using c(7) a(5) b(5) write_law(2) [OF st(2)] by simp
    ultimately show ?thesis using c(1) by (intro exI [of _ "p # n # qs"] exI [of _ U']) simp
  qed
qed

lemma read_cont_spec:
  assumes "cont_chain U p blob qs" "rep s U" "read_cont_pages be (length blob) p acc s = (Inr r, s')"
  shows "r = acc @ blob \<and> rep s' U \<and> be_count be s' = be_count be s"
  using assms
proof (induction qs arbitrary: p blob acc s)
  case Nil
  then show ?case by (simp add: read_cont_pages.simps)
next
  case (Cons q qs)
  then obtain page n where c: "p \<noteq> NO_NEXT" "blob \<noteq> []" "U (Overflow, p) = Some page" "subslice 0 4 (drop 16 page) = le32 n"
      "subslice 4 (min (length blob) 4076) (drop 16 page) = take 4076 blob" "cont_chain U n (drop 4076 blob) qs" by auto
  obtain d s1 where rd: "be_read be Overflow p s = (Inr d, s1)"
      "read_cont_pages be (length blob - min (length blob) 4076) (word_of_nat (le_nat (subslice 0 4 (drop 16 d))))
         (acc @ subslice 4 (min (length blob) 4076) (drop 16 d)) s1 = (Inr r, s')"
    using Cons.prems(3) c(1,2) by (auto simp: read_cont_pages.simps [of be "length blob"] sbind_eq_Inr Let_def page_consts)
  have d: "d = page" "rep s1 U" using read_law(1) [OF rd(1) Cons.prems(2) c(3)] by simp_all
  have "length blob - min (length blob) 4076 = length (drop 4076 blob)" by simp
  then have "read_cont_pages be (length (drop 4076 blob)) n (acc @ take 4076 blob) s1 = (Inr r, s')"
    using rd(2) d(1) c(4,5) by simp
  from Cons.IH [OF c(6) d(2) this] read_law(2) [OF rd(1)] show ?case by simp
qed

lemma read_overflow_spec:
  assumes "read_overflow be p s = (Inr r, s')" "rep s U" "overflow_chain U p blob ps"
  shows "r = blob \<and> rep s' U \<and> be_count be s' = be_count be s"
proof -
  obtain page n qs where c: "length blob < 2 ^ 32" "U (Overflow, p) = Some page"
      "subslice 0 4 (drop 16 page) = le32 (word_of_nat (length blob))"
      "subslice 4 (min (length blob) 4072) (drop 16 page) = take 4072 blob" "subslice 4076 4 (drop 16 page) = le32 n"
      "cont_chain U n (drop 4072 blob) qs" using assms(3) by (auto simp: overflow_chain_def)
  obtain d s1 where rd: "be_read be Overflow p s = (Inr d, s1)"
    using assms(1) by (auto simp: read_overflow_def sbind_eq_Inr)
  have d: "d = page" "rep s1 U" using read_law(1) [OF rd assms(2) c(2)] by simp_all
  have t: "le_nat (le32 (word_of_nat (length blob))) = length blob" using c(1) by (simp add: le32_def le_nat_le_bytes unat_of_nat)
  have "length blob - min (length blob) 4072 = length (drop 4072 blob)" by simp
  then have "read_cont_pages be (length (drop 4072 blob)) n (take 4072 blob) s1 = (Inr r, s')"
    using assms(1) rd d(1) c t by (simp add: read_overflow_def sbind_def Let_def page_consts)
  from read_cont_spec [OF c(6) d(2) this] read_law(2) [OF rd] show ?thesis by simp
qed

text \<open>Releasing pages one after the other.\<close>

lemma free_pages_spec:
  assumes "siter (be_free be f) ps s = (Inr u, s')" "rep s U" "distinct ps" "\<And>q. q \<in> set ps \<Longrightarrow> (f, q) \<in> dom U"
  shows "rep s' (U |` (- ({f} \<times> set ps))) \<and> be_count be s' = be_count be s"
  using assms
proof (induction ps arbitrary: s U)
  case Nil
  then show ?case by (simp add: restrict_map_def)
next
  case (Cons p ps)
  then obtain v s1 where st: "be_free be f p s = (Inr v, s1)" "siter (be_free be f) ps s1 = (Inr u, s')" by (auto simp: sbind_eq_Inr)
  have f: "rep s1 (U((f, p) := None))" "be_count be s1 = be_count be s"
    using free_law [OF st(1) Cons.prems(2)] Cons.prems(4) by simp_all
  have "(f, q) \<in> dom (U((f, p) := None))" if "q \<in> set ps" for q using that Cons.prems(3) Cons.prems(4) [of q] by auto
  moreover have "(U((f, p) := None)) |` (- ({f} \<times> set ps)) = U |` (- ({f} \<times> set (p # ps)))" by (auto simp: restrict_map_def fun_eq_iff)
  ultimately show ?case using Cons.IH [OF st(2) f(1)] Cons.prems(3) f(2) by (simp del: fun_upd_apply)
qed

end

section \<open>Without I/O errors\<close>

context reliable_backend
begin

lemma write_cont_total:
  assumes "rep s U" "(Overflow, cur) \<in> dom U" "unat (be_count be s Overflow) + length blob < 2 ^ 32"
  shows "\<exists>s'. write_cont_pages crc be cur blob s = (Inr (), s')"
  using assms
proof (induction blob arbitrary: cur s U rule: length_induct)
  case (1 blob)
  let ?chunk = "take 4076 blob" and ?rest = "drop 4076 blob"
  have page: "page_valid crc Overflow (cont_page_buf crc ?chunk n)" for n by (rule cont_page_fields(1)) simp
  consider "blob = []" | "blob \<noteq> []" "?rest = []" | "?rest \<noteq> []" by blast
  then show ?case
  proof cases
    case 1
    then show ?thesis by (simp add: write_cont_Nil)
  next
    case 2
    obtain s1 where "be_write be Overflow cur (cont_page_buf crc ?chunk NO_NEXT) s = (Inr (), s1)"
      using write_total [OF \<open>rep s U\<close> \<open>(Overflow, cur) \<in> dom U\<close>] by blast
    then show ?thesis by (simp add: write_cont_last [OF 2] write_cont_page_def sbind_def)
  next
    case 3
    then have small: "length ?rest < length blob" "0 < length blob" by auto
    obtain n s1 where a: "be_allocate be Overflow s = (Inr n, s1)" using allocate_total [OF \<open>rep s U\<close>] by blast
    note l = allocate_room [OF a \<open>rep s U\<close> 1(4) small(2)]
    have d: "(Overflow, cur) \<in> dom (U((Overflow, n) \<mapsto> new_page_buf))" using 1(3) by simp
    obtain s2 where w: "be_write be Overflow cur (cont_page_buf crc ?chunk n) s1 = (Inr (), s2)" using write_total [OF l(3) d] by blast
    let ?U2 = "U((Overflow, n) \<mapsto> new_page_buf, (Overflow, cur) \<mapsto> cont_page_buf crc ?chunk n)"
    have r2: "rep s2 ?U2" by (rule write_law(1) [OF w l(3) d page])
    have "unat (be_count be s2 Overflow) \<le> unat (be_count be s Overflow) + 1" using l(4) write_law(2) [OF w] by simp
    then have "unat (be_count be s2 Overflow) + length ?rest < 2 ^ 32" using 1(4) small(1) by linarith
    then obtain s' where "write_cont_pages crc be n ?rest s2 = (Inr (), s')"
      using 1(1) [rule_format, OF small(1) r2, of n] by auto
    then show ?thesis using a w by (simp add: write_cont_more [OF 3] sbind_def write_cont_page_def)
  qed
qed

lemma write_overflow_total:
  assumes "rep s U" "unat (be_count be s Overflow) + length blob + 2 < 2 ^ 32"
  shows "\<exists>p s'. write_overflow crc be blob s = (Inr p, s')"
proof -
  let ?chunk = "take 4072 blob" and ?rest = "drop 4072 blob"
  have len: "length blob < 2 ^ 32" and room: "unat (be_count be s Overflow) + (length blob + 2) < 2 ^ 32" using assms(2) by simp_all
  have page: "page_valid crc Overflow (first_page_buf crc t ?chunk n)" for t n by (rule first_page_fields(1)) simp
  obtain p s1 where a: "be_allocate be Overflow s = (Inr p, s1)" using allocate_total [OF assms(1)] by blast
  note l = allocate_room [OF a assms(1) room]
  have l3: "rep s1 (U((Overflow, p) \<mapsto> new_page_buf))" using l(3) by simp
  show ?thesis
  proof (cases "?rest = []")
    case True
    obtain s2 where "be_write be Overflow p (first_page_buf crc (word_of_nat (length blob)) ?chunk NO_NEXT) s1 = (Inr (), s2)"
      using write_total [OF l3, of Overflow p] by auto
    then show ?thesis using a by (simp add: write_overflow_one [OF len True] sbind_def write_first_page_def)
  next
    case False
    obtain n s2 where b: "be_allocate be Overflow s1 = (Inr n, s2)" using allocate_total [OF l3] by blast
    have "unat (be_count be s1 Overflow) + (length blob + 1) < 2 ^ 32" using l(4) assms(2) by simp
    note m = allocate_room [OF b l3 this]
    let ?U2 = "U((Overflow, p) \<mapsto> new_page_buf, (Overflow, n) \<mapsto> new_page_buf)"
    have r2: "rep s2 ?U2" using m(3) by simp
    have d: "(Overflow, p) \<in> dom ?U2" by simp
    let ?b = "first_page_buf crc (word_of_nat (length blob)) ?chunk n"
    obtain s3 where w: "be_write be Overflow p ?b s2 = (Inr (), s3)" using write_total [OF r2 d] by blast
    have r3: "rep s3 (?U2((Overflow, p) \<mapsto> ?b))" by (rule write_law(1) [OF w r2 d page])
    have "unat (be_count be s3 Overflow) + length ?rest < 2 ^ 32" using l(4) m(4) write_law(2) [OF w] assms(2) by simp
    then obtain s' where "write_cont_pages crc be n ?rest s3 = (Inr (), s')" using write_cont_total [OF r3, of n ?rest] by auto
    then show ?thesis using a b w by (simp add: write_overflow_more [OF len False] sbind_def write_first_page_def)
  qed
qed

lemma read_cont_total:
  assumes "cont_chain U p blob qs" "rep s U"
  shows "\<exists>r s'. read_cont_pages be (length blob) p acc s = (Inr r, s')"
  using assms
proof (induction qs arbitrary: p blob acc s)
  case Nil
  then show ?case by (simp add: read_cont_pages.simps)
next
  case (Cons q qs)
  then obtain page n where c: "p \<noteq> NO_NEXT" "blob \<noteq> []" "U (Overflow, p) = Some page" "subslice 0 4 (drop 16 page) = le32 n"
      "cont_chain U n (drop 4076 blob) qs" by auto
  obtain s1 where rd: "be_read be Overflow p s = (Inr page, s1)" using read_total [OF Cons.prems(2) c(3)] by blast
  have "rep s1 U" using read_keeps [OF Cons.prems(2) rd] by simp
  moreover have "length blob - min (length blob) 4076 = length (drop 4076 blob)" by simp
  ultimately show ?case
    using Cons.IH [OF c(5)] rd c(1,2,4)
    by (simp add: read_cont_pages.simps [of be "length blob"] sbind_def Let_def page_consts)
qed

lemma read_overflow_total:
  assumes "overflow_chain U p blob ps" "rep s U"
  shows "\<exists>s'. read_overflow be p s = (Inr blob, s') \<and> rep s' U \<and> be_count be s' = be_count be s"
proof -
  obtain page n qs where c: "length blob < 2 ^ 32" "U (Overflow, p) = Some page"
      "subslice 0 4 (drop 16 page) = le32 (word_of_nat (length blob))" "subslice 4076 4 (drop 16 page) = le32 n"
      "cont_chain U n (drop 4072 blob) qs" using assms(1) by (auto simp: overflow_chain_def)
  obtain s1 where rd: "be_read be Overflow p s = (Inr page, s1)" using read_total [OF assms(2) c(2)] by blast
  have r1: "rep s1 U" using read_keeps [OF assms(2) rd] by simp
  have t: "le_nat (le32 (word_of_nat (length blob))) = length blob" using c(1) by (simp add: le32_def le_nat_le_bytes unat_of_nat)
  have "length blob - min (length blob) 4072 = length (drop 4072 blob)" by simp
  then have "\<exists>r s'. read_overflow be p s = (Inr r, s')"
    using read_cont_total [OF c(5) r1] rd c t by (simp add: read_overflow_def sbind_def Let_def page_consts)
  then show ?thesis using read_overflow_spec [OF _ assms(2,1)] by blast
qed

lemma collect_cont:
  assumes "cont_chain U p blob qs" "qs \<noteq> []" "rep s U" "to_free \<noteq> []" "length to_free + length qs \<le> n"
  shows "\<exists>s'. collect_chain be n p to_free s = (Inr (to_free @ qs), s') \<and> rep s' U \<and> be_count be s' = be_count be s"
  using assms
proof (induction qs arbitrary: p blob to_free s)
  case (Cons q qs)
  then obtain page m where c: "q = p" "p \<noteq> NO_NEXT" "U (Overflow, p) = Some page" "subslice 0 4 (drop 16 page) = le32 m"
      "cont_chain U m (drop 4076 blob) qs" by auto
  obtain s1 where rd: "be_read be Overflow p s = (Inr page, s1)" using read_total [OF Cons.prems(3) c(3)] by blast
  have r1: "rep s1 U" "be_count be s1 = be_count be s" using read_keeps [OF Cons.prems(3) rd] by simp_all
  show ?case
  proof (cases qs)
    case Nil
    then have "m = NO_NEXT" using c(5) by simp
    then show ?thesis using rd r1 Cons.prems(4) Nil c(1,4)
      by (simp add: collect_chain.simps [of be n p] Let_def page_consts)
  next
    case (Cons q' qs')
    then have m: "m \<noteq> NO_NEXT" using c(5) by simp
    have le: "length (to_free @ [p]) + length qs \<le> n" using Cons.prems(5) by simp
    have "\<exists>s'. collect_chain be n m (to_free @ [p]) s1 = (Inr ((to_free @ [p]) @ qs), s') \<and> rep s' U \<and> be_count be s' = be_count be s1"
      by (rule Cons.IH [OF c(5) _ r1(1) _ le]) (use Cons in simp_all)
    then show ?thesis using rd r1(2) m Cons.prems(4,5) c(1,4)
      by (simp add: collect_chain.simps [of be n p] Let_def page_consts)
  qed
qed simp

lemma collect_chain_total:
  assumes "overflow_chain U p blob ps" "rep s U" "length ps \<le> n"
  shows "\<exists>s'. collect_chain be n p [] s = (Inr ps, s') \<and> rep s' U \<and> be_count be s' = be_count be s"
proof -
  obtain page m qs where c: "ps = p # qs" "U (Overflow, p) = Some page" "subslice 4076 4 (drop 16 page) = le32 m"
      "cont_chain U m (drop 4072 blob) qs" using assms(1) by (auto simp: overflow_chain_def)
  obtain s1 where rd: "be_read be Overflow p s = (Inr page, s1)" using read_total [OF assms(2) c(2)] by blast
  have r1: "rep s1 U" "be_count be s1 = be_count be s" using read_keeps [OF assms(2) rd] by simp_all
  show ?thesis
  proof (cases qs)
    case Nil
    then have "m = NO_NEXT" using c(4) by simp
    then show ?thesis using rd r1 c(1,3) Nil by (simp add: collect_chain.simps [of be n p] Let_def page_consts)
  next
    case (Cons q' qs')
    then have m: "m \<noteq> NO_NEXT" using c(4) by simp
    have "\<exists>s'. collect_chain be n m [p] s1 = (Inr ([p] @ qs), s') \<and> rep s' U \<and> be_count be s' = be_count be s1"
      by (rule collect_cont [OF c(4) _ r1(1)]) (use Cons assms(3) c(1) in simp_all)
    then show ?thesis using rd r1(2) m assms(3) c(1,3) Cons
      by (simp add: collect_chain.simps [of be n p] Let_def page_consts)
  qed
qed

lemma free_pages_total:
  assumes "rep s U" "distinct ps" "\<And>q. q \<in> set ps \<Longrightarrow> (f, q) \<in> dom U"
  shows "\<exists>s'. siter (be_free be f) ps s = (Inr (), s')"
  using assms
proof (induction ps arbitrary: s U)
  case (Cons p ps)
  have p: "(f, p) \<in> dom U" using Cons.prems(3) by simp
  obtain s1 where st: "be_free be f p s = (Inr (), s1)" using free_total [OF Cons.prems(1) p] by blast
  have "rep s1 (U((f, p) := None))" using free_law [OF st Cons.prems(1) p] by simp
  moreover have "(f, q) \<in> dom (U((f, p) := None))" if "q \<in> set ps" for q using that Cons.prems(2) Cons.prems(3) [of q] by auto
  ultimately obtain s' where "siter (be_free be f) ps s1 = (Inr (), s')" using Cons.IH Cons.prems(2) by (metis distinct.simps(2))
  then show ?case using st by (simp add: sbind_def)
qed simp

text \<open>A chain is no longer than the file it is in.\<close>

lemma live_pages_bound:
  assumes "rep s U" "distinct ps" "\<And>q. q \<in> set ps \<Longrightarrow> (f, q) \<in> dom U"
  shows "length ps \<le> unat (be_count be s f)"
proof -
  have "unat ` set ps \<subseteq> {..<unat (be_count be s f)}"
    using assms(1,3) live_counted by (fastforce simp: word_less_nat_alt dom_def)
  then have "card (unat ` set ps) \<le> unat (be_count be s f)" by (metis card_lessThan card_mono finite_lessThan)
  moreover have "card (unat ` set ps) = length ps"
    using assms(2) by (subst card_image) (auto simp: inj_on_def distinct_card word_unat_eq_iff)
  ultimately show ?thesis by simp
qed

lemma free_overflow_total:
  assumes "overflow_chain U p blob ps" "rep s U"
  shows "\<exists>s'. free_overflow_chain be p s = (Inr (), s') \<and> rep s' (U |` (- ({Overflow} \<times> set ps))) \<and> be_count be s' = be_count be s"
proof -
  have d: "distinct ps" and live: "\<And>q. q \<in> set ps \<Longrightarrow> (Overflow, q) \<in> dom U"
    using assms(1) overflow_chain_live by (auto simp: overflow_chain_def)
  obtain s1 where c: "collect_chain be (unat (be_count be s Overflow)) p [] s = (Inr ps, s1)" "rep s1 U" "be_count be s1 = be_count be s"
    using collect_chain_total [OF assms live_pages_bound [OF assms(2) d live]] by blast
  obtain s' where f: "siter (be_free be Overflow) ps s1 = (Inr (), s')" using free_pages_total [OF c(2) d live] by blast
  have "free_overflow_chain be p s = (Inr (), s')" using c(1) f by (simp add: free_overflow_chain_def sbind_def)
  moreover have "rep s' (U |` (- ({Overflow} \<times> set ps))) \<and> be_count be s' = be_count be s1"
    by (rule free_pages_spec [OF f c(2) d live])
  ultimately show ?thesis using c(3) by auto
qed

end

end
