(* ===== verification/Prop_Slab.thy ===== *)
theory Prop_Slab
  imports Overflow_Chain
begin

text \<open>
  Shared property pages (\<^verbatim>\<open>storage/codec/prop_slab_codec.rs\<close>): a page holds the overflowed properties of several
  entities, found through a directory at its start; the blobs grow from its end. Freed entries are marked and
  swept when the page runs short of room. An out-of-range index panics in the code: here it is \<open>Diverges\<close>.
\<close>

section \<open>The directory\<close>

definition DIR_ENTRY_SIZE :: nat where "DIR_ENTRY_SIZE = 16"
definition DIR_COUNT_SIZE :: nat where "DIR_COUNT_SIZE = 2"
definition PROP_SLAB_VERSION :: u16 where "PROP_SLAB_VERSION = 1"
definition KIND_FREED :: byte where "KIND_FREED = 0xFF"

datatype entity_kind = NodeKind | EdgeKind

fun kind_byte :: "entity_kind \<Rightarrow> byte" where
  "kind_byte NodeKind = 0"
| "kind_byte EdgeKind = 1"

definition MAX_PACKED_BLOB :: nat where
  "MAX_PACKED_BLOB = PAGE_PAYLOAD_SIZE - DIR_COUNT_SIZE - DIR_ENTRY_SIZE"

record dir_entry =
  de_entity :: nat
  de_kind :: byte
  de_offset :: nat
  de_len :: nat

definition read_dir_count :: "bytes \<Rightarrow> nat" where
  "read_dir_count payload = le_nat (subslice 0 2 payload)"

definition read_dir_entry :: "bytes \<Rightarrow> nat \<Rightarrow> dir_entry" where
  "read_dir_entry payload i =
     (let base = DIR_COUNT_SIZE + i * DIR_ENTRY_SIZE in
      \<lparr>de_entity = le_nat (subslice base 8 payload), de_kind = payload ! (base + 8),
       de_offset = le_nat (subslice (base + 10) 2 payload), de_len = le_nat (subslice (base + 12) 4 payload)\<rparr>)"

definition write_dir_entry :: "nat \<Rightarrow> dir_entry \<Rightarrow> bytes \<Rightarrow> bytes" where
  "write_dir_entry i e payload =
     (let base = DIR_COUNT_SIZE + i * DIR_ENTRY_SIZE;
          p1 = splice base (le_bytes 8 (de_entity e)) payload;
          p2 = p1[base + 8 := de_kind e];
          p3 = p2[base + 9 := 0];
          p4 = splice (base + 10) (le16 (word_of_nat (de_offset e))) p3
      in splice (base + 12) (le32 (word_of_nat (de_len e))) p4)"

text \<open>The entries a loop over the directory reads. The loop panics when the count does not fit the page.\<close>

definition dir_in_page :: "bytes \<Rightarrow> bool" where
  "dir_in_page payload \<longleftrightarrow> DIR_COUNT_SIZE + read_dir_count payload * DIR_ENTRY_SIZE \<le> PAGE_PAYLOAD_SIZE"

definition dir_entries :: "bytes \<Rightarrow> dir_entry list" where
  "dir_entries payload = map (read_dir_entry payload) [0..<read_dir_count payload]"

definition blob_low_water :: "bytes \<Rightarrow> nat" where
  "blob_low_water payload = fold (\<lambda>e low. if de_offset e < low then de_offset e else low) (dir_entries payload) PAGE_PAYLOAD_SIZE"

definition live_blobs :: "bytes \<Rightarrow> (dir_entry \<times> bytes) list" where
  "live_blobs payload =
     map (\<lambda>e. (e, subslice (de_offset e) (de_len e) payload))
       (filter (\<lambda>e. de_kind e \<noteq> KIND_FREED \<and> \<not> (de_offset e < DIR_COUNT_SIZE \<or> de_offset e + de_len e > PAGE_PAYLOAD_SIZE))
         (dir_entries payload))"

fun rewrite_live :: "nat \<Rightarrow> nat \<Rightarrow> (dir_entry \<times> bytes) list \<Rightarrow> bytes \<Rightarrow> bytes option" where
  "rewrite_live i pos [] payload = Some payload"
| "rewrite_live i pos ((e, bs) # live) payload =
     (if pos < length bs then None
      else let at = pos - length bs in
        rewrite_live (Suc i) at live (write_dir_entry i (e\<lparr>de_offset := at, de_len := length bs\<rparr>) (splice at bs payload)))"

definition compact :: "bytes \<Rightarrow> bytes option" where
  "compact payload =
     (let live = live_blobs payload in
      map_option (\<lambda>p. splice 0 (le16 (word_of_nat (length live))) p)
        (rewrite_live 0 PAGE_PAYLOAD_SIZE live (replicate (length payload) 0)))"

definition free_space :: "bytes \<Rightarrow> nat" where
  "free_space payload = blob_low_water payload - (DIR_COUNT_SIZE + read_dir_count payload * DIR_ENTRY_SIZE)"

definition free_space_after_compaction :: "bytes \<Rightarrow> nat" where
  "free_space_after_compaction payload =
     (let live = filter (\<lambda>e. de_kind e \<noteq> KIND_FREED) (dir_entries payload) in
      PAGE_PAYLOAD_SIZE - DIR_COUNT_SIZE - length live * DIR_ENTRY_SIZE - sum_list (map de_len live))"

definition has_room_for :: "bytes \<Rightarrow> nat \<Rightarrow> bool" where
  "has_room_for payload blob_len \<longleftrightarrow>
     (let needed = blob_len + DIR_ENTRY_SIZE in
      free_space payload \<ge> needed \<or> free_space_after_compaction payload \<ge> needed)"

section \<open>Blobs\<close>

definition is_entry_of :: "nat \<Rightarrow> entity_kind \<Rightarrow> dir_entry \<Rightarrow> bool" where
  "is_entry_of eid kind e \<longleftrightarrow> de_kind e = kind_byte kind \<and> de_entity e = eid"

definition mark_freed :: "nat \<Rightarrow> bytes \<Rightarrow> bytes" where
  "mark_freed i payload = payload[DIR_COUNT_SIZE + i * DIR_ENTRY_SIZE + 8 := KIND_FREED]"

text \<open>The loop that retires the entries of an entity: entry \<open>i\<close> is read from the payload of that turn.\<close>

definition retire_entries :: "nat \<Rightarrow> entity_kind \<Rightarrow> bytes \<Rightarrow> bytes" where
  "retire_entries eid kind payload =
     fold (\<lambda>i p. if is_entry_of eid kind (read_dir_entry p i) then mark_freed i p else p) [0..<read_dir_count payload] payload"

definition place_blob :: "nat \<Rightarrow> entity_kind \<Rightarrow> bytes \<Rightarrow> bytes \<Rightarrow> bytes" where
  "place_blob eid kind blob payload =
     (let dir_count = read_dir_count payload;
          offset = blob_low_water payload - length blob;
          p1 = splice offset blob payload;
          p2 = write_dir_entry dir_count \<lparr>de_entity = eid, de_kind = kind_byte kind, de_offset = offset, de_len = length blob\<rparr> p1
      in splice 0 (le16 (word_of_nat (dir_count + 1))) p2)"

text \<open>The new payload, \<open>Inl\<close> the error.\<close>

definition store_blob :: "nat \<Rightarrow> entity_kind \<Rightarrow> bytes \<Rightarrow> bytes \<Rightarrow> storage_error + bytes" where
  "store_blob eid kind blob payload =
     (if \<not> dir_in_page payload then Inl Diverges
      else
        let p1 = retire_entries eid kind payload in
        if free_space p1 < length blob + DIR_ENTRY_SIZE then
          (case compact p1 of
             None \<Rightarrow> Inl Diverges
           | Some p2 \<Rightarrow>
               if free_space p2 < length blob + DIR_ENTRY_SIZE then Inl (RecordTooLarge (length blob))
               else Inr (place_blob eid kind blob p2))
        else Inr (place_blob eid kind blob p1))"

definition slab_page_buf :: "(bytes \<Rightarrow> u32) \<Rightarrow> bytes \<Rightarrow> bytes" where
  "slab_page_buf crc buf = finalize_page crc (file_magic Overflow) PROP_SLAB_VERSION PropertySlab 0 buf"

definition write_blob ::
  "(bytes \<Rightarrow> u32) \<Rightarrow> 's backend \<Rightarrow> u32 \<Rightarrow> nat \<Rightarrow> entity_kind \<Rightarrow> bytes \<Rightarrow> ('s, storage_error, unit) step" where
  "write_blob crc be pid eid kind blob =
     sbind (be_read be Overflow pid) (\<lambda>buf.
     sbind (sread (\<lambda>_. store_blob eid kind blob (drop PAGE_HEADER_SIZE buf))) (\<lambda>payload.
     be_write be Overflow pid (slab_page_buf crc (take PAGE_HEADER_SIZE buf @ payload))))"

fun find_blob :: "nat \<Rightarrow> entity_kind \<Rightarrow> u32 \<Rightarrow> bytes \<Rightarrow> nat list \<Rightarrow> storage_error + bytes option" where
  "find_blob eid kind pid payload [] = Inr None"
| "find_blob eid kind pid payload (i # is) =
     (if DIR_COUNT_SIZE + i * DIR_ENTRY_SIZE + DIR_ENTRY_SIZE > PAGE_PAYLOAD_SIZE then Inl Diverges
      else
        let e = read_dir_entry payload i in
        if is_entry_of eid kind e then
          (if de_offset e < DIR_COUNT_SIZE \<or> de_offset e + de_len e > PAGE_PAYLOAD_SIZE
           then Inl (CorruptPage Overflow pid ''property slab entry points outside its page'')
           else Inr (Some (subslice (de_offset e) (de_len e) payload)))
        else find_blob eid kind pid payload is)"

definition read_blob :: "'s backend \<Rightarrow> u32 \<Rightarrow> nat \<Rightarrow> entity_kind \<Rightarrow> ('s, storage_error, bytes option) step" where
  "read_blob be pid eid kind =
     sbind (be_read be Overflow pid) (\<lambda>buf.
     let payload = drop PAGE_HEADER_SIZE buf in
     sread (\<lambda>_. find_blob eid kind pid payload [0..<read_dir_count payload]))"

text \<open>The turns of the freeing loop: the payload, whether a live entry was seen, whether one was freed.\<close>

definition free_turn :: "nat \<Rightarrow> entity_kind \<Rightarrow> nat \<Rightarrow> bytes \<times> bool \<times> bool \<Rightarrow> bytes \<times> bool \<times> bool" where
  "free_turn eid kind i = (\<lambda>(p, any_live, changed).
     let e = read_dir_entry p i in
     if de_kind e = KIND_FREED then (p, any_live, changed)
     else if is_entry_of eid kind e then (mark_freed i p, any_live, True)
     else (p, True, changed))"

definition free_blob ::
  "(bytes \<Rightarrow> u32) \<Rightarrow> 's backend \<Rightarrow> u32 \<Rightarrow> nat \<Rightarrow> entity_kind \<Rightarrow> ('s, storage_error, bool) step" where
  "free_blob crc be pid eid kind =
     sbind (be_read be Overflow pid) (\<lambda>buf.
     let payload = drop PAGE_HEADER_SIZE buf in
     if \<not> dir_in_page payload then sfail Diverges
     else
       let (payload', any_live, changed) = fold (free_turn eid kind) [0..<read_dir_count payload] (payload, False, False) in
       if changed
       then sbind (be_write be Overflow pid (slab_page_buf crc (take PAGE_HEADER_SIZE buf @ payload'))) (\<lambda>_. sret any_live)
       else sret any_live)"

definition init_page :: "(bytes \<Rightarrow> u32) \<Rightarrow> 's backend \<Rightarrow> u32 \<Rightarrow> ('s, storage_error, unit) step" where
  "init_page crc be pid = be_write be Overflow pid (slab_page_buf crc new_page_buf)"

definition is_slab_page :: "'s backend \<Rightarrow> u32 \<Rightarrow> ('s, storage_error, bool) step" where
  "is_slab_page be pid =
     sbind (be_read be Overflow pid) (\<lambda>buf. sret (ph_page_type (header_read buf) = page_type_code PropertySlab))"

section \<open>What a slab page holds\<close>

text \<open>Entries in directory order, each with its blob; the blobs lie one below the other from the end of the page.\<close>

type_synonym slab_entry = "nat \<times> byte \<times> bytes"

definition blob_of :: "slab_entry \<Rightarrow> bytes" where "blob_of e = snd (snd e)"

definition blob_total :: "slab_entry list \<Rightarrow> nat" where
  "blob_total es = sum_list (map (length \<circ> blob_of) es)"

definition blob_off :: "slab_entry list \<Rightarrow> nat \<Rightarrow> nat" where
  "blob_off es i = 4080 - blob_total (take (Suc i) es)"

definition slab_rep :: "bytes \<Rightarrow> slab_entry list \<Rightarrow> bool" where
  "slab_rep payload es \<longleftrightarrow> length payload = 4080 \<and> 2 + 16 * length es + blob_total es \<le> 4080 \<and>
     read_dir_count payload = length es \<and>
     (\<forall>i<length es. read_dir_entry payload i =
        \<lparr>de_entity = fst (es ! i), de_kind = fst (snd (es ! i)), de_offset = blob_off es i, de_len = length (blob_of (es ! i))\<rparr> \<and>
        subslice (blob_off es i) (length (blob_of (es ! i))) payload = blob_of (es ! i))"

section \<open>Reading and writing an entry\<close>

lemmas slab_consts = DIR_COUNT_SIZE_def DIR_ENTRY_SIZE_def

lemma subslice_subslice: "a + m \<le> n \<Longrightarrow> subslice a m (subslice off n xs) = subslice (off + a) m xs"
  by (simp add: subslice_def drop_take add.commute)

lemma read_dir_entry_cong:
  assumes "subslice (2 + i * 16) 16 p = subslice (2 + i * 16) 16 q" "2 + i * 16 + 16 \<le> length p" "2 + i * 16 + 16 \<le> length q"
  shows "read_dir_entry p i = read_dir_entry q i"
proof -
  let ?b = "2 + i * 16"
  have sub: "subslice (?b + a) m p = subslice (?b + a) m q" if "a + m \<le> 16" for a m
    using assms(1) subslice_subslice [OF that] by metis
  have "p ! (?b + 8) = q ! (?b + 8)"
    using assms nth_subslice [of 8 16 ?b p] nth_subslice [of 8 16 ?b q] by simp
  then show ?thesis using sub [of 0 8] sub [of 10 2] sub [of 12 4] by (simp add: read_dir_entry_def Let_def slab_consts)
qed

lemma update_splice: "i < length xs \<Longrightarrow> xs[i := v] = splice i [v] xs"
  by (simp add: splice_def upd_conv_take_nth_drop)

lemma write_dir_entry_frame:
  assumes "2 + i * 16 + 16 \<le> length p"
  shows "length (write_dir_entry i e p) = length p"
    "o' + n \<le> 2 + i * 16 \<or> 2 + i * 16 + 16 \<le> o' \<Longrightarrow> o' + n \<le> length p \<Longrightarrow> subslice o' n (write_dir_entry i e p) = subslice o' n p"
  using assms by (auto simp: write_dir_entry_def Let_def slab_consts update_splice subslice_splice_other)

lemma write_dir_entry_read:
  assumes "2 + i * 16 + 16 \<le> length p" "de_entity e < 2 ^ 64" "de_offset e < 2 ^ 16" "de_len e < 2 ^ 32"
  shows "read_dir_entry (write_dir_entry i e p) i = e"
  using assms
  by (simp add: read_dir_entry_def write_dir_entry_def Let_def slab_consts update_splice subslice_splice_other nth_splice
      le_nat_le_bytes le16_def le32_def unat_of_nat)

lemma write_dir_entry_other:
  assumes "2 + i * 16 + 16 \<le> length p" "2 + j * 16 + 16 \<le> length p" "i \<noteq> j"
  shows "read_dir_entry (write_dir_entry i e p) j = read_dir_entry p j"
proof (rule read_dir_entry_cong)
  have "2 + j * 16 + 16 \<le> 2 + i * 16 \<or> 2 + i * 16 + 16 \<le> 2 + j * 16" using assms(3) by (cases "j < i") auto
  then show "subslice (2 + j * 16) 16 (write_dir_entry i e p) = subslice (2 + j * 16) 16 p"
    using assms(2) by (intro write_dir_entry_frame(2) [OF assms(1)]) auto
qed (use assms write_dir_entry_frame(1) in auto)

section \<open>The entries behind the count\<close>

definition entry_rec :: "slab_entry list \<Rightarrow> nat \<Rightarrow> dir_entry" where
  "entry_rec es i = \<lparr>de_entity = fst (es ! i), de_kind = fst (snd (es ! i)), de_offset = blob_off es i, de_len = length (blob_of (es ! i))\<rparr>"

text \<open>\<open>slab_rep\<close> without the count: the state in the middle of a rewrite.\<close>

definition slab_pre :: "bytes \<Rightarrow> slab_entry list \<Rightarrow> bool" where
  "slab_pre payload es \<longleftrightarrow> length payload = 4080 \<and> 2 + 16 * length es + blob_total es \<le> 4080 \<and>
     (\<forall>i<length es. read_dir_entry payload i = entry_rec es i \<and>
        subslice (blob_off es i) (length (blob_of (es ! i))) payload = blob_of (es ! i))"

lemma slab_rep_pre: "slab_rep payload es \<longleftrightarrow> slab_pre payload es \<and> read_dir_count payload = length es"
  by (auto simp: slab_rep_def slab_pre_def entry_rec_def)

lemma blob_total_simps [simp]: "blob_total [] = 0" "blob_total (e # es) = length (blob_of e) + blob_total es"
  "blob_total (es @ fs) = blob_total es + blob_total fs"
  by (simp_all add: blob_total_def)

lemma blob_total_take: "blob_total (take i es) \<le> blob_total es"
  by (metis append_take_drop_id blob_total_simps(3) le_add1)

lemma blob_off_bounds:
  assumes "2 + 16 * length es + blob_total es \<le> 4080" "i < length es"
  shows "2 + 16 * length es \<le> blob_off es i" "blob_off es i + length (blob_of (es ! i)) = 4080 - blob_total (take i es)"
    "4080 - blob_total es \<le> blob_off es i"
proof -
  have "blob_total (take (Suc i) es) = blob_total (take i es) + length (blob_of (es ! i))"
    using assms(2) by (simp add: take_Suc_conv_app_nth)
  then show "2 + 16 * length es \<le> blob_off es i" "blob_off es i + length (blob_of (es ! i)) = 4080 - blob_total (take i es)"
    "4080 - blob_total es \<le> blob_off es i"
    using assms(1) blob_total_take [of "Suc i" es] by (simp_all add: blob_off_def)
qed

lemma slab_preD:
  assumes "slab_pre payload es" "i < length es"
  shows "read_dir_entry payload i = entry_rec es i" "subslice (blob_off es i) (length (blob_of (es ! i))) payload = blob_of (es ! i)"
    "length payload = 4080" "2 + 16 * length es + blob_total es \<le> 4080"
  using assms by (simp_all add: slab_pre_def)

lemma entry_id_less: "slab_pre payload es \<Longrightarrow> e \<in> set es \<Longrightarrow> fst e < 2 ^ 64"
proof -
  assume s: "slab_pre payload es" "e \<in> set es"
  then obtain i where i: "i < length es" "es ! i = e" by (meson in_set_conv_nth)
  have "de_entity (read_dir_entry payload i) < 2 ^ 64"
    using le_nat_less [of "subslice (2 + i * 16) 8 payload"] power_increasing [of "min 8 (length payload - (2 + i * 16))" 8 "256 :: nat"]
    by (simp add: read_dir_entry_def Let_def slab_consts)
  then show ?thesis using slab_preD(1) [OF s(1) i(1)] i(2) by (simp add: entry_rec_def)
qed

text \<open>One entry more, below the others.\<close>

lemma add_entry:
  assumes "slab_pre payload es" "2 + 16 * Suc (length es) + blob_total es + length b \<le> 4080" "eid < 2 ^ 64"
  defines "off \<equiv> 4080 - blob_total es - length b"
  shows "slab_pre (write_dir_entry (length es) \<lparr>de_entity = eid, de_kind = k, de_offset = off, de_len = length b\<rparr> (splice off b payload))
    (es @ [(eid, k, b)])" (is "slab_pre ?p ?es")
proof -
  let ?e = "\<lparr>de_entity = eid, de_kind = k, de_offset = off, de_len = length b\<rparr>" and ?n = "length es"
  have len: "length payload = 4080" using assms(1) by (simp add: slab_pre_def)
  have off: "2 + 16 * Suc ?n \<le> off" "off + length b = 4080 - blob_total es" using assms(2) by (simp_all add: off_def)
  have ls: "length (splice off b payload) = 4080" using len off(2) by simp
  have base: "2 + ?n * 16 + 16 \<le> length (splice off b payload)" using ls assms(2) by simp
  note fr = write_dir_entry_frame [OF base, where e = ?e]
  have total: "2 + 16 * length ?es + blob_total ?es \<le> 4080" using assms(2) by (simp add: blob_of_def)
  have bo: "blob_off ?es i = blob_off es i" if "i < ?n" for i using that by (simp add: blob_off_def)
  have bn: "blob_off ?es ?n = off" by (simp add: blob_off_def off_def blob_of_def)
  have "read_dir_entry ?p i = entry_rec ?es i \<and> subslice (blob_off ?es i) (length (blob_of (?es ! i))) ?p = blob_of (?es ! i)"
    if i: "i < length ?es" for i
  proof (cases "i < ?n")
    case True
    note d = slab_preD [OF assms(1) True] and o' = blob_off_bounds [OF slab_preD(4) [OF assms(1) True] True]
    have bi: "2 + i * 16 + 16 \<le> length (splice off b payload)" using base True by simp
    have "read_dir_entry ?p i = read_dir_entry (splice off b payload) i" by (rule write_dir_entry_other [OF base bi]) (use True in simp)
    also have "\<dots> = read_dir_entry payload i"
      using off True len by (intro read_dir_entry_cong) (auto simp: subslice_splice_other)
    finally have re: "read_dir_entry ?p i = entry_rec ?es i" using d(1) bo [OF True] True by (simp add: entry_rec_def nth_append)
    have below: "off + length b \<le> blob_off es i" using o'(3) off(2) by simp
    have end4: "blob_off es i + length (blob_of (es ! i)) \<le> 4080" using o'(2) by simp
    have "subslice (blob_off es i) (length (blob_of (es ! i))) ?p = subslice (blob_off es i) (length (blob_of (es ! i))) (splice off b payload)"
      using o'(1) off end4 ls below by (intro fr(2)) auto
    also have "\<dots> = blob_of (es ! i)" using below end4 len off(2) d(2) by (subst subslice_splice_other) auto
    finally show ?thesis using re bo [OF True] True by (simp add: nth_append)
  next
    case False
    then have i: "i = ?n" using i by simp
    have "read_dir_entry ?p ?n = ?e" by (rule write_dir_entry_read [OF base]) (use assms(3) off(2) in auto)
    moreover have "subslice off (length b) ?p = b"
      using off ls len by (subst fr(2)) auto
    ultimately show ?thesis using i bn by (simp add: entry_rec_def blob_of_def)
  qed
  then show ?thesis using total fr(1) ls by (simp add: slab_pre_def)
qed

lemma set_count:
  assumes "slab_pre payload es"
  shows "slab_rep (splice 0 (le16 (word_of_nat (length es))) payload) es"
proof -
  let ?p = "splice 0 (le16 (word_of_nat (length es))) payload"
  have len: "length payload = 4080" "2 + 16 * length es + blob_total es \<le> 4080" using assms by (simp_all add: slab_pre_def)
  have "read_dir_entry ?p i = entry_rec es i \<and> subslice (blob_off es i) (length (blob_of (es ! i))) ?p = blob_of (es ! i)"
    if i: "i < length es" for i
  proof -
    note o' = blob_off_bounds [OF len(2) i]
    have "read_dir_entry ?p i = read_dir_entry payload i"
      using len i by (intro read_dir_entry_cong) (auto simp: subslice_splice_other)
    moreover have "subslice (blob_off es i) (length (blob_of (es ! i))) ?p = subslice (blob_off es i) (length (blob_of (es ! i))) payload"
      using o' len(1) by (intro subslice_splice_other) auto
    ultimately show ?thesis using slab_preD(1,2) [OF assms i] by simp
  qed
  moreover have "read_dir_count ?p = length es" using len by (simp add: read_dir_count_def le16_def le_nat_le_bytes unat_of_nat)
  ultimately show ?thesis using len by (simp add: slab_rep_pre slab_pre_def)
qed

section \<open>Room on the page\<close>

lemma slab_entries:
  assumes "slab_rep payload es"
  shows "dir_entries payload = map (entry_rec es) [0..<length es]" "dir_in_page payload" "length payload = 4080"
    "2 + 16 * length es + blob_total es \<le> 4080" "read_dir_count payload = length es" "slab_pre payload es"
proof -
  show p: "slab_pre payload es" and c: "read_dir_count payload = length es" using assms by (simp_all add: slab_rep_pre)
  show "dir_entries payload = map (entry_rec es) [0..<length es]" using slab_preD(1) [OF p] by (simp add: dir_entries_def c)
  show "length payload = 4080" "2 + 16 * length es + blob_total es \<le> 4080" using p by (simp_all add: slab_pre_def)
  then show "dir_in_page payload" by (simp add: dir_in_page_def c slab_consts page_consts)
qed

lemma low_water: assumes "slab_rep payload es" shows "blob_low_water payload = 4080 - blob_total es"
proof -
  have "fold (\<lambda>e low. if de_offset e < low then de_offset e else low) (map (entry_rec es) [0..<n]) 4080 = 4080 - blob_total (take n es)"
    if "n \<le> length es" for n
    using that by (induction n) (auto simp: entry_rec_def blob_off_def take_Suc_conv_app_nth)
  from this [of "length es"] show ?thesis by (simp add: blob_low_water_def slab_entries(1) [OF assms] page_consts)
qed

lemma slab_free_space: "slab_rep payload es \<Longrightarrow> free_space payload = 4080 - blob_total es - (2 + 16 * length es)"
  by (simp add: free_space_def low_water slab_entries(5) slab_consts)

definition live_entry :: "slab_entry \<Rightarrow> bool" where "live_entry e \<longleftrightarrow> fst (snd e) \<noteq> KIND_FREED"

lemma filter_entries: "filter P es = map ((!) es) (filter (\<lambda>i. P (es ! i)) [0..<length es])"
proof -
  have "filter P es = filter P (map ((!) es) [0..<length es])" by (simp add: map_nth)
  then show ?thesis by (simp add: filter_map comp_def)
qed

lemma free_space_compacted:
  assumes "slab_rep payload es"
  shows "free_space_after_compaction payload = 4080 - (2 + 16 * length (filter live_entry es) + blob_total (filter live_entry es))"
proof -
  let ?L = "filter (\<lambda>i. live_entry (es ! i)) [0..<length es]"
  have "filter (\<lambda>e. de_kind e \<noteq> KIND_FREED) (dir_entries payload) = map (entry_rec es) ?L"
    by (simp add: slab_entries(1) [OF assms] filter_map comp_def entry_rec_def live_entry_def)
  moreover have "sum_list (map de_len (map (entry_rec es) ?L)) = blob_total (filter live_entry es)"
    unfolding blob_total_def filter_entries [of live_entry es] map_map
    by (rule arg_cong [of _ _ sum_list], rule map_cong) (simp_all add: entry_rec_def)
  moreover have "length (filter live_entry es) = length ?L" unfolding filter_entries [of live_entry es] by simp
  ultimately show ?thesis
    by (simp add: free_space_after_compaction_def Let_def slab_consts page_consts del: map_map)
qed

section \<open>Retiring, sweeping, finding\<close>

lemma mark_freed_rep:
  assumes "slab_rep payload es" "i < length es"
  shows "slab_rep (mark_freed i payload) (es[i := (fst (es ! i), KIND_FREED, blob_of (es ! i))])" (is "slab_rep ?p ?es")
proof -
  note s = slab_entries [OF assms(1)]
  let ?b = "2 + i * 16 + 8"
  have p: "?p = payload[?b := KIND_FREED]" by (simp add: mark_freed_def slab_consts)
  have in_page: "?b < 2 + 16 * length es" using assms(2) by simp
  have blobs: "blob_of (?es ! j) = blob_of (es ! j)" "fst (?es ! j) = fst (es ! j)" if "j < length es" for j
    using that by (cases "j = i"; simp add: blob_of_def)+
  have "map blob_of ?es = map blob_of es" using blobs by (intro nth_equalityI) simp_all
  then have "map blob_of (take n ?es) = map blob_of (take n es)" for n by (metis take_map)
  then have tot: "blob_total (take n ?es) = blob_total (take n es)" for n unfolding blob_total_def by (metis map_map)
  then have off: "blob_off ?es j = blob_off es j" for j by (simp add: blob_off_def)
  have "read_dir_entry ?p j = entry_rec ?es j \<and> subslice (blob_off ?es j) (length (blob_of (?es ! j))) ?p = blob_of (?es ! j)"
    if j: "j < length ?es" for j
  proof
    have j': "j < length es" using j by simp
    note o' = blob_off_bounds [OF s(4) j']
    note d = slab_preD(1,2) [OF s(6) j']
    have sub: "subslice (blob_off es j) (length (blob_of (es ! j))) ?p = subslice (blob_off es j) (length (blob_of (es ! j))) payload"
      unfolding p using o'(1) in_page by (auto simp: subslice_def drop_update_swap)
    then show "subslice (blob_off ?es j) (length (blob_of (?es ! j))) ?p = blob_of (?es ! j)" using d(2) off blobs(1) [OF j'] by simp
    show "read_dir_entry ?p j = entry_rec ?es j"
    proof (cases "j = i")
      case True
      have "read_dir_entry ?p i = (read_dir_entry payload i)\<lparr>de_kind := KIND_FREED\<rparr>"
        using s(3,4) assms(2) by (simp add: p read_dir_entry_def Let_def slab_consts subslice_def drop_update_swap)
      then show ?thesis using True d(1) off blobs [OF j'] assms(2) by (simp add: entry_rec_def)
    next
      case False
      have "read_dir_entry ?p j = read_dir_entry payload j"
      proof (rule read_dir_entry_cong)
        have "?b < 2 + j * 16 \<or> 2 + j * 16 + 16 \<le> ?b" using False by (cases "j < i") auto
        then show "subslice (2 + j * 16) 16 ?p = subslice (2 + j * 16) 16 payload" unfolding p by (auto simp: subslice_def drop_update_swap)
      qed (use s(3,4) j' p in auto)
      then show ?thesis using False d(1) off blobs [OF j'] by (simp add: entry_rec_def)
    qed
  qed
  moreover have "read_dir_count ?p = length ?es" using s(5) by (simp add: p read_dir_count_def subslice_def)
  ultimately show ?thesis using s(3,4) tot [of "length es"] by (simp add: slab_rep_pre slab_pre_def p)
qed

definition matches :: "nat \<Rightarrow> entity_kind \<Rightarrow> slab_entry \<Rightarrow> bool" where
  "matches eid kind e \<longleftrightarrow> fst (snd e) = kind_byte kind \<and> fst e = eid"

definition retired :: "nat \<Rightarrow> entity_kind \<Rightarrow> slab_entry \<Rightarrow> slab_entry" where
  "retired eid kind e = (if matches eid kind e then (fst e, KIND_FREED, blob_of e) else e)"

lemma kind_byte_inj [simp]: "kind_byte k = kind_byte k' \<longleftrightarrow> k = k'"
  by (cases k; cases k') simp_all

lemma kind_byte_live: "kind_byte kind \<noteq> KIND_FREED"
  by (cases kind) (simp_all add: KIND_FREED_def)

lemma is_entry_matches: "slab_pre payload es \<Longrightarrow> i < length es \<Longrightarrow> is_entry_of eid kind (read_dir_entry payload i) \<longleftrightarrow> matches eid kind (es ! i)"
  by (simp add: slab_preD(1) is_entry_of_def matches_def entry_rec_def)

lemma retire_prefix:
  assumes "slab_rep payload es" "n \<le> length es"
  shows "slab_rep (fold (\<lambda>i p. if is_entry_of eid kind (read_dir_entry p i) then mark_freed i p else p) [0..<n] payload)
    (map (retired eid kind) (take n es) @ drop n es)"
  using assms(2)
proof (induction n)
  case 0
  then show ?case using assms(1) by simp
next
  case (Suc n)
  let ?p = "fold (\<lambda>i p. if is_entry_of eid kind (read_dir_entry p i) then mark_freed i p else p) [0..<n] payload"
  let ?es = "map (retired eid kind) (take n es) @ drop n es"
  have n: "n < length ?es" "?es ! n = es ! n" using Suc.prems by (simp_all add: nth_append)
  have ih: "slab_rep ?p ?es" using Suc by simp
  have next': "map (retired eid kind) (take (Suc n) es) @ drop (Suc n) es = ?es[n := retired eid kind (es ! n)]"
    using Suc.prems by (simp add: take_Suc_conv_app_nth list_update_append Cons_nth_drop_Suc [symmetric])
  show ?case
  proof (cases "matches eid kind (es ! n)")
    case True
    then have "is_entry_of eid kind (read_dir_entry ?p n)" using is_entry_matches [OF slab_entries(6) [OF ih] n(1)] n(2) by simp
    moreover have "retired eid kind (es ! n) = (fst (es ! n), KIND_FREED, blob_of (es ! n))" using True by (simp add: retired_def)
    ultimately show ?thesis unfolding next' using mark_freed_rep [OF ih n(1)] n(2) by simp
  next
    case False
    then have "\<not> is_entry_of eid kind (read_dir_entry ?p n)" using is_entry_matches [OF slab_entries(6) [OF ih] n(1)] n(2) by simp
    moreover have "?es[n := retired eid kind (es ! n)] = ?es" using False list_update_id [of ?es n] n(2) by (simp add: retired_def)
    ultimately show ?thesis unfolding next' using ih by simp
  qed
qed

lemma retire_rep: "slab_rep payload es \<Longrightarrow> slab_rep (retire_entries eid kind payload) (map (retired eid kind) es)"
  using retire_prefix [of payload es "length es"] by (simp add: retire_entries_def slab_entries(5))

lemma rewrite_live_rep:
  assumes "slab_pre payload es" "\<forall>(e, bs)\<in>set live. de_entity e < 2 ^ 64"
    and "2 + 16 * (length es + length live) + blob_total es + sum_list (map (length \<circ> snd) live) \<le> 4080"
  shows "\<exists>p. rewrite_live (length es) (4080 - blob_total es) live payload = Some p \<and>
    slab_pre p (es @ map (\<lambda>(e, bs). (de_entity e, de_kind e, bs)) live)"
  using assms
proof (induction live arbitrary: payload es)
  case (Cons l live)
  obtain e bs where l: "l = (e, bs)" by fastforce
  let ?es = "es @ [(de_entity e, de_kind e, bs)]" and ?off = "4080 - blob_total es - length bs"
  let ?p = "write_dir_entry (length es) (e\<lparr>de_offset := ?off, de_len := length bs\<rparr>) (splice ?off bs payload)"
  have fits: "2 + 16 * Suc (length es) + blob_total es + length bs \<le> 4080" using Cons.prems(3) l by simp
  have e: "e\<lparr>de_offset := ?off, de_len := length bs\<rparr> = \<lparr>de_entity = de_entity e, de_kind = de_kind e, de_offset = ?off, de_len = length bs\<rparr>" by simp
  have "de_entity e < 2 ^ 64" using Cons.prems(2) l by simp
  then have pre: "slab_pre ?p ?es" unfolding e by (rule add_entry [OF Cons.prems(1) fits])
  have bound: "2 + 16 * (length ?es + length live) + blob_total ?es + sum_list (map (length \<circ> snd) live) \<le> 4080"
    using Cons.prems(3) l by (simp add: blob_of_def comp_def)
  have lv: "\<forall>(e, bs)\<in>set live. de_entity e < 2 ^ 64" using Cons.prems(2) by simp
  have "\<exists>p. rewrite_live (length ?es) (4080 - blob_total ?es) live ?p = Some p \<and>
      slab_pre p (?es @ map (\<lambda>(e, bs). (de_entity e, de_kind e, bs)) live)"
    by (rule Cons.IH [OF pre lv bound])
  moreover have "length ?es = Suc (length es)" "4080 - blob_total ?es = ?off" by (simp_all add: blob_of_def)
  ultimately show ?case using l fits by (simp add: Let_def)
qed simp

lemma live_blobs_rep:
  assumes "slab_rep payload es"
  shows "map (\<lambda>(e, bs). (de_entity e, de_kind e, bs)) (live_blobs payload) = filter live_entry es"
    "sum_list (map (length \<circ> snd) (live_blobs payload)) = blob_total (filter live_entry es)"
    "length (live_blobs payload) = length (filter live_entry es)"
    "\<forall>(e, bs)\<in>set (live_blobs payload). de_entity e < 2 ^ 64"
proof -
  note s = slab_entries [OF assms]
  let ?L = "filter (\<lambda>i. live_entry (es ! i)) [0..<length es]"
  have in_range: "2 \<le> blob_off es i \<and> blob_off es i + length (blob_of (es ! i)) \<le> 4080" if "i < length es" for i
    using blob_off_bounds(1,2) [OF s(4) that] by simp
  have lb: "live_blobs payload = map (\<lambda>i. (entry_rec es i, blob_of (es ! i))) ?L"
    unfolding live_blobs_def s(1) filter_map map_map comp_def
  proof (rule map_cong)
    show "filter (\<lambda>i. de_kind (entry_rec es i) \<noteq> KIND_FREED \<and>
        \<not> (de_offset (entry_rec es i) < DIR_COUNT_SIZE \<or> PAGE_PAYLOAD_SIZE < de_offset (entry_rec es i) + de_len (entry_rec es i)))
        [0..<length es] = ?L"
    proof (rule filter_cong [OF refl])
      fix i assume "i \<in> set [0..<length es]"
      then have "i < length es" by simp
      from in_range [OF this]
      show "(de_kind (entry_rec es i) \<noteq> KIND_FREED \<and>
          \<not> (de_offset (entry_rec es i) < DIR_COUNT_SIZE \<or> PAGE_PAYLOAD_SIZE < de_offset (entry_rec es i) + de_len (entry_rec es i))) =
          live_entry (es ! i)"
        by (simp add: entry_rec_def live_entry_def slab_consts page_consts not_less)
    qed
    show "(entry_rec es i, subslice (de_offset (entry_rec es i)) (de_len (entry_rec es i)) payload) = (entry_rec es i, blob_of (es ! i))"
      if "i \<in> set ?L" for i using that slab_preD(2) [OF s(6)] by (simp add: entry_rec_def)
  qed
  show m: "map (\<lambda>(e, bs). (de_entity e, de_kind e, bs)) (live_blobs payload) = filter live_entry es"
    unfolding lb filter_entries [of live_entry es] by (simp add: entry_rec_def blob_of_def)
  show "sum_list (map (length \<circ> snd) (live_blobs payload)) = blob_total (filter live_entry es)"
    unfolding m [symmetric] blob_total_def by (simp add: comp_def case_prod_unfold blob_of_def)
  show "length (live_blobs payload) = length (filter live_entry es)" unfolding m [symmetric] by simp
  show "\<forall>(e, bs)\<in>set (live_blobs payload). de_entity e < 2 ^ 64"
    unfolding lb using entry_id_less [OF s(6)] by (auto simp: entry_rec_def)
qed

lemma filter_total_le: "16 * length (filter P es) + blob_total (filter P es) \<le> 16 * length es + blob_total es"
  by (induction es) auto

lemma compact_rep:
  assumes "slab_rep payload es"
  shows "\<exists>p. compact payload = Some p \<and> slab_rep p (filter live_entry es)"
proof -
  note s = slab_entries [OF assms] and l = live_blobs_rep [OF assms]
  have zero: "slab_pre (replicate 4080 0) []" by (simp add: slab_pre_def)
  have "2 + 16 * (length [] + length (live_blobs payload)) + blob_total [] + sum_list (map (length \<circ> snd) (live_blobs payload)) \<le> 4080"
    using s(4) filter_total_le [of live_entry es] l(2,3) by simp
  from rewrite_live_rep [OF zero l(4) this] obtain p where p: "rewrite_live 0 4080 (live_blobs payload) (replicate 4080 0) = Some p"
      "slab_pre p (filter live_entry es)" unfolding l(1) by auto
  then show ?thesis using set_count [OF p(2)] l(3) s(3) by (simp add: compact_def Let_def page_consts)
qed

lemma place_blob_rep:
  assumes "slab_rep payload es" "2 + 16 * Suc (length es) + blob_total es + length b \<le> 4080" "eid < 2 ^ 64"
  shows "slab_rep (place_blob eid kind b payload) (es @ [(eid, kind_byte kind, b)])"
  using set_count [OF add_entry [OF slab_entries(6) [OF assms(1)] assms(2,3), where k = "kind_byte kind"]]
  by (simp add: place_blob_def Let_def low_water [OF assms(1)] slab_entries(5) [OF assms(1)] add.commute)

definition slab_lookup :: "slab_entry list \<Rightarrow> nat \<Rightarrow> entity_kind \<Rightarrow> bytes option" where
  "slab_lookup es eid kind = map_option blob_of (find (matches eid kind) es)"

lemma find_blob_rep:
  assumes "slab_rep payload es"
  shows "find_blob eid kind pid payload [0..<length es] = Inr (slab_lookup es eid kind)"
proof -
  note s = slab_entries [OF assms]
  have "find_blob eid kind pid payload [k..<length es] = Inr (map_option blob_of (find (matches eid kind) (drop k es)))" if "k \<le> length es" for k
    using that
  proof (induction "length es - k" arbitrary: k)
    case 0
    then show ?case by simp
  next
    case (Suc n)
    then have k: "k < length es" by simp
    have "find_blob eid kind pid payload [Suc k..<length es] = Inr (map_option blob_of (find (matches eid kind) (drop (Suc k) es)))"
      using Suc.hyps(1) [of "Suc k"] Suc.hyps(2) k by simp
    moreover have "drop k es = es ! k # drop (Suc k) es" using k by (simp add: Cons_nth_drop_Suc)
    moreover have "[k..<length es] = k # [Suc k..<length es]" using k by (simp add: upt_conv_Cons)
    moreover have "\<not> 2 + k * 16 + 16 > 4080" using s(4) k by simp
    moreover have "blob_off es k + length (blob_of (es ! k)) \<le> 4080" "2 \<le> blob_off es k" using blob_off_bounds(1,2) [OF s(4) k] by simp_all
    ultimately show ?case
      using is_entry_matches [OF s(6) k] slab_preD(1,2) [OF s(6) k]
      by (simp add: Let_def slab_consts page_consts entry_rec_def)
  qed
  from this [of 0] show ?thesis by (simp add: slab_lookup_def)
qed

section \<open>A page is a map from entities to blobs\<close>

lemma find_retired:
  "find (matches eid' kind') (map (retired eid kind) es) = (if eid' = eid \<and> kind' = kind then None else find (matches eid' kind') es)"
proof (induction es)
  case (Cons e es)
  have "matches eid' kind' (retired eid kind e) \<longleftrightarrow> matches eid' kind' e \<and> \<not> (eid' = eid \<and> kind' = kind)"
    using kind_byte_live [of kind'] by (auto simp: matches_def retired_def)
  moreover have "matches eid' kind' e \<Longrightarrow> \<not> (eid' = eid \<and> kind' = kind) \<Longrightarrow> retired eid kind e = e"
    by (auto simp: matches_def retired_def)
  ultimately show ?case using Cons.IH by auto
qed simp

lemma find_live: "find (matches eid kind) (filter live_entry es) = find (matches eid kind) es"
  using kind_byte_live [of kind] by (induction es) (auto simp: matches_def live_entry_def)

lemma find_append: "find P (xs @ ys) = (case find P xs of None \<Rightarrow> find P ys | Some x \<Rightarrow> Some x)"
  by (induction xs) auto

lemma lookup_stored:
  assumes "filter live_entry es' = filter live_entry (map (retired eid kind) es)"
  shows "slab_lookup (es' @ [(eid, kind_byte kind, b)]) eid' kind' = (if eid' = eid \<and> kind' = kind then Some b else slab_lookup es eid' kind')"
proof -
  have "find (matches eid' kind') es' = (if eid' = eid \<and> kind' = kind then None else find (matches eid' kind') es)"
    using find_live [of eid' kind' es'] find_live [of eid' kind' "map (retired eid kind) es"] assms find_retired by metis
  then show ?thesis by (auto simp: slab_lookup_def find_append matches_def blob_of_def split: option.splits)
qed

text \<open>The live entries of a page other than the one that is replaced, and whether a blob fits beside them.\<close>

definition others :: "nat \<Rightarrow> entity_kind \<Rightarrow> slab_entry list \<Rightarrow> slab_entry list" where
  "others eid kind es = filter (\<lambda>e. live_entry e \<and> \<not> matches eid kind e) es"

definition fits :: "slab_entry list \<Rightarrow> nat \<Rightarrow> bool" where
  "fits es n \<longleftrightarrow> 2 + 16 * Suc (length es) + blob_total es + n \<le> 4080"

lemma live_retired: "filter live_entry (map (retired eid kind) es) = others eid kind es"
  using kind_byte_live [of kind] by (induction es) (auto simp: live_entry_def retired_def matches_def others_def)

lemma retired_total: "blob_total (map (retired eid kind) es) = blob_total es"
  by (induction es) (auto simp: retired_def blob_of_def)

text \<open>The kinds the code writes.\<close>

definition known_kinds :: "slab_entry list \<Rightarrow> bool" where
  "known_kinds es \<longleftrightarrow> (\<forall>e\<in>set es. live_entry e \<longrightarrow> (\<exists>kind. fst (snd e) = kind_byte kind))"

lemma known_kinds_kept:
  assumes "known_kinds es"
  shows "known_kinds (map (retired eid kind) es)" "known_kinds (others eid kind es)" "known_kinds (es @ [(eid, kind_byte kind, b)])"
  using assms by (auto simp: known_kinds_def retired_def others_def live_entry_def)

lemma store_blob_spec:
  assumes "slab_rep payload es" "eid < 2 ^ 64"
  shows "if fits (others eid kind es) (length b)
    then (\<exists>p es'. store_blob eid kind b payload = Inr p \<and> slab_rep p es' \<and> (known_kinds es \<longrightarrow> known_kinds es') \<and>
       (\<forall>eid' kind'. slab_lookup es' eid' kind' = (if eid' = eid \<and> kind' = kind then Some b else slab_lookup es eid' kind')))
    else store_blob eid kind b payload = Inl (RecordTooLarge (length b))"
proof -
  let ?p1 = "retire_entries eid kind payload" and ?es1 = "map (retired eid kind) es"
  have r1: "slab_rep ?p1 ?es1" by (rule retire_rep [OF assms(1)])
  have bound: "2 + 16 * length es + blob_total es \<le> 4080" by (rule slab_entries(4) [OF assms(1)])
  have fs1: "free_space ?p1 = 4080 - blob_total es - (2 + 16 * length es)" using slab_free_space [OF r1] by (simp add: retired_total)
  have le: "16 * length (others eid kind es) + blob_total (others eid kind es) \<le> 16 * length es + blob_total es"
    unfolding others_def by (rule filter_total_le)
  show ?thesis
  proof (cases "free_space ?p1 < length b + 16")
    case False
    then have f1: "2 + 16 * Suc (length ?es1) + blob_total ?es1 + length b \<le> 4080" using fs1 bound by (simp add: retired_total)
    then have "fits (others eid kind es) (length b)" using le by (simp add: fits_def retired_total)
    moreover have "store_blob eid kind b payload = Inr (place_blob eid kind b ?p1)"
      using False slab_entries(2) [OF assms(1)] by (simp add: store_blob_def Let_def slab_consts)
    moreover note place_blob_rep [OF r1 f1 assms(2), of kind]
    moreover have "known_kinds es \<longrightarrow> known_kinds (?es1 @ [(eid, kind_byte kind, b)])" using known_kinds_kept by blast
    ultimately show ?thesis using lookup_stored [of ?es1 eid kind es b] by auto
  next
    case True
    obtain p2 where c: "compact ?p1 = Some p2" "slab_rep p2 (others eid kind es)"
      using compact_rep [OF r1] unfolding live_retired by blast
    have fs2: "free_space p2 = 4080 - blob_total (others eid kind es) - (2 + 16 * length (others eid kind es))"
      by (rule slab_free_space [OF c(2)])
    have st: "store_blob eid kind b payload = (if free_space p2 < length b + 16 then Inl (RecordTooLarge (length b))
        else Inr (place_blob eid kind b p2))"
      using True c(1) slab_entries(2) [OF assms(1)] by (simp add: store_blob_def Let_def slab_consts)
    have eq: "\<not> free_space p2 < length b + 16 \<longleftrightarrow> fits (others eid kind es) (length b)"
      using fs2 slab_entries(4) [OF c(2)] by (auto simp: fits_def)
    show ?thesis
    proof (cases "fits (others eid kind es) (length b)")
      case F: True
      then have f2: "2 + 16 * Suc (length (others eid kind es)) + blob_total (others eid kind es) + length b \<le> 4080" by (simp add: fits_def)
      have "filter live_entry (others eid kind es) = filter live_entry ?es1" by (simp add: live_retired others_def conj_commute)
      moreover have "known_kinds es \<longrightarrow> known_kinds (others eid kind es @ [(eid, kind_byte kind, b)])" using known_kinds_kept by blast
      ultimately show ?thesis using lookup_stored [of "others eid kind es" eid kind es b] place_blob_rep [OF c(2) f2 assms(2), of kind] F st eq by auto
    next
      case False
      then show ?thesis using st eq by simp
    qed
  qed
qed

text \<open>The test the engine makes before it writes: it never refuses wrongly, and what it admits fits.\<close>

lemma has_room_fits:
  assumes "slab_rep payload es" "has_room_for payload n"
  shows "fits (others eid kind es) n"
proof -
  have "free_space payload \<ge> n + 16 \<or> free_space_after_compaction payload \<ge> n + 16"
    using assms(2) by (simp add: has_room_for_def Let_def slab_consts)
  moreover have "16 * length (others eid kind es) + blob_total (others eid kind es) \<le> 16 * length es + blob_total es"
    unfolding others_def by (rule filter_total_le)
  moreover have "others eid kind es = filter (\<lambda>e. \<not> matches eid kind e) (filter live_entry es)" by (simp add: others_def conj_commute)
  then have "16 * length (others eid kind es) + blob_total (others eid kind es) \<le>
      16 * length (filter live_entry es) + blob_total (filter live_entry es)" using filter_total_le by metis
  ultimately show ?thesis
    using slab_free_space [OF assms(1)] free_space_compacted [OF assms(1)] by (auto simp: fits_def)
qed

lemma free_prefix:
  assumes "slab_rep payload es" "n \<le> length es"
  shows "\<exists>p. fold (free_turn eid kind) [0..<n] (payload, False, False) =
      (p, \<exists>e\<in>set (take n es). live_entry e \<and> \<not> matches eid kind e, \<exists>e\<in>set (take n es). matches eid kind e) \<and>
    slab_rep p (map (retired eid kind) (take n es) @ drop n es) \<and> ((\<forall>e\<in>set (take n es). \<not> matches eid kind e) \<longrightarrow> p = payload)"
  using assms(2)
proof (induction n)
  case 0
  then show ?case using assms(1) by simp
next
  case (Suc n)
  let ?es = "map (retired eid kind) (take n es) @ drop n es"
  obtain p where ih: "fold (free_turn eid kind) [0..<n] (payload, False, False) =
      (p, \<exists>e\<in>set (take n es). live_entry e \<and> \<not> matches eid kind e, \<exists>e\<in>set (take n es). matches eid kind e)" "slab_rep p ?es"
      "(\<forall>e\<in>set (take n es). \<not> matches eid kind e) \<longrightarrow> p = payload"
    using Suc by auto
  have n: "n < length ?es" "?es ! n = es ! n" using Suc.prems by (simp_all add: nth_append)
  have next': "map (retired eid kind) (take (Suc n) es) @ drop (Suc n) es = ?es[n := retired eid kind (es ! n)]"
    using Suc.prems by (simp add: take_Suc_conv_app_nth list_update_append Cons_nth_drop_Suc [symmetric])
  have st: "set (take (Suc n) es) = insert (es ! n) (set (take n es))" using Suc.prems by (simp add: take_Suc_conv_app_nth)
  have kind: "de_kind (read_dir_entry p n) = KIND_FREED \<longleftrightarrow> \<not> live_entry (es ! n)"
    using slab_preD(1) [OF slab_entries(6) [OF ih(2)] n(1)] n(2) by (simp add: entry_rec_def live_entry_def)
  have mt: "is_entry_of eid kind (read_dir_entry p n) \<longleftrightarrow> matches eid kind (es ! n)"
    using is_entry_matches [OF slab_entries(6) [OF ih(2)] n(1)] n(2) by simp
  show ?case
  proof (cases "matches eid kind (es ! n)")
    case True
    then have live: "live_entry (es ! n)" using kind_byte_live [of kind] by (auto simp: matches_def live_entry_def)
    have "retired eid kind (es ! n) = (fst (es ! n), KIND_FREED, blob_of (es ! n))" using True by (simp add: retired_def)
    then have "slab_rep (mark_freed n p) (map (retired eid kind) (take (Suc n) es) @ drop (Suc n) es)"
      unfolding next' using mark_freed_rep [OF ih(2) n(1)] n(2) by simp
    then show ?thesis using ih(1) True live kind mt st by (auto simp: free_turn_def [of eid kind n] Let_def)
  next
    case False
    have "?es[n := retired eid kind (es ! n)] = ?es" using False list_update_id [of ?es n] n(2) by (simp add: retired_def)
    then have "slab_rep p (map (retired eid kind) (take (Suc n) es) @ drop (Suc n) es)" unfolding next' using ih(2) by simp
    then show ?thesis using ih(1,3) False kind mt st by (auto simp: free_turn_def [of eid kind n] Let_def)
  qed
qed

lemma free_all:
  assumes "slab_rep payload es"
  shows "\<exists>p. fold (free_turn eid kind) [0..<read_dir_count payload] (payload, False, False) =
      (p, \<exists>e\<in>set es. live_entry e \<and> \<not> matches eid kind e, \<exists>e\<in>set es. matches eid kind e) \<and>
    slab_rep p (map (retired eid kind) es) \<and> ((\<forall>e\<in>set es. \<not> matches eid kind e) \<longrightarrow> p = payload)"
  using free_prefix [OF assms order_refl, of eid kind] by (simp add: slab_entries(5) [OF assms])

text \<open>The map a page stands for.\<close>

definition slab_holds :: "bytes \<Rightarrow> (nat \<times> entity_kind \<rightharpoonup> bytes) \<Rightarrow> bool" where
  "slab_holds page M \<longleftrightarrow> (\<exists>es. slab_rep (drop PAGE_HEADER_SIZE page) es \<and> known_kinds es \<and> M = (\<lambda>(eid, kind). slab_lookup es eid kind))"

lemma slab_lookup_None: "slab_lookup es eid kind = None \<longleftrightarrow> (\<forall>e\<in>set es. \<not> matches eid kind e)"
  by (auto simp: slab_lookup_def find_None_iff)

lemma live_others:
  assumes "known_kinds es"
  shows "(\<exists>e\<in>set es. live_entry e \<and> \<not> matches eid kind e) \<longleftrightarrow> (\<exists>k. k \<noteq> (eid, kind) \<and> (\<lambda>(eid, kind). slab_lookup es eid kind) k \<noteq> None)"
proof
  assume "\<exists>e\<in>set es. live_entry e \<and> \<not> matches eid kind e"
  then obtain e kind' where e: "e \<in> set es" "\<not> matches eid kind e" "fst (snd e) = kind_byte kind'"
    using assms by (auto simp: known_kinds_def)
  then have "matches (fst e) kind' e" "(fst e, kind') \<noteq> (eid, kind)" by (auto simp: matches_def)
  then show "\<exists>k. k \<noteq> (eid, kind) \<and> (\<lambda>(eid, kind). slab_lookup es eid kind) k \<noteq> None"
    using e(1) slab_lookup_None [of es "fst e" kind'] by (intro exI [of _ "(fst e, kind')"]) auto
next
  assume "\<exists>k. k \<noteq> (eid, kind) \<and> (\<lambda>(eid, kind). slab_lookup es eid kind) k \<noteq> None"
  then obtain eid' kind' where k: "(eid', kind') \<noteq> (eid, kind)" "slab_lookup es eid' kind' \<noteq> None" by auto
  then obtain e where e: "(eid', kind') \<noteq> (eid, kind)" "e \<in> set es" "matches eid' kind' e"
    unfolding slab_lookup_None by blast
  then have "live_entry e" "\<not> matches eid kind e" using kind_byte_live by (auto simp: matches_def live_entry_def)
  then show "\<exists>e\<in>set es. live_entry e \<and> \<not> matches eid kind e" using e(2) by blast
qed

lemma slab_buf:
  assumes "length buf = PAGE_SIZE" "slab_rep payload es"
  shows "page_valid crc Overflow (slab_page_buf crc (take PAGE_HEADER_SIZE buf @ payload))"
    "drop PAGE_HEADER_SIZE (slab_page_buf crc (take PAGE_HEADER_SIZE buf @ payload)) = payload"
    "ph_page_type (header_read (slab_page_buf crc (take PAGE_HEADER_SIZE buf @ payload))) = page_type_code PropertySlab"
proof -
  have "length (take PAGE_HEADER_SIZE buf @ payload) = PAGE_SIZE" using assms slab_entries(3) [OF assms(2)] by (simp add: page_consts)
  note f = finalized_page [OF this, of crc Overflow PROP_SLAB_VERSION PropertySlab 0]
  show "page_valid crc Overflow (slab_page_buf crc (take PAGE_HEADER_SIZE buf @ payload))"
    "ph_page_type (header_read (slab_page_buf crc (take PAGE_HEADER_SIZE buf @ payload))) = page_type_code PropertySlab"
    using f by (simp_all add: slab_page_buf_def)
  show "drop PAGE_HEADER_SIZE (slab_page_buf crc (take PAGE_HEADER_SIZE buf @ payload)) = payload"
    using f(2) assms(1) by (simp add: slab_page_buf_def page_consts)
qed

lemma fresh_slab:
  "page_valid crc Overflow (slab_page_buf crc new_page_buf)" "slab_holds (slab_page_buf crc new_page_buf) Map.empty"
  "ph_page_type (header_read (slab_page_buf crc new_page_buf)) = page_type_code PropertySlab"
proof -
  have len: "length new_page_buf = PAGE_SIZE" by (simp add: new_page_buf_def)
  have "slab_rep (replicate 4080 0) []" by (simp add: slab_rep_def read_dir_count_def subslice_def numeral_2_eq_2)
  moreover have "take PAGE_HEADER_SIZE new_page_buf @ replicate 4080 0 = new_page_buf"
    by (simp add: new_page_buf_def page_consts replicate_add [symmetric])
  moreover note slab_buf [OF len, of "replicate 4080 0" "[]" crc]
  ultimately show "page_valid crc Overflow (slab_page_buf crc new_page_buf)" "slab_holds (slab_page_buf crc new_page_buf) Map.empty"
    "ph_page_type (header_read (slab_page_buf crc new_page_buf)) = page_type_code PropertySlab"
    by (auto simp: slab_holds_def known_kinds_def slab_lookup_def fun_eq_iff intro!: exI [of _ "[]"])
qed

section \<open>Slab pages in a store\<close>

context page_backend
begin

lemma write_blob_spec:
  assumes "write_blob crc be p eid kind b s = (Inr u, s')" "rep s U" "U (Overflow, p) = Some page" "slab_holds page M" "eid < 2 ^ 64"
  shows "\<exists>page'. rep s' (U((Overflow, p) \<mapsto> page')) \<and> slab_holds page' (M((eid, kind) \<mapsto> b)) \<and> be_count be s' = be_count be s \<and>
    ph_page_type (header_read page') = page_type_code PropertySlab"
proof -
  obtain es where es: "slab_rep (drop PAGE_HEADER_SIZE page) es" "known_kinds es" "M = (\<lambda>(eid, kind). slab_lookup es eid kind)"
    using assms(4) unfolding slab_holds_def by blast
  obtain d s1 where rd: "be_read be Overflow p s = (Inr d, s1)" using assms(1) by (auto simp: write_blob_def sbind_eq_Inr)
  note r = read_law(1) [OF rd assms(2,3)] read_law(2) [OF rd]
  obtain q where q: "store_blob eid kind b (drop PAGE_HEADER_SIZE page) = Inr q"
      "be_write be Overflow p (slab_page_buf crc (take PAGE_HEADER_SIZE page @ q)) s1 = (Inr u, s')"
    using assms(1) rd r(1) by (auto simp: write_blob_def sbind_eq_Inr)
  obtain es' where es': "slab_rep q es'" "known_kinds es'"
      "\<forall>eid' kind'. slab_lookup es' eid' kind' = (if eid' = eid \<and> kind' = kind then Some b else slab_lookup es eid' kind')"
    using store_blob_spec [OF es(1) assms(5), of kind b] q(1) es(2)
    by (cases "fits (others eid kind es) (length b)") (simp, blast, simp)
  have len: "length page = PAGE_SIZE" by (rule live_sized [OF assms(2,3)])
  note f = slab_buf [OF len es'(1), of crc]
  have "slab_holds (slab_page_buf crc (take PAGE_HEADER_SIZE page @ q)) (M((eid, kind) \<mapsto> b))"
    unfolding slab_holds_def f(2) using es' es(3) by (intro exI [of _ es']) (auto simp: fun_eq_iff)
  moreover have "rep s' (U((Overflow, p) \<mapsto> slab_page_buf crc (take PAGE_HEADER_SIZE page @ q)))"
    using write_law(1) [OF q(2) _ _ f(1)] r(1) assms(3) by blast
  ultimately show ?thesis using f(3) write_law(2) [OF q(2)] r(2) by auto
qed

lemma read_blob_spec:
  assumes "read_blob be p eid kind s = (Inr v, s')" "rep s U" "U (Overflow, p) = Some page" "slab_holds page M"
  shows "v = M (eid, kind) \<and> rep s' U \<and> be_count be s' = be_count be s"
proof -
  obtain es where es: "slab_rep (drop PAGE_HEADER_SIZE page) es" "M = (\<lambda>(eid, kind). slab_lookup es eid kind)"
    using assms(4) unfolding slab_holds_def by blast
  obtain d s1 where rd: "be_read be Overflow p s = (Inr d, s1)" using assms(1) by (auto simp: read_blob_def sbind_eq_Inr)
  note r = read_law(1) [OF rd assms(2,3)] read_law(2) [OF rd]
  show ?thesis using assms(1) rd r find_blob_rep [OF es(1), of eid kind p]
    by (auto simp: read_blob_def sbind_eq_Inr Let_def es(2) slab_entries(5) [OF es(1)])
qed

lemma free_blob_spec:
  assumes "free_blob crc be p eid kind s = (Inr v, s')" "rep s U" "U (Overflow, p) = Some page" "slab_holds page M"
  shows "v = (\<exists>k. k \<noteq> (eid, kind) \<and> M k \<noteq> None) \<and> (\<exists>page'. rep s' (U((Overflow, p) \<mapsto> page')) \<and> slab_holds page' (M((eid, kind) := None)) \<and>
    (ph_page_type (header_read page) = page_type_code PropertySlab \<longrightarrow> ph_page_type (header_read page') = page_type_code PropertySlab)) \<and>
    be_count be s' = be_count be s"
proof -
  obtain es where es: "slab_rep (drop PAGE_HEADER_SIZE page) es" "known_kinds es" "M = (\<lambda>(eid, kind). slab_lookup es eid kind)"
    using assms(4) unfolding slab_holds_def by blast
  obtain d s1 where rd: "be_read be Overflow p s = (Inr d, s1)" using assms(1) by (auto simp: free_blob_def sbind_eq_Inr)
  note r = read_law(1) [OF rd assms(2,3)] read_law(2) [OF rd]
  obtain q where q: "fold (free_turn eid kind) [0..<read_dir_count (drop PAGE_HEADER_SIZE page)] (drop PAGE_HEADER_SIZE page, False, False) =
      (q, \<exists>e\<in>set es. live_entry e \<and> \<not> matches eid kind e, \<exists>e\<in>set es. matches eid kind e)" "slab_rep q (map (retired eid kind) es)"
      "(\<forall>e\<in>set es. \<not> matches eid kind e) \<longrightarrow> q = drop PAGE_HEADER_SIZE page"
    using free_all [OF es(1)] by blast
  have len: "length page = PAGE_SIZE" by (rule live_sized [OF assms(2,3)])
  note f = slab_buf [OF len q(2), of crc]
  have M': "M((eid, kind) := None) = (\<lambda>(eid', kind'). slab_lookup (map (retired eid kind) es) eid' kind')"
    by (auto simp: es(3) fun_eq_iff slab_lookup_def find_retired)
  have h: "slab_holds page' (M((eid, kind) := None))" if "drop PAGE_HEADER_SIZE page' = q" for page'
    unfolding slab_holds_def that M' using q(2) known_kinds_kept(1) [OF es(2)] by blast
  let ?page' = "slab_page_buf crc (take PAGE_HEADER_SIZE page @ q)"
  have step: "(if \<exists>e\<in>set es. matches eid kind e then sbind (be_write be Overflow p ?page') (\<lambda>_. sret (\<exists>e\<in>set es. live_entry e \<and> \<not> matches eid kind e))
      else sret (\<exists>e\<in>set es. live_entry e \<and> \<not> matches eid kind e)) s1 = (Inr v, s')"
    using assms(1) rd r(1) q(1) slab_entries(2) [OF es(1)] by (simp add: free_blob_def sbind_def Let_def)
  show ?thesis
  proof (cases "\<exists>e\<in>set es. matches eid kind e")
    case True
    then obtain w where w: "be_write be Overflow p ?page' s1 = (Inr w, s')" "v = (\<exists>e\<in>set es. live_entry e \<and> \<not> matches eid kind e)"
      using step by (auto simp: sbind_eq_Inr)
    have "rep s' (U((Overflow, p) \<mapsto> ?page'))" using write_law(1) [OF w(1) _ _ f(1)] r(1) assms(3) by blast
    then show ?thesis using w(2) h [OF f(2)] f(3) write_law(2) [OF w(1)] r(2) live_others [OF es(2)] unfolding es(3) by auto
  next
    case False
    then have "q = drop PAGE_HEADER_SIZE page" "U((Overflow, p) \<mapsto> page) = U" "s' = s1" "v = (\<exists>e\<in>set es. live_entry e \<and> \<not> matches eid kind e)"
      using q(3) step assms(3) by auto
    then show ?thesis using h [of page] r live_others [OF es(2), of eid kind] unfolding es(3) by metis
  qed
qed

lemma init_page_spec:
  assumes "init_page crc be p s = (Inr u, s')" "rep s U" "(Overflow, p) \<in> dom U"
  shows "\<exists>page. rep s' (U((Overflow, p) \<mapsto> page)) \<and> slab_holds page Map.empty \<and> be_count be s' = be_count be s \<and>
    ph_page_type (header_read page) = page_type_code PropertySlab"
  using write_law [OF assms(1) [unfolded init_page_def]] assms(2,3) fresh_slab by blast

end

context reliable_backend
begin

lemma read_blob_total:
  assumes "rep s U" "U (Overflow, p) = Some page" "slab_holds page M"
  shows "\<exists>s'. read_blob be p eid kind s = (Inr (M (eid, kind)), s') \<and> rep s' U \<and> be_count be s' = be_count be s"
proof -
  obtain es where es: "slab_rep (drop PAGE_HEADER_SIZE page) es" using assms(3) unfolding slab_holds_def by blast
  obtain s1 where "be_read be Overflow p s = (Inr page, s1)" using read_total [OF assms(1,2)] by blast
  then have "\<exists>v s'. read_blob be p eid kind s = (Inr v, s')"
    using find_blob_rep [OF es, of eid kind p] by (simp add: read_blob_def sbind_def Let_def slab_entries(5) [OF es] sread_def)
  then show ?thesis using read_blob_spec [OF _ assms] by blast
qed

lemma write_blob_total:
  assumes "rep s U" "U (Overflow, p) = Some page" "slab_holds page M" "eid < 2 ^ 64"
  shows "(\<exists>s'. write_blob crc be p eid kind b s = (Inr (), s')) \<or>
    (\<exists>s'. write_blob crc be p eid kind b s = (Inl (RecordTooLarge (length b)), s') \<and> rep s' U \<and> be_count be s' = be_count be s \<and>
       \<not> has_room_for (drop PAGE_HEADER_SIZE page) (length b))"
proof -
  obtain es where es: "slab_rep (drop PAGE_HEADER_SIZE page) es" using assms(3) unfolding slab_holds_def by blast
  obtain s1 where rd: "be_read be Overflow p s = (Inr page, s1)" using read_total [OF assms(1,2)] by blast
  have r1: "rep s1 U" "be_count be s1 = be_count be s" using read_keeps [OF assms(1) rd] by simp_all
  show ?thesis
  proof (cases "fits (others eid kind es) (length b)")
    case True
    then obtain q where q: "store_blob eid kind b (drop PAGE_HEADER_SIZE page) = Inr q"
      using store_blob_spec [OF es assms(4), of kind b] by auto
    obtain s2 where "be_write be Overflow p (slab_page_buf crc (take PAGE_HEADER_SIZE page @ q)) s1 = (Inr (), s2)"
      using write_total [OF r1(1)] assms(2) by blast
    then show ?thesis using rd q by (simp add: write_blob_def sbind_def sread_def)
  next
    case False
    then have "store_blob eid kind b (drop PAGE_HEADER_SIZE page) = Inl (RecordTooLarge (length b))"
      "\<not> has_room_for (drop PAGE_HEADER_SIZE page) (length b)"
      using store_blob_spec [OF es assms(4), of kind b] has_room_fits [OF es] by auto
    then show ?thesis using rd r1 by (simp add: write_blob_def sbind_def sread_def)
  qed
qed

lemma free_blob_total:
  assumes "rep s U" "U (Overflow, p) = Some page" "slab_holds page M"
  shows "\<exists>v s'. free_blob crc be p eid kind s = (Inr v, s')"
proof -
  obtain es where es: "slab_rep (drop PAGE_HEADER_SIZE page) es" using assms(3) unfolding slab_holds_def by blast
  obtain s1 where rd: "be_read be Overflow p s = (Inr page, s1)" using read_total [OF assms(1,2)] by blast
  have r1: "rep s1 U" using read_keeps [OF assms(1) rd] by simp
  obtain q any_live changed where t: "fold (free_turn eid kind) [0..<read_dir_count (drop PAGE_HEADER_SIZE page)]
      (drop PAGE_HEADER_SIZE page, False, False) = (q, any_live, changed)" by (metis prod_cases3)
  obtain s2 where "be_write be Overflow p (slab_page_buf crc (take PAGE_HEADER_SIZE page @ q)) s1 = (Inr (), s2)"
    using write_total [OF r1] assms(2) by blast
  then show ?thesis using rd slab_entries(2) [OF es] t by (simp add: free_blob_def sbind_def Let_def)
qed

lemma init_page_total: "rep s U \<Longrightarrow> (Overflow, p) \<in> dom U \<Longrightarrow> \<exists>s'. init_page crc be p s = (Inr (), s')"
  using write_total by (simp add: init_page_def)

end

end
