(* ===== verification/String_Heap.thy ===== *)
theory String_Heap
  imports Overflow_Chain Entities
begin

text \<open>
  The append-only string heap of \<^verbatim>\<open>storage/codec/string_codec.rs\<close>: length-prefixed entries packed over the payloads of
  the pages of \<^verbatim>\<open>strings.db\<close>, across page boundaries, with a cache of the strings written in this session. The lemmas read the pages as
  one flat array of bytes.
\<close>

section \<open>The heap\<close>

record string_heap =
  sh_dedup :: "rstring \<rightharpoonup> u32"
  sh_write_offset :: u32

definition heap_new :: string_heap where
  "heap_new = \<lparr>sh_dedup = Map.empty, sh_write_offset = 0\<rparr>"

definition heap_with_offset :: "u32 \<Rightarrow> string_heap" where
  "heap_with_offset off = \<lparr>sh_dedup = Map.empty, sh_write_offset = off\<rparr>"

text \<open>\<^verbatim>\<open>while backend.page_count(..) <= page_idx { backend.allocate_page(..)?; }\<close>\<close>

partial_function (option) ensure_pages_loop :: "'s backend \<Rightarrow> u32 \<Rightarrow> 's \<Rightarrow> ((storage_error + unit) \<times> 's) option" where
  "ensure_pages_loop be idx s =
     (if be_count be s Strings \<le> idx
      then (case be_allocate be Strings s of
              (Inl e, s') \<Rightarrow> Some (Inl e, s')
            | (Inr _, s') \<Rightarrow> ensure_pages_loop be idx s')
      else Some (Inr (), s))"

definition ensure_pages :: "'s backend \<Rightarrow> u32 \<Rightarrow> ('s, storage_error, unit) step" where
  "ensure_pages be idx s = (case ensure_pages_loop be idx s of None \<Rightarrow> (Inl Diverges, s) | Some r \<Rightarrow> r)"

function write_heap :: "(bytes \<Rightarrow> u32) \<Rightarrow> 's backend \<Rightarrow> nat \<Rightarrow> bytes \<Rightarrow> ('s, storage_error, nat) step" where
  "write_heap crc be current_offset remaining =
     (if remaining = [] then sret current_offset
      else
        let page_idx = word_of_nat (current_offset div PAGE_PAYLOAD_SIZE);
            offset_in_payload = current_offset mod PAGE_PAYLOAD_SIZE in
        sbind (ensure_pages be page_idx) (\<lambda>_.
          let space_on_page = PAGE_PAYLOAD_SIZE - offset_in_payload;
              write_len = min (length remaining) space_on_page in
          sbind (be_read be Strings page_idx) (\<lambda>page.
            let page' = finalize_page crc (file_magic Strings) 1 StringPage (word_of_nat (offset_in_payload + write_len))
                  (splice (PAGE_HEADER_SIZE + offset_in_payload) (take write_len remaining) page) in
            sbind (be_write be Strings page_idx page') (\<lambda>_.
            write_heap crc be (current_offset + write_len) (drop write_len remaining)))))"
  by pat_completeness auto
termination
  by (relation "measure (\<lambda>(_, _, _, remaining). length remaining)") (auto simp: page_consts)

declare write_heap.simps [simp del]

definition heap_append ::
  "(bytes \<Rightarrow> u32) \<Rightarrow> 's backend \<Rightarrow> rstring \<Rightarrow> (string_heap \<times> 's, storage_error, u32) step" where
  "heap_append crc be v = (\<lambda>(h, s).
     case sh_dedup h v of
       Some existing \<Rightarrow> (Inr existing, (h, s))
     | None \<Rightarrow>
         if length v \<ge> 2 ^ 32 then (Inl (RecordTooLarge (length v)), (h, s))
         else
           let end_offset = unat (sh_write_offset h) + 4 + length v in
           if end_offset > 2 ^ 32 - 1 then (Inl (RecordTooLarge end_offset), (h, s))
           else
             let str_ref = sh_write_offset h;
                 to_write = le32 (word_of_nat (length v)) @ v in
             (case write_heap crc be (unat (sh_write_offset h)) to_write s of
                (Inl e, s') \<Rightarrow> (Inl e, (h, s'))
              | (Inr current_offset, s') \<Rightarrow>
                  if current_offset \<ge> 2 ^ 32 then (Inl (RecordTooLarge current_offset), (h, s'))
                  else (Inr str_ref,
                        (h\<lparr>sh_write_offset := word_of_nat current_offset, sh_dedup := (sh_dedup h)(v \<mapsto> str_ref)\<rparr>, s'))))"

function read_heap_bytes :: "'s backend \<Rightarrow> nat \<Rightarrow> nat \<Rightarrow> bytes \<Rightarrow> ('s, storage_error, bytes) step" where
  "read_heap_bytes be current_offset remaining result =
     (if remaining = 0 then sret result
      else
        let page_idx = word_of_nat (current_offset div PAGE_PAYLOAD_SIZE);
            offset_in_payload = current_offset mod PAGE_PAYLOAD_SIZE;
            available = PAGE_PAYLOAD_SIZE - offset_in_payload;
            read_len = min remaining available in
        sbind (be_read be Strings page_idx) (\<lambda>page.
          read_heap_bytes be (current_offset + read_len) (remaining - read_len)
            (result @ subslice (PAGE_HEADER_SIZE + offset_in_payload) read_len page)))"
  by pat_completeness auto
termination
  by (relation "measure (\<lambda>(_, _, remaining, _). remaining)") (auto simp: page_consts)

declare read_heap_bytes.simps [simp del]

definition heap_resolve :: "'s backend \<Rightarrow> u32 \<Rightarrow> ('s, storage_error, rstring) step" where
  "heap_resolve be string_ref s =
     (let ref_offset = unat string_ref; total_capacity = unat (be_count be s Strings) * PAGE_PAYLOAD_SIZE in
      if ref_offset + 4 > total_capacity then (Inl (InvalidStringRef string_ref), s)
      else sbind (read_heap_bytes be ref_offset 4 []) (\<lambda>len_bytes.
        let str_len = le_nat len_bytes in
        if ref_offset + 4 + str_len > total_capacity then sfail (InvalidStringRef string_ref)
        else sbind (read_heap_bytes be (ref_offset + 4) str_len []) (\<lambda>str_bytes.
          if \<not> utf8_valid str_bytes
          then sfail (CorruptPage Strings (word_of_nat (ref_offset div PAGE_PAYLOAD_SIZE)) ''string heap entry is not valid UTF-8'')
          else sret str_bytes)) s)"

section \<open>Equal blocks as one array\<close>

lemma concat_block:
  assumes "\<forall>b\<in>set bs. length b = k" "i < length bs"
  shows "concat bs = concat (take i bs) @ bs ! i @ concat (drop (Suc i) bs)" "length (concat (take i bs)) = i * k"
    "length (bs ! i) = k" "length (concat bs) = length bs * k"
proof -
  have *: "length (concat cs) = length cs * k" if "set cs \<subseteq> set bs" for cs
    using that assms(1) by (induction cs) auto
  show "concat bs = concat (take i bs) @ bs ! i @ concat (drop (Suc i) bs)"
    by (metis append_Cons concat.simps(2) concat_append assms(2) id_take_nth_drop)
  show "length (concat (take i bs)) = i * k" using * [OF set_take_subset] assms(2) by simp
  show "length (bs ! i) = k" using assms by simp
  show "length (concat bs) = length bs * k" using * by blast
qed

lemma subslice_block:
  assumes "\<forall>b\<in>set bs. length b = k" "i < length bs" "j + n \<le> k"
  shows "subslice (i * k + j) n (concat bs) = subslice j n (bs ! i)"
proof -
  obtain A B where c: "concat bs = A @ bs ! i @ B" "length A = i * k" "length (bs ! i) = k"
    using concat_block [OF assms(1,2)] by blast
  show ?thesis unfolding c(1) using c(2,3) assms(3) by (simp add: subslice_def)
qed

lemma splice_block:
  assumes "\<forall>b\<in>set bs. length b = k" "i < length bs" "j + length xs \<le> k"
  shows "splice (i * k + j) xs (concat bs) = concat (bs[i := splice j xs (bs ! i)])"
proof -
  have "concat (bs[i := y]) = concat (take i bs) @ y @ concat (drop (Suc i) bs)" for y
    using assms(2) by (simp add: upd_conv_take_nth_drop)
  then obtain A B where c: "concat bs = A @ bs ! i @ B" "length A = i * k" "length (bs ! i) = k" "\<And>y. concat (bs[i := y]) = A @ y @ B"
    using concat_block [OF assms(1,2)] by blast
  show ?thesis unfolding c(1,4) using c(2,3) assms(3) by (simp add: splice_def)
qed

text \<open>Two writes next to each other are one.\<close>

lemma splice_splice:
  "off \<le> length buf \<Longrightarrow> splice (off + length xs) ys (splice off xs buf) = splice off (xs @ ys) buf"
  by (simp add: splice_def add.assoc add.commute add.left_commute)

lemma splice_append: "off + length xs \<le> length buf \<Longrightarrow> splice off xs (buf @ zs) = splice off xs buf @ zs"
  by (simp add: splice_def)

lemma subslice_split: "subslice off (m + n) xs = subslice off m xs @ subslice (off + m) n xs"
  by (simp add: subslice_def take_add add.commute)

text \<open>The heap as an array: the payloads of its pages one after the other.\<close>

definition string_bytes :: "(page_key \<rightharpoonup> bytes) \<Rightarrow> nat \<Rightarrow> bytes" where
  "string_bytes U n = concat (map (\<lambda>i. drop 16 (the (U (Strings, word_of_nat i)))) [0..<n])"

lemma string_bytes_cong:
  "(\<And>p. unat p < n \<Longrightarrow> U' (Strings, p) = U (Strings, p)) \<Longrightarrow> n \<le> 2 ^ 32 \<Longrightarrow> string_bytes U' n = string_bytes U n"
  unfolding string_bytes_def by (intro arg_cong [of _ _ concat] map_cong) (auto simp: unat_of_nat)

lemma string_bytes_Suc: "string_bytes U (Suc n) = string_bytes U n @ drop 16 (the (U (Strings, word_of_nat n)))"
  by (simp add: string_bytes_def)

abbreviation strings_dense :: "'s backend \<Rightarrow> 's \<Rightarrow> (page_key \<rightharpoonup> bytes) \<Rightarrow> bool" where
  "strings_dense be s U \<equiv> file_dense be s U Strings"

abbreviation heap_bytes :: "'s backend \<Rightarrow> 's \<Rightarrow> (page_key \<rightharpoonup> bytes) \<Rightarrow> bytes" where
  "heap_bytes be s U \<equiv> string_bytes U (unat (be_count be s Strings))"

text \<open>Everything outside the string pages is as it was.\<close>

abbreviation strings_only :: "'s backend \<Rightarrow> 's \<Rightarrow> (page_key \<rightharpoonup> bytes) \<Rightarrow> 's \<Rightarrow> (page_key \<rightharpoonup> bytes) \<Rightarrow> bool" where
  "strings_only be \<equiv> file_only be Strings"

lemmas strings_only_trans = file_only_trans [where f = Strings]

lemma page_index_fits: "cur < 2 ^ 32 \<Longrightarrow> (word_of_nat (cur div 4080) :: u32) + 1 \<noteq> 0"
proof -
  assume "cur < 2 ^ 32"
  then have i: "unat (word_of_nat (cur div 4080) :: u32) = cur div 4080" "cur div 4080 + 1 < 2 ^ 32"
    by (auto simp: unat_of_nat)
  then have "unat ((word_of_nat (cur div 4080) :: u32) + 1) = cur div 4080 + 1" by (simp add: unat_word_ariths(1))
  then show ?thesis by force
qed

lemma ensure_step:
  assumes "be_count be s Strings \<le> idx" "be_allocate be Strings s = (r, s1)"
  shows "ensure_pages_loop be idx s = (case r of Inl e \<Rightarrow> Some (Inl e, s1) | Inr _ \<Rightarrow> ensure_pages_loop be idx s1)"
  using assms by (subst ensure_pages_loop.simps) (simp split: sum.split)

lemma ensure_done: "\<not> be_count be s Strings \<le> idx \<Longrightarrow> ensure_pages_loop be idx s = Some (Inr (), s)"
  by (subst ensure_pages_loop.simps) simp

lemma ensure_Inr: "ensure_pages be idx s = (Inr u, s') \<longleftrightarrow> ensure_pages_loop be idx s = Some (Inr u, s')"
  by (auto simp: ensure_pages_def split: option.splits)

context page_backend
begin

lemma string_blocks:
  assumes "rep s U" "strings_dense be s U"
  shows "\<forall>b\<in>set (map (\<lambda>i. drop 16 (the (U (Strings, word_of_nat i)))) [0..<unat (be_count be s Strings)]). length b = 4080"
    "length (heap_bytes be s U) = 4080 * unat (be_count be s Strings)"
proof -
  let ?bs = "map (\<lambda>i. drop 16 (the (U (Strings, word_of_nat i)))) [0..<unat (be_count be s Strings)]"
  show *: "\<forall>b\<in>set ?bs. length b = 4080"
  proof
    fix b assume "b \<in> set ?bs"
    then obtain i where i: "i < unat (be_count be s Strings)" "b = drop 16 (the (U (Strings, word_of_nat i)))" by auto
    have "(word_of_nat i :: u32) < be_count be s Strings"
      using i(1) unat_bound [of "be_count be s Strings"] by (simp add: word_less_nat_alt unat_of_nat)
    then obtain d where "U (Strings, word_of_nat i) = Some d" using assms(2) by (auto simp: file_dense_def)
    then show "length b = 4080" using i(2) live_sized [OF assms(1)] by (simp add: PAGE_SIZE_def)
  qed
  have blocks: "\<forall>b\<in>set cs. length b = 4080 \<Longrightarrow> length (concat cs) = 4080 * length cs" for cs :: "bytes list"
    by (induction cs) auto
  have "length (concat ?bs) = 4080 * length ?bs" by (rule blocks [OF *])
  then show "length (heap_bytes be s U) = 4080 * unat (be_count be s Strings)" unfolding string_bytes_def by simp
qed

lemmas grow_strings = grow_dense [where f = Strings]

lemma ensure_spec:
  assumes "ensure_pages be idx s = (Inr u, s')" "rep s U" "strings_dense be s U" "idx + 1 \<noteq> 0"
  shows "\<exists>U' z. rep s' U' \<and> strings_dense be s' U' \<and> idx < be_count be s' Strings \<and>
    heap_bytes be s' U' = heap_bytes be s U @ replicate z 0 \<and> strings_only be s U s' U'"
  using assms
proof (induction "Suc (unat idx) - unat (be_count be s Strings)" arbitrary: s U rule: less_induct)
  case less
  show ?case
  proof (cases "be_count be s Strings \<le> idx")
    case False
    then have "s' = s" using less.prems(1) by (simp add: ensure_Inr ensure_done)
    then show ?thesis using False less.prems(2,3) by (intro exI [of _ U] exI [of _ 0]) (auto simp: file_only_def)
  next
    case True
    obtain r s1 where a0: "be_allocate be Strings s = (r, s1)" by fastforce
    then obtain p where a: "be_allocate be Strings s = (Inr p, s1)" and rest: "ensure_pages be idx s1 = (Inr u, s')"
      using less.prems(1) ensure_step [OF True a0] by (cases r) (simp_all add: ensure_Inr)
    let ?c = "be_count be s Strings" and ?U = "U((Strings, p) \<mapsto> new_page_buf)"
    note l = grow_strings [OF a less.prems(2,3) True less.prems(4)]
    have "string_bytes ?U (unat ?c) = string_bytes U (unat ?c)"
      using l(2) unat_bound [of ?c] by (intro string_bytes_cong) auto
    then have b: "heap_bytes be s1 ?U = heap_bytes be s U @ replicate 4080 0"
      unfolding l(3) by (simp add: string_bytes_Suc l(2) new_page_buf_def PAGE_SIZE_def)
    from less.hyps [OF l(6) rest l(1,4) less.prems(4)] obtain U' z where ih: "rep s' U'" "strings_dense be s' U'"
      "idx < be_count be s' Strings" "heap_bytes be s' U' = heap_bytes be s1 ?U @ replicate z 0" "strings_only be s1 ?U s' U'" by blast
    show ?thesis using ih b strings_only_trans [OF l(5)]
      by (intro exI [of _ U'] exI [of _ "4080 + z"]) (auto simp: replicate_add)
  qed
qed

text \<open>Writing one chunk into its page is writing it into the array.\<close>

lemma page_splice:
  assumes "rep s U" "strings_dense be s U" "U (Strings, idx) = Some page" "off + length chunk \<le> 4080"
    and page'_def: "page' = finalize_page crc (file_magic Strings) 1 StringPage sc (splice (16 + off) chunk page)"
  shows "page_valid crc Strings page'" "heap_bytes be s (U((Strings, idx) \<mapsto> page')) = splice (unat idx * 4080 + off) chunk (heap_bytes be s U)"
proof -
  have len: "length page = PAGE_SIZE" by (rule live_sized [OF assms(1,3)])
  then have len': "length (splice (16 + off) chunk page) = PAGE_SIZE" using assms(4) by (simp add: PAGE_SIZE_def)
  show "page_valid crc Strings page'"
    unfolding page'_def by (rule finalized_page(1) [OF len'])
  have pay: "drop 16 page' = splice off chunk (drop 16 page)"
    unfolding page'_def finalized_page(2) [OF len']
    using len assms(4) by (simp add: splice_def PAGE_SIZE_def drop_take ac_simps)
  let ?n = "unat (be_count be s Strings)" and ?g = "\<lambda>U i. drop 16 (the (U (Strings, word_of_nat i)))"
  have idx: "unat idx < ?n"
  proof -
    have "idx < be_count be s Strings" by (rule live_counted [OF assms(1,3)])
    then show ?thesis by (simp add: word_less_nat_alt)
  qed
  have "map (?g (U((Strings, idx) \<mapsto> page'))) [0..<?n] = (map (?g U) [0..<?n])[unat idx := splice off chunk (map (?g U) [0..<?n] ! unat idx)]"
  proof (rule nth_equalityI)
    fix i assume "i < length (map (?g (U((Strings, idx) \<mapsto> page'))) [0..<?n])"
    then have i: "i < ?n" by simp
    have "word_of_nat i = idx \<longleftrightarrow> i = unat idx"
      using i unat_bound [of "be_count be s Strings"] by (auto simp: word_unat_eq_iff unat_of_nat)
    then show "map (?g (U((Strings, idx) \<mapsto> page'))) [0..<?n] ! i = (map (?g U) [0..<?n])[unat idx := splice off chunk (map (?g U) [0..<?n] ! unat idx)] ! i"
      using i pay assms(3) idx by (auto simp: nth_list_update)
  qed simp
  then show "heap_bytes be s (U((Strings, idx) \<mapsto> page')) = splice (unat idx * 4080 + off) chunk (heap_bytes be s U)"
    using splice_block [OF string_blocks(1) [OF assms(1,2)] _ assms(4), of "unat idx"] idx
    unfolding string_bytes_def by (simp only: length_map length_upt diff_zero)
qed

lemma write_heap_spec:
  assumes "write_heap crc be cur bs s = (Inr e, s')" "rep s U" "strings_dense be s U" "cur + length bs < 2 ^ 32"
  shows "e = cur + length bs \<and> (\<exists>U' z. rep s' U' \<and> strings_dense be s' U' \<and>
    heap_bytes be s' U' = splice cur bs (heap_bytes be s U @ replicate z 0) \<and>
    (bs \<noteq> [] \<longrightarrow> cur + length bs \<le> length (heap_bytes be s' U')) \<and> strings_only be s U s' U')"
  using assms
proof (induction bs arbitrary: cur s U rule: length_induct)
  case (1 bs)
  show ?case
  proof (cases "bs = []")
    case True
    then have "e = cur" "s' = s" using 1(2) by (simp_all add: write_heap.simps)
    then show ?thesis using True 1(3,4)
      by (intro conjI exI [of _ U] exI [of _ 0]) (simp_all add: splice_def file_only_def)
  next
    case False
    let ?idx = "word_of_nat (cur div 4080) :: u32" and ?off = "cur mod 4080"
    let ?len = "min (length bs) (4080 - ?off)"
    let ?chunk = "take ?len bs" and ?rest = "drop ?len bs"
    have off: "?off < 4080" by simp
    have pos: "0 < ?len" using False off by simp
    have idx: "unat ?idx = cur div 4080" using 1(5) by (simp add: unat_of_nat)
    have nz: "?idx + 1 \<noteq> 0" by (rule page_index_fits) (use 1(5) in simp)
    let ?fin = "\<lambda>page. finalize_page crc (file_magic Strings) 1 StringPage (word_of_nat (?off + ?len)) (splice (16 + ?off) ?chunk page)"
    obtain u s1 page s2 s3 where st: "ensure_pages be ?idx s = (Inr u, s1)" "be_read be Strings ?idx s1 = (Inr page, s2)"
        "be_write be Strings ?idx (?fin page) s2 = (Inr (), s3)" "write_heap crc be (cur + ?len) ?rest s3 = (Inr e, s')"
      using 1(2) False by (auto simp: write_heap.simps [of crc be cur bs] Let_def page_consts sbind_eq_Inr)
    obtain U1 z where en: "rep s1 U1" "strings_dense be s1 U1" "?idx < be_count be s1 Strings"
        "heap_bytes be s1 U1 = heap_bytes be s U @ replicate z 0" "strings_only be s U s1 U1"
      using ensure_spec [OF st(1) 1(3,4) nz] by blast
    obtain d where d: "U1 (Strings, ?idx) = Some d" using en(2,3) by (auto simp: file_dense_def)
    have rd: "page = d" "rep s2 U1" "be_count be s2 = be_count be s1"
      using read_law(1) [OF st(2) en(1) d] read_law(2) [OF st(2)] by simp_all
    let ?U = "U1((Strings, ?idx) \<mapsto> ?fin page)"
    have fit: "?off + length ?chunk \<le> 4080" using off by simp
    have dn: "strings_dense be s2 U1" using en(2) rd(3) by (simp add: file_dense_def)
    note ps = page_splice [OF rd(2) dn d [folded rd(1)] fit refl]
    have r3: "rep s3 ?U" by (rule write_law(1) [OF st(3) rd(2) _ ps(1)]) (use d in auto)
    have c3: "be_count be s3 = be_count be s1" using write_law(2) [OF st(3)] rd(3) by simp
    have d3: "strings_dense be s3 ?U" using en(2,3) c3 by (auto simp: file_dense_def)
    have cur: "cur div 4080 * 4080 + ?off = cur" by (rule div_mult_mod_eq)
    have h3: "heap_bytes be s3 ?U = splice cur ?chunk (heap_bytes be s1 U1)" using ps(2) idx rd(3) c3 cur by simp
    have len1: "cur + length ?chunk \<le> length (heap_bytes be s1 U1)"
    proof -
      have "cur div 4080 + 1 \<le> unat (be_count be s1 Strings)" using en(3) idx by (simp add: word_less_nat_alt)
      then have "4080 * (cur div 4080 + 1) \<le> length (heap_bytes be s1 U1)" using string_blocks(2) [OF en(1,2)] by simp
      moreover have "cur + length ?chunk \<le> 4080 * (cur div 4080 + 1)" using fit cur unfolding distrib_left by linarith
      ultimately show ?thesis by linarith
    qed
    have small: "length ?rest < length bs" using pos by simp
    have bound: "cur + ?len + length ?rest < 2 ^ 32" using 1(5) by simp
    obtain U' y where ih: "e = cur + ?len + length ?rest" "rep s' U'" "strings_dense be s' U'"
        "heap_bytes be s' U' = splice (cur + ?len) ?rest (heap_bytes be s3 ?U @ replicate y 0)"
        "?rest \<noteq> [] \<Longrightarrow> cur + ?len + length ?rest \<le> length (heap_bytes be s' U')" "strings_only be s3 ?U s' U'"
      using 1(1) [rule_format, OF small st(4) r3 d3 bound] by blast
    have lc: "length ?chunk = ?len" by simp
    have "heap_bytes be s' U' = splice (cur + length ?chunk) ?rest (splice cur ?chunk (heap_bytes be s1 U1 @ replicate y 0))"
      unfolding ih(4) h3 splice_append [OF len1] lc ..
    also have "\<dots> = splice cur (?chunk @ ?rest) (heap_bytes be s1 U1 @ replicate y 0)"
      by (rule splice_splice) (use len1 in simp)
    finally have fin: "heap_bytes be s' U' = splice cur bs (heap_bytes be s U @ replicate (z + y) 0)"
      by (simp add: en(4) replicate_add)
    have "length (heap_bytes be s' U') \<ge> cur + length bs"
    proof (cases "?rest = []")
      case True
      then have "?chunk = bs" by simp
      then have "length (heap_bytes be s' U') \<ge> cur + length bs"
        using fin en(4) len1 by (simp add: splice_def replicate_add)
      then show ?thesis .
    next
      case False
      then show ?thesis using ih(1,5) by simp
    qed
    moreover have so: "strings_only be s1 U1 s3 ?U" using c3 by (simp add: file_only_def)
    have "strings_only be s U s' U'" by (rule strings_only_trans [OF en(5) strings_only_trans [OF so ih(6)]])
    moreover have "e = cur + length bs" using ih(1) by simp
    ultimately show ?thesis using ih(2,3) fin by blast
  qed
qed

lemma heap_page_live:
  assumes "rep s U" "strings_dense be s U" "cur < length (heap_bytes be s U)"
  shows "cur div 4080 < unat (be_count be s Strings)" "\<exists>d. U (Strings, word_of_nat (cur div 4080)) = Some d"
proof -
  show i: "cur div 4080 < unat (be_count be s Strings)"
    using assms(3) string_blocks(2) [OF assms(1,2)] by (simp add: div_less_iff_less_mult mult.commute)
  then have "unat (word_of_nat (cur div 4080) :: u32) = cur div 4080"
    using unat_bound [of "be_count be s Strings"] by (simp add: unat_of_nat)
  then show "\<exists>d. U (Strings, word_of_nat (cur div 4080)) = Some d"
    using assms(2) i unfolding file_dense_def by (metis domD word_less_nat_alt)
qed

lemma read_heap_spec:
  assumes "read_heap_bytes be cur n acc s = (Inr r, s')" "rep s U" "strings_dense be s U" "cur + n \<le> length (heap_bytes be s U)"
  shows "r = acc @ subslice cur n (heap_bytes be s U) \<and> rep s' U \<and> be_count be s' = be_count be s"
  using assms
proof (induction n arbitrary: cur acc s rule: less_induct)
  case (less n)
  show ?case
  proof (cases "n = 0")
    case True
    then show ?thesis using less.prems by (simp add: read_heap_bytes.simps subslice_def)
  next
    case False
    let ?idx = "word_of_nat (cur div 4080) :: u32" and ?off = "cur mod 4080"
    let ?len = "min n (4080 - ?off)"
    have off: "?off < 4080" by simp
    have pos: "0 < ?len" using False off by simp
    obtain page s1 where st: "be_read be Strings ?idx s = (Inr page, s1)"
        "read_heap_bytes be (cur + ?len) (n - ?len) (acc @ subslice (16 + ?off) ?len page) s1 = (Inr r, s')"
      using less.prems(1) False by (auto simp: read_heap_bytes.simps [of be cur n] Let_def page_consts sbind_eq_Inr)
    obtain d where d: "U (Strings, ?idx) = Some d" and i: "cur div 4080 < unat (be_count be s Strings)"
      using heap_page_live [OF less.prems(2,3), of cur] less.prems(4) False by auto
    have rd: "page = d" "rep s1 U" "be_count be s1 = be_count be s"
      using read_law(1) [OF st(1) less.prems(2) d] read_law(2) [OF st(1)] by simp_all
    have cur: "cur div 4080 * 4080 + ?off = cur" by (rule div_mult_mod_eq)
    have fit: "?off + ?len \<le> 4080" using off by simp
    have "subslice (cur div 4080 * 4080 + ?off) ?len (heap_bytes be s U) = subslice ?off ?len (drop 16 d)"
      using subslice_block [OF string_blocks(1) [OF less.prems(2,3)] _ fit, of "cur div 4080"] i d
      unfolding string_bytes_def by (simp only: length_map length_upt diff_zero nth_map nth_upt add_0 option.sel)
    then have chunk: "subslice (16 + ?off) ?len page = subslice cur ?len (heap_bytes be s U)"
      using rd(1) cur by (simp add: subslice_def add.commute)
    have d1: "strings_dense be s1 U" using less.prems(3) rd(3) by (simp add: file_dense_def)
    have "n - ?len < n" "cur + ?len + (n - ?len) \<le> length (heap_bytes be s1 U)" using pos less.prems(4) rd(3) by auto
    from less.IH [OF this(1) st(2) rd(2) d1 this(2)] show ?thesis
      using rd(3) chunk subslice_split [of cur ?len "n - ?len" "heap_bytes be s U"] by simp
  qed
qed

end

section \<open>Entries of the heap\<close>

text \<open>The string \<open>v\<close> is stored at offset \<open>r\<close>.\<close>

definition entry_at :: "bytes \<Rightarrow> nat \<Rightarrow> rstring \<Rightarrow> bool" where
  "entry_at B r v \<longleftrightarrow> length v < 2 ^ 32 \<and> r + 4 + length v \<le> length B \<and>
     subslice r (4 + length v) B = le32 (word_of_nat (length v)) @ v"

definition heap_ok :: "string_heap \<Rightarrow> bytes \<Rightarrow> bool" where
  "heap_ok h B \<longleftrightarrow> unat (sh_write_offset h) \<le> length B \<and>
     (\<forall>v r. sh_dedup h v = Some r \<longrightarrow> entry_at B (unat r) v \<and> unat r + 4 + length v \<le> unat (sh_write_offset h))"

lemma entry_parts:
  assumes "entry_at B r v"
  shows "subslice r 4 B = le32 (word_of_nat (length v))" "subslice (r + 4) (length v) B = v"
proof -
  have "subslice r 4 B @ subslice (r + 4) (length v) B = le32 (word_of_nat (length v)) @ v"
    using assms unfolding entry_at_def by (metis subslice_split)
  moreover have "length (subslice r 4 B) = length (le32 (word_of_nat (length v) :: u32))" using assms by (auto simp: entry_at_def)
  ultimately show "subslice r 4 B = le32 (word_of_nat (length v))" "subslice (r + 4) (length v) B = v"
    using append_eq_append_conv by blast+
qed

lemma heap_new_ok: "heap_ok heap_new []"
  by (simp add: heap_ok_def heap_new_def)

text \<open>What is written behind an entry leaves it alone.\<close>

lemma entry_kept:
  assumes "entry_at B r v" "r + 4 + length v \<le> off" "off \<le> length B"
  shows "entry_at (splice off bs (B @ zs)) r v"
proof -
  have "subslice r (4 + length v) (splice off bs (B @ zs)) = subslice r (4 + length v) B"
    using assms(2,3) by (simp add: subslice_def splice_def drop_take)
  then show ?thesis using assms by (simp add: entry_at_def splice_def)
qed

lemma entry_written:
  assumes "length v < 2 ^ 32" "off \<le> length B" "B' = splice off (le32 (word_of_nat (length v)) @ v) (B @ zs)"
    "off + (4 + length v) \<le> length B'"
  shows "entry_at B' off v"
  using assms by (simp add: entry_at_def subslice_def splice_def)

context page_backend
begin

lemma append_spec:
  assumes "heap_append crc be v (h, s) = (Inr r, (h', s'))" "rep s U" "strings_dense be s U" "heap_ok h (heap_bytes be s U)"
  shows "\<exists>U'. rep s' U' \<and> strings_dense be s' U' \<and> heap_ok h' (heap_bytes be s' U') \<and> strings_only be s U s' U' \<and>
    entry_at (heap_bytes be s' U') (unat r) v \<and> unat r + 4 + length v \<le> unat (sh_write_offset h') \<and>
    sh_write_offset h \<le> sh_write_offset h' \<and>
    (\<forall>q w. entry_at (heap_bytes be s U) q w \<longrightarrow> q + 4 + length w \<le> unat (sh_write_offset h) \<longrightarrow> entry_at (heap_bytes be s' U') q w)"
proof (cases "sh_dedup h v")
  case (Some r0)
  then have "r = r0" "h' = h" "s' = s" using assms(1) by (simp_all add: heap_append_def)
  then show ?thesis using Some assms(2-4) by (intro exI [of _ U]) (auto simp: heap_ok_def file_only_def)
next
  case None
  let ?off = "unat (sh_write_offset h)" and ?w = "le32 (word_of_nat (length v)) @ v"
  let ?B = "heap_bytes be s U"
  from assms(1) None obtain e where e: "length v < 2 ^ 32" "?off + 4 + length v < 2 ^ 32"
      "write_heap crc be ?off ?w s = (Inr e, s')" "e < 2 ^ 32" "r = sh_write_offset h"
      "h' = h\<lparr>sh_write_offset := word_of_nat e, sh_dedup := (sh_dedup h)(v \<mapsto> r)\<rparr>"
    by (auto simp: heap_append_def Let_def split: if_splits prod.splits sum.splits)
  have bound: "?off + length ?w < 2 ^ 32" and ne: "?w \<noteq> []" using e(2) by (auto dest: arg_cong [of _ _ length])
  from write_heap_spec [OF e(3) assms(2,3) bound] ne obtain U' z where w: "e = ?off + length ?w" "rep s' U'" "strings_dense be s' U'"
      "heap_bytes be s' U' = splice ?off ?w (?B @ replicate z 0)" "?off + length ?w \<le> length (heap_bytes be s' U')" "strings_only be s U s' U'"
    by blast
  let ?B' = "heap_bytes be s' U'"
  have off: "?off \<le> length ?B" using assms(4) by (simp add: heap_ok_def)
  have "unat (sh_write_offset h') = e" using e(4,6) by (simp add: unat_of_nat)
  then have wo: "unat (sh_write_offset h') = ?off + 4 + length v" using w(1) by simp
  have new: "entry_at ?B' ?off v" by (rule entry_written [OF e(1) off w(4)]) (use w(5) in simp)
  have keep: "entry_at ?B' q x" if "entry_at ?B q x" "q + 4 + length x \<le> ?off" for q x
    unfolding w(4) by (rule entry_kept [OF that off])
  have "heap_ok h' ?B'"
    unfolding heap_ok_def
  proof (intro conjI allI impI)
    show "unat (sh_write_offset h') \<le> length ?B'" using wo w(5) by simp
    fix x q assume q: "sh_dedup h' x = Some q"
    have "entry_at ?B' (unat q) x \<and> unat q + 4 + length x \<le> unat (sh_write_offset h')"
    proof (cases "x = v")
      case True
      then show ?thesis using q e(5,6) new wo by simp
    next
      case False
      then have "entry_at ?B (unat q) x" "unat q + 4 + length x \<le> ?off" using q e(6) assms(4) by (simp_all add: heap_ok_def)
      then show ?thesis using keep wo by simp
    qed
    then show "entry_at ?B' (unat q) x" "unat q + 4 + length x \<le> unat (sh_write_offset h')" by blast+
  qed
  moreover have "sh_write_offset h \<le> sh_write_offset h'" using wo by (simp add: word_le_nat_alt)
  ultimately show ?thesis using w(2,3,6) new keep wo unfolding e(5) by (intro exI [of _ U'] conjI; (assumption | linarith | blast))
qed

lemma resolve_spec:
  assumes "heap_resolve be r s = (Inr x, s')" "rep s U" "strings_dense be s U" "entry_at (heap_bytes be s U) (unat r) v"
  shows "x = v \<and> rep s' U \<and> be_count be s' = be_count be s"
proof -
  let ?B = "heap_bytes be s U"
  have cap: "unat (be_count be s Strings) * PAGE_PAYLOAD_SIZE = length ?B"
    using string_blocks(2) [OF assms(2,3)] by (simp add: page_consts)
  have en: "length v < 2 ^ 32" "unat r + 4 + length v \<le> length ?B"
    using assms(4) by (simp_all add: entry_at_def)
  note parts = entry_parts [OF assms(4)]
  obtain lb s1 where l: "read_heap_bytes be (unat r) 4 [] s = (Inr lb, s1)"
    using assms(1) en(2) cap by (auto simp: heap_resolve_def Let_def sbind_eq_Inr split: if_splits)
  have r1: "lb = le32 (word_of_nat (length v))" "rep s1 U" "be_count be s1 = be_count be s"
    using read_heap_spec [OF l assms(2,3)] en(2) parts(1) by simp_all
  have ln: "le_nat lb = length v" using r1(1) en(1) by (simp add: le32_def le_nat_le_bytes unat_of_nat)
  obtain sb where sb: "read_heap_bytes be (unat r + 4) (length v) [] s1 = (Inr sb, s')" "x = sb"
    using assms(1) l en(2) cap ln by (auto simp: heap_resolve_def Let_def sbind_eq_Inr sbind_def split: if_splits sum.splits prod.splits)
  have "strings_dense be s1 U" using assms(3) r1(3) by (simp add: file_dense_def)
  from read_heap_spec [OF sb(1) r1(2) this] en(2) parts(2) r1(3) sb(2) show ?thesis by simp
qed

end

section \<open>Without I/O errors\<close>

context reliable_backend
begin

lemma ensure_total:
  assumes "rep s U" "strings_dense be s U" "idx + 1 \<noteq> 0"
  shows "\<exists>s'. ensure_pages be idx s = (Inr (), s')"
  using assms
proof (induction "Suc (unat idx) - unat (be_count be s Strings)" arbitrary: s U rule: less_induct)
  case less
  show ?case
  proof (cases "be_count be s Strings \<le> idx")
    case False
    then show ?thesis by (simp add: ensure_Inr ensure_done)
  next
    case True
    obtain p s1 where a: "be_allocate be Strings s = (Inr p, s1)" using allocate_total [OF less.prems(1)] by blast
    note l = grow_strings [OF a less.prems(1,2) True less.prems(3)]
    from less.hyps [OF l(6,1,4) less.prems(3)] ensure_step [OF True a] show ?thesis by (simp add: ensure_Inr)
  qed
qed

lemma write_heap_total:
  assumes "rep s U" "strings_dense be s U" "cur + length bs < 2 ^ 32"
  shows "\<exists>e s'. write_heap crc be cur bs s = (Inr e, s')"
  using assms
proof (induction bs arbitrary: cur s U rule: length_induct)
  case (1 bs)
  show ?case
  proof (cases "bs = []")
    case True
    then show ?thesis by (simp add: write_heap.simps)
  next
    case False
    let ?idx = "word_of_nat (cur div 4080) :: u32" and ?off = "cur mod 4080"
    let ?len = "min (length bs) (4080 - ?off)"
    let ?chunk = "take ?len bs" and ?rest = "drop ?len bs"
    have off: "?off < 4080" by simp
    have pos: "0 < ?len" using False off by simp
    have nz: "?idx + 1 \<noteq> 0" by (rule page_index_fits) (use 1(4) in simp)
    obtain s1 where e: "ensure_pages be ?idx s = (Inr (), s1)" using ensure_total [OF 1(2,3) nz] by blast
    obtain U1 where en: "rep s1 U1" "strings_dense be s1 U1" "?idx < be_count be s1 Strings"
      using ensure_spec [OF e 1(2,3) nz] by blast
    obtain d where d: "U1 (Strings, ?idx) = Some d" using en(2,3) by (auto simp: file_dense_def)
    obtain s2 where rd: "be_read be Strings ?idx s1 = (Inr d, s2)" using read_total [OF en(1) d] by blast
    have r2: "rep s2 U1" "be_count be s2 = be_count be s1" using read_keeps [OF en(1) rd] by simp_all
    let ?page = "finalize_page crc (file_magic Strings) 1 StringPage (word_of_nat (?off + ?len)) (splice (16 + ?off) ?chunk d)"
    have fit: "?off + length ?chunk \<le> 4080" using off by simp
    have dm: "(Strings, ?idx) \<in> dom U1" using d by blast
    have d2: "strings_dense be s2 U1" using en(2) r2(2) by (simp add: file_dense_def)
    obtain s3 where w: "be_write be Strings ?idx ?page s2 = (Inr (), s3)" using write_total [OF r2(1) dm] by blast
    have r3: "rep s3 (U1((Strings, ?idx) \<mapsto> ?page))" by (rule write_law(1) [OF w r2(1) dm page_splice(1) [OF r2(1) d2 d fit refl]])
    have d3: "strings_dense be s3 (U1((Strings, ?idx) \<mapsto> ?page))"
      using d2 dm write_law(2) [OF w] by (auto simp: file_dense_def)
    have small: "length ?rest < length bs" "cur + ?len + length ?rest < 2 ^ 32" using pos 1(4) by auto
    obtain x s' where "write_heap crc be (cur + ?len) ?rest s3 = (Inr x, s')"
      using 1(1) [rule_format, OF small(1) r3 d3 small(2)] by blast
    then show ?thesis using False e rd w
      by (simp add: write_heap.simps [of crc be cur bs] Let_def page_consts sbind_def)
  qed
qed

lemma read_heap_total:
  assumes "rep s U" "strings_dense be s U" "cur + n \<le> length (heap_bytes be s U)"
  shows "\<exists>r s'. read_heap_bytes be cur n acc s = (Inr r, s')"
  using assms
proof (induction n arbitrary: cur acc s rule: less_induct)
  case (less n)
  show ?case
  proof (cases "n = 0")
    case True
    then show ?thesis by (simp add: read_heap_bytes.simps)
  next
    case False
    let ?idx = "word_of_nat (cur div 4080) :: u32" and ?off = "cur mod 4080"
    let ?len = "min n (4080 - ?off)"
    have off: "?off < 4080" by simp
    have pos: "0 < ?len" using False off by simp
    obtain d where d: "U (Strings, ?idx) = Some d" using heap_page_live [OF less.prems(1,2), of cur] less.prems(3) False by auto
    obtain s1 where rd: "be_read be Strings ?idx s = (Inr d, s1)" using read_total [OF less.prems(1) d] by blast
    have r1: "rep s1 U" "be_count be s1 = be_count be s" using read_keeps [OF less.prems(1) rd] by simp_all
    have "strings_dense be s1 U" using less.prems(2) r1(2) by (simp add: file_dense_def)
    moreover have "n - ?len < n" "cur + ?len + (n - ?len) \<le> length (heap_bytes be s1 U)" using pos less.prems(3) r1(2) by auto
    ultimately obtain r s' where "read_heap_bytes be (cur + ?len) (n - ?len) (acc @ subslice (16 + ?off) ?len d) s1 = (Inr r, s')"
      using less.IH r1(1) by blast
    then show ?thesis using False rd by (simp add: read_heap_bytes.simps [of be cur n] Let_def page_consts sbind_def)
  qed
qed

lemma append_total:
  assumes "rep s U" "strings_dense be s U" "heap_ok h (heap_bytes be s U)" "unat (sh_write_offset h) + 4 + length v < 2 ^ 32"
  shows "\<exists>r h' s'. heap_append crc be v (h, s) = (Inr r, (h', s'))"
proof (cases "sh_dedup h v")
  case None
  let ?w = "le32 (word_of_nat (length v)) @ v"
  have bound: "unat (sh_write_offset h) + length ?w < 2 ^ 32" using assms(4) by simp
  obtain e s' where w: "write_heap crc be (unat (sh_write_offset h)) ?w s = (Inr e, s')"
    using write_heap_total [OF assms(1,2) bound] by blast
  have "e = unat (sh_write_offset h) + length ?w" using write_heap_spec [OF w assms(1,2) bound] by blast
  then show ?thesis using None w assms(4) by (simp add: heap_append_def Let_def)
qed (simp add: heap_append_def)

lemma resolve_total:
  assumes "rep s U" "strings_dense be s U" "entry_at (heap_bytes be s U) (unat r) v" "utf8_valid v"
  shows "\<exists>s'. heap_resolve be r s = (Inr v, s') \<and> rep s' U \<and> be_count be s' = be_count be s"
proof -
  let ?B = "heap_bytes be s U"
  have cap: "unat (be_count be s Strings) * PAGE_PAYLOAD_SIZE = length ?B"
    using string_blocks(2) [OF assms(1,2)] by (simp add: page_consts)
  have en: "length v < 2 ^ 32" "unat r + 4 + length v \<le> length ?B" using assms(3) by (simp_all add: entry_at_def)
  note parts = entry_parts [OF assms(3)]
  have b: "unat r + 4 \<le> length ?B" using en(2) by simp
  obtain lb s1 where l: "read_heap_bytes be (unat r) 4 [] s = (Inr lb, s1)" using read_heap_total [OF assms(1,2) b] by blast
  have r1: "lb = le32 (word_of_nat (length v))" "rep s1 U" "be_count be s1 = be_count be s"
    using read_heap_spec [OF l assms(1,2) b] parts(1) by simp_all
  have ln: "le_nat lb = length v" using r1(1) en(1) by (simp add: le32_def le_nat_le_bytes unat_of_nat)
  have d1: "strings_dense be s1 U" using assms(2) r1(3) by (simp add: file_dense_def)
  have b1: "unat r + 4 + length v \<le> length (heap_bytes be s1 U)" using en(2) r1(3) by simp
  obtain sb s' where sb: "read_heap_bytes be (unat r + 4) (length v) [] s1 = (Inr sb, s')" using read_heap_total [OF r1(2) d1 b1] by blast
  have "sb = v" using read_heap_spec [OF sb r1(2) d1 b1] parts(2) r1(3) by simp
  then have "heap_resolve be r s = (Inr v, s')"
    using l sb ln en(2) cap assms(4) by (simp add: heap_resolve_def Let_def sbind_def)
  then show ?thesis using resolve_spec [OF _ assms(1-3)] by blast
qed

end

end
