(* ===== verification/Prop_Store.thy ===== *)
theory Prop_Store
  imports Prop_Slab String_Heap Wal_Record
begin

text \<open>
  Where the engine puts properties that do not fit a slot (\<^verbatim>\<open>graph.rs\<close>, \<^verbatim>\<open>store_overflowed_props\<close> and its
  companions): a blob that fits a page shares a slab page with others, a larger one gets a chain of its own. The lemmas read the
  overflow file as a map from an entity and the page it refers to, to its blob, and show that no page is ever lost.
\<close>

section \<open>The part of the engine that writes records\<close>

text \<open>\<open>en_wal\<close> holds the records handed to the log, \<open>None\<close> when the backend keeps none (\<^verbatim>\<open>wal_enabled\<close> is false).\<close>

record 's engine =
  en_storage :: 's
  en_heap :: string_heap
  en_open_page :: "u32 option"
  en_wal :: "wal_record list option"

definition on_store :: "('s, 'e, 'a) step \<Rightarrow> ('s engine, 'e, 'a) step" where
  "on_store f g = (case f (en_storage g) of (r, s') \<Rightarrow> (r, g\<lparr>en_storage := s'\<rparr>))"

text \<open>\<^verbatim>\<open>is_slab_page(..).unwrap_or(false)\<close>\<close>

definition slab_page_or_false :: "'s backend \<Rightarrow> u32 \<Rightarrow> ('s, storage_error, bool) step" where
  "slab_page_or_false be pid s = (case is_slab_page be pid s of (Inl _, s') \<Rightarrow> (Inr False, s') | (Inr b, s') \<Rightarrow> (Inr b, s'))"

definition read_overflowed_props :: "'s backend \<Rightarrow> nat \<times> entity_kind \<Rightarrow> u32 \<Rightarrow> ('s, storage_error, bytes) step" where
  "read_overflowed_props be entity pid =
     sbind (slab_page_or_false be pid) (\<lambda>slab.
       if slab then sbind (read_blob be pid (fst entity) (snd entity)) (\<lambda>b. sret (case b of None \<Rightarrow> [] | Some bs \<Rightarrow> bs))
       else read_overflow be pid)"

definition slab_page_has_room :: "'s backend \<Rightarrow> u32 \<Rightarrow> nat \<Rightarrow> ('s, storage_error, bool) step" where
  "slab_page_has_room be pid len s =
     (if pid \<ge> be_count be s Overflow then (Inr False, s)
      else (case be_read be Overflow pid s of
              (Inl _, s') \<Rightarrow> (Inr False, s')
            | (Inr buf, s') \<Rightarrow>
                if ph_page_type (header_read buf) \<noteq> page_type_code PropertySlab then (Inr False, s')
                else if \<not> dir_in_page (drop PAGE_HEADER_SIZE buf) then (Inl Diverges, s')
                else (Inr (has_room_for (drop PAGE_HEADER_SIZE buf) len), s')))"

definition store_overflowed_props ::
  "(bytes \<Rightarrow> u32) \<Rightarrow> 's backend \<Rightarrow> nat \<times> entity_kind \<Rightarrow> bytes \<Rightarrow> ('s engine, storage_error, u32) step" where
  "store_overflowed_props crc be entity b g =
     (if length b > MAX_PACKED_BLOB then on_store (write_overflow crc be b) g
      else
        sbind (case en_open_page g of None \<Rightarrow> sret False | Some pid \<Rightarrow> on_store (slab_page_has_room be pid (length b))) (\<lambda>room.
          if room
          then let pid = the (en_open_page g) in
               sbind (on_store (write_blob crc be pid (fst entity) (snd entity) b)) (\<lambda>_. sret pid)
          else
            sbind (on_store (be_allocate be Overflow)) (\<lambda>pid.
            sbind (on_store (init_page crc be pid)) (\<lambda>_.
            sbind (on_store (write_blob crc be pid (fst entity) (snd entity) b)) (\<lambda>_.
            sbind (smodify (\<lambda>g. g\<lparr>en_open_page := Some pid\<rparr>)) (\<lambda>_. sret pid))))) g)"

definition release_overflowed_props ::
  "(bytes \<Rightarrow> u32) \<Rightarrow> 's backend \<Rightarrow> nat \<times> entity_kind \<Rightarrow> u32 \<Rightarrow> ('s engine, storage_error, unit) step" where
  "release_overflowed_props crc be entity pid =
     sbind (on_store (slab_page_or_false be pid)) (\<lambda>slab.
       if slab then
         sbind (on_store (free_blob crc be pid (fst entity) (snd entity))) (\<lambda>still_live.
           if \<not> still_live then
             sbind (smodify (\<lambda>g. if en_open_page g = Some pid then g\<lparr>en_open_page := None\<rparr> else g)) (\<lambda>_.
             on_store (be_free be Overflow pid))
           else sret ())
       else on_store (free_overflow_chain be pid))"

section \<open>What the overflow file holds\<close>

text \<open>
  \<open>Ov (k, r)\<close> is the blob of entity \<open>k\<close> at page \<open>r\<close>. \<open>P\<close> are the shared pages, \<open>C r\<close> the pages of the chain that starts at \<open>r\<close>.
  Together they are exactly the live pages of the file.
\<close>

type_synonym blob_table = "(nat \<times> entity_kind) \<times> u32 \<rightharpoonup> bytes"

definition slab_at :: "(page_key \<rightharpoonup> bytes) \<Rightarrow> blob_table \<Rightarrow> u32 \<Rightarrow> bool" where
  "slab_at U Ov p \<longleftrightarrow> (\<exists>page. U (Overflow, p) = Some page \<and> ph_page_type (header_read page) = page_type_code PropertySlab \<and>
     slab_holds page (\<lambda>k. Ov (k, p)))"

definition chain_at :: "(page_key \<rightharpoonup> bytes) \<Rightarrow> blob_table \<Rightarrow> u32 \<Rightarrow> u32 list \<Rightarrow> bool" where
  "chain_at U Ov r ps \<longleftrightarrow> (\<exists>k b. overflow_chain U r b ps \<and> (\<lambda>k'. Ov (k', r)) = [k \<mapsto> b])"

definition overflow_parts :: "(page_key \<rightharpoonup> bytes) \<Rightarrow> blob_table \<Rightarrow> u32 set \<Rightarrow> (u32 \<rightharpoonup> u32 list) \<Rightarrow> bool" where
  "overflow_parts U Ov P C \<longleftrightarrow>
     (\<forall>p\<in>P. slab_at U Ov p \<and> (\<exists>k. Ov (k, p) \<noteq> None)) \<and>
     (\<forall>r ps. C r = Some ps \<longrightarrow> chain_at U Ov r ps \<and> set ps \<inter> P = {}) \<and>
     (\<forall>r ps r' ps'. C r = Some ps \<longrightarrow> C r' = Some ps' \<longrightarrow> r \<noteq> r' \<longrightarrow> set ps \<inter> set ps' = {}) \<and>
     (\<forall>k r. Ov (k, r) \<noteq> None \<longrightarrow> r \<in> P \<union> dom C) \<and>
     (\<forall>p. (Overflow, p) \<in> dom U \<longleftrightarrow> p \<in> P \<or> (\<exists>r ps. C r = Some ps \<and> p \<in> set ps))"

definition overflow_rep :: "(page_key \<rightharpoonup> bytes) \<Rightarrow> blob_table \<Rightarrow> u32 option \<Rightarrow> bool" where
  "overflow_rep U Ov opn \<longleftrightarrow> (\<exists>P C. overflow_parts U Ov P C \<and> (\<forall>p. opn = Some p \<longrightarrow> p \<in> P))"

lemma slab_at_cong: "U' (Overflow, p) = U (Overflow, p) \<Longrightarrow> (\<And>k. Ov' (k, p) = Ov (k, p)) \<Longrightarrow> slab_at U' Ov' p = slab_at U Ov p"
  by (simp add: slab_at_def)

lemma chain_at_cong:
  "chain_at U Ov r ps \<Longrightarrow> (\<And>q. q \<in> set ps \<Longrightarrow> U' (Overflow, q) = U (Overflow, q)) \<Longrightarrow> (\<And>k. Ov' (k, r) = Ov (k, r)) \<Longrightarrow> chain_at U' Ov' r ps"
proof -
  assume c: "chain_at U Ov r ps" and q: "\<And>q. q \<in> set ps \<Longrightarrow> U' (Overflow, q) = U (Overflow, q)" and k: "\<And>k. Ov' (k, r) = Ov (k, r)"
  from c obtain k b where "overflow_chain U r b ps" "(\<lambda>k'. Ov' (k', r)) = [k \<mapsto> b]" unfolding chain_at_def k by blast
  moreover from this(1) q have "overflow_chain U' r b ps" by (rule overflow_chain_cong)
  ultimately show "chain_at U' Ov' r ps" unfolding chain_at_def by blast
qed

lemma chain_at_head: "chain_at U Ov r ps \<Longrightarrow> r \<in> set ps"
  by (auto simp: chain_at_def overflow_chain_def)

lemma parts_heads:
  assumes "overflow_parts U Ov P C" "C r = Some ps"
  shows "chain_at U Ov r ps" "r \<in> set ps" "r \<notin> P" "set ps \<inter> P = {}"
proof -
  show c: "chain_at U Ov r ps" and d: "set ps \<inter> P = {}" using assms unfolding overflow_parts_def by blast+
  show "r \<in> set ps" by (rule chain_at_head [OF c])
  then show "r \<notin> P" using d by blast
qed

lemma parts_slab: "overflow_parts U Ov P C \<Longrightarrow> p \<in> P \<Longrightarrow> slab_at U Ov p \<and> (\<exists>k. Ov (k, p) \<noteq> None)"
  unfolding overflow_parts_def by blast

lemma parts_live: "overflow_parts U Ov P C \<Longrightarrow> (Overflow, p) \<in> dom U \<longleftrightarrow> p \<in> P \<or> (\<exists>r ps. C r = Some ps \<and> p \<in> set ps)"
  unfolding overflow_parts_def by blast

lemma parts_found: "overflow_parts U Ov P C \<Longrightarrow> Ov (k, r) = Some b \<Longrightarrow> r \<in> P \<or> (\<exists>ps. C r = Some ps)"
  unfolding overflow_parts_def by blast

lemma parts_disjoint: "overflow_parts U Ov P C \<Longrightarrow> C r = Some ps \<Longrightarrow> C r' = Some ps' \<Longrightarrow> r \<noteq> r' \<Longrightarrow> set ps \<inter> set ps' = {}"
  unfolding overflow_parts_def by blast

text \<open>Only the pages of the overflow file matter.\<close>

lemma overflow_parts_cong:
  assumes "overflow_parts U Ov P C" "\<And>p. U' (Overflow, p) = U (Overflow, p)"
  shows "overflow_parts U' Ov P C"
proof -
  have s: "slab_at U' Ov p = slab_at U Ov p" for p by (rule slab_at_cong) (simp_all add: assms(2))
  have c: "chain_at U Ov r ps \<Longrightarrow> chain_at U' Ov r ps" for r ps by (rule chain_at_cong) (simp_all add: assms(2))
  have d: "(Overflow, p) \<in> dom U' \<longleftrightarrow> (Overflow, p) \<in> dom U" for p by (simp add: dom_def assms(2))
  have "\<forall>r ps. C r = Some ps \<longrightarrow> chain_at U' Ov r ps \<and> set ps \<inter> P = {}" using parts_heads [OF assms(1)] c by blast
  then show ?thesis using assms(1) unfolding overflow_parts_def s d by blast
qed

lemma overflow_rep_cong: "overflow_rep U Ov opn \<Longrightarrow> (\<And>p. U' (Overflow, p) = U (Overflow, p)) \<Longrightarrow> overflow_rep U' Ov opn"
  unfolding overflow_rep_def using overflow_parts_cong by blast

lemma overflow_rep_empty: "overflow_rep Map.empty Map.empty None"
proof -
  have "overflow_parts Map.empty Map.empty {} Map.empty" by (simp add: overflow_parts_def)
  then show ?thesis unfolding overflow_rep_def by blast
qed

text \<open>No blob, no page.\<close>

lemma overflow_rep_no_leak:
  assumes "overflow_rep U Ov opn" "\<And>k r. Ov (k, r) = None"
  shows "(Overflow, p) \<notin> dom U"
proof -
  obtain P C where parts: "overflow_parts U Ov P C" using assms(1) unfolding overflow_rep_def by blast
  have "p \<notin> P" for p using parts_slab [OF parts, of p] assms(2) by auto
  moreover have "C r = None" for r
  proof (rule ccontr)
    assume "C r \<noteq> None"
    then obtain ps k b where "(\<lambda>k'. Ov (k', r)) = [k \<mapsto> b]" using parts_heads(1) [OF parts] unfolding chain_at_def by blast
    then have "Ov (k, r) = Some b" by (metis fun_upd_same)
    then show False using assms(2) by simp
  qed
  ultimately show ?thesis using parts_live [OF parts] by simp
qed

section \<open>Changes of the table\<close>

text \<open>A blob put on a shared page that was one already or was not live before.\<close>

lemma parts_put_slab:
  assumes "overflow_parts U Ov P C" "p \<in> P \<or> (Overflow, p) \<notin> dom U"
    and "slab_at (U((Overflow, p) \<mapsto> page)) (Ov((k, p) \<mapsto> b)) p"
  shows "overflow_parts (U((Overflow, p) \<mapsto> page)) (Ov((k, p) \<mapsto> b)) (insert p P) C"
proof -
  let ?U = "U((Overflow, p) \<mapsto> page)" and ?O = "Ov((k, p) \<mapsto> b)"
  have nc: "p \<notin> set ps" if "C r = Some ps" for r ps
    using assms(2) parts_heads(4) [OF assms(1) that] parts_live [OF assms(1), of p] that by blast
  have "slab_at ?U ?O q \<and> (\<exists>k. ?O (k, q) \<noteq> None)" if "q \<in> insert p P" for q
  proof (cases "q = p")
    case True
    then show ?thesis using assms(3) by (metis fun_upd_same option.distinct(1))
  next
    case False
    then have "slab_at ?U ?O q = slab_at U Ov q" by (intro slab_at_cong) simp_all
    then show ?thesis using parts_slab [OF assms(1), of q] that False by simp
  qed
  moreover have "chain_at ?U ?O r ps \<and> set ps \<inter> insert p P = {}" if "C r = Some ps" for r ps
  proof
    note h = parts_heads [OF assms(1) that]
    show "set ps \<inter> insert p P = {}" using nc [OF that] h(4) by blast
    show "chain_at ?U ?O r ps" using nc [OF that] h(2) by (intro chain_at_cong [OF h(1)]) auto
  qed
  moreover have "r \<in> insert p P \<union> dom C" if "?O (k', r) \<noteq> None" for k' r
    using that parts_found [OF assms(1), of k' r] by (cases "r = p") auto
  moreover have "(Overflow, q) \<in> dom ?U \<longleftrightarrow> q \<in> insert p P \<or> (\<exists>r ps. C r = Some ps \<and> q \<in> set ps)" for q
    using parts_live [OF assms(1), of q] by (cases "q = p") auto
  ultimately show ?thesis using parts_disjoint [OF assms(1)] unfolding overflow_parts_def by blast
qed

text \<open>A new chain on pages that were not live before.\<close>

lemma parts_put_chain:
  assumes "overflow_parts U Ov P C" "overflow_chain U' r b ps" "\<And>q. q \<in> set ps \<Longrightarrow> (Overflow, q) \<notin> dom U"
    and "\<And>q. q \<notin> set ps \<Longrightarrow> U' (Overflow, q) = U (Overflow, q)"
  shows "overflow_parts U' (Ov((k, r) \<mapsto> b)) P (C(r \<mapsto> ps))"
proof -
  let ?O = "Ov((k, r) \<mapsto> b)" and ?C = "C(r \<mapsto> ps)"
  have r: "r \<in> set ps" using assms(2) by (auto simp: overflow_chain_def)
  have fresh: "q \<notin> P" "\<not> (\<exists>r ps. C r = Some ps \<and> q \<in> set ps)" if "q \<in> set ps" for q
    using assms(3) [OF that] parts_live [OF assms(1), of q] by blast+
  have Or: "Ov (k', r) = None" for k'
    using fresh [OF r] parts_found [OF assms(1), of k' r] parts_heads(2) [OF assms(1)] by (cases "Ov (k', r)") blast+
  have C_old: "q \<noteq> r \<and> set ps \<inter> set qs = {}" if "C q = Some qs" for q qs
    using fresh(2) parts_heads(2) [OF assms(1) that] that r by blast
  have "slab_at U' ?O q \<and> (\<exists>k. ?O (k, q) \<noteq> None)" if "q \<in> P" for q
  proof -
    have "q \<noteq> r" "q \<notin> set ps" using fresh(1) that r by blast+
    then have "slab_at U' ?O q = slab_at U Ov q" using assms(4) by (intro slab_at_cong) simp_all
    then show ?thesis using parts_slab [OF assms(1) that] \<open>q \<noteq> r\<close> by simp
  qed
  moreover have "chain_at U' ?O q qs \<and> set qs \<inter> P = {}" if "?C q = Some qs" for q qs
  proof (cases "q = r")
    case True
    then have "qs = ps" using that by simp
    moreover have "(\<lambda>k'. ?O (k', r)) = [k \<mapsto> b]" using Or by (simp add: fun_eq_iff)
    ultimately show ?thesis using True assms(2) fresh(1) unfolding chain_at_def by blast
  next
    case False
    then have c: "C q = Some qs" using that by simp
    note h = parts_heads [OF assms(1) c]
    have "U' (Overflow, x) = U (Overflow, x)" if "x \<in> set qs" for x using C_old [OF c] that assms(4) by blast
    then show ?thesis using chain_at_cong [OF h(1), of U' ?O] h(4) False by simp
  qed
  moreover have "set qs \<inter> set qs' = {}" if "?C q = Some qs" "?C q' = Some qs'" "q \<noteq> q'" for q qs q' qs'
    using that C_old parts_disjoint [OF assms(1), of q qs q' qs'] by (auto split: if_splits)
  moreover have "q \<in> P \<union> dom ?C" if "?O (k', q) \<noteq> None" for k' q
    using that parts_found [OF assms(1), of k' q] by (cases "q = r") auto
  moreover have "(Overflow, q) \<in> dom U' \<longleftrightarrow> q \<in> P \<or> (\<exists>x qs. ?C x = Some qs \<and> q \<in> set qs)" for q
  proof (cases "q \<in> set ps")
    case True
    then show ?thesis using overflow_chain_live [OF assms(2)] by auto
  next
    case False
    then show ?thesis using parts_live [OF assms(1), of q] assms(4) [OF False] C_old by (auto simp: dom_def split: if_splits) blast+
  qed
  ultimately show ?thesis unfolding overflow_parts_def by blast
qed

text \<open>A blob taken off a shared page that still holds another one.\<close>

lemma parts_drop_slab:
  assumes "overflow_parts U Ov P C" "p \<in> P" "slab_at (U((Overflow, p) \<mapsto> page)) (Ov((k, p) := None)) p"
    and "\<exists>k'. k' \<noteq> k \<and> Ov (k', p) \<noteq> None"
  shows "overflow_parts (U((Overflow, p) \<mapsto> page)) (Ov((k, p) := None)) P C"
proof -
  let ?U = "U((Overflow, p) \<mapsto> page)" and ?O = "Ov((k, p) := None)"
  have "slab_at ?U ?O q \<and> (\<exists>k. ?O (k, q) \<noteq> None)" if "q \<in> P" for q
  proof (cases "q = p")
    case True
    then show ?thesis using assms(3,4) by auto
  next
    case False
    then have "slab_at ?U ?O q = slab_at U Ov q" by (intro slab_at_cong) simp_all
    then show ?thesis using parts_slab [OF assms(1) that] False by simp
  qed
  moreover have "chain_at ?U ?O r ps \<and> set ps \<inter> P = {}" if "C r = Some ps" for r ps
  proof
    note h = parts_heads [OF assms(1) that]
    show "set ps \<inter> P = {}" by (rule h(4))
    show "chain_at ?U ?O r ps" using assms(2) h by (intro chain_at_cong [OF h(1)]) auto
  qed
  moreover have "r \<in> P \<union> dom C" if "?O (k', r) \<noteq> None" for k' r
    using that parts_found [OF assms(1), of k' r] by (auto split: if_splits)
  moreover have "(Overflow, q) \<in> dom ?U \<longleftrightarrow> q \<in> P \<or> (\<exists>r ps. C r = Some ps \<and> q \<in> set ps)" for q
    using parts_live [OF assms(1), of q] assms(2) by (cases "q = p") auto
  ultimately show ?thesis using parts_disjoint [OF assms(1)] unfolding overflow_parts_def by blast
qed

text \<open>The last blob taken off a shared page, and the page given back.\<close>

lemma parts_free_slab:
  assumes "overflow_parts U Ov P C" "p \<in> P" "\<And>k'. k' \<noteq> k \<Longrightarrow> Ov (k', p) = None"
  shows "overflow_parts (U((Overflow, p) := None)) (Ov((k, p) := None)) (P - {p}) C"
proof -
  let ?U = "U((Overflow, p) := None)" and ?O = "Ov((k, p) := None)"
  have "slab_at ?U ?O q \<and> (\<exists>k. ?O (k, q) \<noteq> None)" if "q \<in> P - {p}" for q
  proof -
    have "slab_at ?U ?O q = slab_at U Ov q" using that by (intro slab_at_cong) simp_all
    then show ?thesis using parts_slab [OF assms(1), of q] that by simp
  qed
  moreover have "chain_at ?U ?O r ps \<and> set ps \<inter> (P - {p}) = {}" if "C r = Some ps" for r ps
  proof
    note h = parts_heads [OF assms(1) that]
    show "set ps \<inter> (P - {p}) = {}" using h(4) by blast
    show "chain_at ?U ?O r ps" using assms(2) h by (intro chain_at_cong [OF h(1)]) auto
  qed
  moreover have "r \<in> (P - {p}) \<union> dom C" if "?O (k', r) \<noteq> None" for k' r
  proof -
    have some: "Ov (k', r) \<noteq> None" "(k', r) \<noteq> (k, p)" using that by (simp_all split: if_splits)
    moreover have "r \<noteq> p" using some assms(3) [of k'] by auto
    ultimately have "Ov (k', r) \<noteq> None" "r \<noteq> p" by blast+
    then show ?thesis using parts_found [OF assms(1), of k' r] by auto
  qed
  moreover have "(Overflow, q) \<in> dom ?U \<longleftrightarrow> q \<in> P - {p} \<or> (\<exists>r ps. C r = Some ps \<and> q \<in> set ps)" for q
  proof (cases "q = p")
    case True
    then show ?thesis using parts_heads(4) [OF assms(1)] assms(2) by auto
  next
    case False
    then show ?thesis using parts_live [OF assms(1), of q] by auto
  qed
  ultimately show ?thesis using parts_disjoint [OF assms(1)] unfolding overflow_parts_def by blast
qed

text \<open>A chain given back.\<close>

lemma parts_free_chain:
  assumes "overflow_parts U Ov P C" "C r = Some ps" "Ov (k, r) = Some b"
  shows "overflow_parts (U |` (- ({Overflow} \<times> set ps))) (Ov((k, r) := None)) P (C(r := None))"
proof -
  let ?U = "U |` (- ({Overflow} \<times> set ps))" and ?O = "Ov((k, r) := None)" and ?C = "C(r := None)"
  note hr = parts_heads [OF assms(1,2)]
  obtain k0 b0 where "(\<lambda>k'. Ov (k', r)) = [k0 \<mapsto> b0]" using hr(1) unfolding chain_at_def by blast
  from fun_cong [OF this] have only: "Ov (k', r) = (if k' = k0 then Some b0 else None)" for k' by simp
  have "k0 = k" using only [of k] assms(3) by (simp split: if_splits)
  then have gone: "?O (k', r) = None" for k' using only [of k'] by simp
  have old: "C q = Some qs" "q \<noteq> r" "set ps \<inter> set qs = {}" if "?C q = Some qs" for q qs
    using that parts_disjoint [OF assms(1,2), of q qs] by (auto split: if_splits)
  have "slab_at ?U ?O q \<and> (\<exists>k. ?O (k, q) \<noteq> None)" if "q \<in> P" for q
  proof -
    have "q \<noteq> r" "q \<notin> set ps" using hr that by blast+
    then have "slab_at ?U ?O q = slab_at U Ov q" by (intro slab_at_cong) simp_all
    then show ?thesis using parts_slab [OF assms(1) that] \<open>q \<noteq> r\<close> by simp
  qed
  moreover have "chain_at ?U ?O q qs \<and> set qs \<inter> P = {}" if "?C q = Some qs" for q qs
  proof
    note o' = old [OF that]
    note h = parts_heads [OF assms(1) o'(1)]
    show "set qs \<inter> P = {}" by (rule h(4))
    have "?U (Overflow, x) = U (Overflow, x)" if "x \<in> set qs" for x using o'(3) that by (auto simp: restrict_map_def)
    then show "chain_at ?U ?O q qs" using o'(2) by (intro chain_at_cong [OF h(1)]) simp_all
  qed
  moreover have "set qs \<inter> set qs' = {}" if "?C q = Some qs" "?C q' = Some qs'" "q \<noteq> q'" for q qs q' qs'
    by (rule parts_disjoint [OF assms(1) old(1) [OF that(1)] old(1) [OF that(2)] that(3)])
  moreover have "q \<in> P \<union> dom ?C" if "?O (k', q) \<noteq> None" for k' q
  proof -
    have "q \<noteq> r" using that gone by metis
    then show ?thesis using that parts_found [OF assms(1), of k' q] by auto
  qed
  moreover have "(Overflow, q) \<in> dom ?U \<longleftrightarrow> q \<in> P \<or> (\<exists>x qs. ?C x = Some qs \<and> q \<in> set qs)" for q
  proof (cases "q \<in> set ps")
    case True
    then have "(Overflow, q) \<notin> dom ?U" by (simp add: restrict_map_def dom_def)
    moreover have "q \<notin> P" using hr(4) True by blast
    moreover have "q \<notin> set qs" if "?C x = Some qs" for x qs using old(3) [OF that] True by blast
    ultimately show ?thesis by blast
  next
    case False
    then have "(Overflow, q) \<in> dom ?U \<longleftrightarrow> (Overflow, q) \<in> dom U" by (simp add: restrict_map_def dom_def)
    moreover have "(\<exists>x qs. ?C x = Some qs \<and> q \<in> set qs) \<longleftrightarrow> (\<exists>x qs. C x = Some qs \<and> q \<in> set qs)"
    proof
      assume "\<exists>x qs. C x = Some qs \<and> q \<in> set qs"
      then obtain x qs where "C x = Some qs" "q \<in> set qs" by blast
      moreover from this have "x \<noteq> r" using False assms(2) by auto
      ultimately show "\<exists>x qs. ?C x = Some qs \<and> q \<in> set qs" by (intro exI [of _ x] exI [of _ qs]) simp
    qed (use old(1) in blast)
    ultimately show ?thesis using parts_live [OF assms(1), of q] by blast
  qed
  ultimately show ?thesis unfolding overflow_parts_def by blast
qed

section \<open>The operations on the table\<close>

lemma fresh_room:
  assumes "n \<le> MAX_PACKED_BLOB"
  shows "has_room_for (drop PAGE_HEADER_SIZE (slab_page_buf crc new_page_buf)) n"
proof -
  have len: "length new_page_buf = PAGE_SIZE" by (simp add: new_page_buf_def)
  have r: "slab_rep (replicate 4080 0) []" by (simp add: slab_rep_def read_dir_count_def subslice_def numeral_2_eq_2)
  have "take PAGE_HEADER_SIZE new_page_buf @ replicate 4080 0 = new_page_buf"
    by (simp add: new_page_buf_def page_consts replicate_add [symmetric])
  then have "drop PAGE_HEADER_SIZE (slab_page_buf crc new_page_buf) = replicate 4080 0" using slab_buf(2) [OF len r, of crc] by simp
  then show ?thesis using slab_free_space [OF r] assms by (simp add: has_room_for_def Let_def MAX_PACKED_BLOB_def slab_consts page_consts)
qed

abbreviation overflow_only :: "'s backend \<Rightarrow> 's \<Rightarrow> (page_key \<rightharpoonup> bytes) \<Rightarrow> 's \<Rightarrow> (page_key \<rightharpoonup> bytes) \<Rightarrow> bool" where
  "overflow_only be \<equiv> file_only be Overflow"

lemma slab_atI:
  assumes "slab_holds page ((\<lambda>k. Ov (k, p))(k := v))" "ph_page_type (header_read page) = page_type_code PropertySlab"
  shows "slab_at (U((Overflow, p) \<mapsto> page)) (Ov((k, p) := v)) p"
proof -
  have "(\<lambda>k'. (Ov((k, p) := v)) (k', p)) = (\<lambda>k. Ov (k, p))(k := v)" by (simp add: fun_eq_iff)
  then show ?thesis unfolding slab_at_def using assms by simp
qed

context reliable_backend
begin

lemma slab_test:
  assumes "rep s U" "U (Overflow, p) = Some page"
  shows "\<exists>s'. slab_page_or_false be p s = (Inr (ph_page_type (header_read page) = page_type_code PropertySlab), s') \<and>
    rep s' U \<and> be_count be s' = be_count be s"
proof -
  obtain s' where "be_read be Overflow p s = (Inr page, s')" using read_total [OF assms] by blast
  then show ?thesis using read_keeps [OF assms(1)] by (simp add: slab_page_or_false_def is_slab_page_def sbind_def)
qed

lemma chain_not_slab:
  assumes "chain_at U Ov r ps"
  obtains page where "U (Overflow, r) = Some page" "ph_page_type (header_read page) \<noteq> page_type_code PropertySlab"
  using assms that by (auto simp: chain_at_def overflow_chain_def)

text \<open>Reading: the blob of an entity at the page its slot names.\<close>

lemma read_props_total:
  assumes "rep s U" "overflow_rep U Ov opn" "Ov (k, r) = Some b"
  shows "\<exists>s'. read_overflowed_props be k r s = (Inr b, s') \<and> rep s' U \<and> be_count be s' = be_count be s"
proof -
  obtain P C where parts: "overflow_parts U Ov P C" using assms(2) unfolding overflow_rep_def by blast
  from parts_found [OF parts assms(3)] show ?thesis
  proof
    assume "r \<in> P"
    then obtain page where page: "U (Overflow, r) = Some page" "ph_page_type (header_read page) = page_type_code PropertySlab"
        "slab_holds page (\<lambda>k. Ov (k, r))" using parts_slab [OF parts] unfolding slab_at_def by blast
    obtain s1 where t: "slab_page_or_false be r s = (Inr True, s1)" "rep s1 U" "be_count be s1 = be_count be s"
      using slab_test [OF assms(1) page(1)] page(2) by auto
    obtain s2 where "read_blob be r (fst k) (snd k) s1 = (Inr (Some b), s2)" "rep s2 U" "be_count be s2 = be_count be s1"
      using read_blob_total [OF t(2) page(1,3), of "fst k" "snd k"] assms(3) by auto
    then show ?thesis using t by (simp add: read_overflowed_props_def sbind_def)
  next
    assume "\<exists>ps. C r = Some ps"
    then obtain ps where c: "chain_at U Ov r ps" using parts_heads(1) [OF parts] by blast
    then obtain k0 b0 where ch: "overflow_chain U r b0 ps" and only: "(\<lambda>k'. Ov (k', r)) = [k0 \<mapsto> b0]" unfolding chain_at_def by blast
    have "b0 = b" using fun_cong [OF only, of k] assms(3) by (simp split: if_splits)
    obtain page where page: "U (Overflow, r) = Some page" "ph_page_type (header_read page) \<noteq> page_type_code PropertySlab"
      using chain_not_slab [OF c] by blast
    obtain s1 where t: "slab_page_or_false be r s = (Inr False, s1)" "rep s1 U" "be_count be s1 = be_count be s"
      using slab_test [OF assms(1) page(1)] page(2) by auto
    then show ?thesis using read_overflow_total [OF ch t(2)] \<open>b0 = b\<close> by (simp add: read_overflowed_props_def sbind_def)
  qed
qed

lemma has_room_total:
  assumes "rep s U" "slab_at U Ov p"
  shows "\<exists>room s'. slab_page_has_room be p n s = (Inr room, s') \<and> rep s' U \<and> be_count be s' = be_count be s \<and>
    (room \<longrightarrow> (\<exists>page. U (Overflow, p) = Some page \<and> has_room_for (drop PAGE_HEADER_SIZE page) n))"
proof -
  obtain page es where page: "U (Overflow, p) = Some page" "ph_page_type (header_read page) = page_type_code PropertySlab"
      "slab_rep (drop PAGE_HEADER_SIZE page) es"
    using assms(2) unfolding slab_at_def slab_holds_def by blast
  obtain s' where "be_read be Overflow p s = (Inr page, s')" using read_total [OF assms(1) page(1)] by blast
  moreover have "p < be_count be s Overflow" by (rule live_counted [OF assms(1) page(1)])
  ultimately show ?thesis using read_keeps [OF assms(1)] page slab_entries(2) [OF page(3)]
    by (auto simp: slab_page_has_room_def not_le [symmetric])
qed

lemma write_slab_total:
  assumes "rep s U" "U (Overflow, p) = Some page" "slab_holds page M" "eid < 2 ^ 64" "has_room_for (drop PAGE_HEADER_SIZE page) (length b)"
  shows "\<exists>s' page'. write_blob crc be p eid kind b s = (Inr (), s') \<and> rep s' (U((Overflow, p) \<mapsto> page')) \<and>
    slab_holds page' (M((eid, kind) \<mapsto> b)) \<and> be_count be s' = be_count be s \<and> ph_page_type (header_read page') = page_type_code PropertySlab"
proof -
  obtain s' where w: "write_blob crc be p eid kind b s = (Inr (), s')" using write_blob_total [OF assms(1-4), of kind b] assms(5) by blast
  then show ?thesis using write_blob_spec [OF w assms(1-4)] by blast
qed

text \<open>Storing: the blob is added to the table at the page that is returned.\<close>

lemma store_on_open_page:
  assumes "rep (en_storage g) U" "overflow_parts U Ov P C" "p \<in> P" "fst k < 2 ^ 64" "U (Overflow, p) = Some page"
    and "has_room_for (drop PAGE_HEADER_SIZE page) (length b)"
  shows "\<exists>g' U'. on_store (write_blob crc be p (fst k) (snd k) b) g = (Inr (), g') \<and> rep (en_storage g') U' \<and>
    overflow_parts U' (Ov((k, p) \<mapsto> b)) P C \<and> overflow_only be (en_storage g) U (en_storage g') U' \<and>
    g' = g\<lparr>en_storage := en_storage g'\<rparr>"
proof -
  have sl: "slab_holds page (\<lambda>k. Ov (k, p))" using parts_slab [OF assms(2,3)] assms(5) unfolding slab_at_def by auto
  obtain s' page' where w: "write_blob crc be p (fst k) (snd k) b (en_storage g) = (Inr (), s')" "rep s' (U((Overflow, p) \<mapsto> page'))"
      "slab_holds page' ((\<lambda>k. Ov (k, p))(k \<mapsto> b))" "be_count be s' = be_count be (en_storage g)"
      "ph_page_type (header_read page') = page_type_code PropertySlab"
    using write_slab_total [OF assms(1,5) sl assms(4,6), of "snd k"] by auto
  have "overflow_parts (U((Overflow, p) \<mapsto> page')) (Ov((k, p) \<mapsto> b)) (insert p P) C"
    by (rule parts_put_slab [OF assms(2) _ slab_atI [OF w(3,5)]]) (use assms(3) in blast)
  then have "overflow_parts (U((Overflow, p) \<mapsto> page')) (Ov((k, p) \<mapsto> b)) P C" using assms(3) by (simp add: insert_absorb)
  then show ?thesis using w(1,2,4) file_only_upd [OF w(4)] by (auto simp: on_store_def simp del: fun_upd_apply)
qed

lemma store_on_fresh_page:
  assumes "rep (en_storage g) U" "overflow_parts U Ov P C" "fst k < 2 ^ 64" "length b \<le> MAX_PACKED_BLOB"
    and "unat (be_count be (en_storage g) Overflow) + 1 < 2 ^ 32"
  shows "\<exists>p g' U'. sbind (on_store (be_allocate be Overflow)) (\<lambda>pid.
            sbind (on_store (init_page crc be pid)) (\<lambda>_.
            sbind (on_store (write_blob crc be pid (fst k) (snd k) b)) (\<lambda>_.
            sbind (smodify (\<lambda>g. g\<lparr>en_open_page := Some pid\<rparr>)) (\<lambda>_. sret pid)))) g = (Inr p, g') \<and> rep (en_storage g') U' \<and>
    overflow_parts U' (Ov((k, p) \<mapsto> b)) (insert p P) C \<and> overflow_only be (en_storage g) U (en_storage g') U' \<and>
    g' = g\<lparr>en_storage := en_storage g', en_open_page := Some p\<rparr>"
proof -
  obtain p s1 where a: "be_allocate be Overflow (en_storage g) = (Inr p, s1)" using allocate_total [OF assms(1)] by blast
  note l = allocate_room [OF a assms(1,5), simplified]
  let ?U1 = "U((Overflow, p) \<mapsto> new_page_buf)" and ?fresh = "slab_page_buf crc new_page_buf"
  obtain s2 where i: "init_page crc be p s1 = (Inr (), s2)" using init_page_total [OF l(3), of p] by auto
  have i': "rep s2 (U((Overflow, p) \<mapsto> ?fresh))" "be_count be s2 = be_count be s1"
    using write_law [OF i [unfolded init_page_def]] l(3) fresh_slab(1) by (metis domI fun_upd_same fun_upd_upd)+
  have none: "Ov (k', p) = None" for k'
    using parts_found [OF assms(2), of k' p] parts_live [OF assms(2), of p] parts_heads(2) [OF assms(2)] l(1) by (cases "Ov (k', p)") blast+
  have sl: "slab_holds ?fresh (\<lambda>k. Ov (k, p))" using fresh_slab(2) none by simp
  obtain s3 page' where w: "write_blob crc be p (fst k) (snd k) b s2 = (Inr (), s3)" "rep s3 (U((Overflow, p) \<mapsto> page'))"
      "slab_holds page' ((\<lambda>k. Ov (k, p))(k \<mapsto> b))" "be_count be s3 = be_count be s2"
      "ph_page_type (header_read page') = page_type_code PropertySlab"
    using write_slab_total [OF i'(1) _ sl assms(3) fresh_room [OF assms(4)], of p "snd k"] by auto
  have "overflow_parts (U((Overflow, p) \<mapsto> page')) (Ov((k, p) \<mapsto> b)) (insert p P) C"
    by (rule parts_put_slab [OF assms(2) _ slab_atI [OF w(3,5)]]) (use l(1) in blast)
  moreover have "overflow_only be (en_storage g) U s3 (U((Overflow, p) \<mapsto> page'))"
    using l(5) i'(2) w(4) by (simp add: file_only_def)
  ultimately show ?thesis using a i w(1,2)
    by (intro exI [of _ p] exI [of _ "g\<lparr>en_storage := s3, en_open_page := Some p\<rparr>"] exI [of _ "U((Overflow, p) \<mapsto> page')"])
      (simp add: on_store_def sbind_def del: fun_upd_apply)
qed

lemma store_props_total:
  assumes "rep (en_storage g) U" "overflow_rep U Ov (en_open_page g)" "fst k < 2 ^ 64"
    and "unat (be_count be (en_storage g) Overflow) + length b + 2 < 2 ^ 32"
  shows "\<exists>r g' U'. store_overflowed_props crc be k b g = (Inr r, g') \<and> rep (en_storage g') U' \<and>
    overflow_rep U' (Ov((k, r) \<mapsto> b)) (en_open_page g') \<and> overflow_only be (en_storage g) U (en_storage g') U' \<and>
    en_heap g' = en_heap g \<and> en_wal g' = en_wal g"
proof -
  obtain P C where parts: "overflow_parts U Ov P C" "\<And>p. en_open_page g = Some p \<Longrightarrow> p \<in> P"
    using assms(2) unfolding overflow_rep_def by blast
  show ?thesis
  proof (cases "length b > MAX_PACKED_BLOB")
    case True
    obtain r s' where w: "write_overflow crc be b (en_storage g) = (Inr r, s')" using write_overflow_total [OF assms(1,4)] by blast
    obtain ps U' where c: "rep s' U'" "overflow_chain U' r b ps" "\<forall>q\<in>set ps. (Overflow, q) \<notin> dom U"
        "\<forall>k. k \<notin> {Overflow} \<times> set ps \<longrightarrow> U' k = U k" "\<forall>f. f \<noteq> Overflow \<longrightarrow> be_count be s' f = be_count be (en_storage g) f"
      using write_overflow_spec [OF w assms(1,4)] by (elim exE conjE) (rule that)
    have "overflow_parts U' (Ov((k, r) \<mapsto> b)) P (C(r \<mapsto> ps))"
      by (rule parts_put_chain [OF parts(1) c(2)]) (use c(3,4) in auto)
    then have "overflow_rep U' (Ov((k, r) \<mapsto> b)) (en_open_page g)" unfolding overflow_rep_def using parts(2) by blast
    moreover have "overflow_only be (en_storage g) U s' U'" using c(4,5) by (simp add: file_only_def)
    ultimately show ?thesis using w c(1) True
      by (intro exI [of _ r] exI [of _ "g\<lparr>en_storage := s'\<rparr>"] exI [of _ U']) (simp add: store_overflowed_props_def on_store_def)
  next
    case False
    let ?room = "case en_open_page g of None \<Rightarrow> sret False | Some pid \<Rightarrow> on_store (slab_page_has_room be pid (length b))"
    have "\<exists>room s1. ?room g = (Inr room, g\<lparr>en_storage := s1\<rparr>) \<and> rep s1 U \<and> be_count be s1 = be_count be (en_storage g) \<and>
        (room \<longrightarrow> (\<exists>p page. en_open_page g = Some p \<and> U (Overflow, p) = Some page \<and> has_room_for (drop PAGE_HEADER_SIZE page) (length b)))"
    proof (cases "en_open_page g")
      case None
      then show ?thesis using assms(1) by (intro exI [of _ False] exI [of _ "en_storage g"]) simp
    next
      case (Some p)
      then have "slab_at U Ov p" using parts by (auto dest: parts_slab)
      from has_room_total [OF assms(1) this, of "length b"]
      obtain room s1 where h: "slab_page_has_room be p (length b) (en_storage g) = (Inr room, s1)" "rep s1 U"
          "be_count be s1 = be_count be (en_storage g)"
          "room \<longrightarrow> (\<exists>page. U (Overflow, p) = Some page \<and> has_room_for (drop PAGE_HEADER_SIZE page) (length b))"
        by blast
      then show ?thesis using Some by (intro exI [of _ room] exI [of _ s1]) (simp add: on_store_def)
    qed
    then obtain room s1 where rm: "?room g = (Inr room, g\<lparr>en_storage := s1\<rparr>)" "rep s1 U" "be_count be s1 = be_count be (en_storage g)"
        "room \<Longrightarrow> \<exists>p page. en_open_page g = Some p \<and> U (Overflow, p) = Some page \<and> has_room_for (drop PAGE_HEADER_SIZE page) (length b)"
      by blast
    let ?g1 = "g\<lparr>en_storage := s1\<rparr>"
    have frame: "overflow_only be (en_storage g) U s' U'" if "overflow_only be s1 U s' U'" for s' U'
      using that rm(3) by (simp add: file_only_def)
    have r1: "rep (en_storage ?g1) U" using rm(2) by simp
    show ?thesis
    proof (cases room)
      case True
      then obtain p page where p: "en_open_page g = Some p" "U (Overflow, p) = Some page" "has_room_for (drop PAGE_HEADER_SIZE page) (length b)"
        using rm(4) by blast
      obtain g' U' where w: "on_store (write_blob crc be p (fst k) (snd k) b) ?g1 = (Inr (), g')" "rep (en_storage g') U'"
          "overflow_parts U' (Ov((k, p) \<mapsto> b)) P C" "overflow_only be s1 U (en_storage g') U'" "g' = ?g1\<lparr>en_storage := en_storage g'\<rparr>"
        using store_on_open_page [OF r1 parts(1) parts(2) [OF p(1)] assms(3) p(2,3)] by auto
      have open': "en_open_page g' = Some p" "en_heap g' = en_heap g" "en_wal g' = en_wal g"
        using p(1) by (subst w(5), simp)+
      have "overflow_rep U' (Ov((k, p) \<mapsto> b)) (en_open_page g')" unfolding overflow_rep_def open'(1) using w(3) parts(2) [OF p(1)] by blast
      then show ?thesis using False rm(1) True p(1) w(1,2) frame [OF w(4)] open'
        by (intro exI [of _ p] exI [of _ g'] exI [of _ U']) (simp add: store_overflowed_props_def sbind_def)
    next
      case no: False
      have c1: "unat (be_count be (en_storage ?g1) Overflow) + 1 < 2 ^ 32" using rm(3) assms(4) by simp
      have small: "length b \<le> MAX_PACKED_BLOB" using False by simp
      obtain p g' U' where w: "sbind (on_store (be_allocate be Overflow)) (\<lambda>pid.
            sbind (on_store (init_page crc be pid)) (\<lambda>_.
            sbind (on_store (write_blob crc be pid (fst k) (snd k) b)) (\<lambda>_.
            sbind (smodify (\<lambda>g. g\<lparr>en_open_page := Some pid\<rparr>)) (\<lambda>_. sret pid)))) ?g1 = (Inr p, g')" "rep (en_storage g') U'"
          "overflow_parts U' (Ov((k, p) \<mapsto> b)) (insert p P) C" "overflow_only be s1 U (en_storage g') U'"
          "g' = ?g1\<lparr>en_storage := en_storage g', en_open_page := Some p\<rparr>"
        using store_on_fresh_page [OF r1 parts(1) assms(3) small c1] by auto
      have open': "en_open_page g' = Some p" "en_heap g' = en_heap g" "en_wal g' = en_wal g"
        by (subst w(5), simp)+
      have "overflow_rep U' (Ov((k, p) \<mapsto> b)) (en_open_page g')" unfolding overflow_rep_def open'(1) using w(3) by blast
      moreover have "store_overflowed_props crc be k b g = (Inr p, g')"
        using False no unfolding store_overflowed_props_def sbind_def [of ?room] rm(1) by (simp add: w(1))
      ultimately show ?thesis using w(2) frame [OF w(4)] open' by blast
    qed
  qed
qed

text \<open>Releasing: the blob leaves the table.\<close>

lemma release_props_total:
  assumes "rep (en_storage g) U" "overflow_rep U Ov (en_open_page g)" "Ov (k, r) = Some b"
  shows "\<exists>g' U'. release_overflowed_props crc be k r g = (Inr (), g') \<and> rep (en_storage g') U' \<and>
    overflow_rep U' (Ov((k, r) := None)) (en_open_page g') \<and> overflow_only be (en_storage g) U (en_storage g') U' \<and>
    en_heap g' = en_heap g \<and> en_wal g' = en_wal g"
proof -
  obtain P C where parts: "overflow_parts U Ov P C" "\<And>p. en_open_page g = Some p \<Longrightarrow> p \<in> P"
    using assms(2) unfolding overflow_rep_def by blast
  from parts_found [OF parts(1) assms(3)] show ?thesis
  proof
    assume "\<exists>ps. C r = Some ps"
    then obtain ps where C: "C r = Some ps" by blast
    note h = parts_heads [OF parts(1) C]
    obtain k0 b0 where ch: "overflow_chain U r b0 ps" using h(1) unfolding chain_at_def by blast
    obtain page where page: "U (Overflow, r) = Some page" "ph_page_type (header_read page) \<noteq> page_type_code PropertySlab"
      using chain_not_slab [OF h(1)] by blast
    obtain s1 where t: "slab_page_or_false be r (en_storage g) = (Inr False, s1)" "rep s1 U" "be_count be s1 = be_count be (en_storage g)"
      using slab_test [OF assms(1) page(1)] page(2) by auto
    let ?U = "U |` (- ({Overflow} \<times> set ps))"
    obtain s2 where f: "free_overflow_chain be r s1 = (Inr (), s2)" "rep s2 ?U" "be_count be s2 = be_count be s1"
      using free_overflow_total [OF ch t(2)] by blast
    have "overflow_rep ?U (Ov((k, r) := None)) (en_open_page g)"
      unfolding overflow_rep_def using parts_free_chain [OF parts(1) C assms(3)] parts(2) by blast
    moreover have "overflow_only be (en_storage g) U s2 ?U" using f(3) t(3) by (auto simp: file_only_def restrict_map_def)
    ultimately show ?thesis using t(1) f(1,2)
      by (intro exI [of _ "g\<lparr>en_storage := s2\<rparr>"] exI [of _ ?U]) (simp add: release_overflowed_props_def sbind_def on_store_def)
  next
    assume P: "r \<in> P"
    then obtain page where page: "U (Overflow, r) = Some page" "ph_page_type (header_read page) = page_type_code PropertySlab"
        "slab_holds page (\<lambda>k. Ov (k, r))" using parts_slab [OF parts(1)] unfolding slab_at_def by blast
    obtain s1 where t: "slab_page_or_false be r (en_storage g) = (Inr True, s1)" "rep s1 U" "be_count be s1 = be_count be (en_storage g)"
      using slab_test [OF assms(1) page(1)] page(2) by auto
    obtain v s2 where f: "free_blob crc be r (fst k) (snd k) s1 = (Inr v, s2)" using free_blob_total [OF t(2) page(1,3)] by blast
    obtain page' where fs: "v = (\<exists>k'. k' \<noteq> k \<and> Ov (k', r) \<noteq> None)" "rep s2 (U((Overflow, r) \<mapsto> page'))"
        "slab_holds page' ((\<lambda>k. Ov (k, r))(k := None))" "ph_page_type (header_read page') = page_type_code PropertySlab"
        "be_count be s2 = be_count be s1"
      using free_blob_spec [OF f t(2) page(1,3)] page(2) by auto
    show ?thesis
    proof (cases v)
      case True
      have "overflow_parts (U((Overflow, r) \<mapsto> page')) (Ov((k, r) := None)) P C"
        by (rule parts_drop_slab [OF parts(1) P slab_atI [OF fs(3,4)]]) (use fs(1) True in blast)
      then have "overflow_rep (U((Overflow, r) \<mapsto> page')) (Ov((k, r) := None)) (en_open_page g)"
        unfolding overflow_rep_def using parts(2) by blast
      moreover have "overflow_only be (en_storage g) U s2 (U((Overflow, r) \<mapsto> page'))" by (rule file_only_upd) (use fs(5) t(3) in simp)
      ultimately show ?thesis using t(1) f fs(2) True
        by (intro exI [of _ "g\<lparr>en_storage := s2\<rparr>"] exI [of _ "U((Overflow, r) \<mapsto> page')"])
          (simp add: release_overflowed_props_def sbind_def on_store_def del: fun_upd_apply)
    next
      case False
      obtain s3 where fr: "be_free be Overflow r s2 = (Inr (), s3)" using free_total [OF fs(2), of Overflow r] by auto
      have fr': "rep s3 (U((Overflow, r) := None))" "be_count be s3 = be_count be s2"
        using free_law [OF fr fs(2)] by simp_all
      let ?open = "if en_open_page g = Some r then None else en_open_page g"
      have "overflow_parts (U((Overflow, r) := None)) (Ov((k, r) := None)) (P - {r}) C"
        by (rule parts_free_slab [OF parts(1) P]) (use fs(1) False in blast)
      then have "overflow_rep (U((Overflow, r) := None)) (Ov((k, r) := None)) ?open"
        unfolding overflow_rep_def using parts(2) by (intro exI [of _ "P - {r}"] exI [of _ C]) auto
      moreover have "overflow_only be (en_storage g) U s3 (U((Overflow, r) := None))"
        by (rule file_only_upd) (use fs(5) t(3) fr'(2) in simp)
      ultimately show ?thesis using t(1) f False fr fr'(1)
        by (intro exI [of _ "g\<lparr>en_storage := s3, en_open_page := ?open\<rparr>"] exI [of _ "U((Overflow, r) := None)"])
          (auto simp: release_overflowed_props_def sbind_def on_store_def simp del: fun_upd_apply)
    qed
  qed
qed

end

end
