(* ===== verification/Record_Codec.thy ===== *)
theory Record_Codec
  imports Entities Buffer_Pool "HOL-Library.AList"
begin

text \<open>
  The record codecs of \<^verbatim>\<open>crates/ermya-graph/src/storage/codec\<close>: property maps (\<^verbatim>\<open>property_codec.rs\<close>), the
  128-byte node slot (\<^verbatim>\<open>node_codec.rs\<close>) and the 128-byte edge slot (\<^verbatim>\<open>edge_codec.rs\<close>). A label or a property map that
  does not fit its slot is handed to the caller, who stores it elsewhere and patches a reference into the slot.
  The CRC-32 function of the \<^verbatim>\<open>crc32fast\<close> package is the parameter \<open>crc\<close>.
\<close>

section \<open>Property maps\<close>

definition TAG_STRING :: byte where "TAG_STRING = 0x01"
definition TAG_I64 :: byte where "TAG_I64 = 0x02"
definition TAG_F64 :: byte where "TAG_F64 = 0x03"
definition TAG_BOOL :: byte where "TAG_BOOL = 0x04"
definition TAG_BYTES :: byte where "TAG_BYTES = 0x05"

lemmas tag_defs = TAG_STRING_def TAG_I64_def TAG_F64_def TAG_BOOL_def TAG_BYTES_def

text \<open>\<open>encode_value\<close> returns the bytes that the code appends to its buffer.\<close>

fun encode_value :: "property \<Rightarrow> storage_error + bytes" where
  "encode_value (PropString s) =
     (if length s < 2 ^ 32 then Inr (TAG_STRING # le32 (word_of_nat (length s)) @ s) else Inl (RecordTooLarge (length s)))"
| "encode_value (PropI64 v) = Inr (TAG_I64 # le64 v)"
| "encode_value (PropF64 v) = Inr (TAG_F64 # le64 v)"
| "encode_value (PropBool v) = Inr [TAG_BOOL, if v then 1 else 0]"
| "encode_value (PropBytes v) =
     (if length v < 2 ^ 32 then Inr (TAG_BYTES # le32 (word_of_nat (length v)) @ v) else Inl (RecordTooLarge (length v)))"

fun encode_properties :: "properties \<Rightarrow> storage_error + bytes" where
  "encode_properties [] = Inr []"
| "encode_properties ((key, value) # ps) =
     (if length key > 255 then Inl (RecordTooLarge (length key))
      else rbind (encode_value value) (\<lambda>v. rbind (encode_properties ps) (\<lambda>rest.
           Inr (word_of_nat (length key) # key @ v @ rest))))"

definition prop_read_byte :: "bytes \<Rightarrow> nat \<Rightarrow> string \<Rightarrow> u32 \<Rightarrow> storage_error + byte" where
  "prop_read_byte data off ctx p = (if off < length data then Inr (data ! off) else Inl (CorruptProperties p ctx))"

definition prop_read_u32 :: "bytes \<Rightarrow> nat \<Rightarrow> string \<Rightarrow> u32 \<Rightarrow> storage_error + nat" where
  "prop_read_u32 data off ctx p =
     (if off + 4 > length data then Inl (CorruptProperties p ctx) else Inr (le_nat (subslice off 4 data)))"

definition prop_read_u64 :: "bytes \<Rightarrow> nat \<Rightarrow> string \<Rightarrow> u32 \<Rightarrow> storage_error + u64" where
  "prop_read_u64 data off ctx p =
     (if off + 8 > length data then Inl (CorruptProperties p ctx) else Inr (word_of_nat (le_nat (subslice off 8 data))))"

definition decode_value :: "bytes \<Rightarrow> nat \<Rightarrow> u32 \<Rightarrow> storage_error + property \<times> nat" where
  "decode_value data off p =
     rbind (prop_read_byte data off ''property type tag'' p) (\<lambda>tag.
       if tag = TAG_STRING then
         rbind (prop_read_u32 data (off + 1) ''string length'' p) (\<lambda>len.
           if off + 5 + len > length data then Inl (CorruptProperties p ''string value truncated'')
           else if \<not> utf8_valid (subslice (off + 5) len data)
           then Inl (CorruptProperties p ''string value is not valid UTF-8'')
           else Inr (PropString (subslice (off + 5) len data), 5 + len))
       else if tag = TAG_I64 then rbind (prop_read_u64 data (off + 1) ''i64 value'' p) (\<lambda>v. Inr (PropI64 v, 9))
       else if tag = TAG_F64 then rbind (prop_read_u64 data (off + 1) ''f64 value'' p) (\<lambda>v. Inr (PropF64 v, 9))
       else if tag = TAG_BOOL then rbind (prop_read_byte data (off + 1) ''bool value'' p) (\<lambda>b. Inr (PropBool (b \<noteq> 0), 2))
       else if tag = TAG_BYTES then
         rbind (prop_read_u32 data (off + 1) ''bytes length'' p) (\<lambda>len.
           if off + 5 + len > length data then Inl (CorruptProperties p ''bytes value truncated'')
           else Inr (PropBytes (subslice (off + 5) len data), 5 + len))
       else Inl (CorruptProperties p ''unknown property type tag''))"

definition skip_value :: "bytes \<Rightarrow> nat \<Rightarrow> u32 \<Rightarrow> storage_error + nat" where
  "skip_value data off p =
     rbind (prop_read_byte data off ''property type tag (skip)'' p) (\<lambda>tag.
       if tag = TAG_STRING then
         rbind (prop_read_u32 data (off + 1) ''string length (skip)'' p) (\<lambda>len.
           if off + (1 + 4 + len) > length data then Inl (CorruptProperties p ''string value truncated (skip)'')
           else Inr (1 + 4 + len))
       else if tag = TAG_I64 \<or> tag = TAG_F64 then
         (if off + 9 > length data then Inl (CorruptProperties p ''numeric value truncated (skip)'') else Inr 9)
       else if tag = TAG_BOOL then
         (if off + 2 > length data then Inl (CorruptProperties p ''bool value truncated (skip)'') else Inr 2)
       else if tag = TAG_BYTES then
         rbind (prop_read_u32 data (off + 1) ''bytes length (skip)'' p) (\<lambda>len.
           if off + (1 + 4 + len) > length data then Inl (CorruptProperties p ''bytes value truncated (skip)'')
           else Inr (1 + 4 + len))
       else Inl (CorruptProperties p ''unknown property type tag (skip)''))"

text \<open>The loops of the two decoders: what is left to read, the map so far and the offset.\<close>

fun decode_properties_loop :: "bytes \<Rightarrow> u32 \<Rightarrow> nat \<Rightarrow> properties \<Rightarrow> nat \<Rightarrow> storage_error + properties \<times> nat" where
  "decode_properties_loop data p 0 props off = Inr (props, off)"
| "decode_properties_loop data p (Suc n) props off =
     rbind (prop_read_byte data off ''property key_len'' p) (\<lambda>b.
       let key_len = unat b; off1 = off + 1 in
       if off1 + key_len > length data then Inl (CorruptProperties p ''property key truncated'')
       else let key = subslice off1 key_len data in
         if \<not> utf8_valid key then Inl (CorruptProperties p ''property key is not valid UTF-8'')
         else rbind (decode_value data (off1 + key_len) p) (\<lambda>(value, consumed).
           decode_properties_loop data p n (AList.update key value props) (off1 + key_len + consumed)))"

definition decode_properties :: "bytes \<Rightarrow> u16 \<Rightarrow> u32 \<Rightarrow> storage_error + properties \<times> nat" where
  "decode_properties data prop_count p = decode_properties_loop data p (unat prop_count) [] 0"

fun decode_projected_loop ::
  "bytes \<Rightarrow> u32 \<Rightarrow> rstring list \<Rightarrow> nat \<Rightarrow> properties \<Rightarrow> nat \<Rightarrow> storage_error + properties \<times> nat" where
  "decode_projected_loop data p keys 0 props off = Inr (props, off)"
| "decode_projected_loop data p keys (Suc n) props off =
     rbind (prop_read_byte data off ''property key_len'' p) (\<lambda>b.
       let key_len = unat b; off1 = off + 1 in
       if off1 + key_len > length data then Inl (CorruptProperties p ''property key truncated'')
       else let key = subslice off1 key_len data in
         if key \<in> set keys then
           (if \<not> utf8_valid key then Inl (CorruptProperties p ''property key is not valid UTF-8'')
            else rbind (decode_value data (off1 + key_len) p) (\<lambda>(value, consumed).
              decode_projected_loop data p keys n (AList.update key value props) (off1 + key_len + consumed)))
         else rbind (skip_value data (off1 + key_len) p) (\<lambda>skipped.
           decode_projected_loop data p keys n props (off1 + key_len + skipped)))"

definition decode_properties_projected ::
  "bytes \<Rightarrow> u16 \<Rightarrow> rstring list \<Rightarrow> u32 \<Rightarrow> storage_error + properties \<times> nat" where
  "decode_properties_projected data prop_count keys p = decode_projected_loop data p keys (unat prop_count) [] 0"

section \<open>Node slots\<close>

definition NODE_SLOT_SIZE :: nat where "NODE_SLOT_SIZE = 128"
definition NODE_LABEL_INLINE_MAX :: nat where "NODE_LABEL_INLINE_MAX = 47"
definition NODE_PROP_INLINE_MAX :: nat where "NODE_PROP_INLINE_MAX = 38"
definition SLOT_EMPTY :: byte where "SLOT_EMPTY = 0"
definition SLOT_LIVE :: byte where "SLOT_LIVE = 1"
definition ADJ_FLAG_OUTGOING :: byte where "ADJ_FLAG_OUTGOING = 1"
definition ADJ_FLAG_INCOMING :: byte where "ADJ_FLAG_INCOMING = 2"
definition LABEL_OVERFLOW_MARKER :: byte where "LABEL_OVERFLOW_MARKER = 0xFF"

text \<open>What did not fit, for the caller to store: \<^verbatim>\<open>NodeSlotOverflow\<close>, and the identical \<^verbatim>\<open>EdgeSlotOverflow\<close>.\<close>

record slot_overflow =
  so_label_overflowed :: bool
  so_label_bytes :: "bytes option"
  so_props_overflowed :: bool
  so_props_bytes :: "bytes option"

definition label_hash :: "(bytes \<Rightarrow> u32) \<Rightarrow> rstring \<Rightarrow> u32" where
  "label_hash crc label = crc label"

text \<open>The label and the property map go into a slot in the same way in both codecs, at different offsets.\<close>

definition put_label :: "nat \<Rightarrow> nat \<Rightarrow> nat \<Rightarrow> rstring \<Rightarrow> bytes \<Rightarrow> bytes" where
  "put_label inline_max off_len off_inline label slot =
     (if length label \<le> inline_max
      then splice off_inline label (slot[off_len := word_of_nat (length label)])
      else slot[off_len := LABEL_OVERFLOW_MARKER])"

definition put_props :: "nat \<Rightarrow> nat \<Rightarrow> nat \<Rightarrow> bytes \<Rightarrow> bytes \<Rightarrow> bytes" where
  "put_props inline_max off_len off_inline encoded slot =
     (if length encoded \<le> inline_max
      then splice off_inline encoded (splice off_len (le16 (word_of_nat (length encoded))) slot)
      else splice off_len (le16 0) slot)"

definition overflow_of :: "nat \<Rightarrow> nat \<Rightarrow> rstring \<Rightarrow> bytes \<Rightarrow> slot_overflow" where
  "overflow_of label_max prop_max label encoded =
     \<lparr>so_label_overflowed = length label > label_max,
      so_label_bytes = (if length label > label_max then Some label else None),
      so_props_overflowed = length encoded > prop_max,
      so_props_bytes = (if length encoded > prop_max then Some encoded else None)\<rparr>"

definition encode_node_slot :: "(bytes \<Rightarrow> u32) \<Rightarrow> node \<Rightarrow> storage_error + bytes \<times> slot_overflow" where
  "encode_node_slot crc n =
     (let s0 = (replicate NODE_SLOT_SIZE 0)[0 := SLOT_LIVE];
          s1 = splice 1 (le_bytes 8 (nd_id n)) s0;
          s2 = splice 9 (le32 (label_hash crc (nd_label n))) s1;
          s3 = put_label NODE_LABEL_INLINE_MAX 13 14 (nd_label n) s2
      in rbind (encode_properties (nd_properties n)) (\<lambda>encoded.
         if length (nd_properties n) \<ge> 2 ^ 16 then Inl (RecordTooLarge (length (nd_properties n)))
         else
           let s4 = splice 65 (le16 (word_of_nat (length (nd_properties n)))) s3;
               s5 = put_props NODE_PROP_INLINE_MAX 67 69 encoded s4;
               s6 = splice 111 (le32 (nd_adj_page_id n)) s5;
               s7 = s6[115 := nd_adj_flags n];
               s8 = splice 116 (le32 (nd_adj_incoming_page_id n)) s7;
               s9 = splice 120 (replicate 8 0) s8
           in Inr (s9, overflow_of NODE_LABEL_INLINE_MAX NODE_PROP_INLINE_MAX (nd_label n) encoded)))"

definition slot_needs_label_resolve :: "bytes \<Rightarrow> bool" where
  "slot_needs_label_resolve slot \<longleftrightarrow> slot ! 13 = LABEL_OVERFLOW_MARKER"

definition slot_inline_label :: "bytes \<Rightarrow> u32 \<Rightarrow> storage_error + rstring" where
  "slot_inline_label slot p =
     (let len = unat (slot ! 13) in
      if len > NODE_LABEL_INLINE_MAX
      then Inl (CorruptPage Nodes p ''node label length exceeds the inline capacity'')
      else if \<not> utf8_valid (subslice 14 len slot)
      then Inl (CorruptPage Nodes p ''inline node label is not valid UTF-8'')
      else Inr (subslice 14 len slot))"

definition slot_label_overflow_ref :: "bytes \<Rightarrow> u32" where
  "slot_label_overflow_ref slot = word_of_nat (le_nat (subslice 61 4 slot))"

definition slot_prop_overflow_ref :: "bytes \<Rightarrow> u32" where
  "slot_prop_overflow_ref slot = word_of_nat (le_nat (subslice 107 4 slot))"

definition slot_needs_prop_resolve :: "bytes \<Rightarrow> bool" where
  "slot_needs_prop_resolve slot \<longleftrightarrow> le_nat (subslice 65 2 slot) > 0 \<and> le_nat (subslice 67 2 slot) = 0"

definition patch_overflow :: "u32 \<Rightarrow> u32 \<Rightarrow> bytes \<Rightarrow> bytes" where
  "patch_overflow label_ref prop_ref slot = splice 107 (le32 prop_ref) (splice 61 (le32 label_ref) slot)"

definition slot_adj_page_id :: "bytes \<Rightarrow> u32" where
  "slot_adj_page_id slot = word_of_nat (le_nat (subslice 111 4 slot))"

definition slot_adj_incoming_page_id :: "bytes \<Rightarrow> u32" where
  "slot_adj_incoming_page_id slot = word_of_nat (le_nat (subslice 116 4 slot))"

definition slot_adj_flags :: "bytes \<Rightarrow> byte" where
  "slot_adj_flags slot = slot ! 115"

definition patch_adj_pointer :: "u32 option \<Rightarrow> u32 option \<Rightarrow> bytes \<Rightarrow> bytes" where
  "patch_adj_pointer outgoing incoming slot =
     (let s1 = splice 111 (le32 (case outgoing of None \<Rightarrow> ADJ_PAGE_ID_SENTINEL | Some p \<Rightarrow> p)) slot;
          f1 = (if outgoing \<noteq> None then or 0 ADJ_FLAG_OUTGOING else 0);
          s2 = splice 116 (le32 (case incoming of None \<Rightarrow> ADJ_PAGE_ID_SENTINEL | Some p \<Rightarrow> p)) s1;
          f2 = (if incoming \<noteq> None then or f1 ADJ_FLAG_INCOMING else f1)
      in s2[115 := f2])"

text \<open>The resolvers are the closures the caller passes in; \<open>keys\<close> is the projection, if any.\<close>

definition decode_node_slot_inner ::
  "bytes \<Rightarrow> u32 \<Rightarrow> (u32 \<Rightarrow> storage_error + rstring) \<Rightarrow> (u32 \<Rightarrow> storage_error + bytes) \<Rightarrow> rstring list option \<Rightarrow>
     storage_error + node option" where
  "decode_node_slot_inner slot p resolve_label resolve_props keys =
     (if slot ! 0 = SLOT_EMPTY \<or> slot ! 0 = SLOT_TOMBSTONE then Inr None
      else
        let i = le_nat (subslice 1 8 slot);
            label_len = slot ! 13 in
        rbind
          (if label_len = LABEL_OVERFLOW_MARKER then resolve_label (word_of_nat (le_nat (subslice 61 4 slot)))
           else if unat label_len > NODE_LABEL_INLINE_MAX
           then Inl (CorruptPage Nodes p ''node label length exceeds the inline capacity'')
           else if \<not> utf8_valid (subslice 14 (unat label_len) slot)
           then Inl (CorruptPage Nodes p ''node label is not valid UTF-8'')
           else Inr (subslice 14 (unat label_len) slot))
        (\<lambda>label.
          let prop_count = word_of_nat (le_nat (subslice 65 2 slot));
              inline_len = le_nat (subslice 67 2 slot) in
          if inline_len > NODE_PROP_INLINE_MAX
          then Inl (CorruptPage Nodes p ''inline property length exceeds the inline capacity'')
          else
            let overflowed = prop_count > 0 \<and> inline_len = 0;
                raw = (if overflowed then resolve_props (word_of_nat (le_nat (subslice 107 4 slot)))
                       else Inr (subslice 69 inline_len slot)) in
            rbind
              (case keys of
                 Some [] \<Rightarrow> Inr []
               | Some ks \<Rightarrow> rbind raw (\<lambda>d. rbind (decode_properties_projected d prop_count ks p) (\<lambda>r. Inr (fst r)))
               | None \<Rightarrow> rbind raw (\<lambda>d. rbind (decode_properties d prop_count p) (\<lambda>r. Inr (fst r))))
            (\<lambda>properties. Inr (Some ((node_new i label properties)
               \<lparr>nd_adj_page_id := slot_adj_page_id slot,
                nd_adj_incoming_page_id := slot_adj_incoming_page_id slot,
                nd_adj_flags := slot_adj_flags slot\<rparr>)))))"

definition decode_node_slot ::
  "bytes \<Rightarrow> u32 \<Rightarrow> (u32 \<Rightarrow> storage_error + rstring) \<Rightarrow> (u32 \<Rightarrow> storage_error + bytes) \<Rightarrow> storage_error + node option" where
  "decode_node_slot slot p resolve_label resolve_props = decode_node_slot_inner slot p resolve_label resolve_props None"

definition decode_node_slot_projected ::
  "bytes \<Rightarrow> u32 \<Rightarrow> (u32 \<Rightarrow> storage_error + rstring) \<Rightarrow> (u32 \<Rightarrow> storage_error + bytes) \<Rightarrow> rstring list \<Rightarrow>
     storage_error + node option" where
  "decode_node_slot_projected slot p resolve_label resolve_props keys =
     decode_node_slot_inner slot p resolve_label resolve_props (Some keys)"

section \<open>Edge slots\<close>

definition EDGE_SLOT_SIZE :: nat where "EDGE_SLOT_SIZE = 128"
definition EDGE_LABEL_INLINE_MAX :: nat where "EDGE_LABEL_INLINE_MAX = 55"
definition EDGE_PROP_INLINE_MAX :: nat where "EDGE_PROP_INLINE_MAX = 30"

definition encode_edge_slot :: "(bytes \<Rightarrow> u32) \<Rightarrow> edge \<Rightarrow> storage_error + bytes \<times> slot_overflow" where
  "encode_edge_slot crc e =
     (let s0 = (replicate EDGE_SLOT_SIZE 0)[0 := SLOT_LIVE];
          s1 = splice 1 (le_bytes 8 (ed_id e)) s0;
          s2 = splice 9 (le_bytes 8 (ed_source e)) s1;
          s3 = splice 17 (le_bytes 8 (ed_target e)) s2;
          s4 = splice 25 (le32 (label_hash crc (ed_label e))) s3;
          s5 = put_label EDGE_LABEL_INLINE_MAX 29 30 (ed_label e) s4
      in rbind (encode_properties (ed_properties e)) (\<lambda>encoded.
         if length (ed_properties e) \<ge> 2 ^ 16 then Inl (RecordTooLarge (length (ed_properties e)))
         else
           let s6 = splice 89 (le16 (word_of_nat (length (ed_properties e)))) s5;
               s7 = put_props EDGE_PROP_INLINE_MAX 91 93 encoded s6;
               s8 = s7[127 := 0]
           in Inr (s8, overflow_of EDGE_LABEL_INLINE_MAX EDGE_PROP_INLINE_MAX (ed_label e) encoded)))"

definition decode_edge_slot ::
  "bytes \<Rightarrow> u32 \<Rightarrow> (u32 \<Rightarrow> storage_error + rstring) \<Rightarrow> (u32 \<Rightarrow> storage_error + bytes) \<Rightarrow> storage_error + edge option" where
  "decode_edge_slot slot p resolve_label resolve_props =
     (if slot ! 0 = SLOT_EMPTY \<or> slot ! 0 = SLOT_TOMBSTONE then Inr None
      else
        let i = le_nat (subslice 1 8 slot);
            source = le_nat (subslice 9 8 slot);
            target = le_nat (subslice 17 8 slot);
            label_len = slot ! 29 in
        rbind
          (if label_len = LABEL_OVERFLOW_MARKER then resolve_label (word_of_nat (le_nat (subslice 85 4 slot)))
           else if unat label_len > EDGE_LABEL_INLINE_MAX
           then Inl (CorruptPage Edges p ''edge label length exceeds the inline capacity'')
           else if \<not> utf8_valid (subslice 30 (unat label_len) slot)
           then Inl (CorruptPage Edges p ''edge label is not valid UTF-8'')
           else Inr (subslice 30 (unat label_len) slot))
        (\<lambda>label.
          let prop_overflow_offset = word_of_nat (le_nat (subslice 123 4 slot));
              prop_count = word_of_nat (le_nat (subslice 89 2 slot));
              inline_len = le_nat (subslice 91 2 slot) in
          if inline_len > EDGE_PROP_INLINE_MAX
          then Inl (CorruptPage Edges p ''inline property length exceeds the inline capacity'')
          else rbind
            (if prop_count > 0 \<and> inline_len = 0
             then rbind (resolve_props prop_overflow_offset) (\<lambda>raw.
                  rbind (decode_properties raw prop_count p) (\<lambda>r. Inr (fst r)))
             else rbind (decode_properties (subslice 93 inline_len slot) prop_count p) (\<lambda>r. Inr (fst r)))
          (\<lambda>properties. Inr (Some (edge_new i label source target properties)))))"

definition edge_slot_needs_label_resolve :: "bytes \<Rightarrow> bool" where
  "edge_slot_needs_label_resolve slot \<longleftrightarrow> slot ! 29 = LABEL_OVERFLOW_MARKER"

definition edge_slot_inline_label :: "bytes \<Rightarrow> u32 \<Rightarrow> storage_error + rstring" where
  "edge_slot_inline_label slot p =
     (let len = unat (slot ! 29) in
      if len > EDGE_LABEL_INLINE_MAX
      then Inl (CorruptPage Edges p ''edge label length exceeds the inline capacity'')
      else if \<not> utf8_valid (subslice 30 len slot)
      then Inl (CorruptPage Edges p ''inline edge label is not valid UTF-8'')
      else Inr (subslice 30 len slot))"

definition edge_slot_label_overflow_ref :: "bytes \<Rightarrow> u32" where
  "edge_slot_label_overflow_ref slot = word_of_nat (le_nat (subslice 85 4 slot))"

definition edge_slot_prop_overflow_ref :: "bytes \<Rightarrow> u32" where
  "edge_slot_prop_overflow_ref slot = word_of_nat (le_nat (subslice 123 4 slot))"

definition edge_slot_needs_prop_resolve :: "bytes \<Rightarrow> bool" where
  "edge_slot_needs_prop_resolve slot \<longleftrightarrow> le_nat (subslice 89 2 slot) > 0 \<and> le_nat (subslice 91 2 slot) = 0"

definition patch_edge_overflow :: "u32 \<Rightarrow> u32 \<Rightarrow> bytes \<Rightarrow> bytes" where
  "patch_edge_overflow label_ref prop_ref slot = splice 123 (le32 prop_ref) (splice 85 (le32 label_ref) slot)"

section \<open>The property codec\<close>

text \<open>What a \<^verbatim>\<open>Properties\<close> value is: distinct keys, and UTF-8 in every string.\<close>

fun value_ok :: "property \<Rightarrow> bool" where
  "value_ok (PropString s) = utf8_valid s"
| "value_ok _ = True"

definition props_ok :: "properties \<Rightarrow> bool" where
  "props_ok ps \<longleftrightarrow> distinct (map fst ps) \<and> (\<forall>(k, v)\<in>set ps. utf8_valid k \<and> value_ok v)"

lemma le32_len: "n < 2 ^ 32 \<Longrightarrow> le_nat (le32 (word_of_nat n)) = n"
  by (simp add: le32_def le_nat_le_bytes unat_of_nat)

lemma le16_len: "n < 2 ^ 16 \<Longrightarrow> le_nat (le16 (word_of_nat n)) = n"
  by (simp add: le16_def le_nat_le_bytes unat_of_nat)

lemma slice_at: "subslice (length pre + k) n (pre @ xs) = subslice k n xs"
  by (simp add: subslice_def)

lemma nth_at: "(pre @ xs) ! (length pre + k) = xs ! k"
  by simp

lemma subslice_app: "subslice k n (xs @ ys) = (if k + n \<le> length xs then subslice k n xs
    else if length xs \<le> k then subslice (k - length xs) n ys else take n (drop k (xs @ ys)))"
  by (auto simp: subslice_def)

lemma decode_encode_value:
  assumes "encode_value v = Inr b" "value_ok v"
  shows "decode_value (pre @ b @ rest) (length pre) p = Inr (v, length b)"
    and "skip_value (pre @ b @ rest) (length pre) p = Inr (length b)"
proof -
  define data where "data = pre @ b @ rest"
  have tag: "prop_read_byte data (length pre) c p = Inr (hd b)" if "b \<noteq> []" for c
    using that by (simp add: prop_read_byte_def data_def nth_append hd_conv_nth)
  have str: "prop_read_u32 data (length pre + 1) c p = Inr (length s)" "subslice (length pre + 5) (length s) data = s"
    "length pre + 5 + length s \<le> length data"
    if "b = t # le32 (word_of_nat (length s)) @ s" "length s < 2 ^ 32" for t s c
  proof -
    have d: "data = (pre @ [t]) @ le32 (word_of_nat (length s)) @ s @ rest" using that(1) by (simp add: data_def)
    then show "prop_read_u32 data (length pre + 1) c p = Inr (length s)"
      using that(2) by (simp add: prop_read_u32_def d subslice_append_eq le32_len del: append_assoc)
    have "data = (pre @ t # le32 (word_of_nat (length s))) @ s @ rest" using d by simp
    then show "subslice (length pre + 5) (length s) data = s" by (simp add: subslice_append_eq del: append_assoc)
    show "length pre + 5 + length s \<le> length data" using d by simp
  qed
  have num: "prop_read_u64 data (length pre + 1) c p = Inr w" if "b = t # le64 w" for t w c
  proof -
    have d: "data = (pre @ [t]) @ le64 w @ rest" using that by (simp add: data_def)
    then show ?thesis by (simp add: prop_read_u64_def d subslice_append_eq del: append_assoc)
  qed
  have "decode_value data (length pre) p = Inr (v, length b) \<and> skip_value data (length pre) p = Inr (length b)"
  proof (cases v)
    case (PropString s)
    then have b: "b = TAG_STRING # le32 (word_of_nat (length s)) @ s" "length s < 2 ^ 32" using assms(1) by (auto split: if_splits)
    show ?thesis using PropString assms(2) tag str [OF b] b(1) by (simp add: decode_value_def skip_value_def)
  next
    case (PropI64 w)
    then have b: "b = TAG_I64 # le64 w" using assms(1) by simp
    show ?thesis using PropI64 tag num [OF b] b by (simp add: decode_value_def skip_value_def data_def tag_defs)
  next
    case (PropF64 w)
    then have b: "b = TAG_F64 # le64 w" using assms(1) by simp
    show ?thesis using PropF64 tag num [OF b] b by (simp add: decode_value_def skip_value_def data_def tag_defs)
  next
    case (PropBool w)
    then have b: "b = [TAG_BOOL, if w then 1 else 0]" using assms(1) by auto
    show ?thesis using PropBool tag b
      by (auto simp: decode_value_def skip_value_def data_def tag_defs prop_read_byte_def nth_append)
  next
    case (PropBytes s)
    then have b: "b = TAG_BYTES # le32 (word_of_nat (length s)) @ s" "length s < 2 ^ 32" using assms(1) by (auto split: if_splits)
    show ?thesis using PropBytes tag str [OF b] b(1) by (simp add: decode_value_def skip_value_def tag_defs)
  qed
  then show "decode_value (pre @ b @ rest) (length pre) p = Inr (v, length b)"
    and "skip_value (pre @ b @ rest) (length pre) p = Inr (length b)" by (simp_all add: data_def)
qed

text \<open>A value that decodes is skipped over the same number of bytes, inside the buffer.\<close>

lemma skip_decoded_value:
  assumes "decode_value data off p = Inr (v, c)"
  shows "skip_value data off p = Inr c" "off + c \<le> length data"
  using assms
  by (auto simp: decode_value_def skip_value_def prop_read_byte_def prop_read_u32_def prop_read_u64_def tag_defs
      split: if_splits)

lemma decode_value_ok: "decode_value data off p = Inr (v, c) \<Longrightarrow> value_ok v"
  by (auto simp: decode_value_def prop_read_byte_def prop_read_u32_def prop_read_u64_def split: if_splits)

text \<open>Encoding a map, read from any offset of a buffer and onto any map built so far.\<close>

lemma update_fresh: "k \<notin> fst ` set ps \<Longrightarrow> AList.update k v ps = ps @ [(k, v)]"
  by (induction ps) auto

lemma decode_encode_loop:
  assumes "encode_properties ps = Inr b" "props_ok ps" "fst ` set ps \<inter> fst ` set acc = {}"
  shows "decode_properties_loop (pre @ b @ rest) p (length ps) acc (length pre) = Inr (acc @ ps, length pre + length b)"
  using assms
proof (induction ps arbitrary: b pre acc)
  case Nil
  then show ?case by simp
next
  case (Cons kv ps)
  obtain k v where kv: "kv = (k, v)" by fastforce
  from Cons.prems(1) kv obtain bv br where e: "length k \<le> 255" "encode_value v = Inr bv" "encode_properties ps = Inr br"
      "b = word_of_nat (length k) # k @ bv @ br" by (auto split: if_splits)
  have ok: "utf8_valid k" "value_ok v" "props_ok ps" "k \<notin> fst ` set ps" "k \<notin> fst ` set acc"
    "fst ` set ps \<inter> fst ` set (acc @ [(k, v)]) = {}"
    using Cons.prems(2,3) kv by (auto simp: props_ok_def)
  have len: "unat (word_of_nat (length k) :: byte) = length k" using e(1) by (simp add: unat_of_nat)
  let ?d = "pre @ b @ rest"
  have d1: "?d = (pre @ [word_of_nat (length k)]) @ k @ bv @ br @ rest" using e(4) by simp
  have d2: "?d = (pre @ word_of_nat (length k) # k) @ bv @ br @ rest" using e(4) by simp
  have d3: "?d = (pre @ word_of_nat (length k) # k @ bv) @ br @ rest" using e(4) by simp
  have "subslice (length pre + 1) (length k) ?d = k" unfolding d1 by (rule subslice_append_eq) simp_all
  moreover have "decode_value ?d (length pre + 1 + length k) p = Inr (v, length bv)"
    using decode_encode_value(1) [OF e(2) ok(2), of "pre @ word_of_nat (length k) # k"] d2 by simp
  moreover have "decode_properties_loop ?d p (length ps) (acc @ [(k, v)]) (length pre + 1 + length k + length bv) =
      Inr ((acc @ [(k, v)]) @ ps, length pre + length b)"
    using Cons.IH [OF e(3) ok(3,6), of "pre @ word_of_nat (length k) # k @ bv"] d3 e(4) by (simp add: add.assoc)
  moreover have "prop_read_byte ?d (length pre) c p = Inr (word_of_nat (length k))" for c
    using e(4) by (simp add: prop_read_byte_def)
  moreover have "length pre + 1 + length k \<le> length ?d" using e(4) by simp
  ultimately show ?case using kv ok(1,5) len by (simp add: Let_def update_fresh)
qed

lemma decode_encode_properties:
  assumes "encode_properties ps = Inr b" "props_ok ps" "length ps < 2 ^ 16"
  shows "decode_properties (b @ rest) (word_of_nat (length ps)) p = Inr (ps, length b)"
  using decode_encode_loop [OF assms(1,2), of "[]" "[]"] assms(3) by (simp add: decode_properties_def unat_of_nat)

text \<open>The projecting decoder against the full one, on any bytes.\<close>

lemma filter_update:
  "filter (\<lambda>(k, v). k \<in> K) (AList.update k v ps) =
     (if k \<in> K then AList.update k v (filter (\<lambda>(k, v). k \<in> K) ps) else filter (\<lambda>(k, v). k \<in> K) ps)"
  by (induction ps) auto

lemma decode_loop_SucE:
  assumes "decode_properties_loop data p (Suc n) acc off = Inr (ps, c)"
  obtains key v d where "off < length data" "off + 1 + unat (data ! off) \<le> length data"
    "key = subslice (off + 1) (unat (data ! off)) data" "utf8_valid key"
    "decode_value data (off + 1 + unat (data ! off)) p = Inr (v, d)"
    "decode_properties_loop data p n (AList.update key v acc) (off + 1 + unat (data ! off) + d) = Inr (ps, c)"
proof -
  have "off < length data \<and> off + 1 + unat (data ! off) \<le> length data \<and>
      utf8_valid (subslice (off + 1) (unat (data ! off)) data) \<and>
      (\<exists>v d. decode_value data (off + 1 + unat (data ! off)) p = Inr (v, d) \<and>
        decode_properties_loop data p n (AList.update (subslice (off + 1) (unat (data ! off)) data) v acc)
          (off + 1 + unat (data ! off) + d) = Inr (ps, c))"
    using assms by (auto simp: Let_def prop_read_byte_def not_less split: if_splits)
  then show thesis using that [OF _ _ refl] by blast
qed

lemma projected_loop:
  assumes "decode_properties_loop data p n acc off = Inr (ps, c)"
  shows "decode_projected_loop data p keys n (filter (\<lambda>(k, v). k \<in> set keys) acc) off =
    Inr (filter (\<lambda>(k, v). k \<in> set keys) ps, c)"
  using assms
proof (induction n arbitrary: acc off)
  case 0
  then show ?case by simp
next
  case (Suc n)
  then obtain key v d where s: "off < length data" "off + 1 + unat (data ! off) \<le> length data"
    "key = subslice (off + 1) (unat (data ! off)) data" "utf8_valid key"
    "decode_value data (off + 1 + unat (data ! off)) p = Inr (v, d)"
    "decode_properties_loop data p n (AList.update key v acc) (off + 1 + unat (data ! off) + d) = Inr (ps, c)"
    by (elim decode_loop_SucE)
  show ?case using s(1-5) Suc.IH [OF s(6)] skip_decoded_value(1) [OF s(5)]
    by (cases "key \<in> set keys") (simp_all add: Let_def filter_update prop_read_byte_def)
qed

lemma decode_loop_facts:
  assumes "decode_properties_loop data p n acc off = Inr (ps, c)" "props_ok acc" "off \<le> length data"
  shows "props_ok ps \<and> c \<le> length data \<and> off + 2 * n \<le> c"
  using assms
proof (induction n arbitrary: acc off)
  case 0
  then show ?case by simp
next
  case (Suc n)
  from Suc.prems(1) obtain key v d where s: "off + 1 + unat (data ! off) \<le> length data" "utf8_valid key"
    "decode_value data (off + 1 + unat (data ! off)) p = Inr (v, d)"
    "decode_properties_loop data p n (AList.update key v acc) (off + 1 + unat (data ! off) + d) = Inr (ps, c)"
    by (elim decode_loop_SucE)
  have "set (AList.update key v acc) \<subseteq> insert (key, v) (set acc)" by (induction acc) auto
  then have "props_ok (AList.update key v acc)"
    using Suc.prems(2) s(2) decode_value_ok [OF s(3)]
    unfolding props_ok_def by (auto simp: distinct_update)
  from Suc.IH [OF s(4) this] skip_decoded_value(2) [OF s(3)]
  have "props_ok ps \<and> c \<le> length data \<and> off + 1 + unat (data ! off) + d + 2 * n \<le> c" by simp
  moreover have "d \<ge> 1" using s(3) by (auto simp: decode_value_def split: if_splits)
  ultimately show ?case by simp
qed

section \<open>Fields of a slot\<close>

named_theorems slot_simps \<open>reading a field of a slot behind a write to another one\<close>

declare subslice_splice_other [slot_simps]

lemma subslice_update [slot_simps]: "i < off \<or> off + n \<le> i \<Longrightarrow> subslice off n (xs[i := v]) = subslice off n xs"
  by (auto simp: subslice_def drop_update_swap)

lemma nth_splice_other [slot_simps]:
  "off + length bs \<le> length buf \<Longrightarrow> i < off \<or> off + length bs \<le> i \<Longrightarrow> i < length buf \<Longrightarrow> splice off bs buf ! i = buf ! i"
  by (auto simp: nth_splice)

lemma put_label_frame [slot_simps]:
  assumes "off_len < off_inline" "off_inline + m \<le> length slot"
  shows "length (put_label m off_len off_inline l slot) = length slot"
    and "(o' + k \<le> off_len \<or> off_len < o') \<Longrightarrow> (o' + k \<le> off_inline \<or> off_inline + m \<le> o') \<Longrightarrow> o' + k \<le> length slot \<Longrightarrow>
      subslice o' k (put_label m off_len off_inline l slot) = subslice o' k slot"
    and "i \<noteq> off_len \<Longrightarrow> (i < off_inline \<or> off_inline + m \<le> i) \<Longrightarrow> i < length slot \<Longrightarrow>
      put_label m off_len off_inline l slot ! i = slot ! i"
  using assms by (auto simp: put_label_def slot_simps)

lemma put_props_frame [slot_simps]:
  assumes "off_len + 2 \<le> off_inline" "off_inline + m \<le> length slot"
  shows "length (put_props m off_len off_inline b slot) = length slot"
    and "(o' + k \<le> off_len \<or> off_len + 2 \<le> o') \<Longrightarrow> (o' + k \<le> off_inline \<or> off_inline + m \<le> o') \<Longrightarrow> o' + k \<le> length slot \<Longrightarrow>
      subslice o' k (put_props m off_len off_inline b slot) = subslice o' k slot"
    and "(i < off_len \<or> off_len + 2 \<le> i) \<Longrightarrow> (i < off_inline \<or> off_inline + m \<le> i) \<Longrightarrow> i < length slot \<Longrightarrow>
      put_props m off_len off_inline b slot ! i = slot ! i"
  using assms by (auto simp: put_props_def slot_simps)

text \<open>A slot that carries a label and an encoded property map, inline or flagged as overflowed.\<close>

definition label_field :: "nat \<Rightarrow> nat \<Rightarrow> nat \<Rightarrow> rstring \<Rightarrow> bytes \<Rightarrow> bool" where
  "label_field m off_len off_inline l slot \<longleftrightarrow>
     (if length l \<le> m then slot ! off_len = word_of_nat (length l) \<and> subslice off_inline (length l) slot = l
      else slot ! off_len = LABEL_OVERFLOW_MARKER)"

definition props_field :: "nat \<Rightarrow> nat \<Rightarrow> nat \<Rightarrow> bytes \<Rightarrow> bytes \<Rightarrow> bool" where
  "props_field m off_len off_inline b slot \<longleftrightarrow>
     (if length b \<le> m then subslice off_len 2 slot = le16 (word_of_nat (length b)) \<and> subslice off_inline (length b) slot = b
      else subslice off_len 2 slot = le16 0)"

lemma put_label_field:
  "off_len < off_inline \<Longrightarrow> off_inline + m \<le> length slot \<Longrightarrow> label_field m off_len off_inline l (put_label m off_len off_inline l slot)"
  by (auto simp: label_field_def put_label_def slot_simps)

lemma put_props_field:
  "off_len + 2 \<le> off_inline \<Longrightarrow> off_inline + m \<le> length slot \<Longrightarrow> props_field m off_len off_inline b (put_props m off_len off_inline b slot)"
  by (auto simp: props_field_def put_props_def slot_simps)

text \<open>Only the bytes of a field matter to it.\<close>

lemma label_field_cong:
  assumes "label_field m off_len off_inline l slot" "slot' ! off_len = slot ! off_len"
    and "\<And>k. k \<le> m \<Longrightarrow> subslice off_inline k slot' = subslice off_inline k slot"
  shows "label_field m off_len off_inline l slot'"
  using assms by (simp add: label_field_def)

lemma props_field_cong:
  assumes "props_field m off_len off_inline b slot" "subslice off_len 2 slot' = subslice off_len 2 slot"
    and "\<And>k. k \<le> m \<Longrightarrow> subslice off_inline k slot' = subslice off_inline k slot"
  shows "props_field m off_len off_inline b slot'"
  using assms by (simp add: props_field_def)

text \<open>The node that a slot describes, its property bytes being \<open>b\<close>.\<close>

definition node_slot_of :: "node \<Rightarrow> bytes \<Rightarrow> bytes \<Rightarrow> bool" where
  "node_slot_of n b slot \<longleftrightarrow> length slot = 128 \<and> slot ! 0 = SLOT_LIVE \<and> subslice 1 8 slot = le_bytes 8 (nd_id n) \<and>
     label_field 47 13 14 (nd_label n) slot \<and>
     subslice 65 2 slot = le16 (word_of_nat (length (nd_properties n))) \<and> props_field 38 67 69 b slot \<and>
     subslice 111 4 slot = le32 (nd_adj_page_id n) \<and> slot ! 115 = nd_adj_flags n \<and>
     subslice 116 4 slot = le32 (nd_adj_incoming_page_id n)"

lemmas node_consts = NODE_SLOT_SIZE_def NODE_LABEL_INLINE_MAX_def NODE_PROP_INLINE_MAX_def

lemma encode_node_slot_fields:
  assumes "encode_node_slot crc n = Inr (slot, ov)"
  obtains b where "encode_properties (nd_properties n) = Inr b" "length (nd_properties n) < 2 ^ 16" "node_slot_of n b slot"
    "ov = overflow_of 47 38 (nd_label n) b"
proof -
  from assms obtain b where b: "encode_properties (nd_properties n) = Inr b" "length (nd_properties n) < 2 ^ 16"
      "ov = overflow_of 47 38 (nd_label n) b"
    by (auto simp: encode_node_slot_def Let_def node_consts split: if_splits)
  define s2 where "s2 = splice 9 (le32 (label_hash crc (nd_label n)))
    (splice 1 (le_bytes 8 (nd_id n)) ((replicate 128 0)[0 := SLOT_LIVE]))"
  have s2: "length s2 = 128" "s2 ! 0 = SLOT_LIVE" "subslice 1 8 s2 = le_bytes 8 (nd_id n)"
    by (simp_all add: s2_def slot_simps)
  define s3 where "s3 = put_label 47 13 14 (nd_label n) s2"
  have s3: "length s3 = 128" "s3 ! 0 = SLOT_LIVE" "subslice 1 8 s3 = le_bytes 8 (nd_id n)" "label_field 47 13 14 (nd_label n) s3"
    using s2 put_label_field [of 13 14 47 s2] by (simp_all add: s3_def slot_simps)
  define s4 where "s4 = splice 65 (le16 (word_of_nat (length (nd_properties n)))) s3"
  define s5 where "s5 = put_props 38 67 69 b s4"
  have s4: "length s4 = 128" "s4 ! 0 = SLOT_LIVE" "subslice 1 8 s4 = le_bytes 8 (nd_id n)" "label_field 47 13 14 (nd_label n) s4"
    using s3 label_field_cong [OF s3(4), of s4] by (simp_all add: s4_def slot_simps)
  have s5: "length s5 = 128" "s5 ! 0 = SLOT_LIVE" "subslice 1 8 s5 = le_bytes 8 (nd_id n)" "label_field 47 13 14 (nd_label n) s5"
    "subslice 65 2 s5 = le16 (word_of_nat (length (nd_properties n)))" "props_field 38 67 69 b s5"
    using s4 label_field_cong [OF s4(4), of s5] put_props_field [of 67 69 38 s4] s3(1)
    by (simp_all add: s5_def slot_simps) (simp add: s4_def)
  have slot: "slot = splice 120 (replicate 8 0) (splice 116 (le32 (nd_adj_incoming_page_id n))
      ((splice 111 (le32 (nd_adj_page_id n)) s5)[115 := nd_adj_flags n]))"
    using assms b(1,2) by (simp add: encode_node_slot_def Let_def node_consts s5_def s4_def s3_def s2_def)
  have "node_slot_of n b slot"
    unfolding node_slot_of_def
    using s5 label_field_cong [OF s5(4), of slot] props_field_cong [OF s5(6), of slot]
    by (simp add: slot slot_simps)
  then show thesis using that b by blast
qed

lemma patch_overflow_fields:
  assumes "node_slot_of n b slot"
  shows "node_slot_of n b (patch_overflow lr pr slot)" "slot_label_overflow_ref (patch_overflow lr pr slot) = lr"
    "slot_prop_overflow_ref (patch_overflow lr pr slot) = pr"
proof -
  let ?s = "patch_overflow lr pr slot"
  have f: "length slot = 128" "label_field 47 13 14 (nd_label n) slot" "props_field 38 67 69 b slot"
    using assms by (simp_all add: node_slot_of_def)
  show "slot_label_overflow_ref ?s = lr" "slot_prop_overflow_ref ?s = pr"
    using f(1) by (simp_all add: slot_label_overflow_ref_def slot_prop_overflow_ref_def patch_overflow_def slot_simps)
  have "label_field 47 13 14 (nd_label n) ?s" "props_field 38 67 69 b ?s"
    using f(1) by (auto intro!: label_field_cong [OF f(2)] props_field_cong [OF f(3)] simp: patch_overflow_def slot_simps)
  then show "node_slot_of n b ?s" using assms by (simp add: node_slot_of_def patch_overflow_def slot_simps)
qed

lemma patch_adj_fields:
  assumes "node_slot_of n b slot"
  shows "\<exists>flags. node_slot_of (n\<lparr>nd_adj_page_id := (case out of None \<Rightarrow> ADJ_PAGE_ID_SENTINEL | Some p \<Rightarrow> p),
    nd_adj_incoming_page_id := (case inc of None \<Rightarrow> ADJ_PAGE_ID_SENTINEL | Some p \<Rightarrow> p), nd_adj_flags := flags\<rparr>) b
      (patch_adj_pointer out inc slot) \<and> (bit flags 0 \<longleftrightarrow> out \<noteq> None) \<and> (bit flags 1 \<longleftrightarrow> inc \<noteq> None)"
proof -
  let ?s = "patch_adj_pointer out inc slot"
  let ?flags = "or (if out \<noteq> None then 1 else 0) (if inc \<noteq> None then 2 else 0) :: byte"
  have f: "length slot = 128" "label_field 47 13 14 (nd_label n) slot" "props_field 38 67 69 b slot"
    using assms by (simp_all add: node_slot_of_def)
  have s: "?s = (splice 116 (le32 (case inc of None \<Rightarrow> ADJ_PAGE_ID_SENTINEL | Some p \<Rightarrow> p))
      (splice 111 (le32 (case out of None \<Rightarrow> ADJ_PAGE_ID_SENTINEL | Some p \<Rightarrow> p)) slot))[115 := ?flags]"
    by (simp add: patch_adj_pointer_def Let_def ADJ_FLAG_OUTGOING_def ADJ_FLAG_INCOMING_def)
  have "label_field 47 13 14 (nd_label n) ?s" "props_field 38 67 69 b ?s"
    using f(1) by (auto intro!: label_field_cong [OF f(2)] props_field_cong [OF f(3)] simp: s slot_simps)
  then have "node_slot_of (n\<lparr>nd_adj_page_id := (case out of None \<Rightarrow> ADJ_PAGE_ID_SENTINEL | Some p \<Rightarrow> p),
    nd_adj_incoming_page_id := (case inc of None \<Rightarrow> ADJ_PAGE_ID_SENTINEL | Some p \<Rightarrow> p), nd_adj_flags := ?flags\<rparr>) b ?s"
    using assms by (simp add: node_slot_of_def s slot_simps)
  moreover have "(bit ?flags 0 \<longleftrightarrow> out \<noteq> None) \<and> (bit ?flags 1 \<longleftrightarrow> inc \<noteq> None)"
    by (auto simp: bit_simps)
  ultimately show ?thesis by blast
qed

text \<open>What decoding a slot gives, with the resolvers the caller passes in.\<close>

definition node_ok :: "node \<Rightarrow> bool" where
  "node_ok n \<longleftrightarrow> nd_id n < 2 ^ 64 \<and> utf8_valid (nd_label n) \<and> props_ok (nd_properties n)"

definition edge_ok :: "edge \<Rightarrow> bool" where
  "edge_ok e \<longleftrightarrow> ed_id e < 2 ^ 64 \<and> ed_source e < 2 ^ 64 \<and> ed_target e < 2 ^ 64 \<and>
     utf8_valid (ed_label e) \<and> props_ok (ed_properties e)"

lemma le8_id: "i < 2 ^ 64 \<Longrightarrow> le_nat (le_bytes 8 i) = i"
  by (simp add: le_nat_le_bytes)

lemma small_byte: "n \<le> 55 \<Longrightarrow> unat (word_of_nat n :: byte) = n" "n \<le> 55 \<Longrightarrow> (word_of_nat n :: byte) \<noteq> 0xFF"
proof -
  assume n: "n \<le> 55"
  then show u: "unat (word_of_nat n :: byte) = n" by (simp add: unat_of_nat)
  then show "(word_of_nat n :: byte) \<noteq> 0xFF" using n by auto
qed

lemma encode_properties_len: "encode_properties ps = Inr b \<Longrightarrow> 2 * length ps \<le> length b"
proof (induction ps arbitrary: b)
  case (Cons kv ps)
  obtain k v where "kv = (k, v)" by fastforce
  with Cons.prems obtain bv br where e: "encode_value v = Inr bv" "encode_properties ps = Inr br"
      "b = word_of_nat (length k) # k @ bv @ br" by (auto split: if_splits)
  moreover have "length bv \<ge> 1" using e(1) by (cases v) (auto split: if_splits)
  ultimately show ?case using Cons.IH [OF e(2)] by simp
qed simp

text \<open>The property bytes of a slot: inline ones are found in it, overflowed ones are asked for.\<close>

lemma props_field_read:
  assumes "props_field m off_len off_inline b slot" "encode_properties ps = Inr b" "length ps < 2 ^ 16" "m < 2 ^ 16"
    and "subslice off_count 2 slot = le16 (word_of_nat (length ps))"
  shows "le_nat (subslice off_len 2 slot) \<le> m"
    "(word_of_nat (le_nat (subslice off_count 2 slot)) :: u16) = word_of_nat (length ps)"
    "((0 :: u16) < word_of_nat (length ps) \<and> le_nat (subslice off_len 2 slot) = 0) \<longleftrightarrow> length b > m"
    "length b \<le> m \<Longrightarrow> subslice off_inline (le_nat (subslice off_len 2 slot)) slot = b"
    "le_nat (subslice off_count 2 slot) > 0 \<and> le_nat (subslice off_len 2 slot) = 0 \<longleftrightarrow> length b > m"
proof -
  have zero: "le_nat (le16 0) = 0" using le16_len [of 0] by simp
  have cnt: "le_nat (subslice off_count 2 slot) = length ps" using assms(3,5) by (simp add: le16_len)
  have len: "le_nat (subslice off_len 2 slot) = (if length b \<le> m then length b else 0)"
    using assms(1,4) zero by (auto simp: props_field_def le16_len)
  have two: "2 * length ps \<le> length b" using assms(2) by (rule encode_properties_len)
  have pos: "(0 :: u16) < word_of_nat (length ps) \<longleftrightarrow> ps \<noteq> []"
    using assms(3) by (simp add: word_less_nat_alt unat_of_nat)
  have none: "length b > m \<Longrightarrow> ps \<noteq> []" using assms(2) by auto
  show "le_nat (subslice off_len 2 slot) \<le> m" using len by simp
  show "(word_of_nat (le_nat (subslice off_count 2 slot)) :: u16) = word_of_nat (length ps)" by (simp add: cnt)
  show "((0 :: u16) < word_of_nat (length ps) \<and> le_nat (subslice off_len 2 slot) = 0) \<longleftrightarrow> length b > m"
    using len two none by (auto simp: pos)
  show "length b \<le> m \<Longrightarrow> subslice off_inline (le_nat (subslice off_len 2 slot)) slot = b"
    using assms(1) len by (simp add: props_field_def)
  show "le_nat (subslice off_count 2 slot) > 0 \<and> le_nat (subslice off_len 2 slot) = 0 \<longleftrightarrow> length b > m"
    using len two none by (auto simp: cnt)
qed

lemma decode_node_slot_of:
  assumes "node_slot_of n b slot" "node_ok n" "encode_properties (nd_properties n) = Inr b" "length (nd_properties n) < 2 ^ 16"
    and "length (nd_label n) > 47 \<Longrightarrow> rl (slot_label_overflow_ref slot) = Inr (nd_label n)"
    and "length b > 38 \<Longrightarrow> keys \<noteq> Some [] \<Longrightarrow> rp (slot_prop_overflow_ref slot) = Inr b"
  shows "decode_node_slot_inner slot p rl rp keys = Inr (Some (n\<lparr>nd_properties :=
    (case keys of None \<Rightarrow> nd_properties n | Some ks \<Rightarrow> filter (\<lambda>(k, v). k \<in> set ks) (nd_properties n))\<rparr>))"
proof -
  have f: "slot ! 0 = SLOT_LIVE" "subslice 1 8 slot = le_bytes 8 (nd_id n)" "label_field 47 13 14 (nd_label n) slot"
      "subslice 65 2 slot = le16 (word_of_nat (length (nd_properties n)))" "props_field 38 67 69 b slot"
      "slot_adj_page_id slot = nd_adj_page_id n" "slot_adj_flags slot = nd_adj_flags n"
      "slot_adj_incoming_page_id slot = nd_adj_incoming_page_id n"
    using assms(1) by (simp_all add: node_slot_of_def slot_adj_page_id_def slot_adj_flags_def slot_adj_incoming_page_id_def)
  have ok: "nd_id n < 2 ^ 64" "utf8_valid (nd_label n)" "props_ok (nd_properties n)" using assms(2) by (simp_all add: node_ok_def)
  note pf = props_field_read [OF f(5) assms(3,4) _ f(4), simplified]
  let ?ps = "nd_properties n" and ?c = "word_of_nat (length (nd_properties n)) :: u16"
  have full: "decode_properties b ?c p = Inr (?ps, length b)"
    using decode_encode_properties [OF assms(3) ok(3) assms(4), of "[]"] by simp
  have proj: "decode_properties_projected b ?c ks p = Inr (filter (\<lambda>(k, v). k \<in> set ks) ?ps, length b)" for ks
    using projected_loop [of b p _ "[]" 0 ?ps "length b" ks] full by (simp add: decode_properties_def decode_properties_projected_def)
  have label: "(if slot ! 13 = LABEL_OVERFLOW_MARKER then rl (word_of_nat (le_nat (subslice 61 4 slot)))
     else if unat (slot ! 13) > 47 then Inl e1 else if \<not> utf8_valid (subslice 14 (unat (slot ! 13)) slot) then Inl e2
     else Inr (subslice 14 (unat (slot ! 13)) slot)) = Inr (nd_label n)" for e1 e2
    using f(3) assms(5) ok(2) small_byte [of "length (nd_label n)"]
    by (auto simp: label_field_def LABEL_OVERFLOW_MARKER_def slot_label_overflow_ref_def split: if_splits)
  have raw: "(if length b > 38 then rp (word_of_nat (le_nat (subslice 107 4 slot)))
     else Inr (subslice 69 (le_nat (subslice 67 2 slot)) slot)) = Inr b" if "keys \<noteq> Some []"
    using that assms(6) pf(4) by (auto simp: slot_prop_overflow_ref_def)
  have nn: "(node_new (nd_id n) (nd_label n) qs)\<lparr>nd_adj_page_id := nd_adj_page_id n,
      nd_adj_incoming_page_id := nd_adj_incoming_page_id n, nd_adj_flags := nd_adj_flags n\<rparr> = n\<lparr>nd_properties := qs\<rparr>" for qs
    by (simp add: node_new_def)
  show ?thesis
    unfolding decode_node_slot_inner_def Let_def f(2) le8_id [OF ok(1)] NODE_LABEL_INLINE_MAX_def label rbind_simps
      pf(2,3) NODE_PROP_INLINE_MAX_def f(6-8) nn
    using pf(1) raw full proj f(1)
    by (cases keys rule: option.exhaust; cases "the keys") (simp_all add: SLOT_LIVE_def SLOT_EMPTY_def SLOT_TOMBSTONE_def)
qed

lemma slot_of_needs:
  assumes "node_slot_of n b slot" "encode_properties (nd_properties n) = Inr b" "length (nd_properties n) < 2 ^ 16"
  shows "slot_needs_label_resolve slot \<longleftrightarrow> length (nd_label n) > 47" "slot_needs_prop_resolve slot \<longleftrightarrow> length b > 38"
proof -
  have f: "label_field 47 13 14 (nd_label n) slot" "subslice 65 2 slot = le16 (word_of_nat (length (nd_properties n)))"
    "props_field 38 67 69 b slot" using assms(1) by (simp_all add: node_slot_of_def)
  show "slot_needs_label_resolve slot \<longleftrightarrow> length (nd_label n) > 47"
    using f(1) small_byte(2) [of "length (nd_label n)"]
    by (auto simp: slot_needs_label_resolve_def label_field_def LABEL_OVERFLOW_MARKER_def split: if_splits)
  show "slot_needs_prop_resolve slot \<longleftrightarrow> length b > 38"
    using props_field_read(5) [OF f(3) assms(2,3) _ f(2)] by (simp add: slot_needs_prop_resolve_def)
qed

section \<open>Edge slots\<close>

definition edge_slot_of :: "edge \<Rightarrow> bytes \<Rightarrow> bytes \<Rightarrow> bool" where
  "edge_slot_of e b slot \<longleftrightarrow> length slot = 128 \<and> slot ! 0 = SLOT_LIVE \<and> subslice 1 8 slot = le_bytes 8 (ed_id e) \<and>
     subslice 9 8 slot = le_bytes 8 (ed_source e) \<and> subslice 17 8 slot = le_bytes 8 (ed_target e) \<and>
     label_field 55 29 30 (ed_label e) slot \<and>
     subslice 89 2 slot = le16 (word_of_nat (length (ed_properties e))) \<and> props_field 30 91 93 b slot"

lemmas edge_consts = EDGE_SLOT_SIZE_def EDGE_LABEL_INLINE_MAX_def EDGE_PROP_INLINE_MAX_def

lemma encode_edge_slot_fields:
  assumes "encode_edge_slot crc e = Inr (slot, ov)"
  obtains b where "encode_properties (ed_properties e) = Inr b" "length (ed_properties e) < 2 ^ 16" "edge_slot_of e b slot"
    "ov = overflow_of 55 30 (ed_label e) b"
proof -
  from assms obtain b where b: "encode_properties (ed_properties e) = Inr b" "length (ed_properties e) < 2 ^ 16"
      "ov = overflow_of 55 30 (ed_label e) b"
    by (auto simp: encode_edge_slot_def Let_def edge_consts split: if_splits)
  define ids where "ids s \<longleftrightarrow> length s = 128 \<and> s ! 0 = SLOT_LIVE \<and> subslice 1 8 s = le_bytes 8 (ed_id e) \<and>
    subslice 9 8 s = le_bytes 8 (ed_source e) \<and> subslice 17 8 s = le_bytes 8 (ed_target e)" for s :: bytes
  define s4 where "s4 = splice 25 (le32 (label_hash crc (ed_label e))) (splice 17 (le_bytes 8 (ed_target e))
    (splice 9 (le_bytes 8 (ed_source e)) (splice 1 (le_bytes 8 (ed_id e)) ((replicate 128 0)[0 := SLOT_LIVE]))))"
  have s4: "ids s4" by (simp add: ids_def s4_def slot_simps)
  define s5 where "s5 = put_label 55 29 30 (ed_label e) s4"
  have s5: "ids s5" "label_field 55 29 30 (ed_label e) s5"
    using s4 put_label_field [of 29 30 55 s4] by (simp_all add: ids_def s5_def slot_simps)
  define s6 where "s6 = splice 89 (le16 (word_of_nat (length (ed_properties e)))) s5"
  have s6: "ids s6" "label_field 55 29 30 (ed_label e) s6" "subslice 89 2 s6 = le16 (word_of_nat (length (ed_properties e)))"
    using s5 label_field_cong [OF s5(2), of s6] by (simp_all add: ids_def s6_def slot_simps)
  define s7 where "s7 = put_props 30 91 93 b s6"
  have s7: "ids s7" "label_field 55 29 30 (ed_label e) s7" "subslice 89 2 s7 = le16 (word_of_nat (length (ed_properties e)))"
    "props_field 30 91 93 b s7"
    using s6 label_field_cong [OF s6(2), of s7] put_props_field [of 91 93 30 s6]
    by (simp_all add: ids_def s7_def slot_simps)
  have slot: "slot = s7[127 := 0]"
    using assms b(1,2) by (simp add: encode_edge_slot_def Let_def edge_consts s7_def s6_def s5_def s4_def)
  have "edge_slot_of e b slot"
    unfolding edge_slot_of_def
    using s7 label_field_cong [OF s7(2), of slot] props_field_cong [OF s7(4), of slot]
    by (simp add: ids_def slot slot_simps)
  then show thesis using that b by blast
qed

lemma patch_edge_overflow_fields:
  assumes "edge_slot_of e b slot"
  shows "edge_slot_of e b (patch_edge_overflow lr pr slot)" "edge_slot_label_overflow_ref (patch_edge_overflow lr pr slot) = lr"
    "edge_slot_prop_overflow_ref (patch_edge_overflow lr pr slot) = pr"
proof -
  let ?s = "patch_edge_overflow lr pr slot"
  have f: "length slot = 128" "label_field 55 29 30 (ed_label e) slot" "props_field 30 91 93 b slot"
    using assms by (simp_all add: edge_slot_of_def)
  show "edge_slot_label_overflow_ref ?s = lr" "edge_slot_prop_overflow_ref ?s = pr"
    using f(1) by (simp_all add: edge_slot_label_overflow_ref_def edge_slot_prop_overflow_ref_def patch_edge_overflow_def slot_simps)
  have "label_field 55 29 30 (ed_label e) ?s" "props_field 30 91 93 b ?s"
    using f(1) by (auto intro!: label_field_cong [OF f(2)] props_field_cong [OF f(3)] simp: patch_edge_overflow_def slot_simps)
  then show "edge_slot_of e b ?s" using assms by (simp add: edge_slot_of_def patch_edge_overflow_def slot_simps)
qed

lemma decode_edge_slot_of:
  assumes "edge_slot_of e b slot" "edge_ok e" "encode_properties (ed_properties e) = Inr b" "length (ed_properties e) < 2 ^ 16"
    and "length (ed_label e) > 55 \<Longrightarrow> rl (edge_slot_label_overflow_ref slot) = Inr (ed_label e)"
    and "length b > 30 \<Longrightarrow> rp (edge_slot_prop_overflow_ref slot) = Inr b"
  shows "decode_edge_slot slot p rl rp = Inr (Some e)"
proof -
  have f: "slot ! 0 = SLOT_LIVE" "subslice 1 8 slot = le_bytes 8 (ed_id e)" "subslice 9 8 slot = le_bytes 8 (ed_source e)"
      "subslice 17 8 slot = le_bytes 8 (ed_target e)" "label_field 55 29 30 (ed_label e) slot"
      "subslice 89 2 slot = le16 (word_of_nat (length (ed_properties e)))" "props_field 30 91 93 b slot"
    using assms(1) by (simp_all add: edge_slot_of_def)
  have ok: "ed_id e < 2 ^ 64" "ed_source e < 2 ^ 64" "ed_target e < 2 ^ 64" "utf8_valid (ed_label e)" "props_ok (ed_properties e)"
    using assms(2) by (simp_all add: edge_ok_def)
  note pf = props_field_read [OF f(7) assms(3,4) _ f(6), simplified]
  have full: "decode_properties b (word_of_nat (length (ed_properties e))) p = Inr (ed_properties e, length b)"
    using decode_encode_properties [OF assms(3) ok(5) assms(4), of "[]"] by simp
  have label: "(if slot ! 29 = LABEL_OVERFLOW_MARKER then rl (word_of_nat (le_nat (subslice 85 4 slot)))
     else if unat (slot ! 29) > 55 then Inl e1 else if \<not> utf8_valid (subslice 30 (unat (slot ! 29)) slot) then Inl e2
     else Inr (subslice 30 (unat (slot ! 29)) slot)) = Inr (ed_label e)" for e1 e2
    using f(5) assms(5) ok(4) small_byte [of "length (ed_label e)"]
    by (auto simp: label_field_def LABEL_OVERFLOW_MARKER_def edge_slot_label_overflow_ref_def split: if_splits)
  have nn: "edge_new (ed_id e) (ed_label e) (ed_source e) (ed_target e) (ed_properties e) = e"
    by (simp add: edge_new_def)
  show ?thesis
    unfolding decode_edge_slot_def Let_def f(2-4) le8_id [OF ok(1)] le8_id [OF ok(2)] le8_id [OF ok(3)]
      EDGE_LABEL_INLINE_MAX_def label rbind_simps pf(2,3) EDGE_PROP_INLINE_MAX_def
    using pf(1,4) assms(6) full f(1) nn
    by (simp add: SLOT_LIVE_def SLOT_EMPTY_def SLOT_TOMBSTONE_def edge_slot_prop_overflow_ref_def)
qed

lemma edge_slot_of_needs:
  assumes "edge_slot_of e b slot" "encode_properties (ed_properties e) = Inr b" "length (ed_properties e) < 2 ^ 16"
  shows "edge_slot_needs_label_resolve slot \<longleftrightarrow> length (ed_label e) > 55" "edge_slot_needs_prop_resolve slot \<longleftrightarrow> length b > 30"
proof -
  have f: "label_field 55 29 30 (ed_label e) slot" "subslice 89 2 slot = le16 (word_of_nat (length (ed_properties e)))"
    "props_field 30 91 93 b slot" using assms(1) by (simp_all add: edge_slot_of_def)
  show "edge_slot_needs_label_resolve slot \<longleftrightarrow> length (ed_label e) > 55"
    using f(1) small_byte(2) [of "length (ed_label e)"]
    by (auto simp: edge_slot_needs_label_resolve_def label_field_def LABEL_OVERFLOW_MARKER_def split: if_splits)
  show "edge_slot_needs_prop_resolve slot \<longleftrightarrow> length b > 30"
    using props_field_read(5) [OF f(3) assms(2,3) _ f(2)] by (simp add: edge_slot_needs_prop_resolve_def)
qed

end
