(* ===== verification/Slot_Store.thy ===== *)
theory Slot_Store
  imports Prop_Store Record_Codec Graph_State
begin

text \<open>
  Records on pages (\<^verbatim>\<open>graph.rs\<close>, the node and edge page I/O): a record is encoded into a slot of 128 bytes, long labels go to
  the string heap, large property sets to the overflow pages, and the slot is written to the page its id names. The theorems show
  that, on pages, this implements the map from ids to records that \<open>Graph_State\<close> works with.
\<close>

section \<open>Slots on pages\<close>

record slot_layout =
  sl_slot_size :: nat
  sl_file :: data_file
  sl_page_type :: page_type

definition NODE_LAYOUT :: slot_layout where
  "NODE_LAYOUT = \<lparr>sl_slot_size = NODE_SLOT_SIZE, sl_file = Nodes, sl_page_type = NodePage\<rparr>"

definition EDGE_LAYOUT :: slot_layout where
  "EDGE_LAYOUT = \<lparr>sl_slot_size = EDGE_SLOT_SIZE, sl_file = Edges, sl_page_type = EdgePage\<rparr>"

text \<open>The page id and the slot index of a record, in the widths of the code.\<close>

definition slot_page :: "nat \<Rightarrow> u32" where "slot_page i = word_of_nat (fst (page_and_slot i))"
definition slot_index :: "nat \<Rightarrow> nat" where "slot_index i = snd (page_and_slot i)"

definition page_slot :: "nat \<Rightarrow> nat \<Rightarrow> bytes \<Rightarrow> bytes" where
  "page_slot sz idx page = subslice (PAGE_HEADER_SIZE + idx * sz) sz page"

definition count_used_slots_on_page :: "bytes \<Rightarrow> nat \<Rightarrow> u16" where
  "count_used_slots_on_page page sz =
     word_of_nat (length (filter (\<lambda>i. page ! (PAGE_HEADER_SIZE + i * sz) = SLOT_LIVE \<or> page ! (PAGE_HEADER_SIZE + i * sz) = SLOT_TOMBSTONE)
       (takeWhile (\<lambda>i. PAGE_HEADER_SIZE + i * sz + sz \<le> PAGE_SIZE) [0..<SLOTS_PER_PAGE])))"

definition wal_put :: "wal_record \<Rightarrow> ('s engine, storage_error, unit) step" where
  "wal_put r = smodify (\<lambda>g. g\<lparr>en_wal := map_option (\<lambda>rs. rs @ [r]) (en_wal g)\<rparr>)"

definition wal_log_slot :: "data_file \<Rightarrow> u32 \<Rightarrow> nat \<Rightarrow> bytes \<Rightarrow> ('s engine, storage_error, unit) step" where
  "wal_log_slot f p idx slot_buf g =
     (if en_wal g = None then (Inr (), g)
      else
        let slot = splice 0 (take 128 slot_buf) (replicate 128 0) in
        (case f of
           Nodes \<Rightarrow> wal_put (WriteNode 0 p (word_of_nat idx) slot None)
         | Edges \<Rightarrow> wal_put (WriteEdge 0 p (word_of_nat idx) slot None)
         | _ \<Rightarrow> sret ()) g)"

definition wal_log_tombstone :: "data_file \<Rightarrow> nat \<Rightarrow> ('s engine, storage_error, unit) step" where
  "wal_log_tombstone f i g =
     (if en_wal g = None then (Inr (), g)
      else
        (case f of
           Nodes \<Rightarrow> wal_put (TombstoneNode 0 (word_of_nat i) None)
         | Edges \<Rightarrow> wal_put (TombstoneEdge 0 (word_of_nat i) None)
         | _ \<Rightarrow> sret ()) g)"

text \<open>\<^verbatim>\<open>while self.storage.page_count(file) <= page_idx { self.storage.allocate_page(file)?; }\<close>\<close>

partial_function (option) grow_file_loop :: "'s backend \<Rightarrow> data_file \<Rightarrow> u32 \<Rightarrow> 's \<Rightarrow> ((storage_error + unit) \<times> 's) option" where
  "grow_file_loop be f idx s =
     (if be_count be s f \<le> idx
      then (case be_allocate be f s of
              (Inl e, s') \<Rightarrow> Some (Inl e, s')
            | (Inr _, s') \<Rightarrow> grow_file_loop be f idx s')
      else Some (Inr (), s))"

definition grow_file :: "'s backend \<Rightarrow> data_file \<Rightarrow> u32 \<Rightarrow> ('s, storage_error, unit) step" where
  "grow_file be f idx s = (case grow_file_loop be f idx s of None \<Rightarrow> (Inl Diverges, s) | Some r \<Rightarrow> r)"

text \<open>The page with a changed slot, its header rewritten.\<close>

definition repaged :: "(bytes \<Rightarrow> u32) \<Rightarrow> slot_layout \<Rightarrow> bytes \<Rightarrow> bytes" where
  "repaged crc lay page =
     finalize_page crc (file_magic (sl_file lay)) 1 (sl_page_type lay) (count_used_slots_on_page page (sl_slot_size lay)) page"

definition write_slot_to_page_inner ::
  "(bytes \<Rightarrow> u32) \<Rightarrow> 's backend \<Rightarrow> nat \<Rightarrow> bytes \<Rightarrow> slot_layout \<Rightarrow> bool \<Rightarrow> ('s engine, storage_error, unit) step" where
  "write_slot_to_page_inner crc be i slot_buf lay log_wal =
     sbind (on_store (grow_file be (sl_file lay) (slot_page i))) (\<lambda>_.
     sbind (if log_wal then wal_log_slot (sl_file lay) (slot_page i) (slot_index i) slot_buf else sret ()) (\<lambda>_.
     sbind (on_store (be_read be (sl_file lay) (slot_page i))) (\<lambda>page.
     on_store (be_write be (sl_file lay) (slot_page i)
       (repaged crc lay (splice (PAGE_HEADER_SIZE + slot_index i * sl_slot_size lay) slot_buf page))))))"

definition write_slot_to_page ::
  "(bytes \<Rightarrow> u32) \<Rightarrow> 's backend \<Rightarrow> nat \<Rightarrow> bytes \<Rightarrow> slot_layout \<Rightarrow> ('s engine, storage_error, unit) step" where
  "write_slot_to_page crc be i slot_buf lay = write_slot_to_page_inner crc be i slot_buf lay True"

section \<open>Overflow of a record\<close>

text \<open>The slot that overflow references are read from; \<open>None\<close> when the page cannot be read or the slot has none.\<close>

definition existing_prop_overflow ::
  "'s backend \<Rightarrow> data_file \<Rightarrow> nat \<Rightarrow> (bytes \<Rightarrow> bool) \<Rightarrow> (bytes \<Rightarrow> u32) \<Rightarrow> nat \<Rightarrow> ('s, storage_error, u32 option) step" where
  "existing_prop_overflow be f sz needs ref i s =
     (case be_read be f (slot_page i) s of
        (Inl _, s') \<Rightarrow> (Inr None, s')
      | (Inr page, s') \<Rightarrow>
          let slot = page_slot sz (slot_index i) page in
          (Inr (if needs slot then Some (ref slot) else None), s'))"

definition existing_node_prop_overflow :: "'s backend \<Rightarrow> nat \<Rightarrow> ('s, storage_error, u32 option) step" where
  "existing_node_prop_overflow be = existing_prop_overflow be Nodes NODE_SLOT_SIZE slot_needs_prop_resolve slot_prop_overflow_ref"

definition existing_edge_prop_overflow :: "'s backend \<Rightarrow> nat \<Rightarrow> ('s, storage_error, u32 option) step" where
  "existing_edge_prop_overflow be = existing_prop_overflow be Edges EDGE_SLOT_SIZE edge_slot_needs_prop_resolve edge_slot_prop_overflow_ref"

definition on_heap :: "(string_heap \<times> 's, 'e, 'a) step \<Rightarrow> ('s engine, 'e, 'a) step" where
  "on_heap f g = (case f (en_heap g, en_storage g) of (r, h, s) \<Rightarrow> (r, g\<lparr>en_heap := h, en_storage := s\<rparr>))"

text \<open>The request record of the code is the arguments; the patched slot is returned.\<close>

definition handle_slot_overflow ::
  "(bytes \<Rightarrow> u32) \<Rightarrow> 's backend \<Rightarrow> slot_overflow \<Rightarrow> rstring \<Rightarrow> u32 option \<Rightarrow> nat \<times> entity_kind \<Rightarrow>
     (u32 \<Rightarrow> u32 \<Rightarrow> bytes \<Rightarrow> bytes) \<Rightarrow> bytes \<Rightarrow> ('s engine, storage_error, bytes) step" where
  "handle_slot_overflow crc be ov label previous entity patch slot_buf =
     sbind (if so_label_overflowed ov then on_heap (heap_append crc be label) else sret 0) (\<lambda>label_ref.
     sbind (if so_props_overflowed ov
            then (case so_props_bytes ov of
                    None \<Rightarrow> sret None
                  | Some b \<Rightarrow> sbind (store_overflowed_props crc be entity b) (\<lambda>r. sret (Some r)))
            else sret None) (\<lambda>new_prop.
     sbind (case previous of
              None \<Rightarrow> sret ()
            | Some old \<Rightarrow> if new_prop \<noteq> Some old then release_overflowed_props crc be entity old else sret ()) (\<lambda>_.
     sret (if so_label_overflowed ov \<or> so_props_overflowed ov
           then patch label_ref (case new_prop of None \<Rightarrow> 0 | Some r \<Rightarrow> r) slot_buf else slot_buf))))"

section \<open>Nodes and edges\<close>

definition store_node :: "(bytes \<Rightarrow> u32) \<Rightarrow> 's backend \<Rightarrow> node \<Rightarrow> ('s engine, storage_error, unit) step" where
  "store_node crc be n =
     sbind (sread (\<lambda>_. encode_node_slot crc n)) (\<lambda>(slot_buf, ov).
     sbind (on_store (existing_node_prop_overflow be (nd_id n))) (\<lambda>previous.
     sbind (handle_slot_overflow crc be ov (nd_label n) previous (nd_id n, NodeKind) patch_overflow slot_buf) (\<lambda>slot.
     write_slot_to_page crc be (nd_id n) slot NODE_LAYOUT)))"

definition store_edge :: "(bytes \<Rightarrow> u32) \<Rightarrow> 's backend \<Rightarrow> edge \<Rightarrow> ('s engine, storage_error, unit) step" where
  "store_edge crc be e =
     sbind (sread (\<lambda>_. encode_edge_slot crc e)) (\<lambda>(slot_buf, ov).
     sbind (on_store (existing_edge_prop_overflow be (ed_id e))) (\<lambda>previous.
     sbind (handle_slot_overflow crc be ov (ed_label e) previous (ed_id e, EdgeKind) patch_edge_overflow slot_buf) (\<lambda>slot.
     write_slot_to_page crc be (ed_id e) slot EDGE_LAYOUT)))"

text \<open>A resolver closure that returns what was resolved before the slot is decoded.\<close>

definition resolved :: "storage_error \<Rightarrow> 'a option \<Rightarrow> u32 \<Rightarrow> storage_error + 'a" where
  "resolved e r _ = (case r of None \<Rightarrow> Inl e | Some x \<Rightarrow> Inr x)"

definition load_node :: "'s backend \<Rightarrow> nat \<Rightarrow> ('s, storage_error, node) step" where
  "load_node be i =
     sbind (be_read be Nodes (slot_page i)) (\<lambda>page.
     let slot = page_slot NODE_SLOT_SIZE (slot_index i) page in
     sbind (if slot_needs_label_resolve slot
            then sbind (heap_resolve be (slot_label_overflow_ref slot)) (\<lambda>l. sret (Some l)) else sret None) (\<lambda>label.
     sbind (if slot_needs_prop_resolve slot
            then sbind (read_overflowed_props be (i, NodeKind) (slot_prop_overflow_ref slot)) (\<lambda>b. sret (Some b)) else sret None) (\<lambda>props.
     sbind (sread (\<lambda>_. decode_node_slot slot (slot_page i)
         (resolved (CorruptPage Nodes (slot_page i) ''label resolver called but label was not pre-resolved'') label)
         (resolved (CorruptPage Nodes (slot_page i) ''props resolver called but props were not pre-resolved'') props))) (\<lambda>n.
     case n of None \<Rightarrow> sfail (NodeMissing i) | Some n \<Rightarrow> sret n))))"

definition load_node_projected :: "'s backend \<Rightarrow> nat \<Rightarrow> rstring list \<Rightarrow> ('s, storage_error, node) step" where
  "load_node_projected be i keys =
     sbind (be_read be Nodes (slot_page i)) (\<lambda>page.
     let slot = page_slot NODE_SLOT_SIZE (slot_index i) page in
     sbind (if slot_needs_label_resolve slot
            then sbind (heap_resolve be (slot_label_overflow_ref slot)) (\<lambda>l. sret (Some l)) else sret None) (\<lambda>label.
     sbind (if keys \<noteq> [] \<and> slot_needs_prop_resolve slot
            then sbind (read_overflowed_props be (i, NodeKind) (slot_prop_overflow_ref slot)) (\<lambda>b. sret (Some b)) else sret None) (\<lambda>props.
     sbind (sread (\<lambda>_. decode_node_slot_projected slot (slot_page i)
         (resolved (CorruptPage Nodes (slot_page i) ''label resolver called but label was not pre-resolved'') label)
         (resolved (CorruptPage Nodes (slot_page i) ''props resolver called but props were not pre-resolved'') props) keys)) (\<lambda>n.
     case n of None \<Rightarrow> sfail (NodeMissing i) | Some n \<Rightarrow> sret n))))"

definition load_node_label :: "'s backend \<Rightarrow> nat \<Rightarrow> ('s, storage_error, rstring) step" where
  "load_node_label be i =
     sbind (be_read be Nodes (slot_page i)) (\<lambda>page.
     let slot = page_slot NODE_SLOT_SIZE (slot_index i) page in
     if slot_needs_label_resolve slot then heap_resolve be (slot_label_overflow_ref slot)
     else sread (\<lambda>_. slot_inline_label slot (slot_page i)))"

definition load_edge :: "'s backend \<Rightarrow> nat \<Rightarrow> ('s, storage_error, edge) step" where
  "load_edge be i =
     sbind (be_read be Edges (slot_page i)) (\<lambda>page.
     let slot = page_slot EDGE_SLOT_SIZE (slot_index i) page in
     sbind (if edge_slot_needs_label_resolve slot
            then sbind (heap_resolve be (edge_slot_label_overflow_ref slot)) (\<lambda>l. sret (Some l)) else sret None) (\<lambda>label.
     sbind (if edge_slot_needs_prop_resolve slot
            then sbind (read_overflowed_props be (i, EdgeKind) (edge_slot_prop_overflow_ref slot)) (\<lambda>b. sret (Some b)) else sret None) (\<lambda>props.
     sbind (sread (\<lambda>_. decode_edge_slot slot (slot_page i)
         (resolved (CorruptPage Edges (slot_page i) ''label resolver called but label was not pre-resolved'') label)
         (resolved (CorruptPage Edges (slot_page i) ''props resolver called but props were not pre-resolved'') props))) (\<lambda>e.
     case e of None \<Rightarrow> sfail (EdgeMissing i) | Some e \<Rightarrow> sret e))))"

definition tombstone_slot_inner ::
  "(bytes \<Rightarrow> u32) \<Rightarrow> 's backend \<Rightarrow> nat \<Rightarrow> slot_layout \<Rightarrow> bool \<Rightarrow> bool \<Rightarrow> ('s engine, storage_error, unit) step" where
  "tombstone_slot_inner crc be i lay log_wal may_release =
     sbind (if log_wal then wal_log_tombstone (sl_file lay) i else sret ()) (\<lambda>_. \<lambda>g.
       if be_count be (en_storage g) (sl_file lay) \<le> slot_page i then (Inr (), g)
       else
         sbind (on_store (be_read be (sl_file lay) (slot_page i))) (\<lambda>page.
         sbind (if may_release
                then (case sl_file lay of
                        Nodes \<Rightarrow> sbind (on_store (existing_node_prop_overflow be i)) (\<lambda>r. sret (map_option (\<lambda>p. (p, NodeKind)) r))
                      | Edges \<Rightarrow> sbind (on_store (existing_edge_prop_overflow be i)) (\<lambda>r. sret (map_option (\<lambda>p. (p, EdgeKind)) r))
                      | _ \<Rightarrow> sret None)
                else sret None) (\<lambda>released.
         sbind (on_store (be_write be (sl_file lay) (slot_page i)
             (repaged crc lay (page[PAGE_HEADER_SIZE + slot_index i * sl_slot_size lay := SLOT_TOMBSTONE])))) (\<lambda>_.
         case released of None \<Rightarrow> sret () | Some (p, kind) \<Rightarrow> release_overflowed_props crc be (i, kind) p))) g)"

definition tombstone_slot :: "(bytes \<Rightarrow> u32) \<Rightarrow> 's backend \<Rightarrow> nat \<Rightarrow> slot_layout \<Rightarrow> ('s engine, storage_error, unit) step" where
  "tombstone_slot crc be i lay = tombstone_slot_inner crc be i lay True True"

section \<open>Where a record lives\<close>

text \<open>The ids whose page index needs no truncation and leaves room for a page count.\<close>

definition id_ok :: "nat \<Rightarrow> bool" where
  "id_ok i \<longleftrightarrow> 0 < i \<and> i < 2 ^ 64 \<and> (i - 1) div SLOTS_PER_PAGE + 1 < 2 ^ 32"

lemma page_and_slot_ok:
  assumes "id_ok i"
  shows "page_and_slot i = ((i - 1) div 31, (i - 1) mod 31)" "unat (slot_page i) = (i - 1) div 31" "slot_index i = (i - 1) mod 31"
    "slot_page i + 1 \<noteq> 0"
proof -
  have "(i + (2 ^ 64 - 1)) mod 2 ^ 64 = i - 1"
  proof -
    have "i + (2 ^ 64 - 1) = (i - 1) + 2 ^ 64" "i - 1 < 2 ^ 64" using assms unfolding id_ok_def by linarith+
    then show ?thesis by (metis mod_add_self2 mod_less)
  qed
  then show p: "page_and_slot i = ((i - 1) div 31, (i - 1) mod 31)"
    using assms by (simp add: page_and_slot_def SLOTS_PER_PAGE_def id_ok_def Let_def)
  then show u: "unat (slot_page i) = (i - 1) div 31" using assms by (simp add: slot_page_def unat_of_nat id_ok_def SLOTS_PER_PAGE_def)
  show "slot_index i = (i - 1) mod 31" by (simp add: slot_index_def p)
  show "slot_page i + 1 \<noteq> 0" using room_succ [of "slot_page i" 1] u assms by (simp add: id_ok_def SLOTS_PER_PAGE_def)
qed

lemma slot_place_inj:
  assumes "id_ok i" "id_ok j" "slot_page i = slot_page j" "slot_index i = slot_index j"
  shows "i = j"
proof -
  have "(i - 1) div 31 = (j - 1) div 31" "(i - 1) mod 31 = (j - 1) mod 31"
    using page_and_slot_ok(2,3) [OF assms(1)] page_and_slot_ok(2,3) [OF assms(2)] assms(3,4) by simp_all
  then have "i - 1 = j - 1" by (metis div_mult_mod_eq)
  then show ?thesis using assms(1,2) unfolding id_ok_def by linarith
qed

lemma slot_index_less: "slot_index i < 31"
  by (simp add: slot_index_def page_and_slot_def Let_def SLOTS_PER_PAGE_def)

text \<open>The bytes of a slot, zero where there is no page.\<close>

definition slot_bytes :: "(page_key \<rightharpoonup> bytes) \<Rightarrow> data_file \<Rightarrow> nat \<Rightarrow> bytes" where
  "slot_bytes U f i = (case U (f, slot_page i) of None \<Rightarrow> replicate 128 0 | Some page \<Rightarrow> page_slot 128 (slot_index i) page)"

lemma page_slot_payload: "page_slot 128 idx page = subslice (idx * 128) 128 (drop 16 page)"
  by (simp add: page_slot_def subslice_def page_consts add.commute)

lemma slot_fits: "idx < 31 \<Longrightarrow> 16 + idx * 128 + 128 \<le> (4096 :: nat)"
  by simp

lemma repaged_slots:
  assumes "length page = PAGE_SIZE"
  shows "page_valid crc (sl_file lay) (repaged crc lay page)" "page_slot 128 idx (repaged crc lay page) = page_slot 128 idx page"
  using finalized_page [OF assms, of crc "sl_file lay" 1 "sl_page_type lay" "count_used_slots_on_page page (sl_slot_size lay)"]
  by (simp_all add: repaged_def page_slot_payload)

lemma page_slot_splice:
  assumes "length page = PAGE_SIZE" "length sl = 128" "idx < 31" "j < 31"
  shows "page_slot 128 j (splice (PAGE_HEADER_SIZE + idx * 128) sl page) = (if j = idx then sl else page_slot 128 j page)"
    "length (splice (PAGE_HEADER_SIZE + idx * 128) sl page) = PAGE_SIZE"
proof -
  have len: "16 + idx * 128 + 128 \<le> 4096" "16 + j * 128 + 128 \<le> 4096" using slot_fits assms(3,4) by blast+
  show "length (splice (PAGE_HEADER_SIZE + idx * 128) sl page) = PAGE_SIZE" using assms len by (simp add: page_consts)
  show "page_slot 128 j (splice (PAGE_HEADER_SIZE + idx * 128) sl page) = (if j = idx then sl else page_slot 128 j page)"
  proof (cases "j = idx")
    case True
    then show ?thesis using assms len subslice_splice_same [of "16 + idx * 128" sl page] by (simp add: page_slot_def page_consts)
  next
    case False
    then have "16 + j * 128 + 128 \<le> 16 + idx * 128 \<or> 16 + idx * 128 + 128 \<le> 16 + j * 128" by (cases "j < idx") auto
    then show ?thesis using False assms len by (simp add: page_slot_def page_consts subslice_splice_other)
  qed
qed

lemma zero_page_slot: "idx < 31 \<Longrightarrow> page_slot 128 idx new_page_buf = replicate 128 0"
  using slot_fits [of idx] by (simp add: page_slot_def page_consts new_page_buf_def subslice_def min_def)

lemma slot_bytes_cong: "(\<And>p. U' (f, p) = U (f, p)) \<Longrightarrow> slot_bytes U' f i = slot_bytes U f i"
  by (simp add: slot_bytes_def)

lemma slot_bytes_upd:
  assumes "id_ok i" "id_ok j" "U (f, slot_page i) = Some page" "\<And>idx. idx < 31 \<Longrightarrow> page_slot 128 idx page' = (if idx = slot_index i then sl else page_slot 128 idx page)"
  shows "slot_bytes (U((f, slot_page i) \<mapsto> page')) f j = (if j = i then sl else slot_bytes U f j)"
proof (cases "slot_page j = slot_page i")
  case True
  then have "slot_bytes (U((f, slot_page i) \<mapsto> page')) f j = (if slot_index j = slot_index i then sl else slot_bytes U f j)"
    using assms(3,4) slot_index_less by (simp add: slot_bytes_def)
  moreover have "slot_index j = slot_index i \<longleftrightarrow> j = i" using slot_place_inj [OF assms(2,1) True] by auto
  ultimately show ?thesis by simp
qed (auto simp: slot_bytes_def)

section \<open>Writing a slot\<close>

text \<open>Logging changes the log only.\<close>

lemma wal_same: "\<exists>w. g = g\<lparr>en_wal := w\<rparr>"
  by (rule exI [of _ "en_wal g"]) simp

lemma wal_log_frame:
  "\<exists>w. wal_log_slot f p idx sl g = (Inr (), g\<lparr>en_wal := w\<rparr>)" "\<exists>w. wal_log_tombstone f i g = (Inr (), g\<lparr>en_wal := w\<rparr>)"
  using wal_same [of g] by (cases f; auto simp: wal_log_slot_def wal_log_tombstone_def wal_put_def Let_def)+

context reliable_backend
begin

lemma grow_loop_total:
  assumes "rep s U" "file_dense be s U f" "idx + 1 \<noteq> 0"
  shows "\<exists>s' U'. grow_file_loop be f idx s = Some (Inr (), s') \<and> rep s' U' \<and> file_dense be s' U' f \<and> idx < be_count be s' f \<and>
    file_only be f s U s' U' \<and> (\<forall>j. slot_bytes U' f j = slot_bytes U f j)"
  using assms
proof (induction "Suc (unat idx) - unat (be_count be s f)" arbitrary: s U rule: less_induct)
  case less
  show ?case
  proof (cases "be_count be s f \<le> idx")
    case False
    then show ?thesis using less.prems by (intro exI [of _ s] exI [of _ U]) (simp add: grow_file_loop.simps [of be f idx s] file_only_def)
  next
    case True
    obtain p s1 where a: "be_allocate be f s = (Inr p, s1)" using allocate_total [OF less.prems(1)] by blast
    note l = grow_dense [OF a less.prems(1,2) True less.prems(3)]
    let ?U = "U((f, p) \<mapsto> new_page_buf)"
    have new: "U (f, p) = None" using less.prems(2) l(2) by (auto simp: file_dense_def dom_def)
    have sb: "slot_bytes ?U f j = slot_bytes U f j" for j
      using new zero_page_slot [OF slot_index_less, of j] by (simp add: slot_bytes_def)
    obtain s' U' where ih: "grow_file_loop be f idx s1 = Some (Inr (), s')" "rep s' U'" "file_dense be s' U' f" "idx < be_count be s' f"
        "file_only be f s1 ?U s' U'" "\<forall>j. slot_bytes U' f j = slot_bytes ?U f j"
      using less.hyps [OF l(6,1,4) less.prems(3)] by blast
    have "grow_file_loop be f idx s = Some (Inr (), s')" using True a ih(1) by (simp add: grow_file_loop.simps [of be f idx s])
    then show ?thesis using ih sb file_only_trans [OF l(5) ih(5)] by (intro exI [of _ s'] exI [of _ U']) simp
  qed
qed

lemma write_page_total:
  assumes "rep s U" "U (f, p) = Some page" "page_valid crc f page'"
  shows "\<exists>s'. be_write be f p page' s = (Inr (), s') \<and> rep s' (U((f, p) \<mapsto> page')) \<and> be_count be s' = be_count be s"
proof -
  obtain s' where w: "be_write be f p page' s = (Inr (), s')" using write_total [OF assms(1)] assms(2) by blast
  then show ?thesis using write_law [OF w] assms by blast
qed

lemma write_slot_total:
  assumes "rep (en_storage g) U" "file_dense be (en_storage g) U (sl_file lay)" "id_ok i" "length sl = 128" "sl_slot_size lay = 128"
  shows "\<exists>g' U'. write_slot_to_page_inner crc be i sl lay log_wal g = (Inr (), g') \<and> rep (en_storage g') U' \<and>
    file_dense be (en_storage g') U' (sl_file lay) \<and> file_only be (sl_file lay) (en_storage g) U (en_storage g') U' \<and>
    (\<forall>j. id_ok j \<longrightarrow> slot_bytes U' (sl_file lay) j = (if j = i then sl else slot_bytes U (sl_file lay) j)) \<and>
    en_heap g' = en_heap g \<and> en_open_page g' = en_open_page g"
proof -
  let ?f = "sl_file lay" and ?p = "slot_page i"
  obtain s1 U1 where gr: "grow_file_loop be ?f ?p (en_storage g) = Some (Inr (), s1)" "rep s1 U1" "file_dense be s1 U1 ?f"
      "?p < be_count be s1 ?f" "file_only be ?f (en_storage g) U s1 U1" "\<forall>j. slot_bytes U1 ?f j = slot_bytes U ?f j"
    using grow_loop_total [OF assms(1,2) page_and_slot_ok(4) [OF assms(3)]] by blast
  obtain w where lg: "(if log_wal then wal_log_slot ?f ?p (slot_index i) sl else sret ()) (g\<lparr>en_storage := s1\<rparr>) =
      (Inr (), g\<lparr>en_storage := s1, en_wal := w\<rparr>)"
    using wal_log_frame(1) [of ?f ?p "slot_index i" sl "g\<lparr>en_storage := s1\<rparr>"] wal_same [of "g\<lparr>en_storage := s1\<rparr>"] by (cases log_wal) auto
  obtain page where page: "U1 (?f, ?p) = Some page" using gr(3,4) unfolding file_dense_def by blast
  have len: "length page = PAGE_SIZE" by (rule live_sized [OF gr(2) page])
  obtain s2 where rd: "be_read be ?f ?p s1 = (Inr page, s2)" "rep s2 U1" "be_count be s2 = be_count be s1"
    using read_total [OF gr(2) page] read_keeps [OF gr(2)] by blast
  let ?page = "splice (PAGE_HEADER_SIZE + slot_index i * sl_slot_size lay) sl page"
  note sp = page_slot_splice [OF len assms(4) slot_index_less [of i]]
  have lp: "length ?page = PAGE_SIZE" using sp(2) [of 0] by (simp add: assms(5))
  obtain s3 where w: "be_write be ?f ?p (repaged crc lay ?page) s2 = (Inr (), s3)" "rep s3 (U1((?f, ?p) \<mapsto> repaged crc lay ?page))"
      "be_count be s3 = be_count be s2"
    using write_page_total [OF rd(2) page repaged_slots(1) [OF lp]] by blast
  let ?U = "U1((?f, ?p) \<mapsto> repaged crc lay ?page)"
  have "slot_bytes ?U ?f j = (if j = i then sl else slot_bytes U ?f j)" if "id_ok j" for j
    using slot_bytes_upd [where U = U1 and f = ?f, OF assms(3) that page, of "repaged crc lay ?page" sl] repaged_slots(2) [OF lp] sp(1) gr(6) assms(5) by simp
  moreover have "file_dense be s3 ?U ?f" using gr(3) page rd(3) w(3) by (auto simp: file_dense_def)
  moreover have "file_only be ?f (en_storage g) U s3 ?U" using file_only_trans [OF gr(5) file_only_upd] rd(3) w(3) by metis
  ultimately show ?thesis using gr(1) lg rd(1) w(1,2) unfolding write_slot_to_page_inner_def
    by (intro exI [of _ "g\<lparr>en_storage := s3, en_wal := w\<rparr>"] exI [of _ ?U])
      (simp add: sbind_def on_store_def grow_file_def del: fun_upd_apply)
qed

end

end
