(* ===== verification/Record_Store.thy ===== *)
theory Record_Store
  imports Slot_Store
begin

text \<open>
  The pages of the store as a map from ids to records. \<open>slot_codec\<close> is what the two record codecs have in common; the lemmas about
  storing, loading and deleting a record are proved once for any codec that satisfies its laws and any backend without I/O errors.
\<close>

section \<open>The engine between two writes\<close>

definition engine_rep ::
  "'s backend \<Rightarrow> ('s \<Rightarrow> (page_key \<rightharpoonup> bytes) \<Rightarrow> bool) \<Rightarrow> 's engine \<Rightarrow> (page_key \<rightharpoonup> bytes) \<Rightarrow> blob_table \<Rightarrow> bool" where
  "engine_rep be rep g U Ov \<longleftrightarrow> rep (en_storage g) U \<and> strings_dense be (en_storage g) U \<and>
     heap_ok (en_heap g) (heap_bytes be (en_storage g) U) \<and> overflow_rep U Ov (en_open_page g)"

text \<open>The string \<open>v\<close> is at offset \<open>r\<close> of the heap, before its end.\<close>

definition label_at :: "'s backend \<Rightarrow> 's engine \<Rightarrow> (page_key \<rightharpoonup> bytes) \<Rightarrow> nat \<Rightarrow> rstring \<Rightarrow> bool" where
  "label_at be g U r v \<longleftrightarrow> entry_at (heap_bytes be (en_storage g) U) r v \<and> r + 4 + length v \<le> unat (sh_write_offset (en_heap g))"

text \<open>A change of the string heap and the overflow pages that keeps the strings.\<close>

definition side_only :: "'s backend \<Rightarrow> 's engine \<Rightarrow> (page_key \<rightharpoonup> bytes) \<Rightarrow> 's engine \<Rightarrow> (page_key \<rightharpoonup> bytes) \<Rightarrow> bool" where
  "side_only be g U g' U' \<longleftrightarrow>
     (\<forall>f. f \<noteq> Strings \<longrightarrow> f \<noteq> Overflow \<longrightarrow> (\<forall>p. U' (f, p) = U (f, p)) \<and> be_count be (en_storage g') f = be_count be (en_storage g) f) \<and>
     (\<forall>r v. label_at be g U r v \<longrightarrow> label_at be g' U' r v)"

lemma side_only_trans: "side_only be g U g1 U1 \<Longrightarrow> side_only be g1 U1 g2 U2 \<Longrightarrow> side_only be g U g2 U2"
  by (simp add: side_only_def)

lemma side_only_refl: "side_only be g U g U"
  by (simp add: side_only_def)

lemma overflow_only_strings:
  assumes "overflow_only be s U s' U'"
  shows "heap_bytes be s' U' = heap_bytes be s U" "strings_dense be s' U' = strings_dense be s U"
  using assms by (auto simp: file_only_def file_dense_def string_bytes_def dom_def)

lemma overflow_step:
  assumes "engine_rep be rep g U Ov" "rep (en_storage g') U'" "overflow_rep U' Ov' (en_open_page g')"
    and "overflow_only be (en_storage g) U (en_storage g') U'" "en_heap g' = en_heap g"
  shows "engine_rep be rep g' U' Ov'" "side_only be g U g' U'"
  using assms overflow_only_strings [OF assms(4)] by (simp_all add: engine_rep_def side_only_def label_at_def file_only_def)

context reliable_backend
begin

lemma append_step:
  assumes "engine_rep be rep g U Ov" "unat (sh_write_offset (en_heap g)) + 4 + length v < 2 ^ 32"
  shows "\<exists>r g' U'. on_heap (heap_append crc be v) g = (Inr r, g') \<and> engine_rep be rep g' U' Ov \<and> side_only be g U g' U' \<and>
    label_at be g' U' (unat r) v \<and> be_count be (en_storage g') Overflow = be_count be (en_storage g) Overflow"
proof -
  let ?s = "en_storage g" and ?h = "en_heap g"
  have e: "rep ?s U" "strings_dense be ?s U" "heap_ok ?h (heap_bytes be ?s U)" "overflow_rep U Ov (en_open_page g)"
    using assms(1) by (simp_all add: engine_rep_def)
  obtain r h' s' where a: "heap_append crc be v (?h, ?s) = (Inr r, (h', s'))" using append_total [OF e(1-3) assms(2)] by blast
  obtain U' where u: "rep s' U'" "strings_dense be s' U'" "heap_ok h' (heap_bytes be s' U')" "strings_only be ?s U s' U'"
      "entry_at (heap_bytes be s' U') (unat r) v" "unat r + 4 + length v \<le> unat (sh_write_offset h')" "sh_write_offset ?h \<le> sh_write_offset h'"
      "\<forall>q w. entry_at (heap_bytes be ?s U) q w \<longrightarrow> q + 4 + length w \<le> unat (sh_write_offset ?h) \<longrightarrow> entry_at (heap_bytes be s' U') q w"
    using append_spec [OF a e(1-3)] by (elim exE conjE) (rule that)
  let ?g = "g\<lparr>en_heap := h', en_storage := s'\<rparr>"
  have "overflow_rep U' Ov (en_open_page g)" by (rule overflow_rep_cong [OF e(4)]) (use u(4) in \<open>simp add: file_only_def\<close>)
  then have "engine_rep be rep ?g U' Ov" using u(1-3) by (simp add: engine_rep_def)
  moreover have "side_only be g U ?g U'"
    using u(4,7,8) by (auto simp: side_only_def label_at_def file_only_def word_le_nat_alt)
  moreover have "label_at be ?g U' (unat r) v" using u(5,6) by (simp add: label_at_def)
  moreover have "be_count be s' Overflow = be_count be ?s Overflow" using u(4) by (simp add: file_only_def)
  ultimately show ?thesis using a by (intro exI [of _ r] exI [of _ ?g] exI [of _ U']) (simp add: on_heap_def)
qed

text \<open>The three parts of \<^verbatim>\<open>handle_slot_overflow\<close>.\<close>

lemma label_part:
  assumes "engine_rep be rep g U Ov" "unat (sh_write_offset (en_heap g)) + 4 + length v < 2 ^ 32"
  shows "\<exists>r g' U'. (if long then on_heap (heap_append crc be v) else sret 0) g = (Inr r, g') \<and> engine_rep be rep g' U' Ov \<and>
    side_only be g U g' U' \<and> (long \<longrightarrow> label_at be g' U' (unat r) v) \<and>
    be_count be (en_storage g') Overflow = be_count be (en_storage g) Overflow"
proof (cases long)
  case True
  then show ?thesis using append_step [OF assms] by simp
next
  case False
  then show ?thesis using assms(1) side_only_refl [of be g U] by (intro exI [of _ 0] exI [of _ g] exI [of _ U]) simp
qed

lemma props_part:
  assumes "engine_rep be rep g U Ov" "fst k < 2 ^ 64" "unat (be_count be (en_storage g) Overflow) + length b + 2 < 2 ^ 32"
  shows "\<exists>n g' U' Ov'. (if long then (case (if long then Some b else None) of
                    None \<Rightarrow> sret None
                  | Some b \<Rightarrow> sbind (store_overflowed_props crc be k b) (\<lambda>r. sret (Some r))) else sret None) g = (Inr n, g') \<and>
    engine_rep be rep g' U' Ov' \<and> side_only be g U g' U' \<and> (n = None \<longleftrightarrow> \<not> long) \<and>
    (\<forall>k' r. Ov' (k', r) = (if k' = k \<and> n = Some r then Some b else Ov (k', r)))"
proof (cases long)
  case True
  have e: "rep (en_storage g) U" "overflow_rep U Ov (en_open_page g)" using assms(1) by (simp_all add: engine_rep_def)
  obtain r g' U' where st: "store_overflowed_props crc be k b g = (Inr r, g')" "rep (en_storage g') U'"
      "overflow_rep U' (Ov((k, r) \<mapsto> b)) (en_open_page g')" "overflow_only be (en_storage g) U (en_storage g') U'" "en_heap g' = en_heap g"
    using store_props_total [OF e assms(2,3)] by blast
  have "(Ov((k, r) \<mapsto> b)) (k', r') = (if k' = k \<and> Some r = Some r' then Some b else Ov (k', r'))" for k' r' by auto
  then show ?thesis using st(1) True overflow_step [where rep = rep, OF assms(1) st(2-5)]
    by (intro exI [of _ "Some r"] exI [of _ g'] exI [of _ U'] exI [of _ "Ov((k, r) \<mapsto> b)"]) (simp add: sbind_def del: fun_upd_apply)
next
  case False
  then show ?thesis using assms(1) side_only_refl [of be g U] by (intro exI [of _ None] exI [of _ g] exI [of _ U] exI [of _ Ov]) simp
qed

lemma release_part:
  assumes "engine_rep be rep g U Ov" "\<forall>old. previous = Some old \<longrightarrow> n \<noteq> Some old \<longrightarrow> Ov (k, old) \<noteq> None"
  shows "\<exists>g' U' Ov'. (case previous of None \<Rightarrow> sret ()
            | Some old \<Rightarrow> if n \<noteq> Some old then release_overflowed_props crc be k old else sret ()) g = (Inr (), g') \<and>
    engine_rep be rep g' U' Ov' \<and> side_only be g U g' U' \<and>
    (\<forall>k' r. Ov' (k', r) = (if k' = k \<and> previous = Some r \<and> n \<noteq> Some r then None else Ov (k', r)))"
proof (cases "\<exists>old. previous = Some old \<and> n \<noteq> Some old")
  case True
  then obtain old b0 where old: "previous = Some old" "n \<noteq> Some old" "Ov (k, old) = Some b0" using assms(2) by blast
  have e: "rep (en_storage g) U" "overflow_rep U Ov (en_open_page g)" using assms(1) by (simp_all add: engine_rep_def)
  obtain g' U' where st: "release_overflowed_props crc be k old g = (Inr (), g')" "rep (en_storage g') U'"
      "overflow_rep U' (Ov((k, old) := None)) (en_open_page g')" "overflow_only be (en_storage g) U (en_storage g') U'" "en_heap g' = en_heap g"
    using release_props_total [OF e old(3)] by blast
  have "(Ov((k, old) := None)) (k', r) = (if k' = k \<and> previous = Some r \<and> n \<noteq> Some r then None else Ov (k', r))" for k' r
    using old(1,2) by auto
  then show ?thesis using st(1) old overflow_step [where rep = rep, OF assms(1) st(2-5)]
    by (intro exI [of _ g'] exI [of _ U'] exI [of _ "Ov((k, old) := None)"]) (simp del: fun_upd_apply)
next
  case False
  then have "(\<forall>k' r. Ov (k', r) = (if k' = k \<and> previous = Some r \<and> n \<noteq> Some r then None else Ov (k', r)))" by auto
  then show ?thesis using False assms(1) side_only_refl [of be g U]
    by (intro exI [of _ g] exI [of _ U] exI [of _ Ov]) (auto split: option.splits)
qed

lemma handle_total:
  assumes "engine_rep be rep g U Ov" "fst k < 2 ^ 64" "unat (be_count be (en_storage g) Overflow) + length b + 2 < 2 ^ 32"
    and "unat (sh_write_offset (en_heap g)) + 4 + length label < 2 ^ 32"
    and "\<And>r. Ov (k, r) \<noteq> None \<longleftrightarrow> previous = Some r"
  shows "\<exists>lr pr g' U' Ov'. handle_slot_overflow crc be (overflow_of lmax pmax label b) label previous k patch sl g =
      (Inr (if length label > lmax \<or> length b > pmax then patch lr pr sl else sl), g') \<and>
    engine_rep be rep g' U' Ov' \<and> side_only be g U g' U' \<and> (length label > lmax \<longrightarrow> label_at be g' U' (unat lr) label) \<and>
    (\<forall>k' r. Ov' (k', r) = (if k' = k then (if length b > pmax \<and> r = pr then Some b else None) else Ov (k', r)))"
proof -
  let ?ll = "length label > lmax" and ?lp = "length b > pmax"
  obtain lr g1 U1 where p1: "(if ?ll then on_heap (heap_append crc be label) else sret 0) g = (Inr lr, g1)" "engine_rep be rep g1 U1 Ov"
      "side_only be g U g1 U1" "?ll \<longrightarrow> label_at be g1 U1 (unat lr) label"
      "be_count be (en_storage g1) Overflow = be_count be (en_storage g) Overflow"
    using label_part [OF assms(1,4), where long = ?ll] by (elim exE conjE) (rule that)
  have c1: "unat (be_count be (en_storage g1) Overflow) + length b + 2 < 2 ^ 32" using p1(5) assms(3) by simp
  obtain n g2 U2 Ov2 where p2: "(if ?lp then (case (if ?lp then Some b else None) of
                    None \<Rightarrow> sret None
                  | Some b \<Rightarrow> sbind (store_overflowed_props crc be k b) (\<lambda>r. sret (Some r))) else sret None) g1 = (Inr n, g2)"
      "engine_rep be rep g2 U2 Ov2" "side_only be g1 U1 g2 U2" "n = None \<longleftrightarrow> \<not> ?lp"
      "\<forall>k' r. Ov2 (k', r) = (if k' = k \<and> n = Some r then Some b else Ov (k', r))"
    using props_part [OF p1(2) assms(2) c1, where long = ?lp] by (elim exE conjE) (rule that)
  have old: "\<forall>old. previous = Some old \<longrightarrow> n \<noteq> Some old \<longrightarrow> Ov2 (k, old) \<noteq> None"
  proof (intro allI impI)
    show "Ov2 (k, old) \<noteq> None" if "previous = Some old" "n \<noteq> Some old" for old
      using that assms(5) [of old] p2(5) [rule_format, of k old] by simp
  qed
  obtain g3 U3 Ov3 where p3: "(case previous of None \<Rightarrow> sret ()
            | Some old \<Rightarrow> if n \<noteq> Some old then release_overflowed_props crc be k old else sret ()) g2 = (Inr (), g3)"
      "engine_rep be rep g3 U3 Ov3" "side_only be g2 U2 g3 U3"
      "\<forall>k' r. Ov3 (k', r) = (if k' = k \<and> previous = Some r \<and> n \<noteq> Some r then None else Ov2 (k', r))"
    using release_part [OF p2(2) old] by (elim exE conjE) (rule that)
  let ?pr = "case n of None \<Rightarrow> 0 | Some r \<Rightarrow> r"
  have "handle_slot_overflow crc be (overflow_of lmax pmax label b) label previous k patch sl g =
      (Inr (if ?ll \<or> ?lp then patch lr ?pr sl else sl), g3)"
    unfolding handle_slot_overflow_def overflow_of_def slot_overflow.simps
    by (simp only: sbind_def p1(1) p2(1) p3(1) prod.case sum.case sret_def)
  moreover have "side_only be g U g3 U3" using p1(3) p2(3) p3(3) side_only_trans by blast
  moreover have "?ll \<longrightarrow> label_at be g3 U3 (unat lr) label" using p1(4) p2(3) p3(3) by (simp add: side_only_def)
  moreover have "Ov3 (k', r) = (if k' = k then (if ?lp \<and> r = ?pr then Some b else None) else Ov (k', r))" for k' r
    using p3(4) [rule_format, of k' r] p2(5) [rule_format, of k' r] p2(4) assms(5) [of r] by (cases n) auto
  ultimately show ?thesis using p3(2) by blast
qed

end

section \<open>What the record codecs have in common\<close>

record 'r slot_codec =
  rc_layout :: slot_layout
  rc_kind :: entity_kind
  rc_encode :: "'r \<Rightarrow> storage_error + bytes \<times> slot_overflow"
  rc_decode :: "bytes \<Rightarrow> u32 \<Rightarrow> (u32 \<Rightarrow> storage_error + rstring) \<Rightarrow> (u32 \<Rightarrow> storage_error + bytes) \<Rightarrow> storage_error + 'r option"
  rc_needs_label :: "bytes \<Rightarrow> bool"
  rc_needs_props :: "bytes \<Rightarrow> bool"
  rc_label_ref :: "bytes \<Rightarrow> u32"
  rc_prop_ref :: "bytes \<Rightarrow> u32"
  rc_patch :: "u32 \<Rightarrow> u32 \<Rightarrow> bytes \<Rightarrow> bytes"
  rc_label_max :: nat
  rc_prop_max :: nat
  rc_id :: "'r \<Rightarrow> nat"
  rc_label :: "'r \<Rightarrow> rstring"
  rc_props :: "'r \<Rightarrow> properties"
  rc_holds :: "'r \<Rightarrow> bytes \<Rightarrow> bytes \<Rightarrow> bool"
  rc_ok :: "'r \<Rightarrow> bool"

abbreviation rc_file :: "'r slot_codec \<Rightarrow> data_file" where "rc_file c \<equiv> sl_file (rc_layout c)"

text \<open>The encoded properties of a record that can be encoded.\<close>

definition prop_bytes :: "properties \<Rightarrow> bytes \<Rightarrow> bool" where
  "prop_bytes ps b \<longleftrightarrow> encode_properties ps = Inr b \<and> length ps < 2 ^ 16"

locale record_codec =
  fixes c :: "'r slot_codec"
  assumes layout: "sl_slot_size (rc_layout c) = 128" "rc_file c \<noteq> Strings" "rc_file c \<noteq> Overflow"
    and encode_law: "prop_bytes (rc_props c r) b \<Longrightarrow>
        \<exists>sl. rc_encode c r = Inr (sl, overflow_of (rc_label_max c) (rc_prop_max c) (rc_label c r) b) \<and> rc_holds c r b sl"
    and holds_live: "rc_holds c r b sl \<Longrightarrow> length sl = 128 \<and> sl ! 0 = SLOT_LIVE"
    and patch_law: "rc_holds c r b sl \<Longrightarrow>
        rc_holds c r b (rc_patch c lr pr sl) \<and> rc_label_ref c (rc_patch c lr pr sl) = lr \<and> rc_prop_ref c (rc_patch c lr pr sl) = pr"
    and needs_law: "rc_holds c r b sl \<Longrightarrow> prop_bytes (rc_props c r) b \<Longrightarrow>
        (rc_needs_label c sl \<longleftrightarrow> length (rc_label c r) > rc_label_max c) \<and> (rc_needs_props c sl \<longleftrightarrow> length b > rc_prop_max c)"
    and zero_law: "\<not> rc_needs_props c (replicate 128 0)"
    and ok_law: "rc_ok c r \<Longrightarrow> utf8_valid (rc_label c r)"
    and decode_law: "rc_holds c r b sl \<Longrightarrow> rc_ok c r \<Longrightarrow> prop_bytes (rc_props c r) b \<Longrightarrow>
        (length (rc_label c r) > rc_label_max c \<Longrightarrow> rl (rc_label_ref c sl) = Inr (rc_label c r)) \<Longrightarrow>
        (length b > rc_prop_max c \<Longrightarrow> rp (rc_prop_ref c sl) = Inr b) \<Longrightarrow> rc_decode c sl p rl rp = Inr (Some r)"
    and dead_law: "sl ! 0 = SLOT_EMPTY \<or> sl ! 0 = SLOT_TOMBSTONE \<Longrightarrow> rc_decode c sl p rl rp = Inr None"

text \<open>The record \<open>r\<close> is stored under \<open>i\<close>: slot, label and properties.\<close>

definition record_at ::
  "'r slot_codec \<Rightarrow> 's backend \<Rightarrow> 's engine \<Rightarrow> (page_key \<rightharpoonup> bytes) \<Rightarrow> blob_table \<Rightarrow> nat \<Rightarrow> 'r \<Rightarrow> bool" where
  "record_at c be g U Ov i r \<longleftrightarrow> rc_id c r = i \<and> rc_ok c r \<and> (\<exists>b. prop_bytes (rc_props c r) b \<and> rc_holds c r b (slot_bytes U (rc_file c) i) \<and>
     (length (rc_label c r) > rc_label_max c \<longrightarrow> label_at be g U (unat (rc_label_ref c (slot_bytes U (rc_file c) i))) (rc_label c r)) \<and>
     (\<forall>q. Ov ((i, rc_kind c), q) = (if length b > rc_prop_max c \<and> q = rc_prop_ref c (slot_bytes U (rc_file c) i) then Some b else None)))"

text \<open>Nothing is stored under \<open>i\<close>; \<open>D\<close> are the ids whose record was deleted.\<close>

definition no_record_at :: "'r slot_codec \<Rightarrow> (page_key \<rightharpoonup> bytes) \<Rightarrow> blob_table \<Rightarrow> nat set \<Rightarrow> nat \<Rightarrow> bool" where
  "no_record_at c U Ov D i \<longleftrightarrow> (\<forall>q. Ov ((i, rc_kind c), q) = None) \<and>
     (if i \<in> D then slot_bytes U (rc_file c) i ! 0 = SLOT_TOMBSTONE else slot_bytes U (rc_file c) i = replicate 128 0)"

definition table_rep ::
  "'r slot_codec \<Rightarrow> 's backend \<Rightarrow> 's engine \<Rightarrow> (page_key \<rightharpoonup> bytes) \<Rightarrow> blob_table \<Rightarrow> (nat \<rightharpoonup> 'r) \<Rightarrow> nat set \<Rightarrow> bool" where
  "table_rep c be g U Ov R D \<longleftrightarrow> (\<forall>i\<in>dom R \<union> D. id_ok i) \<and> dom R \<inter> D = {} \<and> file_dense be (en_storage g) U (rc_file c) \<and>
     (\<forall>i. id_ok i \<longrightarrow> (case R i of Some r \<Rightarrow> record_at c be g U Ov i r | None \<Rightarrow> no_record_at c U Ov D i)) \<and>
     (\<forall>i q. Ov ((i, rc_kind c), q) \<noteq> None \<longrightarrow> id_ok i)"

lemma table_repD:
  assumes "table_rep c be g U Ov R D"
  shows "i \<in> dom R \<union> D \<Longrightarrow> id_ok i" "file_dense be (en_storage g) U (rc_file c)" "R i = Some r \<Longrightarrow> record_at c be g U Ov i r"
    "id_ok i \<Longrightarrow> R i = None \<Longrightarrow> no_record_at c U Ov D i"
proof -
  show "i \<in> dom R \<union> D \<Longrightarrow> id_ok i" "file_dense be (en_storage g) U (rc_file c)" using assms unfolding table_rep_def by blast+
  show "id_ok i \<Longrightarrow> R i = None \<Longrightarrow> no_record_at c U Ov D i" using assms unfolding table_rep_def by (metis option.simps(4))
  assume r: "R i = Some r"
  then have "id_ok i" using assms unfolding table_rep_def by blast
  then show "record_at c be g U Ov i r" using assms r unfolding table_rep_def by (metis option.simps(5))
qed

lemma empty_table_no_blob:
  assumes "table_rep c be g U Ov Map.empty D"
  shows "Ov ((i, rc_kind c), q) = None"
proof (cases "id_ok i")
  case True
  then show ?thesis using table_repD(4) [OF assms True] by (simp add: no_record_at_def)
next
  case False
  then show ?thesis using assms unfolding table_rep_def by blast
qed

lemma record_at_cong:
  assumes "record_at c be g U Ov i r" "slot_bytes U' (rc_file c) i = slot_bytes U (rc_file c) i"
    and "\<And>r v. label_at be g U r v \<Longrightarrow> label_at be g' U' r v" "\<And>q. Ov' ((i, rc_kind c), q) = Ov ((i, rc_kind c), q)"
  shows "record_at c be g' U' Ov' i r"
  using assms(1,3) unfolding record_at_def assms(2,4) by blast

text \<open>A table is not touched by a change elsewhere.\<close>

lemma table_frame:
  assumes "table_rep c be g U Ov R D" "\<And>p. U' (rc_file c, p) = U (rc_file c, p)" "be_count be (en_storage g') (rc_file c) = be_count be (en_storage g) (rc_file c)"
    and "\<And>r v. label_at be g U r v \<Longrightarrow> label_at be g' U' r v" "\<And>i q. Ov' ((i, rc_kind c), q) = Ov ((i, rc_kind c), q)"
  shows "table_rep c be g' U' Ov' R D"
proof -
  have sb: "slot_bytes U' (rc_file c) i = slot_bytes U (rc_file c) i" for i by (rule slot_bytes_cong) (rule assms(2))
  have "record_at c be g' U' Ov' i r" if "record_at c be g U Ov i r" for i r
    by (rule record_at_cong [OF that sb assms(4,5)])
  moreover have "no_record_at c U' Ov' D i = no_record_at c U Ov D i" for i unfolding no_record_at_def sb assms(5) ..
  ultimately have "case R i of Some r \<Rightarrow> record_at c be g' U' Ov' i r | None \<Rightarrow> no_record_at c U' Ov' D i" if "id_ok i" for i
    using table_repD(3,4) [OF assms(1), of i] that by (cases "R i") simp_all
  moreover have "file_dense be (en_storage g') U' (rc_file c)"
    using table_repD(2) [OF assms(1)] assms(2,3) by (simp add: file_dense_def dom_def)
  ultimately show ?thesis using assms(1) unfolding table_rep_def assms(5) by blast
qed

section \<open>Storing and loading\<close>

text \<open>The two operations, written once over the codec; \<open>store_node\<close> and the others are its instances.\<close>

definition store_record :: "'r slot_codec \<Rightarrow> (bytes \<Rightarrow> u32) \<Rightarrow> 's backend \<Rightarrow> 'r \<Rightarrow> ('s engine, storage_error, unit) step" where
  "store_record c crc be r =
     sbind (sread (\<lambda>_. rc_encode c r)) (\<lambda>(slot_buf, ov).
     sbind (on_store (existing_prop_overflow be (rc_file c) 128 (rc_needs_props c) (rc_prop_ref c) (rc_id c r))) (\<lambda>previous.
     sbind (handle_slot_overflow crc be ov (rc_label c r) previous (rc_id c r, rc_kind c) (rc_patch c) slot_buf) (\<lambda>sl.
     write_slot_to_page crc be (rc_id c r) sl (rc_layout c))))"

definition load_record ::
  "'r slot_codec \<Rightarrow> storage_error \<Rightarrow> storage_error \<Rightarrow> storage_error \<Rightarrow> 's backend \<Rightarrow> nat \<Rightarrow> ('s, storage_error, 'r) step" where
  "load_record c no_label no_props missing be i =
     sbind (be_read be (rc_file c) (slot_page i)) (\<lambda>page.
     let sl = page_slot 128 (slot_index i) page in
     sbind (if rc_needs_label c sl then sbind (heap_resolve be (rc_label_ref c sl)) (\<lambda>l. sret (Some l)) else sret None) (\<lambda>label.
     sbind (if rc_needs_props c sl
            then sbind (read_overflowed_props be (i, rc_kind c) (rc_prop_ref c sl)) (\<lambda>b. sret (Some b)) else sret None) (\<lambda>props.
     sbind (sread (\<lambda>_. rc_decode c sl (slot_page i) (resolved no_label label) (resolved no_props props))) (\<lambda>n.
     case n of None \<Rightarrow> sfail missing | Some n \<Rightarrow> sret n))))"

definition tombstone_record ::
  "'r slot_codec \<Rightarrow> (bytes \<Rightarrow> u32) \<Rightarrow> 's backend \<Rightarrow> nat \<Rightarrow> bool \<Rightarrow> ('s engine, storage_error, unit) step" where
  "tombstone_record c crc be i log_wal =
     sbind (if log_wal then wal_log_tombstone (rc_file c) i else sret ()) (\<lambda>_. \<lambda>g.
       if be_count be (en_storage g) (rc_file c) \<le> slot_page i then (Inr (), g)
       else
         sbind (on_store (be_read be (rc_file c) (slot_page i))) (\<lambda>page.
         sbind (on_store (existing_prop_overflow be (rc_file c) 128 (rc_needs_props c) (rc_prop_ref c) i)) (\<lambda>released.
         sbind (on_store (be_write be (rc_file c) (slot_page i)
             (repaged crc (rc_layout c) (page[PAGE_HEADER_SIZE + slot_index i * 128 := SLOT_TOMBSTONE])))) (\<lambda>_.
         case released of None \<Rightarrow> sret () | Some p \<Rightarrow> release_overflowed_props crc be (i, rc_kind c) p))) g)"

text \<open>What storing a record leaves alone: the other records' files, the strings, and the blobs of other entities.\<close>

definition record_only ::
  "'r slot_codec \<Rightarrow> 's backend \<Rightarrow> nat \<Rightarrow> 's engine \<Rightarrow> (page_key \<rightharpoonup> bytes) \<Rightarrow> blob_table \<Rightarrow> 's engine \<Rightarrow> (page_key \<rightharpoonup> bytes) \<Rightarrow> blob_table \<Rightarrow> bool" where
  "record_only c be i g U Ov g' U' Ov' \<longleftrightarrow>
     (\<forall>f. f \<noteq> rc_file c \<longrightarrow> f \<noteq> Strings \<longrightarrow> f \<noteq> Overflow \<longrightarrow>
        (\<forall>p. U' (f, p) = U (f, p)) \<and> be_count be (en_storage g') f = be_count be (en_storage g) f) \<and>
     (\<forall>r v. label_at be g U r v \<longrightarrow> label_at be g' U' r v) \<and>
     (\<forall>k q. k \<noteq> (i, rc_kind c) \<longrightarrow> Ov' (k, q) = Ov (k, q))"

text \<open>The table after the slot of \<open>i\<close> was changed.\<close>

lemma table_change:
  assumes "table_rep c be g U Ov R D" "id_ok i" "record_only c be i g U Ov g' U' Ov'" "file_dense be (en_storage g') U' (rc_file c)"
    and "\<And>j. id_ok j \<Longrightarrow> j \<noteq> i \<Longrightarrow> slot_bytes U' (rc_file c) j = slot_bytes U (rc_file c) j"
    and "case v of Some r \<Rightarrow> record_at c be g' U' Ov' i r \<and> D' = D \<and> i \<notin> D | None \<Rightarrow> no_record_at c U' Ov' D' i \<and> D' = insert i D"
  shows "table_rep c be g' U' Ov' (R(i := v)) D'"
proof -
  have ov: "Ov' ((j, rc_kind c), q) = Ov ((j, rc_kind c), q)" if "j \<noteq> i" for j q using assms(3) that by (simp add: record_only_def)
  have lab: "label_at be g U r w \<Longrightarrow> label_at be g' U' r w" for r w using assms(3) by (simp add: record_only_def)
  have D': "j \<in> D' \<longleftrightarrow> j \<in> D" if "j \<noteq> i" for j using assms(6) that by (auto split: option.splits)
  have rec: "record_at c be g' U' Ov' j r" if "R j = Some r" "j \<noteq> i" for j r
  proof -
    have "id_ok j" using table_repD(1) [OF assms(1)] that(1) by blast
    from assms(5) [OF this that(2)] show ?thesis by (rule record_at_cong [OF table_repD(3) [OF assms(1) that(1)] _ lab ov [OF that(2)]])
  qed
  have non: "no_record_at c U' Ov' D' j" if "R j = None" "j \<noteq> i" "id_ok j" for j
    using table_repD(4) [OF assms(1) that(3,1)] ov [OF that(2)] assms(5) [OF that(3,2)] D' [OF that(2)] by (simp add: no_record_at_def)
  have here: "(case v of Some r \<Rightarrow> record_at c be g' U' Ov' i r | None \<Rightarrow> no_record_at c U' Ov' D' i)"
    using assms(6) by (cases v) auto
  have "case (R(i := v)) j of Some r \<Rightarrow> record_at c be g' U' Ov' j r | None \<Rightarrow> no_record_at c U' Ov' D' j" if "id_ok j" for j
  proof (cases "j = i")
    case True
    then show ?thesis using here by (simp only: True fun_upd_same)
  next
    case False
    then show ?thesis using rec [of j] non [of j] that by (cases "R j") simp_all
  qed
  moreover have "id_ok j" if "Ov' ((j, rc_kind c), q) \<noteq> None" for j q
  proof (cases "j = i")
    case False
    then have "Ov ((j, rc_kind c), q) \<noteq> None" using that ov by simp
    then show ?thesis using assms(1) unfolding table_rep_def by blast
  qed (use assms(2) in simp)
  moreover have "\<forall>j\<in>dom (R(i := v)) \<union> D'. id_ok j"
  proof
    show "id_ok j" if "j \<in> dom (R(i := v)) \<union> D'" for j
      using that table_repD(1) [OF assms(1), of j] assms(2) D' [of j] by (cases "j = i") (auto split: if_splits)
  qed
  moreover have "dom (R(i := v)) \<inter> D' = {}"
    using assms(1,6) unfolding table_rep_def by (cases v) auto
  ultimately show ?thesis using assms(4) unfolding table_rep_def by blast
qed

lemma id_ok_less: "id_ok i \<Longrightarrow> i < 2 ^ 64"
  by (simp add: id_ok_def)

locale record_store = ranged_backend be crc rep + record_codec c
  for be :: "'s backend" and crc rep and c :: "'r slot_codec"
begin

text \<open>The page of a stored record.\<close>

lemma record_page:
  assumes "record_at c be g U Ov i r"
  obtains page where "U (rc_file c, slot_page i) = Some page" "slot_bytes U (rc_file c) i = page_slot 128 (slot_index i) page"
proof -
  obtain b where "rc_holds c r b (slot_bytes U (rc_file c) i)" using assms unfolding record_at_def by blast
  then have "slot_bytes U (rc_file c) i ! 0 \<noteq> 0" using holds_live by (simp add: SLOT_LIVE_def)
  then show thesis using that by (cases "U (rc_file c, slot_page i)") (simp_all add: slot_bytes_def)
qed

text \<open>The reference a slot shows is the one under which the table has its blob.\<close>

lemma slot_refs:
  assumes "table_rep c be g U Ov R D" "id_ok i" "i \<notin> D"
  shows "Ov ((i, rc_kind c), q) \<noteq> None \<longleftrightarrow>
    (if rc_needs_props c (slot_bytes U (rc_file c) i) then Some (rc_prop_ref c (slot_bytes U (rc_file c) i)) else None) = Some q"
proof (cases "R i")
  case None
  then show ?thesis using table_repD(4) [OF assms(1,2)] assms(3) zero_law by (simp add: no_record_at_def)
next
  case (Some r)
  obtain b where "prop_bytes (rc_props c r) b" "rc_holds c r b (slot_bytes U (rc_file c) i)"
      "\<forall>q. Ov ((i, rc_kind c), q) = (if length b > rc_prop_max c \<and> q = rc_prop_ref c (slot_bytes U (rc_file c) i) then Some b else None)"
    using table_repD(3) [OF assms(1) Some] unfolding record_at_def by blast
  then show ?thesis using needs_law by auto
qed

lemma existing_total:
  assumes "engine_rep be rep g U Ov" "file_dense be (en_storage g) U (rc_file c)"
  shows "\<exists>g'. on_store (existing_prop_overflow be (rc_file c) 128 (rc_needs_props c) (rc_prop_ref c) i) g =
      (Inr (if rc_needs_props c (slot_bytes U (rc_file c) i) then Some (rc_prop_ref c (slot_bytes U (rc_file c) i)) else None), g') \<and>
    engine_rep be rep g' U Ov \<and> be_count be (en_storage g') = be_count be (en_storage g) \<and> g' = g\<lparr>en_storage := en_storage g'\<rparr>"
proof -
  let ?f = "rc_file c"
  have rep: "rep (en_storage g) U" using assms(1) by (simp add: engine_rep_def)
  obtain x s' where rd: "be_read be ?f (slot_page i) (en_storage g) = (x, s')" by fastforce
  note k = read_keeps [OF rep rd]
  have "engine_rep be rep (g\<lparr>en_storage := s'\<rparr>) U Ov" using assms(1) k by (simp add: engine_rep_def file_dense_def)
  moreover have "existing_prop_overflow be ?f 128 (rc_needs_props c) (rc_prop_ref c) i (en_storage g) =
      (Inr (if rc_needs_props c (slot_bytes U ?f i) then Some (rc_prop_ref c (slot_bytes U ?f i)) else None), s')"
  proof (cases "U (?f, slot_page i)")
    case None
    then have "\<not> slot_page i < be_count be (en_storage g) ?f" using assms(2) by (auto simp: file_dense_def)
    then have "be_count be (en_storage g) ?f \<le> slot_page i" by simp
    then obtain e where "x = Inl e" using read_range [OF rep, of ?f "slot_page i"] rd by auto
    then show ?thesis using rd None zero_law by (simp add: existing_prop_overflow_def slot_bytes_def)
  next
    case (Some page)
    then have "x = Inr page" using read_total [OF rep Some] rd by auto
    then show ?thesis using rd Some by (simp add: existing_prop_overflow_def Let_def slot_bytes_def)
  qed
  ultimately show ?thesis using k by (intro exI [of _ "g\<lparr>en_storage := s'\<rparr>"]) (simp add: on_store_def)
qed

text \<open>Writing a slot leaves the rest of the engine as it is.\<close>

lemma slot_step:
  assumes "engine_rep be rep g U Ov" "rep (en_storage g') U'" "file_only be (rc_file c) (en_storage g) U (en_storage g') U'"
    and "en_heap g' = en_heap g" "en_open_page g' = en_open_page g"
  shows "engine_rep be rep g' U' Ov" "label_at be g U r v \<Longrightarrow> label_at be g' U' r v"
proof -
  have same: "U' (Strings, p) = U (Strings, p)" "be_count be (en_storage g') Strings = be_count be (en_storage g) Strings"
    "U' (Overflow, p) = U (Overflow, p)" for p
    using assms(3) layout(2,3) unfolding file_only_def by metis+
  have hb: "heap_bytes be (en_storage g') U' = heap_bytes be (en_storage g) U" unfolding string_bytes_def same ..
  have "overflow_rep U Ov (en_open_page g)" using assms(1) by (simp add: engine_rep_def)
  then have "overflow_rep U' Ov (en_open_page g)" by (rule overflow_rep_cong) (rule same(3))
  moreover have "strings_dense be (en_storage g') U' = strings_dense be (en_storage g) U" unfolding file_dense_def dom_def mem_Collect_eq same ..
  ultimately show "engine_rep be rep g' U' Ov" using assms(1,2,4,5) unfolding engine_rep_def hb by simp
  show "label_at be g U r v \<Longrightarrow> label_at be g' U' r v" using hb assms(4) by (simp add: label_at_def)
qed

text \<open>Storing a record adds it to the map.\<close>

lemma store_record_total:
  assumes "engine_rep be rep g U Ov" "table_rep c be g U Ov R D" "rc_ok c r" "prop_bytes (rc_props c r) b" "id_ok (rc_id c r)" "rc_id c r \<notin> D"
    and "unat (be_count be (en_storage g) Overflow) + length b + 2 < 2 ^ 32"
    and "unat (sh_write_offset (en_heap g)) + 4 + length (rc_label c r) < 2 ^ 32"
  defines "i \<equiv> rc_id c r"
  shows "\<exists>g' U' Ov'. store_record c crc be r g = (Inr (), g') \<and> engine_rep be rep g' U' Ov' \<and>
    table_rep c be g' U' Ov' (R(i \<mapsto> r)) D \<and> record_only c be i g U Ov g' U' Ov'"
proof -
  let ?f = "rc_file c" and ?k = "(i, rc_kind c)"
  let ?prev = "if rc_needs_props c (slot_bytes U ?f i) then Some (rc_prop_ref c (slot_bytes U ?f i)) else None"
  have idi: "id_ok i" "i \<notin> D" using assms(5,6) by (simp_all add: i_def)
  note dense = table_repD(2) [OF assms(2)]
  obtain sl where enc: "rc_encode c r = Inr (sl, overflow_of (rc_label_max c) (rc_prop_max c) (rc_label c r) b)" "rc_holds c r b sl"
    using encode_law [OF assms(4)] by blast
  obtain g1 where ex: "on_store (existing_prop_overflow be ?f 128 (rc_needs_props c) (rc_prop_ref c) i) g = (Inr ?prev, g1)"
      "engine_rep be rep g1 U Ov" "be_count be (en_storage g1) = be_count be (en_storage g)" "g1 = g\<lparr>en_storage := en_storage g1\<rparr>"
    using existing_total [OF assms(1) dense, of i] by blast
  have h1: "en_heap g1 = en_heap g" by (subst ex(4)) simp
  have k: "fst ?k < 2 ^ 64" using id_ok_less [OF idi(1)] by simp
  have room: "unat (be_count be (en_storage g1) Overflow) + length b + 2 < 2 ^ 32"
    "unat (sh_write_offset (en_heap g1)) + 4 + length (rc_label c r) < 2 ^ 32" using assms(7,8) ex(3) h1 by simp_all
  let ?patched = "\<lambda>lr pr. if length (rc_label c r) > rc_label_max c \<or> length b > rc_prop_max c then rc_patch c lr pr sl else sl"
  obtain lr pr g2 U2 Ov2 where hd: "handle_slot_overflow crc be (overflow_of (rc_label_max c) (rc_prop_max c) (rc_label c r) b) (rc_label c r)
        ?prev ?k (rc_patch c) sl g1 = (Inr (?patched lr pr), g2)" "engine_rep be rep g2 U2 Ov2" "side_only be g1 U g2 U2"
      "length (rc_label c r) > rc_label_max c \<longrightarrow> label_at be g2 U2 (unat lr) (rc_label c r)"
      "\<forall>k' q. Ov2 (k', q) = (if k' = ?k then (if length b > rc_prop_max c \<and> q = pr then Some b else None) else Ov (k', q))"
    using handle_total [OF ex(2) k room slot_refs [OF assms(2) idi],
        where lmax = "rc_label_max c" and pmax = "rc_prop_max c" and patch = "rc_patch c" and sl = sl]
    by (elim exE conjE) (rule that)
  let ?sl = "?patched lr pr"
  have sl: "rc_holds c r b ?sl" "length (rc_label c r) > rc_label_max c \<or> length b > rc_prop_max c \<Longrightarrow> rc_label_ref c ?sl = lr \<and> rc_prop_ref c ?sl = pr"
    using enc(2) patch_law [OF enc(2)] by auto
  have s2: "rep (en_storage g2) U2" using hd(2) by (simp add: engine_rep_def)
  have f2: "U2 (?f, p) = U (?f, p)" "be_count be (en_storage g2) ?f = be_count be (en_storage g) ?f" for p
    using hd(3) ex(3) layout(2,3) by (simp_all add: side_only_def)
  have d2: "file_dense be (en_storage g2) U2 ?f" using dense f2 by (simp add: file_dense_def dom_def)
  obtain g' U' where w: "write_slot_to_page_inner crc be i ?sl (rc_layout c) True g2 = (Inr (), g')" "rep (en_storage g') U'"
      "file_dense be (en_storage g') U' ?f" "file_only be ?f (en_storage g2) U2 (en_storage g') U'"
      "\<forall>j. id_ok j \<longrightarrow> slot_bytes U' ?f j = (if j = i then ?sl else slot_bytes U2 ?f j)" "en_heap g' = en_heap g2" "en_open_page g' = en_open_page g2"
    using write_slot_total [OF s2 d2 idi(1) _ layout(1), of ?sl True] holds_live [OF sl(1)] by (elim impE exE conjE) (auto intro: that)
  note st = slot_step [OF hd(2) w(2,4,6,7)]
  have run: "store_record c crc be r g = (Inr (), g')"
    unfolding store_record_def write_slot_to_page_def i_def [symmetric]
    by (simp only: sbind_def sread_def enc(1) ex(1) hd(1) w(1) prod.case sum.case)
  have only: "record_only c be i g U Ov g' U' Ov2"
    unfolding record_only_def
  proof (intro conjI allI impI)
    fix f p assume f: "f \<noteq> ?f" "f \<noteq> Strings" "f \<noteq> Overflow"
    show "U' (f, p) = U (f, p)" "be_count be (en_storage g') f = be_count be (en_storage g) f"
      using f hd(3) w(4) ex(3) by (simp_all add: side_only_def file_only_def)
  next
    fix q v assume l: "label_at be g U q v"
    have "label_at be g1 U q v" using l ex(3) h1 by (simp add: label_at_def)
    then show "label_at be g' U' q v" using hd(3) st(2) by (simp add: side_only_def)
  next
    show "k' \<noteq> ?k \<Longrightarrow> Ov2 (k', q) = Ov (k', q)" for k' q using hd(5) [rule_format, of k' q] by simp
  qed
  have here: "slot_bytes U' ?f i = ?sl" using w(5) idi(1) by simp
  have rec: "record_at c be g' U' Ov2 i r"
    unfolding record_at_def here
    using assms(3,4) sl hd(4) st(2) hd(5) [rule_format, of ?k] by (auto simp: i_def)
  have "slot_bytes U' ?f j = slot_bytes U ?f j" if "id_ok j" "j \<noteq> i" for j
    using w(5) that slot_bytes_cong [of U2 ?f U, OF f2(1)] by simp
  from table_change [OF assms(2) idi(1) only w(3) this, where v = "Some r" and D' = D] have "table_rep c be g' U' Ov2 (R(i \<mapsto> r)) D" using rec idi(2) by simp
  then show ?thesis using run st(1) only by blast
qed

text \<open>Loading gives the record of the map, and nothing else.\<close>

lemma load_record_total:
  assumes "engine_rep be rep g U Ov" "table_rep c be g U Ov R D" "R i = Some r"
  shows "\<exists>s'. load_record c e1 e2 e3 be i (en_storage g) = (Inr r, s') \<and> rep s' U \<and> be_count be s' = be_count be (en_storage g)"
proof -
  let ?f = "rc_file c" and ?s = "en_storage g" and ?k = "(i, rc_kind c)"
  have e: "rep ?s U" "strings_dense be ?s U" "overflow_rep U Ov (en_open_page g)" using assms(1) by (simp_all add: engine_rep_def)
  note ra = table_repD(3) [OF assms(2,3)]
  obtain page where page: "U (?f, slot_page i) = Some page" "slot_bytes U ?f i = page_slot 128 (slot_index i) page" using record_page [OF ra] .
  define sl where "sl = page_slot 128 (slot_index i) page"
  obtain b where b: "rc_ok c r" "prop_bytes (rc_props c r) b" "rc_holds c r b sl"
      "length (rc_label c r) > rc_label_max c \<longrightarrow> label_at be g U (unat (rc_label_ref c sl)) (rc_label c r)"
      "\<forall>q. Ov (?k, q) = (if length b > rc_prop_max c \<and> q = rc_prop_ref c sl then Some b else None)"
    using ra unfolding record_at_def page(2) sl_def [symmetric] by blast
  note nd = needs_law [OF b(3,2)]
  obtain s1 where r1: "be_read be ?f (slot_page i) ?s = (Inr page, s1)" "rep s1 U" "be_count be s1 = be_count be ?s"
    using read_total [OF e(1) page(1)] read_keeps [OF e(1)] by blast
  obtain s2 where r2: "(if rc_needs_label c sl then sbind (heap_resolve be (rc_label_ref c sl)) (\<lambda>l. sret (Some l)) else sret None) s1 =
      (Inr (if rc_needs_label c sl then Some (rc_label c r) else None), s2)" "rep s2 U" "be_count be s2 = be_count be ?s"
  proof (cases "rc_needs_label c sl")
    case True
    have d: "strings_dense be s1 U" "entry_at (heap_bytes be s1 U) (unat (rc_label_ref c sl)) (rc_label c r)"
      using e(2) b(4) nd True r1(3) by (simp_all add: file_dense_def label_at_def)
    show thesis using resolve_total [OF r1(2) d ok_law [OF b(1)]] r1(3) True that by (auto simp: sbind_def)
  qed (use r1 that in simp)
  obtain s3 where r3: "(if rc_needs_props c sl then sbind (read_overflowed_props be ?k (rc_prop_ref c sl)) (\<lambda>b. sret (Some b)) else sret None) s2 =
      (Inr (if rc_needs_props c sl then Some b else None), s3)" "rep s3 U" "be_count be s3 = be_count be ?s"
  proof (cases "rc_needs_props c sl")
    case True
    then have "Ov (?k, rc_prop_ref c sl) = Some b" using nd b(5) by simp
    from read_props_total [OF r2(2) e(3) this] r2(3) True that show thesis by (auto simp: sbind_def)
  qed (use r2 that in simp)
  have "rc_decode c sl (slot_page i) (resolved e1 (if rc_needs_label c sl then Some (rc_label c r) else None))
      (resolved e2 (if rc_needs_props c sl then Some b else None)) = Inr (Some r)"
    by (rule decode_law [OF b(3,1,2)]) (use nd in \<open>simp_all add: resolved_def\<close>)
  then have "load_record c e1 e2 e3 be i ?s = (Inr r, s3)"
    unfolding load_record_def Let_def
    by (simp only: sbind_def r1(1) r2(1) r3(1) sl_def [symmetric] sread_def prod.case sum.case option.case sret_def)
  then show ?thesis using r3(2,3) by blast
qed

lemma load_record_sound:
  assumes "load_record c e1 e2 e3 be i (en_storage g) = (Inr r, s')" "engine_rep be rep g U Ov" "table_rep c be g U Ov R D" "id_ok i"
  shows "R i = Some r"
proof (cases "R i")
  case None
  let ?f = "rc_file c" and ?s = "en_storage g"
  have rep: "rep ?s U" using assms(2) by (simp add: engine_rep_def)
  obtain page s1 where rd: "be_read be ?f (slot_page i) ?s = (Inr page, s1)" using assms(1) by (auto simp: load_record_def sbind_eq_Inr)
  have "\<not> be_count be ?s ?f \<le> slot_page i" using read_range [OF rep, of ?f "slot_page i"] rd by auto
  then obtain page0 where page0: "U (?f, slot_page i) = Some page0" using table_repD(2) [OF assms(3)] unfolding file_dense_def not_le by blast
  then have "page0 = page" using read_total [OF rep page0] rd by auto
  then have "slot_bytes U ?f i = page_slot 128 (slot_index i) page" using page0 by (simp add: slot_bytes_def)
  moreover have "slot_bytes U ?f i ! 0 = SLOT_EMPTY \<or> slot_bytes U ?f i ! 0 = SLOT_TOMBSTONE"
    using table_repD(4) [OF assms(3,4) None] by (cases "i \<in> D") (simp_all add: no_record_at_def SLOT_EMPTY_def)
  ultimately have "page_slot 128 (slot_index i) page ! 0 = SLOT_EMPTY \<or> page_slot 128 (slot_index i) page ! 0 = SLOT_TOMBSTONE" by simp
  then show ?thesis using assms(1) rd dead_law by (auto simp: load_record_def sbind_eq_Inr Let_def)
next
  case (Some r0)
  then show ?thesis using load_record_total [OF assms(2,3) Some, of e1 e2 e3] assms(1) by auto
qed

lemma load_record_iff:
  assumes "engine_rep be rep g U Ov" "table_rep c be g U Ov R D" "id_ok i"
  shows "(\<exists>s'. load_record c e1 e2 e3 be i (en_storage g) = (Inr r, s')) \<longleftrightarrow> R i = Some r"
  using load_record_total [OF assms(1,2), of i r e1 e2 e3] load_record_sound [OF _ assms, of e1 e2 e3 r] by blast

text \<open>Deleting a record takes it out of the map and gives its overflow pages back.\<close>

lemma tombstone_slot_bytes:
  assumes "id_ok i" "id_ok j" "U (f, slot_page i) = Some page" "length page = PAGE_SIZE"
  defines "page' \<equiv> page[PAGE_HEADER_SIZE + slot_index i * 128 := SLOT_TOMBSTONE]"
  shows "slot_bytes (U((f, slot_page i) \<mapsto> repaged crc lay page')) f j = (if j = i then (slot_bytes U f i)[0 := SLOT_TOMBSTONE] else slot_bytes U f j)"
    "length page' = PAGE_SIZE"
proof -
  show len: "length page' = PAGE_SIZE" using assms(4) by (simp add: page'_def)
  have idx: "16 + slot_index i * 128 + 128 \<le> 4096" using slot_fits slot_index_less by blast
  have ps: "page_slot 128 idx page' = (if idx = slot_index i then (page_slot 128 (slot_index i) page)[0 := SLOT_TOMBSTONE] else page_slot 128 idx page)" for idx
  proof (cases "idx = slot_index i")
    case True
    then show ?thesis by (simp add: page'_def page_slot_def subslice_def page_consts drop_update_swap take_update_swap)
  next
    case False
    then have "16 + slot_index i * 128 < 16 + idx * 128 \<or> 16 + idx * 128 + 128 \<le> 16 + slot_index i * 128" by (cases "idx < slot_index i") auto
    then show ?thesis using False by (auto simp: page'_def page_slot_def page_consts subslice_def drop_update_swap)
  qed
  have "slot_bytes U f i = page_slot 128 (slot_index i) page" using assms(3) by (simp add: slot_bytes_def)
  then show "slot_bytes (U((f, slot_page i) \<mapsto> repaged crc lay page')) f j = (if j = i then (slot_bytes U f i)[0 := SLOT_TOMBSTONE] else slot_bytes U f j)"
    using slot_bytes_upd [where U = U and f = f, OF assms(1,2,3), of "repaged crc lay page'" "(slot_bytes U f i)[0 := SLOT_TOMBSTONE]"]
      repaged_slots(2) [OF len] ps by simp
qed

lemma tombstone_record_total:
  assumes "engine_rep be rep g U Ov" "table_rep c be g U Ov R D" "R i = Some r"
  shows "\<exists>g' U' Ov'. tombstone_record c crc be i log_wal g = (Inr (), g') \<and> engine_rep be rep g' U' Ov' \<and>
    table_rep c be g' U' Ov' (R(i := None)) (insert i D) \<and> record_only c be i g U Ov g' U' Ov' \<and>
    slot_bytes U' (rc_file c) i = (slot_bytes U (rc_file c) i)[0 := SLOT_TOMBSTONE]"
proof -
  let ?f = "rc_file c" and ?k = "(i, rc_kind c)"
  let ?prev = "if rc_needs_props c (slot_bytes U ?f i) then Some (rc_prop_ref c (slot_bytes U ?f i)) else None"
  have idi: "id_ok i" "i \<notin> D" using assms(2,3) unfolding table_rep_def by blast+
  note dense = table_repD(2) [OF assms(2)] and ra = table_repD(3) [OF assms(2,3)]
  obtain page where page: "U (?f, slot_page i) = Some page" using record_page [OF ra] .
  obtain w where lg: "(if log_wal then wal_log_tombstone ?f i else sret ()) g = (Inr (), g\<lparr>en_wal := w\<rparr>)"
    using wal_log_frame(2) [of ?f i g] wal_same [of g] by (cases log_wal) auto
  let ?g0 = "g\<lparr>en_wal := w\<rparr>"
  have e0: "engine_rep be rep ?g0 U Ov" "rep (en_storage g) U" using assms(1) by (simp_all add: engine_rep_def)
  have cnt: "\<not> be_count be (en_storage ?g0) ?f \<le> slot_page i" using live_counted [OF e0(2) page] by simp
  have len: "length page = PAGE_SIZE" by (rule live_sized [OF e0(2) page])
  obtain s1 where r1: "be_read be ?f (slot_page i) (en_storage g) = (Inr page, s1)" "rep s1 U" "be_count be s1 = be_count be (en_storage g)"
    using read_total [OF e0(2) page] read_keeps [OF e0(2)] by blast
  let ?g1 = "?g0\<lparr>en_storage := s1\<rparr>"
  have e1: "engine_rep be rep ?g1 U Ov" "file_dense be (en_storage ?g1) U ?f"
    using e0(1) r1(2,3) dense by (simp_all add: engine_rep_def file_dense_def)
  obtain g2 where ex: "on_store (existing_prop_overflow be ?f 128 (rc_needs_props c) (rc_prop_ref c) i) ?g1 = (Inr ?prev, g2)"
      "engine_rep be rep g2 U Ov" "be_count be (en_storage g2) = be_count be (en_storage ?g1)" "g2 = ?g1\<lparr>en_storage := en_storage g2\<rparr>"
    using existing_total [OF e1, of i] by blast
  have h2: "en_heap g2 = en_heap g" "en_open_page g2 = en_open_page g" by (subst ex(4), simp)+
  have s2: "rep (en_storage g2) U" using ex(2) by (simp add: engine_rep_def)
  let ?page = "page[PAGE_HEADER_SIZE + slot_index i * 128 := SLOT_TOMBSTONE]" and ?lay = "rc_layout c"
  let ?U = "U((?f, slot_page i) \<mapsto> repaged crc ?lay ?page)"
  have tb: "slot_bytes ?U ?f j = (if j = i then (slot_bytes U ?f i)[0 := SLOT_TOMBSTONE] else slot_bytes U ?f j)" if "id_ok j" for j
    by (rule tombstone_slot_bytes(1) [where U = U and f = ?f, OF idi(1) that page len])
  obtain s3 where w3: "be_write be ?f (slot_page i) (repaged crc ?lay ?page) (en_storage g2) = (Inr (), s3)" "rep s3 ?U"
      "be_count be s3 = be_count be (en_storage g2)"
    using write_page_total [OF s2 page repaged_slots(1) [OF tombstone_slot_bytes(2) [where U = U and f = ?f, OF idi(1) idi(1) page len]]] by blast
  let ?g3 = "g2\<lparr>en_storage := s3\<rparr>"
  have e3: "engine_rep be rep ?g3 ?U Ov" "\<And>q v. label_at be g2 U q v \<Longrightarrow> label_at be ?g3 ?U q v"
    using slot_step [of g2 U Ov ?g3 ?U, OF ex(2)] w3(2) file_only_upd [OF w3(3)] by simp_all
  have old: "\<forall>q. ?prev = Some q \<longrightarrow> None \<noteq> Some q \<longrightarrow> Ov (?k, q) \<noteq> None" using slot_refs [OF assms(2) idi] by blast
  obtain g' U' Ov' where rl: "(case ?prev of None \<Rightarrow> sret ()
            | Some q \<Rightarrow> if None \<noteq> Some q then release_overflowed_props crc be ?k q else sret ()) ?g3 = (Inr (), g')"
      "engine_rep be rep g' U' Ov'" "side_only be ?g3 ?U g' U'"
      "\<forall>k' q. Ov' (k', q) = (if k' = ?k \<and> ?prev = Some q \<and> None \<noteq> Some q then None else Ov (k', q))"
    using release_part [OF e3(1) old] by (elim exE conjE) (rule that)
  have run: "tombstone_record c crc be i log_wal g = (Inr (), g')"
  proof -
    have "(case ?prev of None \<Rightarrow> sret () | Some p \<Rightarrow> release_overflowed_props crc be ?k p) ?g3 = (Inr (), g')"
      using rl(1) by (cases "rc_needs_props c (slot_bytes U ?f i)") simp_all
    moreover have "on_store (be_read be ?f (slot_page i)) ?g0 = (Inr page, ?g1)" using r1(1) by (simp add: on_store_def)
    moreover have "on_store (be_write be ?f (slot_page i) (repaged crc ?lay ?page)) g2 = (Inr (), ?g3)" using w3(1) by (simp add: on_store_def)
    ultimately show ?thesis unfolding tombstone_record_def using lg cnt ex(1) by (simp only: sbind_def prod.case sum.case if_False)
  qed
  have gone: "Ov' (?k, q) = None" for q using rl(4) [rule_format, of ?k q] slot_refs [OF assms(2) idi, of q] by (auto split: if_splits)
  have only: "record_only c be i g U Ov g' U' Ov'"
    unfolding record_only_def
  proof (intro conjI allI impI)
    fix f p assume f: "f \<noteq> ?f" "f \<noteq> Strings" "f \<noteq> Overflow"
    show "U' (f, p) = U (f, p)" "be_count be (en_storage g') f = be_count be (en_storage g) f"
      using f rl(3) w3(3) ex(3) r1(3) by (simp_all add: side_only_def)
  next
    fix q v assume "label_at be g U q v"
    then have "label_at be g2 U q v" using ex(3) r1(3) h2(1) by (simp add: label_at_def)
    then show "label_at be g' U' q v" using rl(3) e3(2) by (simp add: side_only_def)
  next
    show "k' \<noteq> ?k \<Longrightarrow> Ov' (k', q) = Ov (k', q)" for k' q using rl(4) [rule_format, of k' q] by simp
  qed
  have f': "U' (?f, p) = ?U (?f, p)" "be_count be (en_storage g') ?f = be_count be s3 ?f" for p
    using rl(3) layout(2,3) by (simp_all add: side_only_def del: fun_upd_apply)
  have sb: "slot_bytes U' ?f j = (if j = i then (slot_bytes U ?f i)[0 := SLOT_TOMBSTONE] else slot_bytes U ?f j)" if "id_ok j" for j
    using slot_bytes_cong [of U' ?f ?U, OF f'(1)] tb [OF that] by simp
  have dn: "file_dense be (en_storage g') U' ?f"
    using dense f' w3(3) ex(3) r1(3) page by (auto simp: file_dense_def dom_def)
  obtain b where "rc_holds c r b (slot_bytes U ?f i)" using ra unfolding record_at_def by blast
  then have "no_record_at c U' Ov' (insert i D) i" using holds_live sb [OF idi(1)] gone by (simp add: no_record_at_def)
  then have "table_rep c be g' U' Ov' (R(i := None)) (insert i D)"
    using table_change [OF assms(2) idi(1) only dn, where v = None and D' = "insert i D"] sb by simp
  then show ?thesis using run rl(2) only sb [OF idi(1)] by auto
qed

end

section \<open>Nodes and edges\<close>

definition node_codec :: "(bytes \<Rightarrow> u32) \<Rightarrow> node slot_codec" where
  "node_codec crc = \<lparr>rc_layout = NODE_LAYOUT, rc_kind = NodeKind, rc_encode = encode_node_slot crc, rc_decode = decode_node_slot,
     rc_needs_label = slot_needs_label_resolve, rc_needs_props = slot_needs_prop_resolve, rc_label_ref = slot_label_overflow_ref,
     rc_prop_ref = slot_prop_overflow_ref, rc_patch = patch_overflow, rc_label_max = NODE_LABEL_INLINE_MAX, rc_prop_max = NODE_PROP_INLINE_MAX,
     rc_id = nd_id, rc_label = nd_label, rc_props = nd_properties, rc_holds = node_slot_of, rc_ok = node_ok\<rparr>"

definition edge_codec :: "(bytes \<Rightarrow> u32) \<Rightarrow> edge slot_codec" where
  "edge_codec crc = \<lparr>rc_layout = EDGE_LAYOUT, rc_kind = EdgeKind, rc_encode = encode_edge_slot crc, rc_decode = decode_edge_slot,
     rc_needs_label = edge_slot_needs_label_resolve, rc_needs_props = edge_slot_needs_prop_resolve, rc_label_ref = edge_slot_label_overflow_ref,
     rc_prop_ref = edge_slot_prop_overflow_ref, rc_patch = patch_edge_overflow, rc_label_max = EDGE_LABEL_INLINE_MAX, rc_prop_max = EDGE_PROP_INLINE_MAX,
     rc_id = ed_id, rc_label = ed_label, rc_props = ed_properties, rc_holds = edge_slot_of, rc_ok = edge_ok\<rparr>"

lemmas codec_simps = node_codec_def edge_codec_def NODE_LAYOUT_def EDGE_LAYOUT_def

lemma encode_slot_total:
  "prop_bytes (nd_properties n) b \<Longrightarrow> \<exists>sl ov. encode_node_slot crc n = Inr (sl, ov)"
  "prop_bytes (ed_properties e) b \<Longrightarrow> \<exists>sl ov. encode_edge_slot crc e = Inr (sl, ov)"
  by (simp_all add: prop_bytes_def encode_node_slot_def encode_edge_slot_def Let_def)

interpretation node_rec: record_codec "node_codec crc" for crc
proof
  fix r b sl lr pr p and rl :: "u32 \<Rightarrow> storage_error + rstring" and rp :: "u32 \<Rightarrow> storage_error + bytes"
  show "sl_slot_size (rc_layout (node_codec crc)) = 128" "rc_file (node_codec crc) \<noteq> Strings" "rc_file (node_codec crc) \<noteq> Overflow"
    by (simp_all add: codec_simps node_consts)
  show "\<exists>sl. rc_encode (node_codec crc) r = Inr (sl, overflow_of (rc_label_max (node_codec crc)) (rc_prop_max (node_codec crc))
      (rc_label (node_codec crc) r) b) \<and> rc_holds (node_codec crc) r b sl" if "prop_bytes (rc_props (node_codec crc) r) b"
    using encode_slot_total(1) [of r b crc] encode_node_slot_fields [of crc r] that
    by (fastforce simp: codec_simps node_consts prop_bytes_def)
  show "rc_holds (node_codec crc) r b sl \<Longrightarrow> length sl = 128 \<and> sl ! 0 = SLOT_LIVE" by (simp add: codec_simps node_slot_of_def)
  show "rc_holds (node_codec crc) r b sl \<Longrightarrow> rc_holds (node_codec crc) r b (rc_patch (node_codec crc) lr pr sl) \<and>
      rc_label_ref (node_codec crc) (rc_patch (node_codec crc) lr pr sl) = lr \<and> rc_prop_ref (node_codec crc) (rc_patch (node_codec crc) lr pr sl) = pr"
    using patch_overflow_fields by (simp add: codec_simps)
  show "rc_holds (node_codec crc) r b sl \<Longrightarrow> prop_bytes (rc_props (node_codec crc) r) b \<Longrightarrow>
      (rc_needs_label (node_codec crc) sl \<longleftrightarrow> length (rc_label (node_codec crc) r) > rc_label_max (node_codec crc)) \<and>
      (rc_needs_props (node_codec crc) sl \<longleftrightarrow> length b > rc_prop_max (node_codec crc))"
    using slot_of_needs by (simp add: codec_simps node_consts prop_bytes_def)
  show "\<not> rc_needs_props (node_codec crc) (replicate 128 0)"
    by (simp add: codec_simps slot_needs_prop_resolve_def subslice_def numeral_2_eq_2)
  show "rc_ok (node_codec crc) r \<Longrightarrow> utf8_valid (rc_label (node_codec crc) r)" by (simp add: codec_simps node_ok_def)
  show "rc_holds (node_codec crc) r b sl \<Longrightarrow> rc_ok (node_codec crc) r \<Longrightarrow> prop_bytes (rc_props (node_codec crc) r) b \<Longrightarrow>
      (length (rc_label (node_codec crc) r) > rc_label_max (node_codec crc) \<Longrightarrow> rl (rc_label_ref (node_codec crc) sl) = Inr (rc_label (node_codec crc) r)) \<Longrightarrow>
      (length b > rc_prop_max (node_codec crc) \<Longrightarrow> rp (rc_prop_ref (node_codec crc) sl) = Inr b) \<Longrightarrow> rc_decode (node_codec crc) sl p rl rp = Inr (Some r)"
    using decode_node_slot_of [of r b sl rl None rp p] by (simp add: codec_simps node_consts prop_bytes_def decode_node_slot_def)
  show "sl ! 0 = SLOT_EMPTY \<or> sl ! 0 = SLOT_TOMBSTONE \<Longrightarrow> rc_decode (node_codec crc) sl p rl rp = Inr None"
    by (simp add: codec_simps decode_node_slot_def decode_node_slot_inner_def)
qed

interpretation edge_rec: record_codec "edge_codec crc" for crc
proof
  fix r b sl lr pr p and rl :: "u32 \<Rightarrow> storage_error + rstring" and rp :: "u32 \<Rightarrow> storage_error + bytes"
  show "sl_slot_size (rc_layout (edge_codec crc)) = 128" "rc_file (edge_codec crc) \<noteq> Strings" "rc_file (edge_codec crc) \<noteq> Overflow"
    by (simp_all add: codec_simps edge_consts)
  show "\<exists>sl. rc_encode (edge_codec crc) r = Inr (sl, overflow_of (rc_label_max (edge_codec crc)) (rc_prop_max (edge_codec crc))
      (rc_label (edge_codec crc) r) b) \<and> rc_holds (edge_codec crc) r b sl" if "prop_bytes (rc_props (edge_codec crc) r) b"
    using encode_slot_total(2) [of r b crc] encode_edge_slot_fields [of crc r] that
    by (fastforce simp: codec_simps edge_consts prop_bytes_def)
  show "rc_holds (edge_codec crc) r b sl \<Longrightarrow> length sl = 128 \<and> sl ! 0 = SLOT_LIVE" by (simp add: codec_simps edge_slot_of_def)
  show "rc_holds (edge_codec crc) r b sl \<Longrightarrow> rc_holds (edge_codec crc) r b (rc_patch (edge_codec crc) lr pr sl) \<and>
      rc_label_ref (edge_codec crc) (rc_patch (edge_codec crc) lr pr sl) = lr \<and> rc_prop_ref (edge_codec crc) (rc_patch (edge_codec crc) lr pr sl) = pr"
    using patch_edge_overflow_fields by (simp add: codec_simps)
  show "rc_holds (edge_codec crc) r b sl \<Longrightarrow> prop_bytes (rc_props (edge_codec crc) r) b \<Longrightarrow>
      (rc_needs_label (edge_codec crc) sl \<longleftrightarrow> length (rc_label (edge_codec crc) r) > rc_label_max (edge_codec crc)) \<and>
      (rc_needs_props (edge_codec crc) sl \<longleftrightarrow> length b > rc_prop_max (edge_codec crc))"
    using edge_slot_of_needs by (simp add: codec_simps edge_consts prop_bytes_def)
  show "\<not> rc_needs_props (edge_codec crc) (replicate 128 0)"
    by (simp add: codec_simps edge_slot_needs_prop_resolve_def subslice_def numeral_2_eq_2)
  show "rc_ok (edge_codec crc) r \<Longrightarrow> utf8_valid (rc_label (edge_codec crc) r)" by (simp add: codec_simps edge_ok_def)
  show "rc_holds (edge_codec crc) r b sl \<Longrightarrow> rc_ok (edge_codec crc) r \<Longrightarrow> prop_bytes (rc_props (edge_codec crc) r) b \<Longrightarrow>
      (length (rc_label (edge_codec crc) r) > rc_label_max (edge_codec crc) \<Longrightarrow> rl (rc_label_ref (edge_codec crc) sl) = Inr (rc_label (edge_codec crc) r)) \<Longrightarrow>
      (length b > rc_prop_max (edge_codec crc) \<Longrightarrow> rp (rc_prop_ref (edge_codec crc) sl) = Inr b) \<Longrightarrow> rc_decode (edge_codec crc) sl p rl rp = Inr (Some r)"
    using decode_edge_slot_of [of r b sl rl rp p] by (simp add: codec_simps edge_consts prop_bytes_def)
  show "sl ! 0 = SLOT_EMPTY \<or> sl ! 0 = SLOT_TOMBSTONE \<Longrightarrow> rc_decode (edge_codec crc) sl p rl rp = Inr None"
    by (simp add: codec_simps decode_edge_slot_def)
qed

interpretation ram_nodes: record_store "memory_backend crc" crc mem_store "node_codec crc" for crc ..

interpretation ram_edges: record_store "memory_backend crc" crc mem_store "edge_codec crc" for crc ..

text \<open>The operations of the engine are the generic ones at these codecs.\<close>

lemma store_instances: "store_node crc be = store_record (node_codec crc) crc be" "store_edge crc be = store_record (edge_codec crc) crc be"
  by (simp_all add: fun_eq_iff store_node_def store_edge_def store_record_def codec_simps existing_node_prop_overflow_def
      existing_edge_prop_overflow_def NODE_SLOT_SIZE_def EDGE_SLOT_SIZE_def)

lemma load_instances:
  "load_node be i = load_record (node_codec crc) (CorruptPage Nodes (slot_page i) ''label resolver called but label was not pre-resolved'')
     (CorruptPage Nodes (slot_page i) ''props resolver called but props were not pre-resolved'') (NodeMissing i) be i"
  "load_edge be i = load_record (edge_codec crc) (CorruptPage Edges (slot_page i) ''label resolver called but label was not pre-resolved'')
     (CorruptPage Edges (slot_page i) ''props resolver called but props were not pre-resolved'') (EdgeMissing i) be i"
  by (simp_all add: load_node_def load_edge_def load_record_def codec_simps NODE_SLOT_SIZE_def EDGE_SLOT_SIZE_def Let_def cong: if_cong)

lemma tombstone_instances:
  "tombstone_slot_inner crc be i NODE_LAYOUT log_wal True = tombstone_record (node_codec crc) crc be i log_wal"
  "tombstone_slot_inner crc be i EDGE_LAYOUT log_wal True = tombstone_record (edge_codec crc) crc be i log_wal"
proof -
  have opt: "(case map_option (\<lambda>p. (p, k)) x of None \<Rightarrow> a | Some (p, kind) \<Rightarrow> h p kind) = (case x of None \<Rightarrow> a | Some p \<Rightarrow> h p k)"
    for x :: "u32 option" and k :: entity_kind and a h by (cases x) simp_all
  have bnd: "sbind (sbind m (\<lambda>r. sret (j r))) k' = sbind m (\<lambda>r. k' (j r))" for m j k'
    by (auto simp: fun_eq_iff sbind_def split: prod.splits sum.splits)
  show "tombstone_slot_inner crc be i NODE_LAYOUT log_wal True = tombstone_record (node_codec crc) crc be i log_wal"
    "tombstone_slot_inner crc be i EDGE_LAYOUT log_wal True = tombstone_record (edge_codec crc) crc be i log_wal"
    unfolding tombstone_slot_inner_def tombstone_record_def
    by (simp_all add: codec_simps existing_node_prop_overflow_def existing_edge_prop_overflow_def bnd opt NODE_SLOT_SIZE_def EDGE_SLOT_SIZE_def
        comp_def cong: if_cong option.case_cong)
qed

end
