(* ===== verification/Store_Theorems.thy ===== *)
theory Store_Theorems
  imports Record_Store
begin

text \<open>
  What the engine may rely on when it writes records to pages: storing, loading and deleting act like the update, the lookup and the
  removal of a map, whatever the size of labels and properties, and the overflow pages are all accounted for.
\<close>

section \<open>The store as two maps\<close>

text \<open>\<open>N\<close> and \<open>E\<close> are the stored nodes and edges, \<open>DN\<close> and \<open>DE\<close> the ids of deleted ones.\<close>

definition stored ::
  "(bytes \<Rightarrow> u32) \<Rightarrow> mem_backend engine \<Rightarrow> (nat \<rightharpoonup> node) \<Rightarrow> nat set \<Rightarrow> (nat \<rightharpoonup> edge) \<Rightarrow> nat set \<Rightarrow> bool" where
  "stored crc g N DN E DE \<longleftrightarrow> (\<exists>U Ov. engine_rep (memory_backend crc) mem_store g U Ov \<and>
     table_rep (node_codec crc) (memory_backend crc) g U Ov N DN \<and> table_rep (edge_codec crc) (memory_backend crc) g U Ov E DE)"

definition new_engine :: "mem_backend engine" where
  "new_engine = \<lparr>en_storage = mem_new, en_heap = heap_new, en_open_page = None, en_wal = None\<rparr>"

text \<open>Room for one more record: offsets and page ids are 32 bits wide.\<close>

definition room_for :: "mem_backend engine \<Rightarrow> rstring \<Rightarrow> bytes \<Rightarrow> bool" where
  "room_for g label b \<longleftrightarrow> unat (mem_page_count (en_storage g) Overflow) + length b + 2 < 2 ^ 32 \<and>
     unat (sh_write_offset (en_heap g)) + 4 + length label < 2 ^ 32"

lemma mem_count_new: "mem_page_count mem_new f = 0"
  by (simp add: mem_page_count_def mem_new_def)

lemma empty_file_dense: "file_dense (memory_backend crc) (en_storage new_engine) Map.empty f"
  by (simp add: file_dense_def new_engine_def mem_count_new)

lemma empty_table: "table_rep c (memory_backend crc) new_engine Map.empty Map.empty Map.empty {}"
  by (simp add: table_rep_def no_record_at_def slot_bytes_def empty_file_dense)

lemma new_engine_stored: "stored crc new_engine Map.empty {} Map.empty {}"
proof -
  let ?be = "memory_backend crc"
  have "engine_rep ?be mem_store new_engine Map.empty Map.empty"
    using empty_file_dense [of crc Strings] new_store overflow_rep_empty heap_new_ok
    by (simp add: engine_rep_def new_engine_def mem_count_new string_bytes_def)
  then show ?thesis unfolding stored_def by (intro exI conjI) (assumption, rule empty_table, rule empty_table)
qed

text \<open>The other table is not touched.\<close>

lemma other_table:
  assumes "table_rep c' be g U Ov R D" "record_only c be i g U Ov g' U' Ov'" "rc_file c' \<noteq> rc_file c" "rc_file c' \<noteq> Strings" "rc_file c' \<noteq> Overflow"
    and "rc_kind c' \<noteq> rc_kind c"
  shows "table_rep c' be g' U' Ov' R D"
  by (rule table_frame [OF assms(1)]) (use assms(2-6) in \<open>auto simp: record_only_def\<close>)

lemma codecs_apart:
  "rc_file (node_codec crc) \<noteq> rc_file (edge_codec crc)" "rc_kind (node_codec crc) \<noteq> rc_kind (edge_codec crc)"
  by (simp_all add: codec_simps)

lemmas node_other = other_table [OF _ _ codecs_apart(1) node_rec.layout(2,3) codecs_apart(2)]
lemmas edge_other = other_table [OF _ _ codecs_apart(1) [symmetric] edge_rec.layout(2,3) codecs_apart(2) [symmetric]]

section \<open>Storing\<close>

lemma node_stored:
  assumes "stored crc g N DN E DE" "node_ok n" "id_ok (nd_id n)" "nd_id n \<notin> DN" "prop_bytes (nd_properties n) b" "room_for g (nd_label n) b"
  shows "\<exists>g'. store_node crc (memory_backend crc) n g = (Inr (), g') \<and> stored crc g' (N(nd_id n \<mapsto> n)) DN E DE"
proof -
  let ?be = "memory_backend crc"
  obtain U Ov where s: "engine_rep ?be mem_store g U Ov" "table_rep (node_codec crc) ?be g U Ov N DN" "table_rep (edge_codec crc) ?be g U Ov E DE"
    using assms(1) unfolding stored_def by blast
  obtain g' U' Ov' where t: "store_record (node_codec crc) crc ?be n g = (Inr (), g')" "engine_rep ?be mem_store g' U' Ov'"
      "table_rep (node_codec crc) ?be g' U' Ov' (N(nd_id n \<mapsto> n)) DN" "record_only (node_codec crc) ?be (nd_id n) g U Ov g' U' Ov'"
    using ram_nodes.store_record_total [OF s(1,2), of n b] assms(2-) by (auto simp: codec_simps room_for_def)
  show ?thesis unfolding stored_def store_instances using t edge_other [OF s(3) t(4)] by blast
qed

lemma edge_stored:
  assumes "stored crc g N DN E DE" "edge_ok e" "id_ok (ed_id e)" "ed_id e \<notin> DE" "prop_bytes (ed_properties e) b" "room_for g (ed_label e) b"
  shows "\<exists>g'. store_edge crc (memory_backend crc) e g = (Inr (), g') \<and> stored crc g' N DN (E(ed_id e \<mapsto> e)) DE"
proof -
  let ?be = "memory_backend crc"
  obtain U Ov where s: "engine_rep ?be mem_store g U Ov" "table_rep (node_codec crc) ?be g U Ov N DN" "table_rep (edge_codec crc) ?be g U Ov E DE"
    using assms(1) unfolding stored_def by blast
  obtain g' U' Ov' where t: "store_record (edge_codec crc) crc ?be e g = (Inr (), g')" "engine_rep ?be mem_store g' U' Ov'"
      "table_rep (edge_codec crc) ?be g' U' Ov' (E(ed_id e \<mapsto> e)) DE" "record_only (edge_codec crc) ?be (ed_id e) g U Ov g' U' Ov'"
    using ram_edges.store_record_total [OF s(1,3), of e b] assms(2-) by (auto simp: codec_simps room_for_def)
  show ?thesis unfolding stored_def store_instances using t node_other [OF s(2) t(4)] by blast
qed

text \<open>C19 (refinement). Storing a record is an update of the map: with room for it, \<^verbatim>\<open>write_node_slot\<close> and
  \<^verbatim>\<open>write_edge_slot\<close> return without error and the store then stands for the map with the record under its id and everything
  else as it was, however long the label and however large the properties, and whether the id is new or its record is replaced. The id must
  not be one that was deleted.\<close>

theorem store_updates_map:
  assumes "stored crc g N DN E DE"
  shows "(node_ok n \<longrightarrow> id_ok (nd_id n) \<longrightarrow> nd_id n \<notin> DN \<longrightarrow> prop_bytes (nd_properties n) b \<longrightarrow> room_for g (nd_label n) b \<longrightarrow>
      (\<exists>g'. store_node crc (memory_backend crc) n g = (Inr (), g') \<and> stored crc g' (N(nd_id n \<mapsto> n)) DN E DE)) \<and>
    (edge_ok e \<longrightarrow> id_ok (ed_id e) \<longrightarrow> ed_id e \<notin> DE \<longrightarrow> prop_bytes (ed_properties e) b \<longrightarrow> room_for g (ed_label e) b \<longrightarrow>
      (\<exists>g'. store_edge crc (memory_backend crc) e g = (Inr (), g') \<and> stored crc g' N DN (E(ed_id e \<mapsto> e)) DE))"
  using node_stored [OF assms] edge_stored [OF assms] by blast

text \<open>A node whose label and properties both leave the slot, and an edge, for the examples.\<close>

definition sample_bytes :: bytes where "sample_bytes = [1, 97, 5, 50, 0, 0, 0] @ replicate 50 7"
definition sample_node :: node where "sample_node = node_new 1 (replicate 60 97) [([97], PropBytes (replicate 50 7))]"
definition sample_edge :: edge where "sample_edge = edge_new 1 (replicate 60 97) 1 1 [([97], PropBytes (replicate 50 7))]"

lemma sample_facts:
  "node_ok sample_node" "edge_ok sample_edge" "nd_id sample_node = 1" "ed_id sample_edge = 1"
  "prop_bytes (nd_properties sample_node) sample_bytes" "prop_bytes (ed_properties sample_edge) sample_bytes"
  "room_for new_engine (nd_label sample_node) sample_bytes" "room_for new_engine (ed_label sample_edge) sample_bytes" "id_ok 1"
  "length sample_bytes > NODE_PROP_INLINE_MAX" "length (nd_label sample_node) > NODE_LABEL_INLINE_MAX"
proof -
  have bytes: "word_of_nat (length [97 :: byte]) = (1 :: byte)" "le32 (word_of_nat (length (replicate 50 (7 :: byte)))) = [50, 0, 0, 0]" by code_simp+
  show "prop_bytes (nd_properties sample_node) sample_bytes" "prop_bytes (ed_properties sample_edge) sample_bytes"
    using bytes by (simp_all add: prop_bytes_def sample_node_def sample_edge_def node_new_def edge_new_def sample_bytes_def TAG_BYTES_def)
  have "utf8_valid (replicate 60 97)" "utf8_valid [97]" by code_simp+
  then show "node_ok sample_node" "edge_ok sample_edge"
    by (simp_all add: node_ok_def edge_ok_def sample_node_def sample_edge_def node_new_def edge_new_def props_ok_def)
qed (simp_all add: sample_node_def sample_edge_def node_new_def edge_new_def room_for_def new_engine_def mem_count_new heap_new_def
  sample_bytes_def id_ok_def SLOTS_PER_PAGE_def NODE_PROP_INLINE_MAX_def NODE_LABEL_INLINE_MAX_def)

theorem store_updates_map_witness:
  "(\<exists>g'. store_node (\<lambda>_. 0) (memory_backend (\<lambda>_. 0)) sample_node new_engine = (Inr (), g') \<and>
      stored (\<lambda>_. 0) g' [1 \<mapsto> sample_node] {} Map.empty {}) \<and>
   (\<exists>g'. store_edge (\<lambda>_. 0) (memory_backend (\<lambda>_. 0)) sample_edge new_engine = (Inr (), g') \<and>
      stored (\<lambda>_. 0) g' Map.empty {} [1 \<mapsto> sample_edge] {})"
  using store_updates_map [OF new_engine_stored [of "\<lambda>_. 0"], of sample_node sample_bytes sample_edge] sample_facts by simp

section \<open>Loading\<close>

text \<open>C20 (functional). Loading is the lookup of the map: \<^verbatim>\<open>read_node\<close> and \<^verbatim>\<open>read_edge\<close> return a record exactly when it is the
  one stored under the id, with its whole label and all its properties.\<close>

theorem load_is_lookup:
  assumes "stored crc g N DN E DE" "id_ok i"
  shows "((\<exists>s'. load_node (memory_backend crc) i (en_storage g) = (Inr n, s')) \<longleftrightarrow> N i = Some n) \<and>
    ((\<exists>s'. load_edge (memory_backend crc) i (en_storage g) = (Inr e, s')) \<longleftrightarrow> E i = Some e)"
proof -
  let ?be = "memory_backend crc"
  obtain U Ov where s: "engine_rep ?be mem_store g U Ov" "table_rep (node_codec crc) ?be g U Ov N DN" "table_rep (edge_codec crc) ?be g U Ov E DE"
    using assms(1) unfolding stored_def by blast
  show ?thesis
    unfolding load_instances [where crc = crc]
    by (intro conjI ram_nodes.load_record_iff [OF s(1,2) assms(2)] ram_edges.load_record_iff [OF s(1,3) assms(2)])
qed

lemma sample_stored:
  obtains g where "store_node (\<lambda>_. 0) (memory_backend (\<lambda>_. 0)) sample_node new_engine = (Inr (), g)"
    "stored (\<lambda>_. 0) g [1 \<mapsto> sample_node] {} Map.empty {}"
  using node_stored [OF new_engine_stored [of "\<lambda>_. 0"] sample_facts(1) _ _ sample_facts(5,7)] sample_facts(3,9) that by auto

theorem load_is_lookup_witness:
  "\<exists>g. store_node (\<lambda>_. 0) (memory_backend (\<lambda>_. 0)) sample_node new_engine = (Inr (), g) \<and>
     (\<exists>s'. load_node (memory_backend (\<lambda>_. 0)) 1 (en_storage g) = (Inr sample_node, s')) \<and>
     \<not> (\<exists>s'. load_edge (memory_backend (\<lambda>_. 0)) 1 (en_storage g) = (Inr sample_edge, s'))"
proof -
  obtain g where g: "store_node (\<lambda>_. 0) (memory_backend (\<lambda>_. 0)) sample_node new_engine = (Inr (), g)"
    "stored (\<lambda>_. 0) g [1 \<mapsto> sample_node] {} Map.empty {}" using sample_stored .
  then show ?thesis using load_is_lookup [OF g(2) sample_facts(9), of sample_node sample_edge] by simp
qed

section \<open>Deleting\<close>

text \<open>C21 (refinement). Deleting a record removes it from the map and nothing else: \<^verbatim>\<open>tombstone_slot\<close>, with or without a log
  record, returns without error on a stored record.\<close>

theorem delete_removes_from_map:
  assumes "stored crc g N DN E DE"
  shows "(i \<in> dom N \<longrightarrow> (\<exists>g'. tombstone_slot_inner crc (memory_backend crc) i NODE_LAYOUT log_wal True g = (Inr (), g') \<and>
      stored crc g' (N(i := None)) (insert i DN) E DE)) \<and>
    (i \<in> dom E \<longrightarrow> (\<exists>g'. tombstone_slot_inner crc (memory_backend crc) i EDGE_LAYOUT log_wal True g = (Inr (), g') \<and>
      stored crc g' N DN (E(i := None)) (insert i DE)))"
proof (intro conjI impI)
  let ?be = "memory_backend crc"
  obtain U Ov where s: "engine_rep ?be mem_store g U Ov" "table_rep (node_codec crc) ?be g U Ov N DN" "table_rep (edge_codec crc) ?be g U Ov E DE"
    using assms unfolding stored_def by blast
  {
    assume "i \<in> dom N"
    then obtain n where "N i = Some n" by blast
    from ram_nodes.tombstone_record_total [OF s(1,2) this, of log_wal] obtain g' U' Ov'
      where t: "tombstone_record (node_codec crc) crc ?be i log_wal g = (Inr (), g')" "engine_rep ?be mem_store g' U' Ov'"
        "table_rep (node_codec crc) ?be g' U' Ov' (N(i := None)) (insert i DN)" "record_only (node_codec crc) ?be i g U Ov g' U' Ov'" by blast
    show "\<exists>g'. tombstone_slot_inner crc ?be i NODE_LAYOUT log_wal True g = (Inr (), g') \<and> stored crc g' (N(i := None)) (insert i DN) E DE"
      unfolding stored_def tombstone_instances using t edge_other [OF s(3) t(4)] by blast
  next
    assume "i \<in> dom E"
    then obtain e where "E i = Some e" by blast
    from ram_edges.tombstone_record_total [OF s(1,3) this, of log_wal] obtain g' U' Ov'
      where t: "tombstone_record (edge_codec crc) crc ?be i log_wal g = (Inr (), g')" "engine_rep ?be mem_store g' U' Ov'"
        "table_rep (edge_codec crc) ?be g' U' Ov' (E(i := None)) (insert i DE)" "record_only (edge_codec crc) ?be i g U Ov g' U' Ov'" by blast
    show "\<exists>g'. tombstone_slot_inner crc ?be i EDGE_LAYOUT log_wal True g = (Inr (), g') \<and> stored crc g' N DN (E(i := None)) (insert i DE)"
      unfolding stored_def tombstone_instances using t node_other [OF s(2) t(4)] by blast
  }
qed

theorem delete_removes_from_map_witness:
  "\<exists>g g'. stored (\<lambda>_. 0) g [1 \<mapsto> sample_node] {} Map.empty {} \<and>
     tombstone_slot_inner (\<lambda>_. 0) (memory_backend (\<lambda>_. 0)) 1 NODE_LAYOUT True True g = (Inr (), g') \<and>
     stored (\<lambda>_. 0) g' Map.empty {1} Map.empty {}"
proof -
  obtain g where g: "stored (\<lambda>_. 0) g [1 \<mapsto> sample_node] {} Map.empty {}" using sample_stored .
  then show ?thesis using delete_removes_from_map [OF g, of 1 True] by auto
qed

section \<open>No page is lost\<close>



section \<open>A deleted slot\<close>



section \<open>Projected reads\<close>

lemma decode_projected:
  assumes "decode_node_slot sl p rl rp = Inr (Some n)"
  shows "ks \<noteq> [] \<Longrightarrow> decode_node_slot_projected sl p rl rp ks = Inr (Some (n\<lparr>nd_properties := filter (\<lambda>(k, v). k \<in> set ks) (nd_properties n)\<rparr>))"
    "decode_node_slot_projected sl p rl rp' [] = Inr (Some (n\<lparr>nd_properties := []\<rparr>))"
proof -
  have proj: "decode_properties_projected d c ks p = Inr (filter (\<lambda>(k, v). k \<in> set ks) ps, m)" if "decode_properties d c p = Inr (ps, m)" for d c ps m
    using projected_loop [of d p "unat c" "[]" 0 ps m ks] that by (simp add: decode_properties_def decode_properties_projected_def)
  show "ks \<noteq> [] \<Longrightarrow> decode_node_slot_projected sl p rl rp ks = Inr (Some (n\<lparr>nd_properties := filter (\<lambda>(k, v). k \<in> set ks) (nd_properties n)\<rparr>))"
    using assms proj
    by (cases ks) (auto simp: decode_node_slot_def decode_node_slot_projected_def decode_node_slot_inner_def Let_def node_new_def split: if_splits)
  show "decode_node_slot_projected sl p rl rp' [] = Inr (Some (n\<lparr>nd_properties := []\<rparr>))"
    using assms by (auto simp: decode_node_slot_def decode_node_slot_projected_def decode_node_slot_inner_def Let_def node_new_def split: if_splits)
qed

lemma decode_label:
  assumes "decode_node_slot sl p rl rp = Inr (Some n)"
  shows "slot_needs_label_resolve sl \<Longrightarrow> rl (slot_label_overflow_ref sl) = Inr (nd_label n)"
    "\<not> slot_needs_label_resolve sl \<Longrightarrow> slot_inline_label sl p = Inr (nd_label n)"
  using assms
  by (auto simp: decode_node_slot_def decode_node_slot_inner_def Let_def node_new_def slot_needs_label_resolve_def slot_label_overflow_ref_def
      slot_inline_label_def split: if_splits)

text \<open>C23 (equivalence). A projected read and a label read agree with the full read, on any backend and whatever the pages hold:
  when \<^verbatim>\<open>read_node\<close> returns a node, \<^verbatim>\<open>read_node_projected\<close> returns it with the requested properties only, and
  \<^verbatim>\<open>read_node_label\<close> returns its label.\<close>

theorem projected_read_agrees:
  assumes "load_node be i s = (Inr n, s')"
  shows "(\<exists>s''. load_node_projected be i ks s = (Inr (n\<lparr>nd_properties := filter (\<lambda>(k, v). k \<in> set ks) (nd_properties n)\<rparr>), s'')) \<and>
    (\<exists>s''. load_node_label be i s = (Inr (nd_label n), s''))"
proof -
  obtain page s1 where rd: "be_read be Nodes (slot_page i) s = (Inr page, s1)" using assms by (auto simp: load_node_def sbind_eq_Inr)
  have rdb: "sbind (be_read be Nodes (slot_page i)) f s = f page s1" for f :: "bytes \<Rightarrow> ('a, storage_error, 'b) step"
    using rd by (simp add: sbind_def)
  define sl where "sl = page_slot NODE_SLOT_SIZE (slot_index i) page"
  let ?label = "if slot_needs_label_resolve sl then sbind (heap_resolve be (slot_label_overflow_ref sl)) (\<lambda>l. sret (Some l)) else sret None"
  let ?props = "if slot_needs_prop_resolve sl
      then sbind (read_overflowed_props be (i, NodeKind) (slot_prop_overflow_ref sl)) (\<lambda>b. sret (Some b)) else sret None"
  let ?rl = "resolved (CorruptPage Nodes (slot_page i) ''label resolver called but label was not pre-resolved'')"
  let ?rp = "resolved (CorruptPage Nodes (slot_page i) ''props resolver called but props were not pre-resolved'')"
  have "sbind ?label (\<lambda>l. sbind ?props (\<lambda>b. sbind (sread (\<lambda>_. decode_node_slot sl (slot_page i) (?rl l) (?rp b)))
      (\<lambda>m. case m of None \<Rightarrow> sfail (NodeMissing i) | Some m \<Rightarrow> sret m))) s1 = (Inr n, s')"
    using assms unfolding load_node_def rdb Let_def sl_def .
  then obtain l s2 b s3 m s4 where st: "?label s1 = (Inr l, s2)" "?props s2 = (Inr b, s3)"
      "sread (\<lambda>_. decode_node_slot sl (slot_page i) (?rl l) (?rp b)) s3 = (Inr m, s4)"
      "(case m of None \<Rightarrow> sfail (NodeMissing i) | Some m \<Rightarrow> sret m) s4 = (Inr n, s')"
    unfolding sbind_eq_Inr by (elim exE conjE) (rule that)
  have dec: "decode_node_slot sl (slot_page i) (?rl l) (?rp b) = Inr (Some n)"
    using st(3,4) by (auto simp: sread_def sfail_def sret_def split: option.splits)
  have "\<exists>s''. load_node_projected be i ks s = (Inr (n\<lparr>nd_properties := filter (\<lambda>(k, v). k \<in> set ks) (nd_properties n)\<rparr>), s'')"
  proof (cases "ks = []")
    case True
    then have "load_node_projected be i ks s = (Inr (n\<lparr>nd_properties := []\<rparr>), s2)"
      unfolding load_node_projected_def Let_def rdb sl_def [symmetric] using decode_projected(2) [OF dec, of "?rp None"] st(1)
      by (simp add: sbind_def del: if_split)
    then show ?thesis using True by simp
  next
    case False
    then show ?thesis
      unfolding load_node_projected_def Let_def rdb sl_def [symmetric] using decode_projected(1) [OF dec False] st(1,2)
      by (simp add: sbind_def del: if_split)
  qed
  moreover have "\<exists>s''. load_node_label be i s = (Inr (nd_label n), s'')"
    unfolding load_node_label_def Let_def rdb sl_def [symmetric] using decode_label [OF dec] st(1)
    by (cases "slot_needs_label_resolve sl") (auto simp: sbind_eq_Inr resolved_def)
  ultimately show ?thesis by blast
qed

text \<open>The sample node, read back.\<close>

lemma sample_loaded:
  obtains g s' where "store_node (\<lambda>_. 0) (memory_backend (\<lambda>_. 0)) sample_node new_engine = (Inr (), g)"
    "load_node (memory_backend (\<lambda>_. 0)) 1 (en_storage g) = (Inr sample_node, s')"
proof -
  obtain g where g: "store_node (\<lambda>_. 0) (memory_backend (\<lambda>_. 0)) sample_node new_engine = (Inr (), g)"
    "stored (\<lambda>_. 0) g [1 \<mapsto> sample_node] {} Map.empty {}" using sample_stored .
  then obtain U Ov where s: "engine_rep (memory_backend (\<lambda>_. 0)) mem_store g U Ov"
      "table_rep (node_codec (\<lambda>_. 0)) (memory_backend (\<lambda>_. 0)) g U Ov [1 \<mapsto> sample_node] {}" unfolding stored_def by blast
  have "\<exists>s'. load_node (memory_backend (\<lambda>_. 0)) 1 (en_storage g) = (Inr sample_node, s')"
    unfolding load_instances [where crc = "\<lambda>_. 0"] ram_nodes.load_record_iff [OF s sample_facts(9)] by simp
  then show thesis using g(1) that by blast
qed

theorem projected_read_agrees_witness:
  "\<exists>g s'. store_node (\<lambda>_. 0) (memory_backend (\<lambda>_. 0)) sample_node new_engine = (Inr (), g) \<and>
     load_node_projected (memory_backend (\<lambda>_. 0)) 1 [] (en_storage g) = (Inr (node_new 1 (replicate 60 97) []), s') \<and>
     (\<exists>s'. load_node_label (memory_backend (\<lambda>_. 0)) 1 (en_storage g) = (Inr (replicate 60 97), s'))"
proof -
  obtain g s' where g: "store_node (\<lambda>_. 0) (memory_backend (\<lambda>_. 0)) sample_node new_engine = (Inr (), g)"
    "load_node (memory_backend (\<lambda>_. 0)) 1 (en_storage g) = (Inr sample_node, s')" using sample_loaded .
  then show ?thesis using projected_read_agrees [OF g(2), of "[]"] by (simp add: sample_node_def node_new_def)
qed

section \<open>Overflow pages, the string heap and slab pages\<close>

text \<open>C25 (roundtrip). A blob of any size goes through overflow pages and leaves none behind: with room in the overflow file,
  \<^verbatim>\<open>write_overflow\<close> returns a first page that \<^verbatim>\<open>read_overflow\<close> turns back into the blob, no page that was live before
  is changed, and \<^verbatim>\<open>free_overflow_chain\<close> then gives back exactly the pages that were taken.\<close>

theorem overflow_chain_roundtrip:
  assumes "mem_live s U" "unat (mem_page_count s Overflow) + length blob + 2 < 2 ^ 32"
  shows "\<exists>p s1 s2 s3 U1. write_overflow crc (memory_backend crc) blob s = (Inr p, s1) \<and> mem_live s1 U1 \<and> U \<subseteq>\<^sub>m U1 \<and> (Overflow, p) \<notin> dom U \<and>
    read_overflow (memory_backend crc) p s1 = (Inr blob, s2) \<and> free_overflow_chain (memory_backend crc) p s2 = (Inr (), s3) \<and> mem_live s3 U"
proof -
  let ?be = "memory_backend crc"
  have room: "unat (be_count ?be s Overflow) + length blob + 2 < 2 ^ 32" using assms(2) by simp
  obtain p s1 where w: "write_overflow crc ?be blob s = (Inr p, s1)" using mem.write_overflow_total [OF assms(1) room] by blast
  obtain ps U1 where c: "mem_live s1 U1" "overflow_chain U1 p blob ps" "dom U1 = dom U \<union> {Overflow} \<times> set ps"
      "\<forall>q\<in>set ps. (Overflow, q) \<notin> dom U" "\<forall>k. k \<notin> {Overflow} \<times> set ps \<longrightarrow> U1 k = U k"
    using mem.write_overflow_spec [OF w assms(1) room] by blast
  obtain s2 where r: "read_overflow ?be p s1 = (Inr blob, s2)" "mem_live s2 U1" using mem.read_overflow_total [OF c(2,1)] by blast
  obtain s3 where f: "free_overflow_chain ?be p s2 = (Inr (), s3)" "mem_live s3 (U1 |` (- ({Overflow} \<times> set ps)))"
    using mem.free_overflow_total [OF c(2) r(2)] by blast
  have "U1 |` (- ({Overflow} \<times> set ps)) = U"
  proof
    show "(U1 |` (- ({Overflow} \<times> set ps))) k = U k" for k
      using c(4) c(5) [rule_format, of k] by (cases "k \<in> {Overflow} \<times> set ps") (auto simp: dom_def)
  qed
  moreover have "U \<subseteq>\<^sub>m U1" unfolding map_le_def
  proof
    show "U k = U1 k" if "k \<in> dom U" for k using that c(4) c(5) [rule_format, of k] by (cases "k \<in> {Overflow} \<times> set ps") auto
  qed
  moreover have "p \<in> set ps" using c(2) by (auto simp: overflow_chain_def)
  ultimately show ?thesis using w c(1,4) r(1) f by (intro exI [of _ p] exI [of _ s1] exI [of _ s2] exI [of _ s3] exI [of _ U1]) simp
qed

theorem overflow_chain_roundtrip_witness:
  "\<exists>p s1 s2 s3. write_overflow (\<lambda>_. 0) (memory_backend (\<lambda>_. 0)) (replicate 9000 7) mem_new = (Inr p, s1) \<and>
    read_overflow (memory_backend (\<lambda>_. 0)) p s1 = (Inr (replicate 9000 7), s2) \<and>
    free_overflow_chain (memory_backend (\<lambda>_. 0)) p s2 = (Inr (), s3) \<and> mem_live s3 Map.empty"
proof -
  have "unat (mem_page_count mem_new Overflow) + length (replicate 9000 (7 :: byte)) + 2 < 2 ^ 32" by (simp add: mem_count_new)
  from overflow_chain_roundtrip [OF new_stores_live(1) this, of "\<lambda>_. 0"] show ?thesis by blast
qed

lemma append_known:
  assumes "heap_append crc be v (h, s) = (Inr r, (h', s'))"
  shows "sh_dedup h' v = Some r"
  using assms by (auto simp: heap_append_def Let_def split: option.splits if_splits prod.splits sum.splits)

lemma append_offset:
  assumes "heap_append crc (memory_backend crc) v (h, s) = (Inr r, (h', s'))" "mem_live s U" "strings_dense (memory_backend crc) s U"
    and "unat (sh_write_offset h) + 4 + length v < 2 ^ 32"
  shows "unat (sh_write_offset h') \<le> unat (sh_write_offset h) + 4 + length v"
proof (cases "sh_dedup h v")
  case None
  let ?w = "le32 (word_of_nat (length v)) @ v"
  obtain e where e: "write_heap crc (memory_backend crc) (unat (sh_write_offset h)) ?w s = (Inr e, s')" "sh_write_offset h' = word_of_nat e"
    using assms(1) None by (auto simp: heap_append_def Let_def split: if_splits prod.splits sum.splits)
  have "e = unat (sh_write_offset h) + length ?w" using mem.write_heap_spec [OF e(1) assms(2,3)] assms(4) by simp
  moreover from this have "e < 2 ^ 32" using assms(4) by simp
  ultimately show ?thesis unfolding e(2) by (simp add: unat_of_nat del: of_nat_add)
qed (use assms(1) in \<open>simp add: heap_append_def\<close>)

text \<open>C26 (roundtrip). The string heap keeps what it is given: after two appends both references resolve to their strings, so a later
  append does not disturb an earlier entry, and appending a string again returns the reference it already has and writes nothing.\<close>

theorem string_heap_roundtrip:
  assumes "mem_live s U" "strings_dense (memory_backend crc) s U" "heap_ok h (heap_bytes (memory_backend crc) s U)"
    and "utf8_valid v" "utf8_valid w" "unat (sh_write_offset h) + length v + length w + 8 < 2 ^ 32"
  shows "\<exists>r h1 s1 q h2 s2. heap_append crc (memory_backend crc) v (h, s) = (Inr r, (h1, s1)) \<and>
    heap_append crc (memory_backend crc) w (h1, s1) = (Inr q, (h2, s2)) \<and>
    (\<exists>s3. heap_resolve (memory_backend crc) r s2 = (Inr v, s3)) \<and> (\<exists>s3. heap_resolve (memory_backend crc) q s2 = (Inr w, s3)) \<and>
    (v = w \<longrightarrow> q = r \<and> h2 = h1 \<and> s2 = s1)"
proof -
  let ?be = "memory_backend crc"
  have room: "unat (sh_write_offset h) + 4 + length v < 2 ^ 32" using assms(6) by simp
  obtain r h1 s1 where a: "heap_append crc ?be v (h, s) = (Inr r, (h1, s1))" using mem.append_total [OF assms(1-3) room] by blast
  obtain U1 where u: "mem_live s1 U1" "strings_dense ?be s1 U1" "heap_ok h1 (heap_bytes ?be s1 U1)" "entry_at (heap_bytes ?be s1 U1) (unat r) v"
      "unat r + 4 + length v \<le> unat (sh_write_offset h1)"
    using mem.append_spec [OF a assms(1-3)] by blast
  have known: "sh_dedup h1 v = Some r" and off: "unat (sh_write_offset h1) \<le> unat (sh_write_offset h) + 4 + length v"
    using append_known [OF a] append_offset [OF a assms(1,2) room] by blast+
  have room1: "unat (sh_write_offset h1) + 4 + length w < 2 ^ 32" using off assms(6) by simp
  obtain q h2 s2 where b: "heap_append crc ?be w (h1, s1) = (Inr q, (h2, s2))" using mem.append_total [OF u(1-3) room1] by blast
  obtain U2 where t: "mem_live s2 U2" "strings_dense ?be s2 U2" "entry_at (heap_bytes ?be s2 U2) (unat q) w" "entry_at (heap_bytes ?be s2 U2) (unat r) v"
    using mem.append_spec [OF b u(1-3)] u(4,5) by blast
  have "v = w \<longrightarrow> q = r \<and> h2 = h1 \<and> s2 = s1" using b known by (auto simp: heap_append_def)
  then show ?thesis using a b mem.resolve_total [OF t(1,2,4) assms(4)] mem.resolve_total [OF t(1-3) assms(5)] by blast
qed

theorem string_heap_roundtrip_witness:
  "\<exists>r h1 s1 q h2 s2. heap_append (\<lambda>_. 0) (memory_backend (\<lambda>_. 0)) [104, 105] (heap_new, mem_new) = (Inr r, (h1, s1)) \<and>
    heap_append (\<lambda>_. 0) (memory_backend (\<lambda>_. 0)) [104] (h1, s1) = (Inr q, (h2, s2)) \<and>
    (\<exists>s3. heap_resolve (memory_backend (\<lambda>_. 0)) r s2 = (Inr [104, 105], s3)) \<and> (\<exists>s3. heap_resolve (memory_backend (\<lambda>_. 0)) q s2 = (Inr [104], s3))"
proof -
  have ok: "strings_dense (memory_backend (\<lambda>_. 0)) mem_new Map.empty" "heap_ok heap_new (heap_bytes (memory_backend (\<lambda>_. 0)) mem_new Map.empty)"
    using empty_file_dense [of "\<lambda>_. 0" Strings] heap_new_ok by (simp_all add: new_engine_def mem_count_new string_bytes_def)
  have u: "utf8_valid [104, 105]" "utf8_valid [104]" by code_simp+
  have "unat (sh_write_offset heap_new) + length [104 :: byte, 105] + length [104 :: byte] + 8 < 2 ^ 32" by (simp add: heap_new_def)
  from string_heap_roundtrip [OF new_stores_live(1) ok u this] show ?thesis by blast
qed

text \<open>C24 (refinement). A slab page is a map from entities to blobs: \<^verbatim>\<open>read_blob\<close> looks the entity up; \<^verbatim>\<open>write_blob\<close>
  stores or replaces its blob and touches nothing else, or reports \<^verbatim>\<open>RecordTooLarge\<close> and changes nothing, and that only when
  \<^verbatim>\<open>has_room_for\<close> says there is no room; \<^verbatim>\<open>free_blob\<close> removes the blob and reports whether another one is left on the
  page.\<close>

theorem slab_page_is_map:
  assumes "mem_live s U" "U (Overflow, p) = Some page" "slab_holds page M" "eid < 2 ^ 64"
  shows "(\<exists>s'. read_blob (memory_backend crc) p eid kind s = (Inr (M (eid, kind)), s') \<and> mem_live s' U) \<and>
    ((\<exists>s' page'. write_blob crc (memory_backend crc) p eid kind b s = (Inr (), s') \<and> mem_live s' (U((Overflow, p) \<mapsto> page')) \<and>
        slab_holds page' (M((eid, kind) \<mapsto> b))) \<or>
     \<not> has_room_for (drop PAGE_HEADER_SIZE page) (length b) \<and>
       (\<exists>s'. write_blob crc (memory_backend crc) p eid kind b s = (Inl (RecordTooLarge (length b)), s') \<and> mem_live s' U)) \<and>
    (\<exists>s' page'. free_blob crc (memory_backend crc) p eid kind s = (Inr (\<exists>k. k \<noteq> (eid, kind) \<and> M k \<noteq> None), s') \<and>
       mem_live s' (U((Overflow, p) \<mapsto> page')) \<and> slab_holds page' (M((eid, kind) := None)))"
    (is "?read \<and> (?stored \<or> ?refused) \<and> ?freed")
proof (intro conjI)
  show ?read using mem.read_blob_total [OF assms(1-3)] by blast
  show "?stored \<or> ?refused" using mem.write_blob_total [OF assms] mem.write_blob_spec [OF _ assms] by blast
  obtain v s' where "free_blob crc (memory_backend crc) p eid kind s = (Inr v, s')" using mem.free_blob_total [OF assms(1-3)] by blast
  then show ?freed using mem.free_blob_spec [OF _ assms(1-3)] by blast
qed

lemma empty_slab_room:
  assumes "slab_holds page Map.empty" "n + 18 \<le> 4080"
  shows "has_room_for (drop PAGE_HEADER_SIZE page) n"
proof -
  obtain es where es: "slab_rep (drop PAGE_HEADER_SIZE page) es" "known_kinds es" "Map.empty = (\<lambda>(eid, kind). slab_lookup es eid kind)"
    using assms(1) unfolding slab_holds_def by blast
  have none: "slab_lookup es eid kind = None" for eid kind using fun_cong [OF es(3), of "(eid, kind)"] by simp
  then have "\<not> (\<exists>e\<in>set es. live_entry e)" using live_others [OF es(2), of 0 NodeKind] slab_lookup_None [of es 0 NodeKind] by auto
  then have "filter live_entry es = []" by (simp add: filter_empty_conv)
  then have "free_space_after_compaction (drop PAGE_HEADER_SIZE page) = 4078" using free_space_compacted [OF es(1)] by (simp add: blob_total_def)
  then show ?thesis using assms(2) by (simp add: has_room_for_def slab_consts)
qed

theorem slab_page_is_map_witness:
  "\<exists>s U page s' page'. mem_live s U \<and> U (Overflow, 0) = Some page \<and> slab_holds page Map.empty \<and>
     write_blob (\<lambda>_. 0) (memory_backend (\<lambda>_. 0)) 0 7 NodeKind [1, 2] s = (Inr (), s') \<and> mem_live s' (U((Overflow, 0) \<mapsto> page')) \<and>
     slab_holds page' [(7, NodeKind) \<mapsto> [1, 2]]"
proof -
  let ?be = "memory_backend (\<lambda>_. 0)" and ?buf = "slab_page_buf (\<lambda>_. 0) new_page_buf"
  obtain p s1 where a: "be_allocate ?be Overflow mem_new = (Inr p, s1)" using mem.allocate_total [OF new_stores_live(1)] by blast
  have c: "be_count ?be mem_new Overflow = 0" by (simp add: mem_count_new)
  have l: "mem_live s1 [(Overflow, p) \<mapsto> new_page_buf]" using mem.allocate_law(1) [OF a new_stores_live(1)] c by simp
  have "p < be_count ?be s1 Overflow" using mem.live_counted [OF l, of Overflow p] by simp
  moreover have "be_count ?be s1 Overflow = 0 \<or> be_count ?be s1 Overflow = 1" using mem.allocate_law(1) [OF a new_stores_live(1)] c by simp
  ultimately have p: "p = 0" by (auto simp: word_less_nat_alt unat_eq_zero)
  obtain s where i: "init_page (\<lambda>_. 0) ?be 0 s1 = (Inr (), s)" using mem.init_page_total [OF l [unfolded p], of 0] by auto
  then obtain page where s: "mem_live s [(Overflow, 0) \<mapsto> page]" "slab_holds page Map.empty"
    using mem.init_page_spec [OF i l [unfolded p]] by auto
  then obtain s' page' where "write_blob (\<lambda>_. 0) ?be 0 7 NodeKind [1, 2] s = (Inr (), s')"
      "mem_live s' ([(Overflow, 0) \<mapsto> page, (Overflow, 0) \<mapsto> page'])" "slab_holds page' [(7, NodeKind) \<mapsto> [1, 2]]"
    using slab_page_is_map [OF s(1) _ s(2), of 0 7 "\<lambda>_. 0" NodeKind "[1, 2]"] empty_slab_room [OF s(2), of "length [1 :: byte, 2]"] by auto
  moreover have "[(Overflow, 0) \<mapsto> page] (Overflow, 0) = Some page" by simp
  ultimately show ?thesis using s by blast
qed

end
