(* ===== verification/Spec2Isabelle.thy ===== *)
theory Spec2Isabelle
  imports Graph_Durability Graph_Findings Storage_Backend Bolt Query_Reach Store_Theorems
begin

text \<open>
  \<^bold>\<open>A verification development for the Ermya graph database.\<close>

  The program under \<^verbatim>\<open>src/crates\<close> is a property-graph database. \<^verbatim>\<open>ermya-graph\<close> is the engine: nodes and edges with
  properties, multi-version transactions, indexes, a page store with a write-ahead log, and query builders.
  \<^verbatim>\<open>ermya-graph-protocol\<close> is the Bolt wire protocol over PackStream. \<^verbatim>\<open>ermya-graph-server\<close>, \<^verbatim>\<open>-cli\<close>,
  \<^verbatim>\<open>-cypher\<close>, \<^verbatim>\<open>-config\<close> and \<^verbatim>\<open>-python\<close> are the programs and bindings around them. A request reaches the
  server as a Bolt message, is compiled to calls on \<^verbatim>\<open>Graph\<close>, which keeps uncommitted versions in the delta table, logs a commit,
  and lets the vacuum write committed versions to page slots; a page travels through the buffer pool of the file backend to a data file.

  \<^bold>\<open>Conventions.\<close> A Rust \<^verbatim>\<open>Result\<close> is a sum with the error on the left; a method that changes its receiver is a \<open>step\<close>,
  a function from a state to a result and a state, sequenced by \<open>sbind\<close>. \<^verbatim>\<open>u8\<close>, \<^verbatim>\<open>u16\<close>, \<^verbatim>\<open>u32\<close> on pages are
  words of that width; counters and ids that the code only compares and increments are naturals, with the wrap-around of \<^verbatim>\<open>u64\<close>
  written out where the code can reach it. Strings are their UTF-8 bytes, floats their bit patterns. A \<^verbatim>\<open>HashMap\<close> is an association
  list where its iteration order shows in a result, a partial map elsewhere. Locks are not modelled: a call is one atomic step, and
  interleavings are sequences of calls. The CRC-32 of the crate \<^verbatim>\<open>crc32fast\<close> is a parameter \<open>crc\<close> of every definition that
  uses it; no theorem assumes more of it than its type, except that the integrity theorems speak of payloads whose checksums differ.
  Storage failures are values: the state carries a script of pending faults, or a write reports an error. A loop that need not end is a
  \<open>partial_function\<close> whose value \<open>None\<close> becomes the result \<open>Diverges\<close>, and the theorems show that it returns on the states
  they speak of; a slice that would panic gives the same result. All other loops are recursive functions with a termination proof. No
  theorem bounds the length of a run, the number of records or the size of a graph; bounds that occur are the code's own (page ids and
  heap offsets of 32 bits, sizes of a slot, of a page and of a message).

  \<^bold>\<open>Shared vocabulary.\<close> \<open>Ermya_Prelude\<close> holds the types, results and steps, fixed-width encodings, UTF-8 validity, and
  the collections of facts the other theories use. \<open>Entities\<close> is the data model (\<^verbatim>\<open>property.rs\<close>, \<^verbatim>\<open>node.rs\<close>,
  \<^verbatim>\<open>edge.rs\<close>, the estimates of \<^verbatim>\<open>graph.rs\<close>).

  \<^bold>\<open>Transactions\<close> (\<^verbatim>\<open>mvcc/*.rs\<close>, \<^verbatim>\<open>graph.rs\<close>, \<^verbatim>\<open>index/mod.rs\<close>, \<^verbatim>\<open>schema/mod.rs\<close>).
  \<^item> \<open>Mvcc_Delta\<close>, \<open>Mvcc_Table\<close>, \<open>Mvcc_Registry\<close>: clock, deltas, version chains and visibility; the sharded
    delta table; the registry of active transactions. A locale states what a table of chains promises and is interpreted on the sharded
    table, so the transaction proofs do not see shards.
  \<^item> \<open>Index\<close>, \<open>Schema\<close>: label and property indexes (the hash side and the ordered side stay in lockstep), declared indexes,
    unique constraints, append-only labels.
  \<^item> \<open>Graph_State\<close>: the state of \<^verbatim>\<open>Graph\<close> and its slot, adjacency, logging and index operations. Pages are seen through
    their decoded slots and edge lists. \<open>Graph_Txn\<close>: begin, the \<^verbatim>\<open>*_in_txn\<close> operations, commit, rollback, vacuum.
    \<open>Graph_Auto\<close>: auto-commit operations, batches, index queries.
  \<^item> \<open>Graph_Frame\<close>, \<open>Graph_Snapshot\<close>, \<open>Graph_Vacuum\<close>, \<open>Graph_Isolation\<close>, \<open>Graph_Runs\<close>: frame
    lemmas, the transaction invariant, what a reader resolves, and the step relation over the public operations with its reachable
    states. \<open>Graph_Theorems\<close> has the properties: snapshot isolation along any run, the invariant of reachable states, reading one's
    own writes, what commit, a failed commit, rollback, the memory cap and the vacuum do. \<open>Graph_Findings\<close> has three runs in which
    the engine departs from what it promises.

  \<^bold>\<open>Log and recovery\<close> (\<^verbatim>\<open>wal/*.rs\<close>, \<^verbatim>\<open>storage/file.rs\<close>). \<open>Wal_Record\<close>: the twelve record kinds
  byte for byte, the resynchronising reader, the writer. \<open>Wal_Recovery\<close>: which records are replayed and how; recovery is atomic per
  transaction, can be interrupted and repeated, and the last durable write wins. \<open>Graph_Durability\<close> joins the log entries of the
  transaction engine to records on pages and shows that a commit that returned survives a crash, and a case in which one that was rolled
  back is replayed.

  \<^bold>\<open>Page store\<close> (\<^verbatim>\<open>storage/*.rs\<close>).
  \<^item> \<open>Storage_Page\<close>, \<open>Storage_Meta\<close>: page header and checksum, the metadata page. \<open>Free_List\<close>: free-page
    directories over the locale \<open>free_list_store\<close>.
  \<^item> \<open>Buffer_Pool\<close>, \<open>Pool_Pages\<close>: the page cache with its intrusive list, eviction and write-back; it answers as a plain map
    of pages does, eviction ends and takes the least recently used page.
  \<^item> \<open>Storage_Backend\<close>: both backends; they give the same answers to any sequence of operations, allocation never hands out a page in
    use, a checkpoint that returns is complete. \<open>Page_Store\<close> states the \<^verbatim>\<open>StorageBackend\<close> interface as the locales
    \<open>page_backend\<close> (what calls that succeed do to the map of live pages), \<open>reliable_backend\<close> (and they succeed) and
    \<open>ranged_backend\<close>, interpreted on the memory backend, and the first also on the file backend with its faults.

  \<^bold>\<open>Records on pages\<close> (\<^verbatim>\<open>storage/codec/*.rs\<close>, the slot operations of \<^verbatim>\<open>graph.rs\<close>).
  \<^item> \<open>Record_Codec\<close>: property maps and the 128-byte node and edge slots. \<open>Overflow_Chain\<close>, \<open>String_Heap\<close>,
    \<open>Prop_Slab\<close>: the three places for what does not fit a slot, each proved in the locales above.
  \<^item> \<open>Prop_Store\<close>, \<open>Slot_Store\<close>: the engine's choice between them, and the path of a record to and from its slot.
    \<open>Record_Store\<close> does this once for both kinds of record, in the locale \<open>record_store\<close>, interpreted on nodes and on edges.
  \<^item> \<open>Store_Theorems\<close>: the store refines two maps from ids to records under store, load and delete; overflow pages do not leak;
    projected reads agree with full reads.

  \<^bold>\<open>Queries\<close> (\<^verbatim>\<open>query/*.rs\<close>). \<open>Query_Search\<close>: neighbour, traversal, shortest-path and subgraph builders over the
  \<^verbatim>\<open>GraphAccess\<close> reads, a record. \<open>Query_Reach\<close>: the searches end; breadth-first results come by distance with shortest
  paths; the shortest path is one; a depth-limited depth-first traversal can miss a node.

  \<^bold>\<open>Wire protocol\<close> (\<^verbatim>\<open>ermya-graph-protocol\<close>). \<open>Packstream\<close>: encoder and decoder are inverse and the decoder is
  safe on any bytes. \<open>Bolt\<close>: framing, handshake and messages; requests written by a client are the ones the server decodes.

  \<^bold>\<open>Not modelled.\<close> The GQL lexer, parser and compiler and the Cypher rewriter: a language front end whose meaning is only given
  by its own code. The pattern matcher takes closures and the weighted search compares floats. The layouts of adjacency, index and schema
  files; the adjacency caches, which hold hints; backup, the server with its connection tasks, authentication, audit log, metrics and
  rate limits, the command line, the configuration and the Python bindings: input and output, timers and threads around the engine.
\<close>

end
